(* ===== verification/Go_Prelude.thy ===== *)
theory Go_Prelude
  imports Main "HOL-Library.Word"
begin

text \<open>
  Shared vocabulary of the development: Go's machine integers and slices, the chunking of a byte
  sequence, and the two interfaces that several components implement (a transition system with an
  invariant, and an object with an idempotent \<open>Close\<close>).

  A Go \<open>int64\<close> (and \<open>int\<close>, on the 64-bit targets the package builds for) is an \<^typ>\<open>int\<close> with the
  two's complement wrap-around written out by \<open>wrap64\<close>; Go's division and remainder truncate
  towards zero. A \<open>[]byte\<close> is a list of 8-bit words.
\<close>

named_theorems golib_laws \<open>what the third-party golib packages promise, unfolded\<close>
named_theorems lzma_laws \<open>what liblzma promises, unfolded\<close>
named_theorems pool_defs \<open>definitions of the pipe pool operations\<close>

section \<open>Machine integers\<close>

type_synonym byte = "8 word"
type_synonym bytes = "byte list"

definition wrap64 :: "int \<Rightarrow> int" where
  "wrap64 x = (x + 2 ^ 63) mod 2 ^ 64 - 2 ^ 63"

definition in64 :: "int \<Rightarrow> bool" where
  "in64 x \<longleftrightarrow> - (2 ^ 63) \<le> x \<and> x < 2 ^ 63"

definition go_quot :: "int \<Rightarrow> int \<Rightarrow> int" where
  "go_quot a b = sgn a * sgn b * (\<bar>a\<bar> div \<bar>b\<bar>)"

definition go_rem :: "int \<Rightarrow> int \<Rightarrow> int" where
  "go_rem a b = sgn a * (\<bar>a\<bar> mod \<bar>b\<bar>)"

text \<open>The conversion of a \<open>uint64\<close> to an \<open>int64\<close> and back keeps the bit pattern.\<close>

definition to_i64 :: "64 word \<Rightarrow> int" where
  "to_i64 w = sint w"

definition of_i64 :: "int \<Rightarrow> 64 word" where
  "of_i64 x = word_of_int x"

lemma wrap64_id: "in64 x \<Longrightarrow> wrap64 x = x"
  by (simp add: in64_def wrap64_def)

lemma in64_wrap64 [simp]: "in64 (wrap64 x)"
proof -
  have "0 \<le> (x + 2 ^ 63) mod 2 ^ 64" and "(x + 2 ^ 63) mod 2 ^ 64 < (2 ^ 64 :: int)"
    by simp_all
  then show ?thesis unfolding in64_def wrap64_def by simp
qed

lemma go_quot_nonneg: "0 \<le> a \<Longrightarrow> 0 < b \<Longrightarrow> go_quot a b = a div b"
  by (cases "a = 0") (auto simp: go_quot_def)

lemma go_rem_nonneg: "0 \<le> a \<Longrightarrow> 0 < b \<Longrightarrow> go_rem a b = a mod b"
  by (cases "a = 0") (auto simp: go_rem_def)

lemma of_i64_to_i64 [simp]: "of_i64 (to_i64 w) = w"
  by (simp add: of_i64_def to_i64_def)

lemma to_i64_of_i64: "in64 x \<Longrightarrow> to_i64 (of_i64 x) = x"
  by (simp add: to_i64_def of_i64_def in64_def sint_sbintrunc' signed_take_bit_int_eq_self)

lemma in64_to_i64 [simp]: "in64 (to_i64 w)"
  using sint_range_size [of w] by (simp add: in64_def to_i64_def word_size)

lemma uint_of_unat: "unat w = n \<Longrightarrow> uint w = int n"
  by auto

section \<open>Slices\<close>

text \<open>
  \<open>copy(dst[i:], src)\<close> stores as many bytes of the source as fit; \<open>overwrite\<close> is the memory it
  leaves.
\<close>

definition overwrite :: "'a list \<Rightarrow> nat \<Rightarrow> 'a list \<Rightarrow> 'a list" where
  "overwrite xs i bs = take i xs @ take (length xs - i) bs @ drop (i + length bs) xs"

lemma length_overwrite [simp]: "i \<le> length xs \<Longrightarrow> length (overwrite xs i bs) = length xs"
  by (auto simp: overwrite_def)

lemma overwrite_append:
  assumes "length pre = i" and "length bs \<le> length post"
  shows "overwrite (pre @ post) i bs = pre @ bs @ drop (length bs) post"
  using assms by (auto simp: overwrite_def)

lemma list_update_overwrite: "i < length xs \<Longrightarrow> xs[i := x] = overwrite xs i [x]"
  by (simp add: overwrite_def upd_conv_take_nth_drop take_Cons')

lemma overwrite_0 [simp]: "length bs = length xs \<Longrightarrow> overwrite xs 0 bs = bs"
  by (simp add: overwrite_def)

section \<open>Byte order\<close>

definition be16 :: "16 word \<Rightarrow> bytes" where
  "be16 w = [ucast (drop_bit 8 w), ucast w]"

definition le_bytes :: "nat \<Rightarrow> 'a::len word \<Rightarrow> bytes" where
  "le_bytes n w = map (\<lambda>i. ucast (drop_bit (8 * i) w)) [0..<n]"

definition from_be16 :: "byte \<Rightarrow> byte \<Rightarrow> nat" where
  "from_be16 h l = unat h * 256 + unat l"

lemma length_be16 [simp]: "length (be16 w) = 2"
  by (simp add: be16_def)

lemma length_le_bytes [simp]: "length (le_bytes n w) = n"
  by (simp add: le_bytes_def)

lemma from_be16_be16:
  "from_be16 (ucast (drop_bit 8 (w :: 16 word))) (ucast w) = unat w"
proof -
  have "unat (ucast (drop_bit 8 w) :: byte) = unat w div 256"
  proof -
    have "unat w < 2 ^ 16" using unsigned_less [of w] by simp
    then have "unat w div 256 < 256" by simp
    then show ?thesis by (simp add: unsigned_ucast_eq take_bit_nat_eq_self take_bit_nat_def unat_drop_bit_eq drop_bit_nat_def)
  qed
  moreover have "unat (ucast w :: byte) = unat w mod 256"
    by (simp add: unsigned_ucast_eq take_bit_nat_eq_self take_bit_nat_def)
  ultimately show ?thesis by (simp add: from_be16_def)
qed

section \<open>Chunking\<close>

text \<open>
  \<open>chunks n xs\<close> cuts a sequence into pieces of \<open>n\<close> elements, the last one possibly shorter: the
  reference against which the chunked loops of the program are measured.
\<close>

function chunks :: "nat \<Rightarrow> 'a list \<Rightarrow> 'a list list" where
  "chunks n xs = (if xs = [] \<or> n = 0 then [] else take n xs # chunks n (drop n xs))"
  by pat_completeness auto
termination
  by (relation "measure (\<lambda>(n, xs). length xs)") auto

declare chunks.simps [simp del]

lemma chunks_Nil [simp]: "chunks n [] = []"
  by (subst chunks.simps) simp

lemma chunks_step: "xs \<noteq> [] \<Longrightarrow> 0 < n \<Longrightarrow> chunks n xs = take n xs # chunks n (drop n xs)"
  by (subst chunks.simps) simp

lemma concat_chunks: "0 < n \<Longrightarrow> concat (chunks n xs) = xs"
proof (induction n xs rule: chunks.induct)
  case (1 n xs)
  then show ?case by (cases "xs = []") (simp_all add: chunks_step)
qed

lemma chunks_bounds: "c \<in> set (chunks n xs) \<Longrightarrow> c \<noteq> [] \<and> length c \<le> n"
proof (induction n xs rule: chunks.induct)
  case (1 n xs)
  show ?case
  proof (cases "xs = [] \<or> n = 0")
    case True
    with "1.prems" show ?thesis by (auto simp: chunks.simps [of n xs])
  next
    case False
    with "1" show ?thesis by (auto simp: chunks_step)
  qed
qed

lemma chunks_short: "xs \<noteq> [] \<Longrightarrow> length xs \<le> n \<Longrightarrow> chunks n xs = [xs]"
  by (subst chunks.simps) (cases xs; auto)

lemma chunks_full_append: "length xs = n \<Longrightarrow> 0 < n \<Longrightarrow> chunks n (xs @ ys) = xs # chunks n ys"
  by (subst chunks_step) auto

lemma length_chunks: "0 < n \<Longrightarrow> length (chunks n xs) = (length xs + n - 1) div n"
proof (induction n xs rule: chunks.induct)
  case (1 n xs)
  show ?case
  proof (cases "xs = []")
    case True
    then show ?thesis using "1.prems" by simp
  next
    case False
    with "1" have IH: "length (chunks n (drop n xs)) = (length xs - n + n - 1) div n" by simp
    have "Suc ((length xs - n + n - 1) div n) = (length xs + n - 1) div n"
    proof (cases "n \<le> length xs")
      case True
      with "1.prems" have "length xs + n - 1 = (length xs - 1) + n" by simp
      moreover have "((length xs - 1) + n) div n = Suc ((length xs - 1) div n)"
        using "1.prems" by (simp only: div_add_self2)
      ultimately show ?thesis using True by simp
    next
      case less: False
      from False have "length xs + n - 1 = (length xs - 1) + n" by (cases xs) simp_all
      then have "(length xs + n - 1) div n = Suc ((length xs - 1) div n)"
        using "1.prems" by (simp only: div_add_self2)
      with less show ?thesis by simp
    qed
    with False "1.prems" IH show ?thesis by (simp add: chunks_step)
  qed
qed

section \<open>Shared interfaces\<close>

text \<open>
  A transition system with an invariant: what holds at the start and is kept by every step holds
  after any run. The pipe pools and the parallel writer are instances.
\<close>

locale invariant_system =
  fixes init :: "'s \<Rightarrow> bool"
    and step :: "'s \<Rightarrow> 's \<Rightarrow> bool"
    and inv :: "'s \<Rightarrow> bool"
  assumes init_inv: "init s \<Longrightarrow> inv s"
    and step_inv: "inv s \<Longrightarrow> step s t \<Longrightarrow> inv t"
begin

lemma run_inv: "step\<^sup>*\<^sup>* s t \<Longrightarrow> inv s \<Longrightarrow> inv t"
  by (induction rule: rtranclp_induct) (auto intro: step_inv)

lemma reachable_inv: "init s \<Longrightarrow> step\<^sup>*\<^sup>* s t \<Longrightarrow> inv t"
  by (blast intro: run_inv init_inv)

end

text \<open>
  An object with a \<open>Close\<close>: closing marks the object, closing again does nothing, and an operation on a
  closed object returns its closed result and leaves the object alone. \<open>closes x e y\<close> says that
  \<open>Close\<close> on \<open>x\<close> returns \<open>e\<close> and leaves \<open>y\<close>, \<open>operates\<close> the same of the operations; a call that does not
  return is in neither. The readers and writers of the package are instances.
\<close>

locale closable =
  fixes is_closed :: "'o \<Rightarrow> bool"
    and closes :: "'o \<Rightarrow> 'e \<Rightarrow> 'o \<Rightarrow> bool"
    and operates :: "'i \<Rightarrow> 'o \<Rightarrow> 'r \<Rightarrow> 'o \<Rightarrow> bool"
    and ok :: 'e
    and refused :: "'i \<Rightarrow> 'r"
  assumes close_closes: "closes x e y \<Longrightarrow> is_closed y"
    and close_closed: "is_closed x \<Longrightarrow> closes x e y \<longleftrightarrow> e = ok \<and> y = x"
    and operate_closed: "is_closed x \<Longrightarrow> operates i x r y \<longleftrightarrow> r = refused i \<and> y = x"
begin

lemma close_twice: "closes x e y \<Longrightarrow> closes y e' z \<longleftrightarrow> e' = ok \<and> z = y"
  by (rule close_closed [OF close_closes])

lemma operate_after_close: "closes x e y \<Longrightarrow> operates i y r z \<longleftrightarrow> r = refused i \<and> z = y"
  by (rule operate_closed [OF close_closes])

text \<open>A closed object stays as it is, whatever is called on it.\<close>

definition any_call :: "'o \<Rightarrow> 'o \<Rightarrow> bool" where
  "any_call x y \<longleftrightarrow> (\<exists>e. closes x e y) \<or> (\<exists>i r. operates i x r y)"

lemma closed_forever: "any_call\<^sup>*\<^sup>* x y \<Longrightarrow> is_closed x \<Longrightarrow> y = x"
  by (induction rule: rtranclp_induct) (auto simp: any_call_def close_closed operate_closed)

end

text \<open>
  An encoder into a caller's buffer with a size bound: it fills a prefix of a large enough buffer
  with a block that holds the input, leaves the rest of the buffer alone, and needs no more room
  for a shorter input. A buffer for the longest input then serves every input, one after another.
  The literal block encoder is an instance, and the writer's buffers rest on it.
\<close>

locale bounded_encoder =
  fixes valid :: "'c \<Rightarrow> bool"
    and bound :: "'c \<Rightarrow> nat \<Rightarrow> nat option"
    and encode :: "'c \<Rightarrow> 'a list \<Rightarrow> 'a list \<Rightarrow> (nat \<times> 'a list) option"
    and holds :: "'c \<Rightarrow> 'a list \<Rightarrow> 'a list \<Rightarrow> bool"
  assumes encode_fit: "valid c \<Longrightarrow> bound c (length xs) = Some n \<Longrightarrow> n \<le> length buf \<Longrightarrow>
      \<exists>buf'. encode c xs buf = Some (n, buf') \<and> length buf' = length buf \<and>
             drop n buf' = drop n buf \<and> holds c xs (take n buf')"
    and bound_mono: "valid c \<Longrightarrow> bound c m = Some k \<Longrightarrow> length (xs :: 'a list) \<le> m \<Longrightarrow>
      \<exists>j \<le> k. bound c (length xs) = Some j"
begin

lemma encode_in_shared_buffer:
  assumes "valid c" and "bound c m = Some k" and "length xs \<le> m" and "k \<le> length buf"
  shows "\<exists>n buf'. encode c xs buf = Some (n, buf') \<and> n \<le> k \<and> length buf' = length buf \<and>
           drop n buf' = drop n buf \<and> holds c xs (take n buf')"
proof -
  from bound_mono [OF assms(1-3)] obtain j where j: "j \<le> k" "bound c (length xs) = Some j"
    by blast
  with assms(4) have "j \<le> length buf" by simp
  with encode_fit [OF assms(1) j(2)] j(1) show ?thesis by blast
qed

text \<open>The blocks read off the buffer when it is used for one input after another.\<close>

fun encode_all :: "'c \<Rightarrow> 'a list list \<Rightarrow> 'a list \<Rightarrow> 'a list list option" where
  "encode_all c [] buf = Some []"
| "encode_all c (xs # xss) buf =
     (case encode c xs buf of
        None \<Rightarrow> None
      | Some (n, buf') \<Rightarrow> map_option ((#) (take n buf')) (encode_all c xss buf'))"

lemma encode_all_holds:
  assumes "valid c" and "bound c m = Some k" and "k \<le> length buf"
    and "\<And>xs. xs \<in> set xss \<Longrightarrow> length xs \<le> m"
  shows "\<exists>blks. encode_all c xss buf = Some blks \<and> list_all2 (holds c) xss blks"
  using assms(3,4)
proof (induction xss arbitrary: buf)
  case Nil
  then show ?case by simp
next
  case (Cons xs xss)
  from encode_in_shared_buffer [OF assms(1,2) _ Cons.prems(1), of xs] Cons.prems(2)
  obtain n buf' where e: "encode c xs buf = Some (n, buf')" "length buf' = length buf"
    "holds c xs (take n buf')" by auto
  with Cons.IH [of buf'] Cons.prems obtain blks where
    "encode_all c xss buf' = Some blks" "list_all2 (holds c) xss blks" by auto
  with e show ?case by simp
qed

end

end
