(* ===== verification/Lib_Error.thy ===== *)
theory Lib_Error
  imports Go_Prelude
begin

text \<open>
  The status codes of \<open>lib/const.go\<close> and the error type of \<open>lib/error.go\<close>. The numeric codes come
  from \<open>lzma.h\<close>, which is not part of the repository; they are pairwise different (the \<open>switch\<close> of
  \<open>Error\<close> would not compile otherwise), so the codes are the constructors of a datatype, with
  \<open>RET_OTHER\<close> for every integer that is none of them.

  A value of Go's \<open>error\<close> interface is a \<open>goerr option\<close>, \<open>None\<close> being nil; \<open>goerr\<close> collects the
  errors the package compares with: its own \<open>lib.Error\<close>, the sentinels of package \<open>io\<close>, and the
  errors of the caller's readers and writers.
\<close>

section \<open>Status codes (lib/const.go)\<close>

datatype lzma_ret =
    OK | STREAM_END | NO_CHECK | UNSUPPORTED_CHECK | GET_CHECK | MEM_ERROR
  | MEMLIMIT_ERROR | FORMAT_ERROR | OPTIONS_ERROR | DATA_ERROR | BUF_ERROR | PROG_ERROR
  | RET_OTHER int

datatype lzma_action = RUN | SYNC_FLUSH | FULL_FLUSH | FINISH

datatype lzma_check = CHECK_NONE | CHECK_CRC32 | CHECK_CRC64 | CHECK_SHA256 | CHECK_OTHER int

section \<open>Errors (lib/error.go)\<close>

datatype goerr =
    LibErr lzma_ret
  | EOF | ErrShortWrite | ErrUnexpectedEOF | ErrClosedPipe
  | OtherErr string

definition NewError :: "lzma_ret \<Rightarrow> goerr option" where
  "NewError code = (if code = OK then None else Some (LibErr code))"

fun Error_string :: "lzma_ret \<Rightarrow> string" where
  "Error_string STREAM_END = ''[STREAM_END] End of stream was reached''"
| "Error_string NO_CHECK = ''[NO_CHECK] Input stream has no integrity check''"
| "Error_string UNSUPPORTED_CHECK = ''[UNSUPPORTED_CHECK] Cannot calculate the integrity check''"
| "Error_string GET_CHECK = ''[GET_CHECK] Integrity check type is now available''"
| "Error_string MEM_ERROR = ''[MEM_ERROR] Cannot allocate memory''"
| "Error_string MEMLIMIT_ERROR = ''[MEMLIMIT_ERROR] Memory usage limit was reached''"
| "Error_string FORMAT_ERROR = ''[FORMAT_ERROR] File format not recognized''"
| "Error_string OPTIONS_ERROR = ''[OPTIONS_ERROR] Invalid or unsupported options''"
| "Error_string DATA_ERROR = ''[DATA_ERROR] Data is corrupt''"
| "Error_string BUF_ERROR = ''[BUF_ERROR] No progress is possible''"
| "Error_string PROG_ERROR = ''[PROG_ERROR] Programming error''"
| "Error_string _ = ''[UNKNOWN] Unknown error''"

lemma NewError_None [simp]: "NewError c = None \<longleftrightarrow> c = OK"
  by (simp add: NewError_def)

lemma NewError_Some [simp]: "NewError c = Some e \<longleftrightarrow> c \<noteq> OK \<and> e = LibErr c"
  by (auto simp: NewError_def)

lemma NewError_OK [simp]: "NewError OK = None"
  by simp

lemma NewError_err: "c \<noteq> OK \<Longrightarrow> NewError c = Some (LibErr c)"
  by simp

section \<open>Errors of package xz (xz/const.go)\<close>

definition streamEnd :: goerr where
  "streamEnd = LibErr STREAM_END"

definition dataError :: goerr where
  "dataError = LibErr DATA_ERROR"

definition formatError :: goerr where
  "formatError = LibErr FORMAT_ERROR"

definition optionsError :: goerr where
  "optionsError = LibErr OPTIONS_ERROR"

lemmas xz_errors = streamEnd_def dataError_def formatError_def optionsError_def

end
