(* ===== verification/Golib.thy ===== *)
theory Golib
  imports Lib_Error
begin

text \<open>
  Go's panics, and the third-party packages the program calls (\<open>golib/errs\<close> and \<open>golib/bufpipe\<close>),
  whose sources are not part of the repository. Each package is a record of functions that the
  definitions of the program take as an argument; what the program relies on is stated as a
  predicate on the record (\<open>errs_ok\<close>, \<open>pipe_view\<close>), which is a hypothesis of the theorems.
\<close>

section \<open>Panics\<close>

text \<open>
  A panic carries the error that \<open>errs.Panic\<close> or \<open>errs.Assert\<close> raised (\<open>PErr\<close>, possibly nil), an
  error given to the built-in \<open>panic\<close> (\<open>PVal\<close>), a message (\<open>PMsg\<close>), or is a run-time panic such as
  an index out of range or a nil dereference (\<open>PRuntime\<close>).
\<close>

datatype panicval = PErr "goerr option" | PVal goerr | PMsg string | PRuntime

datatype 'a go = Ret 'a | Pan panicval

primrec gobind :: "'a go \<Rightarrow> ('a \<Rightarrow> 'b go) \<Rightarrow> 'b go" where
  "gobind (Ret x) f = f x"
| "gobind (Pan p) f = Pan p"

lemma gobind_eq_Ret: "gobind m f = Ret y \<longleftrightarrow> (\<exists>x. m = Ret x \<and> f x = Ret y)"
  by (cases m) auto

lemma gobind_eq_Pan: "gobind m f = Pan p \<longleftrightarrow> m = Pan p \<or> (\<exists>x. m = Ret x \<and> f x = Pan p)"
  by (cases m) auto

lemma gobind_assoc: "gobind (gobind m f) g = gobind m (\<lambda>x. gobind (f x) g)"
  by (cases m) auto

lemma gobind_cong [fundef_cong]:
  "m = m' \<Longrightarrow> (\<And>x. m' = Ret x \<Longrightarrow> f x = g x) \<Longrightarrow> gobind m f = gobind m' g"
  by (cases m') auto

section \<open>Bounds-checked stores into a slice\<close>

definition store_at :: "'a list \<Rightarrow> nat \<Rightarrow> 'a \<Rightarrow> 'a list go" where
  "store_at xs i x = (if i < length xs then Ret (xs[i := x]) else Pan PRuntime)"

definition put_at :: "'a list \<Rightarrow> nat \<Rightarrow> 'a list \<Rightarrow> 'a list go" where
  "put_at xs i bs = (if i + length bs \<le> length xs then Ret (overwrite xs i bs) else Pan PRuntime)"

definition copy_at :: "'a list \<Rightarrow> nat \<Rightarrow> 'a list \<Rightarrow> (nat \<times> 'a list) go" where
  "copy_at xs i bs =
     (if i \<le> length xs then Ret (min (length xs - i) (length bs), overwrite xs i bs)
      else Pan PRuntime)"

lemma store_at_fit:
  "length pre = i \<Longrightarrow> post \<noteq> [] \<Longrightarrow> store_at (pre @ post) i x = Ret (pre @ [x] @ tl post)"
  by (cases post) (auto simp: store_at_def list_update_append)

lemma put_at_fit:
  "length pre = i \<Longrightarrow> length bs \<le> length post \<Longrightarrow>
   put_at (pre @ post) i bs = Ret (pre @ bs @ drop (length bs) post)"
  by (simp add: put_at_def overwrite_append)

lemma copy_at_fit:
  "length pre = i \<Longrightarrow> length bs \<le> length post \<Longrightarrow>
   copy_at (pre @ post) i bs = Ret (length bs, pre @ bs @ drop (length bs) post)"
  by (simp add: copy_at_def overwrite_append)

section \<open>Package golib/errs\<close>

text \<open>
  \<open>errs_Recover\<close> maps the value a deferred \<open>errs.Recover(&err)\<close> recovers to the error it stores, or
  to the panic it raises again.
\<close>

record errs =
  errs_Panic :: "goerr option \<Rightarrow> unit go"
  errs_Assert :: "bool \<Rightarrow> goerr option \<Rightarrow> unit go"
  errs_Recover :: "panicval \<Rightarrow> goerr option + panicval"
  errs_Ignore :: "goerr option \<Rightarrow> goerr list \<Rightarrow> goerr option"
  errs_Convert :: "goerr option \<Rightarrow> goerr option \<Rightarrow> goerr list \<Rightarrow> goerr option"
  errs_Match :: "goerr option \<Rightarrow> goerr list \<Rightarrow> bool"
  errs_First :: "goerr option list \<Rightarrow> goerr option"

text \<open>
  The documented behaviour: \<open>Panic\<close> panics on a non-nil error only, \<open>Assert\<close> panics with the given
  error (which may be nil) when the condition fails, \<open>Recover\<close> stores the error of such a panic,
  \<open>Ignore\<close> turns the listed errors into nil, \<open>Convert\<close> replaces the listed errors by the new one,
  \<open>Match\<close> tests membership, \<open>First\<close> returns the first non-nil error. Nothing is assumed about
  \<open>Recover\<close> on panics the package did not raise.
\<close>

definition errs_ok :: "errs \<Rightarrow> bool" where
  "errs_ok E \<longleftrightarrow>
     errs_Panic E None = Ret () \<and>
     (\<forall>e. errs_Panic E (Some e) = Pan (PErr (Some e))) \<and>
     (\<forall>e. errs_Assert E True e = Ret ()) \<and>
     (\<forall>e. errs_Assert E False e = Pan (PErr e)) \<and>
     (\<forall>e. errs_Recover E (PErr e) = Inl e) \<and>
     (\<forall>es. errs_Ignore E None es = None) \<and>
     (\<forall>e es. errs_Ignore E (Some e) es = (if e \<in> set es then None else Some e)) \<and>
     (\<forall>n es. errs_Convert E None n es = None) \<and>
     (\<forall>e n es. errs_Convert E (Some e) n es = (if e \<in> set es then n else Some e)) \<and>
     (\<forall>es. errs_Match E None es = False) \<and>
     (\<forall>e es. errs_Match E (Some e) es = (e \<in> set es)) \<and>
     errs_First E [] = None \<and>
     (\<forall>es. errs_First E (None # es) = errs_First E es) \<and>
     (\<forall>e es. errs_First E (Some e # es) = Some e)"

lemma errs_okD [golib_laws]:
  assumes "errs_ok E"
  shows "errs_Panic E None = Ret ()"
    and "errs_Panic E (Some e) = Pan (PErr (Some e))"
    and "errs_Assert E True e' = Ret ()"
    and "errs_Assert E False e' = Pan (PErr e')"
    and "errs_Recover E (PErr e') = Inl e'"
    and "errs_Ignore E None es = None"
    and "errs_Ignore E (Some e) es = (if e \<in> set es then None else Some e)"
    and "errs_Convert E None n es = None"
    and "errs_Convert E (Some e) n es = (if e \<in> set es then n else Some e)"
    and "errs_Match E None es = False"
    and "errs_Match E (Some e) es = (e \<in> set es)"
    and "errs_First E [] = None"
    and "errs_First E (None # fs) = errs_First E fs"
    and "errs_First E (Some e # fs) = Some e"
  using assms unfolding errs_ok_def by simp_all

lemma errs_Panic_eq:
  "errs_ok E \<Longrightarrow> errs_Panic E e = (if e = None then Ret () else Pan (PErr e))"
  by (cases e) (simp_all add: golib_laws)

lemma errs_Assert_eq: "errs_ok E \<Longrightarrow> errs_Assert E c e = (if c then Ret () else Pan (PErr e))"
  by (cases c) (simp_all add: golib_laws)

text \<open>A record with exactly this behaviour, for evaluation on concrete inputs.\<close>

definition errs_std :: errs where
  "errs_std = \<lparr>
     errs_Panic = (\<lambda>e. if e = None then Ret () else Pan (PErr e)),
     errs_Assert = (\<lambda>c e. if c then Ret () else Pan (PErr e)),
     errs_Recover = (\<lambda>p. case p of PErr e \<Rightarrow> Inl e | _ \<Rightarrow> Inr p),
     errs_Ignore = (\<lambda>e es. case e of None \<Rightarrow> None | Some x \<Rightarrow> if x \<in> set es then None else Some x),
     errs_Convert = (\<lambda>e n es. case e of None \<Rightarrow> None | Some x \<Rightarrow> if x \<in> set es then n else Some x),
     errs_Match = (\<lambda>e es. case e of None \<Rightarrow> False | Some x \<Rightarrow> x \<in> set es),
     errs_First = (\<lambda>es. case filter (\<lambda>e. e \<noteq> None) es of [] \<Rightarrow> None | e # _ \<Rightarrow> e)\<rparr>"

lemma errs_ok_std: "errs_ok errs_std"
  by (simp add: errs_ok_def errs_std_def)

end
