(* ===== verification/Lib_Types.thy ===== *)
theory Lib_Types
  imports Golib
begin

text \<open>
  The thin wrappers of package \<open>lib\<close> around liblzma's data structures: integrity checks
  (\<open>lib/check.go\<close>), filter chains (\<open>lib/filter.go\<close>), LZMA options (\<open>lib/lzma.go\<close>), stream flags
  (\<open>lib/flags.go\<close>) and blocks (\<open>lib/block.go\<close>).

  The C structures the wrappers hold are records; liblzma itself is not part of the repository and
  is the record \<open>liblzma\<close> of its constants and functions, which the definitions take as an
  argument. A C function that updates a structure through a pointer returns the updated structure;
  one that fills a buffer returns the bytes it stores.
\<close>

section \<open>The C structures\<close>

record lzma_options =
  opt_dict_size :: "32 word"
  opt_rest :: bytes

record lzma_filter =
  flt_id :: "64 word"
  flt_options :: "lzma_options option"

record lzma_block =
  blk_version :: "32 word"
  blk_header_size :: "32 word"
  blk_check :: lzma_check
  blk_compressed_size :: "64 word"
  blk_uncompressed_size :: "64 word"
  blk_filters :: "lzma_filter list"
  blk_raw_check :: bytes

record lzma_stream_flags =
  sf_version :: "32 word"
  sf_backward_size :: "64 word"
  sf_check :: lzma_check

text \<open>
  liblzma. \<open>'z\<close> is the state behind an \<open>lzma_stream\<close> (its \<open>internal\<close> pointer and what that refers
  to), \<open>'x\<close> the state of an \<open>lzma_index\<close>; a possibly null \<open>lzma_index\<close> pointer is an \<open>'x option\<close>.
  \<open>c_code z a src n\<close> is \<open>lzma_code\<close> with action \<open>a\<close>, the input \<open>src\<close> and room for \<open>n\<close> bytes of
  output: its status, how many input bytes it consumed, the bytes it stored, and the new state.
  \<open>c_coder_block\<close> and \<open>c_coder_index\<close> read the structures a coder was given a pointer to, with the
  coder's own updates.
\<close>

record lzma_data_api =
  STREAM_HEADER_SIZE :: nat
  BLOCK_HEADER_SIZE_MIN :: int
  BLOCK_HEADER_SIZE_MAX :: int
  FILTERS_MAX :: nat
  CHECK_SIZE_MAX :: nat
  FILTER_LZMA2 :: int
  PRESET_DEFAULT :: int
  c_check_is_supported :: "lzma_check \<Rightarrow> bool"
  c_check_size :: "lzma_check \<Rightarrow> 32 word"
  c_crc32 :: "bytes \<Rightarrow> 32 word \<Rightarrow> 32 word"
  c_crc64 :: "bytes \<Rightarrow> 64 word \<Rightarrow> 64 word"
  c_lzma_preset :: "32 word \<Rightarrow> bool \<times> lzma_options"
  c_stream_header_encode :: "lzma_stream_flags \<Rightarrow> lzma_ret \<times> bytes"
  c_stream_footer_encode :: "lzma_stream_flags \<Rightarrow> lzma_ret \<times> bytes"
  c_stream_header_decode :: "lzma_stream_flags \<Rightarrow> bytes \<Rightarrow> lzma_ret \<times> lzma_stream_flags"
  c_stream_footer_decode :: "lzma_stream_flags \<Rightarrow> bytes \<Rightarrow> lzma_ret \<times> lzma_stream_flags"
  c_stream_flags_compare :: "lzma_stream_flags \<Rightarrow> lzma_stream_flags \<Rightarrow> lzma_ret"
  c_block_header_size :: "lzma_block \<Rightarrow> lzma_ret \<times> lzma_block"
  c_block_header_encode :: "lzma_block \<Rightarrow> lzma_ret \<times> bytes"
  c_block_header_decode :: "lzma_block \<Rightarrow> bytes \<Rightarrow> lzma_ret \<times> lzma_block"
  c_block_header_size_decode :: "byte \<Rightarrow> 32 word"
  c_block_compressed_size :: "lzma_block \<Rightarrow> 64 word \<Rightarrow> lzma_ret \<times> lzma_block"
  c_block_unpadded_size :: "lzma_block \<Rightarrow> 64 word"
  c_block_total_size :: "lzma_block \<Rightarrow> 64 word"
  c_block_buffer_bound :: "64 word \<Rightarrow> 64 word"

record 'x lzma_index_api = lzma_data_api +
  c_index_init :: "'x option"
  c_index_append :: "'x option \<Rightarrow> 64 word \<Rightarrow> 64 word \<Rightarrow> lzma_ret \<times> 'x option"
  c_index_stream_count :: "'x option \<Rightarrow> 64 word"
  c_index_block_count :: "'x option \<Rightarrow> 64 word"
  c_index_size :: "'x option \<Rightarrow> 64 word"
  c_index_stream_size :: "'x option \<Rightarrow> 64 word"
  c_index_total_size :: "'x option \<Rightarrow> 64 word"
  c_index_file_size :: "'x option \<Rightarrow> 64 word"
  c_index_uncompressed_size :: "'x option \<Rightarrow> 64 word"
  c_index_checks :: "'x option \<Rightarrow> 32 word"
  c_index_stream_flags :: "'x option \<Rightarrow> lzma_stream_flags \<Rightarrow> lzma_ret \<times> 'x option"
  c_index_stream_padding :: "'x option \<Rightarrow> 64 word \<Rightarrow> lzma_ret \<times> 'x option"
  c_index_cat :: "'x option \<Rightarrow> 'x option \<Rightarrow> lzma_ret \<times> 'x option"
  c_index_dup :: "'x option \<Rightarrow> 'x option"

record ('z, 'x) liblzma = "'x lzma_index_api" +
  c_stream_init :: 'z
  c_end :: "'z \<Rightarrow> 'z"
  c_block_encoder :: "lzma_block \<Rightarrow> lzma_ret \<times> 'z"
  c_block_decoder :: "lzma_block \<Rightarrow> lzma_ret \<times> 'z"
  c_index_encoder :: "'x option \<Rightarrow> lzma_ret \<times> 'z"
  c_index_decoder :: "64 word \<Rightarrow> lzma_ret \<times> 'z"
  c_alone_encoder :: "lzma_options option \<Rightarrow> lzma_ret \<times> 'z"
  c_alone_decoder :: "64 word \<Rightarrow> lzma_ret \<times> 'z"
  c_stream_encoder :: "lzma_filter list \<Rightarrow> lzma_check \<Rightarrow> lzma_ret \<times> 'z"
  c_stream_decoder :: "64 word \<Rightarrow> 32 word \<Rightarrow> lzma_ret \<times> 'z"
  c_code :: "'z \<Rightarrow> lzma_action \<Rightarrow> bytes \<Rightarrow> nat \<Rightarrow> lzma_ret \<times> nat \<times> bytes \<times> 'z"
  c_coder_block :: "'z \<Rightarrow> lzma_block"
  c_coder_index :: "'z \<Rightarrow> 'x option"
  c_get_check :: "'z \<Rightarrow> lzma_check"

text \<open>\<open>LZMA_VLI_UNKNOWN\<close> is, as \<open>lib/const.go\<close> notes, effectively -1.\<close>

definition vliUnknown :: int where
  "vliUnknown = -1"

section \<open>Integrity checks (lib/check.go)\<close>

definition CheckIsSupported :: "('z, 'x) liblzma \<Rightarrow> lzma_check \<Rightarrow> bool" where
  "CheckIsSupported L check = c_check_is_supported L check"

definition CheckSize :: "('z, 'x) liblzma \<Rightarrow> lzma_check \<Rightarrow> int" where
  "CheckSize L check = uint (c_check_size L check)"

definition CRC32 :: "('z, 'x) liblzma \<Rightarrow> bytes \<Rightarrow> 32 word \<Rightarrow> 32 word" where
  "CRC32 L buf crc = c_crc32 L buf crc"

definition CRC64 :: "('z, 'x) liblzma \<Rightarrow> bytes \<Rightarrow> 64 word \<Rightarrow> 64 word" where
  "CRC64 L buf crc = c_crc64 L buf crc"

section \<open>LZMA options (lib/lzma.go)\<close>

definition NewOptionsLZMA ::
  "('z, 'x) liblzma \<Rightarrow> int \<Rightarrow> lzma_options option \<times> goerr option" where
  "NewOptionsLZMA L preset =
     (let (failed, opts) = c_lzma_preset L (word_of_int preset)
      in if failed then (None, NewError OPTIONS_ERROR) else (Some opts, None))"

definition GetDictSize :: "lzma_options \<Rightarrow> 32 word" where
  "GetDictSize opts = opt_dict_size opts"

definition SetDictSize :: "lzma_options \<Rightarrow> 32 word \<Rightarrow> lzma_options" where
  "SetDictSize opts sz = opts\<lparr>opt_dict_size := sz\<rparr>"

section \<open>Filter chains (lib/filter.go)\<close>

record Filters =
  fl_filters :: "lzma_filter list"
  fl_options :: "lzma_options option list"
  fl_size :: nat

definition NewFilters :: "('z, 'x) liblzma \<Rightarrow> Filters" where
  "NewFilters L =
     (let zero = \<lparr>flt_id = 0, flt_options = None\<rparr>;
          arr = replicate (FILTERS_MAX L + 1) zero
      in \<lparr>fl_filters = arr[0 := zero\<lparr>flt_id := of_i64 vliUnknown\<rparr>],
          fl_options = [], fl_size = 0\<rparr>)"

text \<open>The array store at \<open>size + 1\<close> comes first, so that a full chain panics unchanged.\<close>

definition Filters_Append :: "Filters \<Rightarrow> int \<Rightarrow> lzma_options option \<Rightarrow> Filters go" where
  "Filters_Append f fid opts =
     (let n = fl_size f; arr = fl_filters f
      in if n + 1 < length arr then
           let arr = arr[n + 1 := (arr ! (n + 1))\<lparr>flt_id := of_i64 vliUnknown\<rparr>];
               arr = arr[n := \<lparr>flt_id = of_i64 fid, flt_options = opts\<rparr>]
           in Ret (f\<lparr>fl_filters := arr, fl_options := fl_options f @ [opts], fl_size := n + 1\<rparr>)
         else Pan PRuntime)"

text \<open>
  A chain is well formed when its array has the fixed length, holds the terminator right behind the
  filters in use, and keeps the options of exactly those filters alive.
\<close>

definition filters_ok :: "('z, 'x) liblzma \<Rightarrow> Filters \<Rightarrow> bool" where
  "filters_ok L f \<longleftrightarrow>
     length (fl_filters f) = FILTERS_MAX L + 1 \<and> fl_size f \<le> FILTERS_MAX L \<and>
     flt_id (fl_filters f ! fl_size f) = of_i64 vliUnknown \<and>
     fl_options f = map flt_options (take (fl_size f) (fl_filters f))"

lemma NewFilters_ok: "filters_ok L (NewFilters L)"
  by (simp add: filters_ok_def NewFilters_def Let_def)

lemma Filters_Append_ok:
  assumes "filters_ok L f" and "Filters_Append f fid opts = Ret f'"
  shows "filters_ok L f' \<and> fl_size f' = fl_size f + 1 \<and>
         take (fl_size f) (fl_filters f') = take (fl_size f) (fl_filters f) \<and>
         fl_filters f' ! fl_size f = \<lparr>flt_id = of_i64 fid, flt_options = opts\<rparr>"
proof -
  from assms(2) have lt: "fl_size f + 1 < length (fl_filters f)"
    by (auto simp: Filters_Append_def Let_def split: if_splits)
  with assms have f': "fl_filters f' = (fl_filters f)
      [fl_size f + 1 := (fl_filters f ! (fl_size f + 1))\<lparr>flt_id := of_i64 vliUnknown\<rparr>,
       fl_size f := \<lparr>flt_id = of_i64 fid, flt_options = opts\<rparr>]"
    and o': "fl_options f' = fl_options f @ [opts]" and s': "fl_size f' = fl_size f + 1"
    by (auto simp: Filters_Append_def Let_def)
  show ?thesis
    using assms(1) lt by (simp add: filters_ok_def f' o' s' take_Suc_conv_app_nth)
qed

lemma Filters_Append_full:
  assumes "filters_ok L f"
  shows "(\<exists>f'. Filters_Append f fid opts = Ret f') \<longleftrightarrow> fl_size f < FILTERS_MAX L"
  using assms by (simp add: filters_ok_def Filters_Append_def Let_def)

section \<open>Stream flags (lib/flags.go)\<close>

type_synonym StreamFlags = lzma_stream_flags

abbreviation STREAM_FOOTER_SIZE :: "('z, 'x) liblzma \<Rightarrow> nat" where
  "STREAM_FOOTER_SIZE L \<equiv> STREAM_HEADER_SIZE L"

definition NewStreamFlags :: StreamFlags where
  "NewStreamFlags = \<lparr>sf_version = 0, sf_backward_size = of_i64 vliUnknown, sf_check = CHECK_NONE\<rparr>"

definition HeaderEncode ::
  "('z, 'x) liblzma \<Rightarrow> StreamFlags \<Rightarrow> lzma_check \<Rightarrow> (bytes \<times> goerr option) \<times> StreamFlags" where
  "HeaderEncode L fl check =
     (let fl = fl\<lparr>sf_check := check\<rparr>; buf = replicate (STREAM_HEADER_SIZE L) 0;
          (r, bs) = c_stream_header_encode L fl
      in ((overwrite buf 0 bs, NewError r), fl))"

definition FooterEncode ::
  "('z, 'x) liblzma \<Rightarrow> StreamFlags \<Rightarrow> int \<Rightarrow> (bytes \<times> goerr option) \<times> StreamFlags" where
  "FooterEncode L fl backwardSize =
     (let fl = fl\<lparr>sf_backward_size := of_i64 backwardSize\<rparr>;
          buf = replicate (STREAM_FOOTER_SIZE L) 0; (r, bs) = c_stream_footer_encode L fl
      in ((overwrite buf 0 bs, NewError r), fl))"

definition HeaderDecode ::
  "('z, 'x) liblzma \<Rightarrow> StreamFlags \<Rightarrow> bytes \<Rightarrow> goerr option \<times> StreamFlags" where
  "HeaderDecode L fl buf =
     (if length buf < STREAM_HEADER_SIZE L then (NewError BUF_ERROR, fl)
      else let (r, fl) = c_stream_header_decode L fl buf in (NewError r, fl))"

definition FooterDecode ::
  "('z, 'x) liblzma \<Rightarrow> StreamFlags \<Rightarrow> bytes \<Rightarrow> goerr option \<times> StreamFlags" where
  "FooterDecode L fl buf =
     (if length buf < STREAM_FOOTER_SIZE L then (NewError BUF_ERROR, fl)
      else let (r, fl) = c_stream_footer_decode L fl buf in (NewError r, fl))"

definition Flags_Compare ::
  "('z, 'x) liblzma \<Rightarrow> StreamFlags \<Rightarrow> StreamFlags \<Rightarrow> goerr option" where
  "Flags_Compare L fl1 fl2 = NewError (c_stream_flags_compare L fl1 fl2)"

definition Flags_GetCheck :: "StreamFlags \<Rightarrow> lzma_check" where
  "Flags_GetCheck fl = sf_check fl"

definition Flags_SetCheck :: "StreamFlags \<Rightarrow> lzma_check \<Rightarrow> StreamFlags" where
  "Flags_SetCheck fl check = fl\<lparr>sf_check := check\<rparr>"

definition GetBackwardSize :: "StreamFlags \<Rightarrow> int" where
  "GetBackwardSize fl = to_i64 (sf_backward_size fl)"

definition SetBackwardSize :: "StreamFlags \<Rightarrow> int \<Rightarrow> StreamFlags" where
  "SetBackwardSize fl sz = fl\<lparr>sf_backward_size := of_i64 sz\<rparr>"

lemma HeaderEncode_check: "sf_check (snd (HeaderEncode L fl check)) = check"
  by (simp add: HeaderEncode_def Let_def split_def)

lemma backward_size_roundtrip: "in64 sz \<Longrightarrow> GetBackwardSize (SetBackwardSize fl sz) = sz"
  by (simp add: GetBackwardSize_def SetBackwardSize_def to_i64_of_i64)

section \<open>Blocks (lib/block.go)\<close>

text \<open>
  \<open>b.block.filters\<close> points into the array of \<open>b.filters\<close>; the record keeps both, and an operation
  of liblzma that stores filters updates both.
\<close>

record Block =
  b_block :: lzma_block
  b_filters :: Filters

definition SetCheck :: "Block \<Rightarrow> lzma_check \<Rightarrow> Block" where
  "SetCheck b check = b\<lparr>b_block := (b_block b)\<lparr>blk_check := check\<rparr>\<rparr>"

definition SetCompressedSize :: "Block \<Rightarrow> int \<Rightarrow> Block" where
  "SetCompressedSize b sz = b\<lparr>b_block := (b_block b)\<lparr>blk_compressed_size := of_i64 sz\<rparr>\<rparr>"

definition SetUncompressedSize :: "Block \<Rightarrow> int \<Rightarrow> Block" where
  "SetUncompressedSize b sz = b\<lparr>b_block := (b_block b)\<lparr>blk_uncompressed_size := of_i64 sz\<rparr>\<rparr>"

definition SetFilters :: "Block \<Rightarrow> Filters \<Rightarrow> Block" where
  "SetFilters b f = b\<lparr>b_block := (b_block b)\<lparr>blk_filters := fl_filters f\<rparr>, b_filters := f\<rparr>"

definition zero_block :: "('z, 'x) liblzma \<Rightarrow> Block" where
  "zero_block L =
     \<lparr>b_block = \<lparr>blk_version = 0, blk_header_size = 0, blk_check = CHECK_NONE,
        blk_compressed_size = 0, blk_uncompressed_size = 0, blk_filters = [],
        blk_raw_check = replicate (CHECK_SIZE_MAX L) 0\<rparr>,
      b_filters = \<lparr>fl_filters = [], fl_options = [], fl_size = 0\<rparr>\<rparr>"

definition NewBlockCustom ::
  "('z, 'x) liblzma \<Rightarrow> lzma_check \<Rightarrow> Filters \<Rightarrow> int \<Rightarrow> int \<Rightarrow> Block" where
  "NewBlockCustom L check f compressSize uncompressSize =
     (let blk = zero_block L;
          blk = blk\<lparr>b_block := (b_block blk)\<lparr>blk_version := 0\<rparr>\<rparr>;
          blk = SetCheck blk check;
          blk = SetFilters blk f;
          blk = SetCompressedSize blk compressSize
      in SetUncompressedSize blk uncompressSize)"

definition NewBlock :: "('z, 'x) liblzma \<Rightarrow> lzma_check \<Rightarrow> Block" where
  "NewBlock L check = NewBlockCustom L check (NewFilters L) vliUnknown vliUnknown"

text \<open>\<open>HeaderEncode\<close> fills the caller's slice: the new contents of the slice are returned.\<close>

definition Block_HeaderEncode ::
  "('z, 'x) liblzma \<Rightarrow> Block \<Rightarrow> bytes \<Rightarrow> (goerr option \<times> bytes) go" where
  "Block_HeaderEncode L b data =
     (if int (length data) < uint (blk_header_size (b_block b))
      then Pan (PMsg ''Input header not large enough'')
      else let (r, bs) = c_block_header_encode L (b_block b)
           in Ret (NewError r, overwrite data 0 bs))"

definition Block_HeaderDecode ::
  "('z, 'x) liblzma \<Rightarrow> Block \<Rightarrow> bytes \<Rightarrow> (goerr option \<times> Block) go" where
  "Block_HeaderDecode L b data =
     (if int (length data) < uint (blk_header_size (b_block b))
      then Pan (PMsg ''Output header not large enough'')
      else let (r, cb) = c_block_header_decode L (b_block b) data
           in Ret (NewError r,
                   b\<lparr>b_block := cb, b_filters := (b_filters b)\<lparr>fl_filters := blk_filters cb\<rparr>\<rparr>))"

definition HeaderSize :: "('z, 'x) liblzma \<Rightarrow> Block \<Rightarrow> (int \<times> goerr option) \<times> Block" where
  "HeaderSize L b =
     (let (r, cb) = c_block_header_size L (b_block b)
      in ((uint (blk_header_size cb), NewError r), b\<lparr>b_block := cb\<rparr>))"

definition HeaderSizeDecode ::
  "('z, 'x) liblzma \<Rightarrow> Block \<Rightarrow> byte \<Rightarrow> (int \<times> goerr option) \<times> Block" where
  "HeaderSizeDecode L b val =
     (let sz = uint (c_block_header_size_decode L val)
      in if sz < BLOCK_HEADER_SIZE_MIN L \<or> sz > BLOCK_HEADER_SIZE_MAX L
         then ((sz, Some (LibErr DATA_ERROR)), b)
         else ((sz, None), b\<lparr>b_block := (b_block b)\<lparr>blk_header_size := word_of_int sz\<rparr>\<rparr>))"

definition CompressedSize ::
  "('z, 'x) liblzma \<Rightarrow> Block \<Rightarrow> int \<Rightarrow> (int \<times> goerr option) \<times> Block" where
  "CompressedSize L b unpadSize =
     (let (r, cb) = c_block_compressed_size L (b_block b) (of_i64 unpadSize)
      in ((to_i64 (blk_compressed_size cb), NewError r), b\<lparr>b_block := cb\<rparr>))"

definition UnpaddedSize :: "('z, 'x) liblzma \<Rightarrow> Block \<Rightarrow> int" where
  "UnpaddedSize L b = to_i64 (c_block_unpadded_size L (b_block b))"

definition Block_TotalSize :: "('z, 'x) liblzma \<Rightarrow> Block \<Rightarrow> int" where
  "Block_TotalSize L b = to_i64 (c_block_total_size L (b_block b))"

definition GetVersion :: "Block \<Rightarrow> int" where
  "GetVersion b = uint (blk_version (b_block b))"

definition GetHeaderSize :: "Block \<Rightarrow> int" where
  "GetHeaderSize b = uint (blk_header_size (b_block b))"

definition GetCheck :: "Block \<Rightarrow> lzma_check" where
  "GetCheck b = blk_check (b_block b)"

definition GetCompressedSize :: "Block \<Rightarrow> int" where
  "GetCompressedSize b = to_i64 (blk_compressed_size (b_block b))"

definition GetUncompressedSize :: "Block \<Rightarrow> int" where
  "GetUncompressedSize b = to_i64 (blk_uncompressed_size (b_block b))"

definition GetFilters :: "Block \<Rightarrow> Filters" where
  "GetFilters b = b_filters b"

text \<open>The loop of \<open>GetRawCheck\<close> copies index by index into a zeroed array.\<close>

definition GetRawCheck :: "('z, 'x) liblzma \<Rightarrow> Block \<Rightarrow> bytes" where
  "GetRawCheck L b =
     (let buf = replicate (CHECK_SIZE_MAX L) 0; sz = CheckSize L (blk_check (b_block b))
      in if sz < 0 \<or> sz > int (CHECK_SIZE_MAX L) then []
         else take (nat sz)
           (fold (\<lambda>i buf. buf[i := blk_raw_check (b_block b) ! i]) [0..<nat sz] buf))"

definition BlockBufferBound :: "('z, 'x) liblzma \<Rightarrow> int \<Rightarrow> int" where
  "BlockBufferBound L uncompressSize = to_i64 (c_block_buffer_bound L (of_i64 uncompressSize))"

subsection \<open>Constructed blocks\<close>

lemmas block_setters = SetCheck_def SetCompressedSize_def SetUncompressedSize_def SetFilters_def
lemmas block_getters = GetVersion_def GetHeaderSize_def GetCheck_def GetCompressedSize_def
  GetUncompressedSize_def GetFilters_def

lemma NewBlockCustom_fields:
  "b_block (NewBlockCustom L check f c u) =
     \<lparr>blk_version = 0, blk_header_size = 0, blk_check = check, blk_compressed_size = of_i64 c,
      blk_uncompressed_size = of_i64 u, blk_filters = fl_filters f,
      blk_raw_check = replicate (CHECK_SIZE_MAX L) 0\<rparr>"
  "b_filters (NewBlockCustom L check f c u) = f"
  by (simp_all add: NewBlockCustom_def block_setters zero_block_def Let_def)

lemma fold_store_prefix:
  assumes "n \<le> length buf" and "n \<le> length src"
  shows "take n (fold (\<lambda>i buf. buf[i := src ! i]) [0..<n] buf) = take n src \<and>
         length (fold (\<lambda>i buf. buf[i := src ! i]) [0..<n] buf) = length buf"
  using assms
proof (induction n)
  case 0
  then show ?case by simp
next
  case (Suc n)
  let ?b = "fold (\<lambda>i buf. buf[i := src ! i]) [0..<n] buf"
  from Suc have t: "take n ?b = take n src" and l: "length ?b = length buf" by simp_all
  with Suc.prems show ?case by (simp add: take_Suc_conv_app_nth)
qed

lemma GetRawCheck_eq:
  assumes "length (blk_raw_check (b_block b)) = CHECK_SIZE_MAX L"
    and "CheckSize L (GetCheck b) \<le> int (CHECK_SIZE_MAX L)"
  shows "GetRawCheck L b = take (nat (CheckSize L (GetCheck b))) (blk_raw_check (b_block b))"
proof -
  let ?n = "nat (CheckSize L (GetCheck b))"
  have "?n \<le> CHECK_SIZE_MAX L" using assms(2) by simp
  then have "take ?n (fold (\<lambda>i buf. buf[i := blk_raw_check (b_block b) ! i]) [0..<?n]
      (replicate (CHECK_SIZE_MAX L) 0)) = take ?n (blk_raw_check (b_block b))"
    using fold_store_prefix [of ?n "replicate (CHECK_SIZE_MAX L) 0" "blk_raw_check (b_block b)"]
      assms(1) by simp
  with assms(2) show ?thesis
    by (simp add: GetRawCheck_def GetCheck_def CheckSize_def Let_def)
qed

lemma HeaderSizeDecode_range:
  assumes "0 \<le> BLOCK_HEADER_SIZE_MIN L"
  shows "(case HeaderSizeDecode L b val of
      ((sz, None), b') \<Rightarrow> BLOCK_HEADER_SIZE_MIN L \<le> sz \<and> sz \<le> BLOCK_HEADER_SIZE_MAX L \<and>
                            GetHeaderSize b' = sz
    | ((sz, Some e), b') \<Rightarrow> e = LibErr DATA_ERROR \<and> b' = b)"
  by (simp add: HeaderSizeDecode_def Let_def GetHeaderSize_def)

end
