(* ===== verification/Xz_Const.thy ===== *)
theory Xz_Const
  imports Lib_Types
begin

text \<open>The configuration constants of package \<open>xz\<close> (\<open>xz/const.go\<close>).\<close>

definition kiloByte :: int where "kiloByte = 2 ^ 10"
definition megaByte :: int where "megaByte = 2 ^ 20"
definition gigaByte :: int where "gigaByte = 2 ^ 30"

definition DefaultCompression :: "('z, 'x) liblzma \<Rightarrow> int" where "DefaultCompression L = PRESET_DEFAULT L"

definition CheckDefault :: lzma_check where "CheckDefault = CHECK_CRC64"

definition ChunkStream :: int where "ChunkStream = -1"
definition ChunkLowest :: int where "ChunkLowest = 64 * kiloByte"
definition ChunkHighest :: int where "ChunkHighest = 1 * gigaByte"
definition ChunkDefault :: int where "ChunkDefault = 8 * megaByte"

definition BufferMin :: int where "BufferMin = 64 * kiloByte"
definition BufferMax :: int where "BufferMax = 1 * gigaByte"
definition BufferDefault :: int where "BufferDefault = 8 * ChunkDefault"

definition WorkersSync :: int where "WorkersSync = 0"
definition WorkersMin :: int where "WorkersMin = 1"
definition WorkersMax :: int where "WorkersMax = -1"
definition WorkersDefault :: int where "WorkersDefault = 8"

definition padZeros :: bytes where "padZeros = [0, 0, 0, 0]"

lemmas xz_sizes = kiloByte_def megaByte_def gigaByte_def ChunkStream_def ChunkLowest_def
  ChunkHighest_def ChunkDefault_def BufferMin_def BufferMax_def BufferDefault_def
lemmas xz_workers = WorkersSync_def WorkersMin_def WorkersMax_def WorkersDefault_def

end
