(* ===== verification/Go_Sha256.thy ===== *)
theory Go_Sha256
  imports Go_Prelude
begin

text \<open>
  \<open>sha256.Sum256\<close> of Go's standard library (package \<open>crypto/sha256\<close>), which \<open>xz/literal.go\<close> calls
  for the SHA-256 integrity check, after FIPS 180-4.
\<close>

unbundle bit_operations_syntax

text \<open>
  The round constants are the first 32 bits of the fractional parts of the cube roots of the first
  64 primes, the initial state those of the square roots of the first eight. \<open>iroot k n\<close> is the
  integer part of the \<open>k\<close>-th root, found bit by bit.
\<close>

definition iroot :: "nat \<Rightarrow> nat \<Rightarrow> nat" where
  "iroot k n = fold (\<lambda>i r. if (r + 2 ^ i) ^ k \<le> n then r + 2 ^ i else r) (rev [0..<40]) 0"

definition primes_below :: "nat \<Rightarrow> nat list" where
  "primes_below n = filter (\<lambda>p. \<forall>d \<in> set [2..<p]. \<not> d dvd p) [2..<n]"

definition sha_k :: "32 word list" where
  "sha_k = map (\<lambda>p. of_nat (iroot 3 (p * 2 ^ 96))) (primes_below 312)"

definition sha_h0 :: "32 word list" where
  "sha_h0 = map (\<lambda>p. of_nat (iroot 2 (p * 2 ^ 64))) (primes_below 20)"

fun be_words :: "bytes \<Rightarrow> 32 word list" where
  "be_words (a # b # c # d # r) =
     (push_bit 24 (ucast a) OR push_bit 16 (ucast b) OR push_bit 8 (ucast c) OR ucast d) # be_words r"
| "be_words _ = []"

definition be_bytes :: "nat \<Rightarrow> 'a::len word \<Rightarrow> bytes" where
  "be_bytes n w = rev (le_bytes n w)"

definition sha_pad :: "bytes \<Rightarrow> bytes" where
  "sha_pad m = m @ [0x80] @ replicate ((119 - length m mod 64) mod 64) 0 @
     be_bytes 8 (of_nat (8 * length m) :: 64 word)"

definition sha_extend :: "32 word list \<Rightarrow> 32 word list" where
  "sha_extend w =
     fold (\<lambda>t w.
       let a = w ! (t - 15); b = w ! (t - 2);
           s0 = word_rotr 7 a XOR word_rotr 18 a XOR drop_bit 3 a;
           s1 = word_rotr 17 b XOR word_rotr 19 b XOR drop_bit 10 b
       in w @ [w ! (t - 16) + s0 + w ! (t - 7) + s1]) [16..<64] w"

fun sha_round :: "32 word \<times> 32 word \<Rightarrow> 32 word list \<Rightarrow> 32 word list" where
  "sha_round (k, w) [a, b, c, d, e, f, g, h] =
     (let s1 = word_rotr 6 e XOR word_rotr 11 e XOR word_rotr 25 e;
          ch = (e AND f) XOR (NOT e AND g);
          t1 = h + s1 + ch + k + w;
          s0 = word_rotr 2 a XOR word_rotr 13 a XOR word_rotr 22 a;
          maj = (a AND b) XOR (a AND c) XOR (b AND c);
          t2 = s0 + maj
      in [t1 + t2, a, b, c, d + t1, e, f, g])"
| "sha_round _ s = s"

definition sha_block :: "bytes \<Rightarrow> 32 word list \<Rightarrow> 32 word list" where
  "sha_block b s = map2 (+) s (fold sha_round (zip sha_k (sha_extend (be_words b))) s)"

definition Sum256 :: "bytes \<Rightarrow> bytes" where
  "Sum256 m = concat (map (be_bytes 4) (fold sha_block (chunks 64 (sha_pad m)) sha_h0))"

lemma length_sha_round [simp]: "length (sha_round kw s) = length s"
  by (induction kw s rule: sha_round.induct) (simp_all add: Let_def)

lemma length_fold_sha_round [simp]: "length (fold sha_round kws s) = length s"
  by (induction kws arbitrary: s) simp_all

lemma length_fold_sha_block: "length (fold sha_block bs s) = length s"
  by (induction bs arbitrary: s) (simp_all add: sha_block_def)

lemma length_concat_be_bytes: "length (concat (map (be_bytes n) ws)) = n * length ws"
  by (induction ws) (simp_all add: be_bytes_def)

lemma length_primes_below_20: "length (primes_below 20) = 8"
  by code_simp

lemma length_Sum256 [simp]: "length (Sum256 m) = 32"
  by (simp add: Sum256_def length_concat_be_bytes length_fold_sha_block sha_h0_def
      length_primes_below_20)

end
