(* ===== verification/Lzma_Instance.thy ===== *)
theory Lzma_Instance
  imports Lib_Types
begin

text \<open>
  A small executable instance of the \<open>liblzma\<close> record, on which the hypotheses about liblzma are
  evaluated. Its coders store data instead of compressing it: a coder passes its input through, or
  emits the bytes it was created with; a decoder of an index accepts any input. Block headers have
  a fixed length of twelve bytes and are refused for an empty compressed size, as in liblzma.
\<close>

record store_coder =
  sc_pending :: bytes
  sc_block :: lzma_block
  sc_index :: "(64 word \<times> 64 word) list option"

definition no_block :: lzma_block where
  "no_block = \<lparr>blk_version = 0, blk_header_size = 0, blk_check = CHECK_NONE,
     blk_compressed_size = 0, blk_uncompressed_size = 0, blk_filters = [], blk_raw_check = []\<rparr>"

definition store_init :: store_coder where
  "store_init = \<lparr>sc_pending = [], sc_block = no_block, sc_index = None\<rparr>"

text \<open>
  Bytes go out in order, first the pending ones; input is taken up to the room that is left. The
  block the coder was created for counts its bytes.
\<close>

definition store_code ::
  "store_coder \<Rightarrow> lzma_action \<Rightarrow> bytes \<Rightarrow> nat \<Rightarrow> lzma_ret \<times> nat \<times> bytes \<times> store_coder" where
  "store_code z a src n =
     (let p = take n (sc_pending z); q = drop n (sc_pending z);
          k = min (length src) (n - length p);
          b = sc_block z;
          b = b\<lparr>blk_compressed_size := blk_compressed_size b + of_nat k,
                blk_uncompressed_size := blk_uncompressed_size b + of_nat k\<rparr>
      in (if a = FINISH \<and> q = [] \<and> k = length src then STREAM_END else OK,
          k, p @ take k src, z\<lparr>sc_pending := q, sc_block := b\<rparr>))"

definition store_lzma :: "(store_coder, (64 word \<times> 64 word) list) liblzma" where
  "store_lzma = \<lparr>
     STREAM_HEADER_SIZE = 12, BLOCK_HEADER_SIZE_MIN = 8, BLOCK_HEADER_SIZE_MAX = 1024,
     FILTERS_MAX = 4, CHECK_SIZE_MAX = 64, FILTER_LZMA2 = 33, PRESET_DEFAULT = 6,
     c_check_is_supported = (\<lambda>c. case c of CHECK_OTHER _ \<Rightarrow> False | _ \<Rightarrow> True),
     c_check_size = (\<lambda>c. case c of CHECK_NONE \<Rightarrow> 0 | CHECK_CRC32 \<Rightarrow> 4 | CHECK_CRC64 \<Rightarrow> 8
                       | CHECK_SHA256 \<Rightarrow> 32 | _ \<Rightarrow> - 1),
     c_crc32 = (\<lambda>bs c. sum_list (map ucast bs) + c),
     c_crc64 = (\<lambda>bs c. sum_list (map ucast bs) + c),
     c_lzma_preset = (\<lambda>p. (p > 9, \<lparr>opt_dict_size = 8388608, opt_rest = []\<rparr>)),
     c_stream_header_encode = (\<lambda>f. (OK, replicate 12 1)),
     c_stream_footer_encode = (\<lambda>f. (OK, replicate 12 2)),
     c_stream_header_decode = (\<lambda>f bs. (if take 12 bs = replicate 12 1 then OK else FORMAT_ERROR, f)),
     c_stream_footer_decode = (\<lambda>f bs. (if take 12 bs = replicate 12 2 then OK else FORMAT_ERROR,
                                 f\<lparr>sf_backward_size := 8\<rparr>)),
     c_stream_flags_compare = (\<lambda>f g. if sf_check f = sf_check g then OK else DATA_ERROR),
     c_block_header_size =
       (\<lambda>b. (if blk_compressed_size b = 0 then PROG_ERROR else OK, b\<lparr>blk_header_size := 12\<rparr>)),
     c_block_header_encode = (\<lambda>b. (OK, replicate (unat (blk_header_size b)) 3)),
     c_block_header_decode = (\<lambda>b bs. (OK, b)),
     c_block_header_size_decode = (\<lambda>v. (ucast v + 1) * 4),
     c_block_compressed_size = (\<lambda>b u. (OK, b\<lparr>blk_compressed_size := u - ucast (blk_header_size b)\<rparr>)),
     c_block_unpadded_size = (\<lambda>b. ucast (blk_header_size b) + blk_compressed_size b),
     c_block_total_size = (\<lambda>b. (ucast (blk_header_size b) + blk_compressed_size b + 3) div 4 * 4),
     c_block_buffer_bound = (\<lambda>u. u + 1024),
     c_index_init = Some [],
     c_index_append = (\<lambda>x u v. case x of None \<Rightarrow> (PROG_ERROR, None) | Some rs \<Rightarrow> (OK, Some (rs @ [(u, v)]))),
     c_index_stream_count = (\<lambda>x. 1),
     c_index_block_count = (\<lambda>x. case x of None \<Rightarrow> 0 | Some rs \<Rightarrow> of_nat (length rs)),
     c_index_size = (\<lambda>x. 8),
     c_index_stream_size = (\<lambda>x. 32),
     c_index_total_size = (\<lambda>x. case x of None \<Rightarrow> 0 | Some rs \<Rightarrow> sum_list (map fst rs)),
     c_index_file_size = (\<lambda>x. 32),
     c_index_uncompressed_size = (\<lambda>x. case x of None \<Rightarrow> 0 | Some rs \<Rightarrow> sum_list (map snd rs)),
     c_index_checks = (\<lambda>x. 0),
     c_index_stream_flags = (\<lambda>x f. (OK, x)),
     c_index_stream_padding = (\<lambda>x p. (OK, x)),
     c_index_cat = (\<lambda>x y. case (x, y) of (Some rs, Some ss) \<Rightarrow> (OK, Some (rs @ ss)) | _ \<Rightarrow> (PROG_ERROR, x)),
     c_index_dup = (\<lambda>x. x),
     c_stream_init = store_init,
     c_end = (\<lambda>z. store_init),
     c_block_encoder = (\<lambda>b. (OK, store_init\<lparr>sc_block := b\<lparr>blk_compressed_size := 0,
                          blk_uncompressed_size := 0\<rparr>\<rparr>)),
     c_block_decoder = (\<lambda>b. (OK, store_init\<lparr>sc_block := b\<rparr>)),
     c_index_encoder = (\<lambda>x. (OK, store_init\<lparr>sc_pending := replicate 8 4\<rparr>)),
     c_index_decoder = (\<lambda>m. (OK, store_init\<lparr>sc_index := Some []\<rparr>)),
     c_alone_encoder = (\<lambda>p. (OK, store_init)),
     c_alone_decoder = (\<lambda>m. (OK, store_init)),
     c_stream_encoder = (\<lambda>f c. (OK, store_init)),
     c_stream_decoder = (\<lambda>m f. (OK, store_init)),
     c_code = store_code,
     c_coder_block = sc_block,
     c_coder_index = sc_index,
     c_get_check = (\<lambda>z. CHECK_NONE)\<rparr>"

lemma store_lzma_simps [simp]:
  "STREAM_HEADER_SIZE store_lzma = 12" "BLOCK_HEADER_SIZE_MIN store_lzma = 8"
  "BLOCK_HEADER_SIZE_MAX store_lzma = 1024" "FILTERS_MAX store_lzma = 4"
  "CHECK_SIZE_MAX store_lzma = 64" "FILTER_LZMA2 store_lzma = 33" "PRESET_DEFAULT store_lzma = 6"
  "c_lzma_preset store_lzma = (\<lambda>p. (p > 9, \<lparr>opt_dict_size = 8388608, opt_rest = []\<rparr>))"
  "c_block_header_size store_lzma =
     (\<lambda>b. (if blk_compressed_size b = 0 then PROG_ERROR else OK, b\<lparr>blk_header_size := 12\<rparr>))"
  "c_block_header_encode store_lzma = (\<lambda>b. (OK, replicate (unat (blk_header_size b)) 3))"
  "c_check_size store_lzma = (\<lambda>c. case c of CHECK_NONE \<Rightarrow> 0 | CHECK_CRC32 \<Rightarrow> 4 | CHECK_CRC64 \<Rightarrow> 8
     | CHECK_SHA256 \<Rightarrow> 32 | _ \<Rightarrow> - 1)"
  "c_code store_lzma = store_code"
  "c_coder_block store_lzma = sc_block" "c_coder_index store_lzma = sc_index"
  by (simp_all add: store_lzma_def)

end
