(* ===== verification/Xz_Literal.thy ===== *)
theory Xz_Literal
  imports Xz_Const Go_Sha256 Lzma_Instance
begin

text \<open>
  Literal blocks (\<open>xz/literal.go\<close>): when a chunk does not compress, the writer stores it verbatim in
  uncompressed LZMA2 chunks. The size computations are on \<open>int64\<close>; the encoder fills a slice with
  bounds-checked stores. \<open>lzma2_literal\<close> is what the data part of a literal block has to be, and
  \<open>lzma2_decode\<close> a decoder for the uncompressed chunks of the LZMA2 format.
\<close>

section \<open>The code\<close>

definition literalChunkSize :: nat where "literalChunkSize = 65536"
definition literalChunkMarker :: byte where "literalChunkMarker = 1"
definition literalEndMarker :: byte where "literalEndMarker = 0"

lemmas literal_consts = literalChunkSize_def literalChunkMarker_def literalEndMarker_def

definition literalFilters :: "('z, 'x) liblzma \<Rightarrow> Filters go" where
  "literalFilters L =
     (let (opts, _) = NewOptionsLZMA L (PRESET_DEFAULT L)
      in Filters_Append (NewFilters L) (FILTER_LZMA2 L) opts)"

definition literalCheckSupport :: "lzma_check \<Rightarrow> unit go" where
  "literalCheckSupport check =
     (case check of
        CHECK_NONE \<Rightarrow> Ret () | CHECK_CRC32 \<Rightarrow> Ret () | CHECK_CRC64 \<Rightarrow> Ret () | CHECK_SHA256 \<Rightarrow> Ret ()
      | _ \<Rightarrow> Pan (PVal optionsError))"

definition literalCompSize :: "int \<Rightarrow> int" where
  "literalCompSize uncompSize =
     (let numChunks = go_quot (wrap64 (wrap64 (uncompSize + int literalChunkSize) - 1))
                              (int literalChunkSize)
      in wrap64 (wrap64 (uncompSize + wrap64 (numChunks * 3)) + 1))"

definition literalBlockSize ::
  "('z, 'x) liblzma \<Rightarrow> errs \<Rightarrow> lzma_check \<Rightarrow> int \<Rightarrow> int go" where
  "literalBlockSize L E check uncompSize =
     gobind (literalCheckSupport check) (\<lambda>_.
     let compSize = literalCompSize uncompSize in
     gobind (literalFilters L) (\<lambda>filters.
     let block = NewBlockCustom L check filters compSize uncompSize;
         ((headerSize, err), block) = HeaderSize L block in
     gobind (errs_Panic E err) (\<lambda>_.
     let padSize = go_rem (4 - go_rem compSize 4) 4;
         checkSize = CheckSize L check in
     Ret (wrap64 (wrap64 (wrap64 (headerSize + compSize) + padSize) + checkSize)))))"

function literalChunks :: "bytes \<Rightarrow> nat \<Rightarrow> bytes \<Rightarrow> nat \<Rightarrow> (bytes \<times> nat) go" where
  "literalChunks input inCnt output cnt =
     (if inCnt < length input then
        let chunk = drop inCnt input;
            chunk = (if length chunk > literalChunkSize then take literalChunkSize chunk else chunk) in
        gobind (store_at output cnt literalChunkMarker) (\<lambda>output.
        let cnt = cnt + 1;
            sz = (word_of_int (int (length chunk) - 1) :: 16 word) in
        gobind (put_at output cnt (be16 sz)) (\<lambda>output.
        let cnt = cnt + 2 in
        gobind (copy_at output cnt chunk) (\<lambda>(n, output).
        literalChunks input (inCnt + literalChunkSize) output (cnt + n))))
      else Ret (output, cnt))"
  by pat_completeness auto
termination
  by (relation "measure (\<lambda>(input, inCnt, output, cnt). length input - inCnt)")
     (auto simp: literalChunkSize_def)

lemma pad_decreases: "0 < c mod 4 \<Longrightarrow> (4 - Suc c mod 4) mod 4 < 4 - c mod (4::nat)"
proof -
  assume "0 < c mod 4"
  moreover have "c mod 4 < 4" by simp
  ultimately have "c mod 4 = 1 \<or> c mod 4 = 2 \<or> c mod 4 = 3" by linarith
  then show ?thesis by (auto simp: mod_Suc)
qed

function literalPad :: "bytes \<Rightarrow> nat \<Rightarrow> nat \<Rightarrow> (bytes \<times> nat \<times> nat) go" where
  "literalPad output cnt pad =
     (if cnt mod 4 > 0 then
        gobind (store_at output cnt 0) (\<lambda>output. literalPad output (cnt + 1) (pad + 1))
      else Ret (output, cnt, pad))"
  by pat_completeness auto
termination
  by (relation "measure (\<lambda>(output, cnt, pad). (4 - cnt mod 4) mod 4)")
     (simp_all add: pad_decreases)

declare literalChunks.simps [simp del] literalPad.simps [simp del]

definition literalCheckStore ::
  "('z, 'x) liblzma \<Rightarrow> lzma_check \<Rightarrow> bytes \<Rightarrow> bytes \<Rightarrow> nat \<Rightarrow> bytes go" where
  "literalCheckStore L check input output cnt =
     (case check of
        CHECK_NONE \<Rightarrow> Ret output
      | CHECK_CRC32 \<Rightarrow> put_at output cnt (le_bytes 4 (CRC32 L input 0))
      | CHECK_CRC64 \<Rightarrow> put_at output cnt (le_bytes 8 (CRC64 L input 0))
      | CHECK_SHA256 \<Rightarrow> gobind (copy_at output cnt (Sum256 input)) (\<lambda>(_, output). Ret output)
      | _ \<Rightarrow> Ret output)"

text \<open>The result is the pair \<open>(cnt, pad)\<close> and the new contents of the output slice.\<close>

definition literalBlockEncode ::
  "('z, 'x) liblzma \<Rightarrow> errs \<Rightarrow> lzma_check \<Rightarrow> bytes \<Rightarrow> bytes \<Rightarrow> ((nat \<times> nat) \<times> bytes) go" where
  "literalBlockEncode L E check input output =
     gobind (literalCheckSupport check) (\<lambda>_.
     let uncompSize = int (length input); compSize = literalCompSize uncompSize in
     gobind (literalFilters L) (\<lambda>filters.
     let block = NewBlockCustom L check filters compSize uncompSize;
         ((headerSize, err), block) = HeaderSize L block in
     gobind (errs_Panic E err) (\<lambda>_.
     gobind (Block_HeaderEncode L block output) (\<lambda>(err, output).
     gobind (errs_Panic E err) (\<lambda>_.
     let cnt = 0 + nat headerSize in
     gobind (literalChunks input 0 output cnt) (\<lambda>(output, cnt).
     gobind (store_at output cnt literalEndMarker) (\<lambda>output.
     gobind (literalPad output (cnt + 1) 0) (\<lambda>(output, cnt, pad).
     gobind (literalCheckStore L check input output cnt) (\<lambda>output.
     Ret ((cnt + nat (CheckSize L check), pad), output))))))))))"

section \<open>What liblzma promises here\<close>

text \<open>
  \<open>lzma_block_header_size\<close> only sets \<open>header_size\<close>, to a multiple of four; encoding the header of a
  block whose size was computed that way succeeds and stores \<open>header_size\<close> bytes.
\<close>

definition lzma_header_laws :: "('z, 'x) liblzma \<Rightarrow> bool" where
  "lzma_header_laws L \<longleftrightarrow>
     (\<forall>b b'. c_block_header_size L b = (OK, b') \<longrightarrow>
        b' = b\<lparr>blk_header_size := blk_header_size b'\<rparr> \<and> 4 dvd unat (blk_header_size b') \<and>
        (\<exists>bs. c_block_header_encode L b' = (OK, bs) \<and> length bs = unat (blk_header_size b')))"

text \<open>The sizes of the four checks the package supports, as the XZ format fixes them.\<close>

definition lzma_check_laws :: "('z, 'x) liblzma \<Rightarrow> bool" where
  "lzma_check_laws L \<longleftrightarrow>
     c_check_size L CHECK_NONE = 0 \<and> c_check_size L CHECK_CRC32 = 4 \<and>
     c_check_size L CHECK_CRC64 = 8 \<and> c_check_size L CHECK_SHA256 = 32"

section \<open>Reference definitions\<close>

definition literal_chunk :: "bytes \<Rightarrow> bytes" where
  "literal_chunk c = literalChunkMarker # be16 (word_of_int (int (length c) - 1)) @ c"

definition literal_body :: "bytes \<Rightarrow> bytes" where
  "literal_body input = concat (map literal_chunk (chunks literalChunkSize input))"

definition lzma2_literal :: "bytes \<Rightarrow> bytes" where
  "lzma2_literal input = literal_body input @ [literalEndMarker]"

definition literal_check :: "('z, 'x) liblzma \<Rightarrow> lzma_check \<Rightarrow> bytes \<Rightarrow> bytes" where
  "literal_check L check input =
     (case check of CHECK_CRC32 \<Rightarrow> le_bytes 4 (CRC32 L input 0)
      | CHECK_CRC64 \<Rightarrow> le_bytes 8 (CRC64 L input 0)
      | CHECK_SHA256 \<Rightarrow> Sum256 input | _ \<Rightarrow> [])"

text \<open>
  The uncompressed chunks of LZMA2: a control byte 1 (reset the dictionary) or 2, the chunk length
  less one in two bytes, the data; a control byte 0 ends the stream. The result is the decoded data
  and the unread rest.
\<close>

function lzma2_decode :: "bytes \<Rightarrow> (bytes \<times> bytes) option" where
  "lzma2_decode bs =
     (case bs of
        [] \<Rightarrow> None
      | c # r \<Rightarrow>
          if c = 0 then Some ([], r)
          else if c = 1 \<or> c = 2 then
            (case r of
               h # l # r' \<Rightarrow>
                 let n = from_be16 h l + 1 in
                 if n \<le> length r' then
                   map_option (\<lambda>(d, rest). (take n r' @ d, rest)) (lzma2_decode (drop n r'))
                 else None
             | _ \<Rightarrow> None)
          else None)"
  by pat_completeness auto
termination
  by (relation "measure length") auto

declare lzma2_decode.simps [simp del]

section \<open>Sizes\<close>

lemma literal_chunk_length [simp]: "length (literal_chunk c) = length c + 3"
  by (simp add: literal_chunk_def)

lemma length_concat_literal_chunk:
  "length (concat (map literal_chunk cs)) = length (concat cs) + 3 * length cs"
  by (induction cs) simp_all

lemma length_literal_body:
  "length (literal_body input) =
     length input + 3 * ((length input + literalChunkSize - 1) div literalChunkSize)"
  by (simp add: literal_body_def length_concat_literal_chunk concat_chunks length_chunks
      literalChunkSize_def)

text \<open>Far below the range of \<open>int64\<close> none of the intermediate sums wraps around.\<close>

lemma literalCompSize_exact:
  assumes "0 \<le> u" and "u \<le> 2 ^ 62"
  shows "literalCompSize u = u + 3 * ((u + 65535) div 65536) + 1"
proof -
  have q: "(u + 65535) div 65536 \<le> u + 65535" using assms by simp
  have q2: "(u + 65535) div 65536 * 3 \<le> 2 ^ 60" using assms by simp
  have "wrap64 (u + 65536) = u + 65536" and w: "wrap64 (u + 65535) = u + 65535"
    using assms by (simp_all add: wrap64_id in64_def)
  then have n: "go_quot (wrap64 (wrap64 (u + 65536) - 1)) 65536 = (u + 65535) div 65536"
    using assms by (simp add: go_quot_nonneg add.commute)
  have "wrap64 ((u + 65535) div 65536 * 3) = (u + 65535) div 65536 * 3"
    using assms q2 by (simp add: wrap64_id in64_def)
  moreover have "wrap64 (u + (u + 65535) div 65536 * 3) = u + (u + 65535) div 65536 * 3"
    using assms q2 by (simp add: wrap64_id in64_def)
  moreover have "wrap64 (u + (u + 65535) div 65536 * 3 + 1) = u + (u + 65535) div 65536 * 3 + 1"
    using assms q2 by (simp add: wrap64_id in64_def)
  ultimately show ?thesis
    by (simp add: literalCompSize_def literalChunkSize_def Let_def n)
qed

lemma literalCompSize_length:
  assumes "length input \<le> 2 ^ 62"
  shows "literalCompSize (int (length input)) = int (length (lzma2_literal input))"
proof -
  have "int ((length input + 65536 - 1) div 65536) = (int (length input) + 65535) div 65536"
    by (simp add: zdiv_int)
  moreover have "int (length input) \<le> 2 ^ 62" using assms by simp
  ultimately show ?thesis
    by (simp add: literalCompSize_exact lzma2_literal_def length_literal_body literalChunkSize_def)
qed

section \<open>The loops of the encoder\<close>

lemma literal_body_Nil [simp]: "literal_body [] = []"
  by (simp add: literal_body_def)

lemma literal_body_step:
  "xs \<noteq> [] \<Longrightarrow> literal_body xs =
     literal_chunk (take literalChunkSize xs) @ literal_body (drop literalChunkSize xs)"
  by (simp add: literal_body_def chunks_step literalChunkSize_def)

text \<open>One turn of the chunk loop stores exactly one literal chunk.\<close>

lemma literalChunks_step:
  assumes "inCnt < length input" and "length pre = cnt"
    and "c = take literalChunkSize (drop inCnt input)" and "length (literal_chunk c) \<le> length post"
  shows "literalChunks input inCnt (pre @ post) cnt =
         literalChunks input (inCnt + literalChunkSize)
           ((pre @ literal_chunk c) @ drop (length (literal_chunk c)) post)
           (cnt + length (literal_chunk c))"
proof -
  have ch: "(if length (drop inCnt input) > literalChunkSize
             then take literalChunkSize (drop inCnt input) else drop inCnt input) = c"
    using assms(3) by simp
  from assms(4) obtain p0 p1 p2 post' where post: "post = p0 # p1 # p2 # post'"
    and fit: "length c \<le> length post'"
    by (cases post; cases "tl post"; cases "tl (tl post)") auto
  let ?sz = "be16 (word_of_int (int (length c) - 1))"
  have s1: "store_at (pre @ post) cnt literalChunkMarker
      = Ret ((pre @ [literalChunkMarker]) @ p1 # p2 # post')"
    using assms(2) by (simp add: post store_at_fit)
  have s2: "put_at ((pre @ [literalChunkMarker]) @ p1 # p2 # post') (cnt + 1) ?sz
      = Ret ((pre @ literalChunkMarker # ?sz) @ post')"
    using assms(2) put_at_fit [of "pre @ [literalChunkMarker]" "cnt + 1" ?sz "p1 # p2 # post'"]
    by simp
  have s3: "copy_at ((pre @ literalChunkMarker # ?sz) @ post') (cnt + 1 + 2) c
      = Ret (length c, (pre @ literalChunkMarker # ?sz) @ c @ drop (length c) post')"
    using assms(2) fit by (intro copy_at_fit) simp_all
  have "drop (length (literal_chunk c)) post = drop (length c) post'"
    by (simp add: post numeral_3_eq_3)
  moreover have "literalChunks input inCnt (pre @ post) cnt =
      literalChunks input (inCnt + literalChunkSize)
        ((pre @ literalChunkMarker # ?sz) @ c @ drop (length c) post') (cnt + 1 + 2 + length c)"
    by (subst literalChunks.simps)
       (simp only: assms(1) if_True Let_def ch s1 s2 s3 gobind.simps prod.case)
  ultimately show ?thesis by (simp add: literal_chunk_def)
qed

lemma literalChunks_spec:
  assumes "length pre = cnt" and "length (literal_body (drop inCnt input)) \<le> length post"
  shows "literalChunks input inCnt (pre @ post) cnt =
         Ret (pre @ literal_body (drop inCnt input) @
                drop (length (literal_body (drop inCnt input))) post,
              cnt + length (literal_body (drop inCnt input)))"
  using assms
proof (induction "length input - inCnt" arbitrary: inCnt pre post cnt rule: less_induct)
  case less
  show ?case
  proof (cases "inCnt < length input")
    case False
    then show ?thesis by (subst literalChunks.simps) simp
  next
    case True
    let ?c = "take literalChunkSize (drop inCnt input)"
    let ?b = "literal_body (drop (inCnt + literalChunkSize) input)"
    have b: "literal_body (drop inCnt input) = literal_chunk ?c @ ?b"
      using True by (simp add: literal_body_step add.commute)
    let ?post = "drop (length (literal_chunk ?c)) post"
    have "literalChunks input inCnt (pre @ post) cnt =
        literalChunks input (inCnt + literalChunkSize) ((pre @ literal_chunk ?c) @ ?post)
          (cnt + length (literal_chunk ?c))"
      using True less.prems by (intro literalChunks_step) (simp_all add: b)
    also have "\<dots> = Ret ((pre @ literal_chunk ?c) @ ?b @ drop (length ?b) ?post,
        cnt + length (literal_chunk ?c) + length ?b)"
      using True less.prems by (intro less.hyps) (simp_all add: b literalChunkSize_def)
    finally show ?thesis by (simp add: b add.commute add.left_commute)
  qed
qed

definition pad4 :: "nat \<Rightarrow> nat" where
  "pad4 n = (4 - n mod 4) mod 4"

lemma pad4_step: "0 < c mod 4 \<Longrightarrow> pad4 c = Suc (pad4 (Suc c))"
proof -
  assume "0 < c mod 4"
  moreover have "c mod 4 < 4" by simp
  ultimately have "c mod 4 = 1 \<or> c mod 4 = 2 \<or> c mod 4 = 3" by linarith
  then show ?thesis by (auto simp: pad4_def mod_Suc)
qed

lemma pad4_bound: "pad4 n < 4"
  by (simp add: pad4_def)

lemma pad4_add: "4 dvd h \<Longrightarrow> pad4 (h + n) = pad4 n"
  by (auto simp: pad4_def elim!: dvdE)

lemma literalPad_spec:
  assumes "length pre = cnt" and "pad4 cnt \<le> length post"
  shows "literalPad (pre @ post) cnt pad =
         Ret (pre @ replicate (pad4 cnt) 0 @ drop (pad4 cnt) post, cnt + pad4 cnt, pad + pad4 cnt)"
  using assms
proof (induction "pad4 cnt" arbitrary: cnt pre post pad)
  case 0
  then have "cnt mod 4 = 0" by (metis not_gr_zero pad4_step nat.distinct(1))
  with "0" show ?case by (subst literalPad.simps) (simp add: pad4_def)
next
  case (Suc n)
  then have pos: "0 < cnt mod 4" by (cases "cnt mod 4 = 0") (simp_all add: pad4_def)
  with Suc.hyps(2) have n: "n = pad4 (Suc cnt)" by (simp add: pad4_step)
  from Suc.hyps(2) Suc.prems obtain q post' where post: "post = q # post'" by (cases post) auto
  have "literalPad (pre @ post) cnt pad = literalPad ((pre @ [0]) @ post') (Suc cnt) (Suc pad)"
    using pos Suc.prems by (subst literalPad.simps) (simp add: post store_at_fit)
  also have "\<dots> = Ret ((pre @ [0]) @ replicate n 0 @ drop n post', Suc cnt + n, Suc pad + n)"
    using Suc.hyps(1) [OF n, of "pre @ [0]" post' "Suc pad"] Suc.prems Suc.hyps(2)
    by (simp add: post n)
  finally show ?case by (simp add: Suc.hyps(2) [symmetric] post)
qed

section \<open>The whole block\<close>

lemma literalCheckSupport_cases:
  "literalCheckSupport check = Ret () \<and>
     check \<in> {CHECK_NONE, CHECK_CRC32, CHECK_CRC64, CHECK_SHA256}
   \<or> literalCheckSupport check = Pan (PVal optionsError) \<and> (\<exists>n. check = CHECK_OTHER n)"
  by (cases check) (simp_all add: literalCheckSupport_def)

lemma CheckSize_literal_check:
  assumes "lzma_check_laws L" and "literalCheckSupport check = Ret u"
  shows "CheckSize L check = int (length (literal_check L check input))"
  using assms
  by (cases check)
     (simp_all add: lzma_check_laws_def CheckSize_def literal_check_def literalCheckSupport_def)

lemma literalCheckStore_fit:
  assumes "literalCheckSupport check = Ret u" and "length pre = cnt"
    and "length (literal_check L check input) \<le> length post"
  shows "literalCheckStore L check input (pre @ post) cnt =
         Ret (pre @ literal_check L check input @
              drop (length (literal_check L check input)) post)"
  using assms
  by (cases check)
     (simp_all add: literalCheckStore_def literal_check_def literalCheckSupport_def
        put_at_fit copy_at_fit)

text \<open>
  The header of a literal block for \<open>n\<close> bytes, when liblzma accepts the block, and the total size
  of the block in terms of its parts.
\<close>

definition literal_header ::
  "('z, 'x) liblzma \<Rightarrow> errs \<Rightarrow> lzma_check \<Rightarrow> nat \<Rightarrow> bytes go" where
  "literal_header L E check n =
     gobind (literalFilters L) (\<lambda>filters.
     let ((_, err), block) =
           HeaderSize L (NewBlockCustom L check filters (literalCompSize (int n)) (int n)) in
     gobind (errs_Panic E err) (\<lambda>_. Ret (snd (c_block_header_encode L (b_block block)))))"

lemma literalBlockSize_parts:
  assumes E: "errs_ok E" and H: "lzma_header_laws L" and C: "lzma_check_laws L"
    and len: "length input \<le> 2 ^ 62"
    and sz: "literalBlockSize L E check (int (length input)) = Ret n"
  obtains filters cb hdr where
    "literalCheckSupport check = Ret ()" "literalFilters L = Ret filters"
    "c_block_header_size L (b_block (NewBlockCustom L check filters
       (literalCompSize (int (length input))) (int (length input)))) = (OK, cb)"
    "c_block_header_encode L cb = (OK, hdr)" "literal_header L E check (length input) = Ret hdr"
    "unat (blk_header_size cb) = length hdr" "4 dvd length hdr"
    "n = int (length hdr + length (lzma2_literal input) + pad4 (length (lzma2_literal input)) +
              length (literal_check L check input))"
proof -
  let ?lit = "length (lzma2_literal input)" and ?u = "int (length input)"
  let ?blk = "\<lambda>f. b_block (NewBlockCustom L check f (literalCompSize ?u) ?u)"
  from sz have sup: "literalCheckSupport check = Ret ()"
    by (auto simp: literalBlockSize_def gobind_eq_Ret)
  from sz obtain filters where f: "literalFilters L = Ret filters"
    by (cases "literalFilters L") (auto simp: literalBlockSize_def gobind_eq_Ret)
  obtain r cb where cb: "c_block_header_size L (?blk filters) = (r, cb)" by fastforce
  with sz sup f E have r: "r = OK"
    by (cases "r = OK") (simp_all add: literalBlockSize_def HeaderSize_def NewError_err golib_laws)
  with H cb obtain hdr where
    hdr: "c_block_header_encode L cb = (OK, hdr)" "length hdr = unat (blk_header_size cb)"
      "4 dvd unat (blk_header_size cb)"
    unfolding lzma_header_laws_def by blast
  have comp: "literalCompSize ?u = int ?lit" using len by (rule literalCompSize_length)
  have chk: "CheckSize L check = int (length (literal_check L check input))"
    using C sup by (rule CheckSize_literal_check)
  have litle: "int ?lit \<le> 2 ^ 62 + 2 ^ 60"
    using len by (simp add: comp [symmetric] literalCompSize_exact)
  have hu: "uint (blk_header_size cb) = int (length hdr)" using hdr(2) by (intro uint_of_unat) simp
  have hle: "int (length hdr) < 2 ^ 32"
    using uint_range_size [of "blk_header_size cb"] by (simp add: word_size hu [symmetric])
  have cle: "int (length (literal_check L check input)) \<le> 32"
    by (cases check) (simp_all add: literal_check_def)
  have rem: "go_rem (4 - go_rem (int ?lit) 4) 4 = int (pad4 ?lit)"
  proof -
    have "go_rem (int ?lit) 4 = int (?lit mod 4)" by (simp add: go_rem_nonneg zmod_int)
    moreover have "4 - int (?lit mod 4) = int (4 - ?lit mod 4)" by (simp add: of_nat_diff)
    ultimately show ?thesis by (simp add: go_rem_nonneg zmod_int pad4_def)
  qed
  have "n = wrap64 (wrap64 (wrap64 (int (length hdr) + int ?lit) + int (pad4 ?lit)) +
      int (length (literal_check L check input)))"
    using sz sup f cb r E by (simp add: literalBlockSize_def HeaderSize_def golib_laws comp chk rem hu)
  moreover have "wrap64 (int (length hdr) + int ?lit) = int (length hdr) + int ?lit"
    using litle hle by (intro wrap64_id) (simp add: in64_def)
  moreover have "wrap64 (int (length hdr) + int ?lit + int (pad4 ?lit)) =
      int (length hdr) + int ?lit + int (pad4 ?lit)"
    using litle hle pad4_bound [of ?lit] by (intro wrap64_id) (simp add: in64_def)
  moreover have "wrap64 (int (length hdr) + int ?lit + int (pad4 ?lit) +
      int (length (literal_check L check input))) = int (length hdr) + int ?lit +
      int (pad4 ?lit) + int (length (literal_check L check input))"
    using litle hle cle pad4_bound [of ?lit] by (intro wrap64_id) (simp add: in64_def)
  ultimately have "n = int (length hdr + ?lit + pad4 ?lit + length (literal_check L check input))"
    by simp
  moreover have "literal_header L E check (length input) = Ret hdr"
    using f cb r E hdr by (simp add: literal_header_def HeaderSize_def golib_laws)
  ultimately show ?thesis using that sup f cb r hdr by simp
qed

lemma literalBlockEncode_layout:
  assumes E: "errs_ok E" and H: "lzma_header_laws L" and C: "lzma_check_laws L"
    and len: "length input \<le> 2 ^ 62"
    and sz: "literalBlockSize L E check (int (length input)) = Ret n"
    and fit: "n \<le> int (length output)"
  shows "\<exists>hdr pad. literal_header L E check (length input) = Ret hdr \<and> 4 dvd length hdr \<and>
     pad = pad4 (length (lzma2_literal input)) \<and>
     nat n = length (hdr @ lzma2_literal input @ replicate pad 0 @ literal_check L check input) \<and>
     literalBlockEncode L E check input output =
       Ret ((nat n, pad), hdr @ lzma2_literal input @ replicate pad 0 @
              literal_check L check input @ drop (nat n) output)"
proof -
  from E H C len sz obtain filters cb hdr where
    sup: "literalCheckSupport check = Ret ()" and f: "literalFilters L = Ret filters"
    and cb: "c_block_header_size L (b_block (NewBlockCustom L check filters
       (literalCompSize (int (length input))) (int (length input)))) = (OK, cb)"
    and enc: "c_block_header_encode L cb = (OK, hdr)"
    and lh: "literal_header L E check (length input) = Ret hdr"
    and hs: "unat (blk_header_size cb) = length hdr" and d4: "4 dvd length hdr"
    and n: "n = int (length hdr + length (lzma2_literal input) +
              pad4 (length (lzma2_literal input)) + length (literal_check L check input))"
    by (rule literalBlockSize_parts)
  let ?body = "literal_body input" and ?p = "pad4 (length (lzma2_literal input))"
  let ?chk = "literal_check L check input" and ?h = "length hdr"
  have lit: "length (lzma2_literal input) = length ?body + 1" by (simp add: lzma2_literal_def)
  from fit n have fit': "?h + (length ?body + 1) + ?p + length ?chk \<le> length output"
    by (simp add: lit)
  have o1: "overwrite output 0 hdr = hdr @ drop ?h output"
    using fit' by (simp add: overwrite_def)
  have hdrenc: "Block_HeaderEncode L (NewBlockCustom L check filters
      (literalCompSize (int (length input))) (int (length input)) \<lparr>b_block := cb\<rparr>) output
      = Ret (None, hdr @ drop ?h output)"
    using fit' hs enc by (simp add: Block_HeaderEncode_def o1 uint_of_unat [OF hs])
  have o2: "literalChunks input 0 (hdr @ drop ?h output) ?h =
      Ret (hdr @ ?body @ drop (?h + length ?body) output, ?h + length ?body)"
    using literalChunks_spec [of hdr ?h 0 input "drop ?h output"] fit'
    by (simp add: add.commute)
  have o3: "store_at ((hdr @ ?body) @ drop (?h + length ?body) output) (?h + length ?body)
        literalEndMarker
      = Ret ((hdr @ lzma2_literal input) @ drop (?h + length (lzma2_literal input)) output)"
    using fit' by (subst store_at_fit) (simp_all add: lzma2_literal_def drop_Suc [symmetric] tl_drop)
  have p: "pad4 (Suc (?h + length ?body)) = pad4 (Suc (length ?body))"
    using pad4_add [OF d4, of "Suc (length ?body)"] by simp
  have o4: "literalPad ((hdr @ lzma2_literal input) @ drop (?h + length (lzma2_literal input)) output)
        (?h + length ?body + 1) 0
      = Ret ((hdr @ lzma2_literal input @ replicate ?p 0) @
              drop (?h + length (lzma2_literal input) + ?p) output,
             ?h + length ?body + 1 + ?p, ?p)"
    using literalPad_spec [of "hdr @ lzma2_literal input" "?h + length ?body + 1"
        "drop (?h + length (lzma2_literal input)) output" 0] fit'
    by (simp add: p lit add.commute add.left_commute)
  have o5: "literalCheckStore L check input ((hdr @ lzma2_literal input @ replicate ?p 0) @
        drop (?h + length (lzma2_literal input) + ?p) output) (?h + length ?body + 1 + ?p)
      = Ret (hdr @ lzma2_literal input @ replicate ?p 0 @ ?chk @ drop (nat n) output)"
    using literalCheckStore_fit [OF sup, of "hdr @ lzma2_literal input @ replicate ?p 0"
        "?h + length ?body + 1 + ?p" L input "drop (?h + length (lzma2_literal input) + ?p) output"]
      fit' lit by (simp add: n nat_add_distrib add.commute add.left_commute)
  have cs: "CheckSize L check = int (length ?chk)" using C sup by (rule CheckSize_literal_check)
  have hsz: "HeaderSize L (NewBlockCustom L check filters (literalCompSize (int (length input)))
      (int (length input))) = ((int ?h, None), NewBlockCustom L check filters
      (literalCompSize (int (length input))) (int (length input)) \<lparr>b_block := cb\<rparr>)"
    using cb by (simp add: HeaderSize_def uint_of_unat [OF hs])
  have "nat n = ?h + length ?body + 1 + ?p + nat (CheckSize L check)"
    by (simp add: n cs lit nat_add_distrib)
  then have "literalBlockEncode L E check input output =
     Ret ((nat n, ?p), hdr @ lzma2_literal input @ replicate ?p 0 @ ?chk @ drop (nat n) output)"
    by (simp only: literalBlockEncode_def sup f hsz hdrenc o2 o3 [unfolded append_assoc]
        o4 [unfolded append_assoc] o5 [unfolded append_assoc] Let_def gobind.simps prod.case
        errs_okD(1) [OF E] nat_int add_0 append_assoc)
  moreover have "nat n = length (hdr @ lzma2_literal input @ replicate ?p 0 @ ?chk)"
    by (simp add: n nat_add_distrib)
  ultimately show ?thesis using lh d4 by blast
qed

section \<open>Decoding\<close>

lemma unat_chunk_size:
  assumes "c \<noteq> []" and "length c \<le> literalChunkSize"
  shows "unat (word_of_int (int (length c) - 1) :: 16 word) + 1 = length c"
proof -
  obtain n where n: "length c = Suc n" using assms(1) by (cases c) auto
  with assms(2) have "n < 2 ^ LENGTH(16)" by (simp add: literalChunkSize_def)
  then have "unat (of_nat n :: 16 word) = n" by (simp add: unsigned_of_nat take_bit_nat_eq_self)
  with n show ?thesis by simp
qed

lemma lzma2_decode_end: "lzma2_decode (0 # rest) = Some ([], rest)"
  by (subst lzma2_decode.simps) simp

lemma lzma2_decode_chunk:
  assumes "c \<noteq> []" and "length c \<le> literalChunkSize"
  shows "lzma2_decode (literal_chunk c @ r) = map_option (\<lambda>(d, rest). (c @ d, rest)) (lzma2_decode r)"
  using unat_chunk_size [OF assms]
  by (subst lzma2_decode.simps)
     (simp add: literal_chunk_def literalChunkMarker_def be16_def from_be16_be16 Let_def)

lemma lzma2_decode_literal: "lzma2_decode (lzma2_literal input @ rest) = Some (input, rest)"
proof -
  have "lzma2_decode (concat (map literal_chunk cs) @ 0 # rest) = Some (concat cs, rest)"
    if "\<And>c. c \<in> set cs \<Longrightarrow> c \<noteq> [] \<and> length c \<le> literalChunkSize" for cs
    using that
    by (induction cs) (simp_all add: lzma2_decode_end lzma2_decode_chunk)
  moreover have "\<And>c. c \<in> set (chunks literalChunkSize input) \<Longrightarrow>
      c \<noteq> [] \<and> length c \<le> literalChunkSize"
    by (rule chunks_bounds)
  ultimately show ?thesis
    by (simp add: lzma2_literal_def literal_body_def literalEndMarker_def literalChunkSize_def
        concat_chunks)
qed

section \<open>A buffer for the largest chunk serves every chunk\<close>

text \<open>
  The two sizes stored in a block header are variable-length integers: a header with smaller sizes
  is not longer, and sizes below accepted ones are accepted, an empty compressed size apart.
\<close>

definition lzma_header_mono :: "('z, 'x) liblzma \<Rightarrow> bool" where
  "lzma_header_mono L \<longleftrightarrow>
     (\<forall>b c u cb. c_block_header_size L b = (OK, cb) \<longrightarrow> 0 < c \<longrightarrow>
        c \<le> blk_compressed_size b \<longrightarrow> u \<le> blk_uncompressed_size b \<longrightarrow>
        (\<exists>cb'. c_block_header_size L (b\<lparr>blk_compressed_size := c, blk_uncompressed_size := u\<rparr>)
                 = (OK, cb') \<and> blk_header_size cb' \<le> blk_header_size cb))"

lemma pad4_round: "k + pad4 k = (k + 3) div 4 * 4"
proof -
  have "k mod 4 = 0 \<or> k mod 4 = 1 \<or> k mod 4 = 2 \<or> k mod 4 = 3" by linarith
  then show ?thesis unfolding pad4_def by (elim disjE) (simp_all, presburger+)
qed

lemma padded_mono: "m \<le> n \<Longrightarrow> m + pad4 m \<le> n + pad4 n"
  by (simp add: pad4_round div_le_mono)

lemma lzma2_literal_mono: "length xs \<le> length ys \<Longrightarrow>
  length (lzma2_literal xs) \<le> length (lzma2_literal ys)"
proof -
  assume le: "length xs \<le> length ys"
  then have "(length xs + literalChunkSize - 1) div literalChunkSize
      \<le> (length ys + literalChunkSize - 1) div literalChunkSize"
    by (intro div_le_mono) simp
  with le show ?thesis by (simp add: lzma2_literal_def length_literal_body)
qed

lemma of_i64_mono: "0 \<le> x \<Longrightarrow> x \<le> y \<Longrightarrow> y < 2 ^ 63 \<Longrightarrow> of_i64 x \<le> of_i64 y"
  by (simp add: of_i64_def word_le_def take_bit_int_eq_self unsigned_of_int)

lemma literalBlockSize_mono:
  assumes E: "errs_ok E" and H: "lzma_header_laws L" and C: "lzma_check_laws L"
    and M: "lzma_header_mono L"
    and le: "length (input :: bytes) \<le> length (big :: bytes)" and len: "length big \<le> 2 ^ 62"
    and sz: "literalBlockSize L E check (int (length big)) = Ret n"
  shows "\<exists>m. literalBlockSize L E check (int (length input)) = Ret m \<and> m \<le> n"
proof -
  from E H C len sz obtain filters cb hdr where
    sup: "literalCheckSupport check = Ret ()" and f: "literalFilters L = Ret filters"
    and cb: "c_block_header_size L (b_block (NewBlockCustom L check filters
       (literalCompSize (int (length big))) (int (length big)))) = (OK, cb)"
    and enc: "c_block_header_encode L cb = (OK, hdr)"
    and lh: "literal_header L E check (length big) = Ret hdr"
    and hs: "unat (blk_header_size cb) = length hdr" and d4: "4 dvd length hdr"
    and n: "n = int (length hdr + length (lzma2_literal big) +
              pad4 (length (lzma2_literal big)) + length (literal_check L check big))"
    by (rule literalBlockSize_parts)
  let ?blk = "\<lambda>xs :: bytes. b_block (NewBlockCustom L check filters
       (literalCompSize (int (length xs))) (int (length xs)))"
  have len': "length input \<le> 2 ^ 62" using le len by simp
  have comp: "literalCompSize (int (length input)) = int (length (lzma2_literal input))"
    "literalCompSize (int (length big)) = int (length (lzma2_literal big))"
    using len' len by (simp_all add: literalCompSize_length)
  have lit: "length (lzma2_literal input) \<le> length (lzma2_literal big)"
    using le by (rule lzma2_literal_mono)
  have big63: "int (length (lzma2_literal big)) < 2 ^ 63"
    using len by (simp add: comp(2) [symmetric] literalCompSize_exact)
  have "0 < (of_i64 (int (length (lzma2_literal input))) :: 64 word)"
  proof -
    have "of_i64 1 \<le> (of_i64 (int (length (lzma2_literal input))) :: 64 word)"
      using lit big63 by (intro of_i64_mono) (simp_all add: lzma2_literal_def)
    moreover have "0 < (of_i64 1 :: 64 word)" by (simp add: of_i64_def)
    ultimately show ?thesis by (rule less_le_trans [rotated])
  qed
  moreover have "of_i64 (int (length (lzma2_literal input))) \<le> blk_compressed_size (?blk big)"
    "of_i64 (int (length input)) \<le> blk_uncompressed_size (?blk big)"
    using lit big63 le len by (simp_all add: NewBlockCustom_fields comp of_i64_mono)
  moreover have "?blk input = (?blk big)\<lparr>blk_compressed_size := of_i64 (int (length (lzma2_literal input))),
      blk_uncompressed_size := of_i64 (int (length input))\<rparr>"
    by (simp add: NewBlockCustom_fields comp)
  ultimately obtain cb' where cb': "c_block_header_size L (?blk input) = (OK, cb')"
      and hle: "blk_header_size cb' \<le> blk_header_size cb"
    using M cb unfolding lzma_header_mono_def by metis
  obtain m where m: "literalBlockSize L E check (int (length input)) = Ret m"
    using sup f cb' E by (simp add: literalBlockSize_def HeaderSize_def golib_laws Let_def)
  from E H C len' m obtain filters' cb'' hdr' where
    sup': "literalCheckSupport check = Ret ()" and f': "literalFilters L = Ret filters'"
    and cb'': "c_block_header_size L (b_block (NewBlockCustom L check filters'
       (literalCompSize (int (length input))) (int (length input)))) = (OK, cb'')"
    and enc': "c_block_header_encode L cb'' = (OK, hdr')"
    and lh': "literal_header L E check (length input) = Ret hdr'"
    and hs': "unat (blk_header_size cb'') = length hdr'" and d4': "4 dvd length hdr'"
    and m': "m = int (length hdr' + length (lzma2_literal input) +
              pad4 (length (lzma2_literal input)) + length (literal_check L check input))"
    by (rule literalBlockSize_parts)
  from f f' cb' cb'' hle hs hs' have "length hdr' \<le> length hdr" by (simp add: word_le_nat_alt)
  moreover have "length (literal_check L check input) = length (literal_check L check big)"
    by (cases check) (simp_all add: literal_check_def)
  ultimately have "m \<le> n" using padded_mono [OF lit] by (simp add: m' n)
  with m show ?thesis by blast
qed

section \<open>The literal encoder as a bounded encoder\<close>

definition literal_valid :: "('z, 'x) liblzma \<times> errs \<times> lzma_check \<Rightarrow> bool" where
  "literal_valid c \<longleftrightarrow> (case c of (L, E, check) \<Rightarrow>
     errs_ok E \<and> lzma_header_laws L \<and> lzma_check_laws L \<and> lzma_header_mono L)"

definition literal_bound :: "('z, 'x) liblzma \<times> errs \<times> lzma_check \<Rightarrow> nat \<Rightarrow> nat option" where
  "literal_bound c n = (case c of (L, E, check) \<Rightarrow>
     if n \<le> 2 ^ 62 then
       (case literalBlockSize L E check (int n) of Ret m \<Rightarrow> Some (nat m) | Pan _ \<Rightarrow> None)
     else None)"

definition literal_encode ::
  "('z, 'x) liblzma \<times> errs \<times> lzma_check \<Rightarrow> bytes \<Rightarrow> bytes \<Rightarrow> (nat \<times> bytes) option" where
  "literal_encode c input output = (case c of (L, E, check) \<Rightarrow>
     (case literalBlockEncode L E check input output of
        Ret ((cnt, _), out) \<Rightarrow> Some (cnt, out) | Pan _ \<Rightarrow> None))"

text \<open>A block holds the input when its data part, behind the header, decodes to the input.\<close>

definition literal_holds ::
  "('z, 'x) liblzma \<times> errs \<times> lzma_check \<Rightarrow> bytes \<Rightarrow> bytes \<Rightarrow> bool" where
  "literal_holds c input blk \<longleftrightarrow> (case c of (L, E, check) \<Rightarrow>
     (\<exists>hdr pad. literal_header L E check (length input) = Ret hdr \<and>
        take (length hdr) blk = hdr \<and> pad < 4 \<and>
        lzma2_decode (drop (length hdr) blk) =
          Some (input, replicate pad 0 @ literal_check L check input)))"

lemmas literal_interface =
  literal_valid_def literal_bound_def literal_encode_def literal_holds_def

lemma literal_encode_fit:
  assumes "literal_valid c" and "literal_bound c (length input) = Some n" and "n \<le> length output"
  shows "\<exists>out. literal_encode c input output = Some (n, out) \<and> length out = length output \<and>
           drop n out = drop n output \<and> literal_holds c input (take n out)"
proof -
  obtain L E check where c: "c = (L, E, check)" by (cases c)
  from assms(1) have laws: "errs_ok E" "lzma_header_laws L" "lzma_check_laws L"
    by (simp_all add: literal_interface c)
  from assms(2) obtain m where len: "length input \<le> 2 ^ 62"
    and m: "literalBlockSize L E check (int (length input)) = Ret m" "n = nat m"
    by (auto simp: literal_interface c split: if_splits go.splits)
  have "m \<le> int (length output)" using m(2) assms(3) by simp
  from literalBlockEncode_layout [OF laws len m(1) this] obtain hdr pad where
    h: "literal_header L E check (length input) = Ret hdr"
      "pad = pad4 (length (lzma2_literal input))"
      "n = length (hdr @ lzma2_literal input @ replicate pad 0 @ literal_check L check input)"
      "literalBlockEncode L E check input output =
        Ret ((n, pad), hdr @ lzma2_literal input @ replicate pad 0 @
              literal_check L check input @ drop n output)"
    using m(2) by blast
  let ?blk = "hdr @ lzma2_literal input @ replicate pad 0 @ literal_check L check input"
  have "literal_encode c input output = Some (n, ?blk @ drop n output)"
    using h(4) by (simp add: literal_interface c)
  moreover have "literal_holds c input ?blk"
    using h(1,2) pad4_bound by (auto simp: literal_interface c lzma2_decode_literal)
  ultimately show ?thesis using h(3) assms(3) by simp
qed

lemma literal_bound_mono:
  assumes "literal_valid c" and "literal_bound c m = Some k" and "length (input :: bytes) \<le> m"
  shows "\<exists>j \<le> k. literal_bound c (length input) = Some j"
proof -
  obtain L E check where c: "c = (L, E, check)" by (cases c)
  from assms(1) have laws: "errs_ok E" "lzma_header_laws L" "lzma_check_laws L" "lzma_header_mono L"
    by (simp_all add: literal_interface c)
  let ?big = "replicate m 0 :: bytes"
  from assms(2) obtain n where n: "m \<le> 2 ^ 62" "k = nat n"
    "literalBlockSize L E check (int (length ?big)) = Ret n"
    by (auto simp: literal_interface c split: if_splits go.splits)
  then obtain j where "literalBlockSize L E check (int (length input)) = Ret j" "j \<le> n"
    using literalBlockSize_mono [OF laws, of input ?big] assms(3) by auto
  with n assms(3) show ?thesis by (auto simp: literal_interface c intro: nat_mono)
qed

interpretation lit: bounded_encoder literal_valid literal_bound literal_encode literal_holds
  by unfold_locales (fact literal_encode_fit, fact literal_bound_mono)

section \<open>Properties\<close>

lemma store_header_laws: "lzma_header_laws store_lzma"
  by (simp add: lzma_header_laws_def)

lemma store_check_laws: "lzma_check_laws store_lzma"
  by (simp add: lzma_check_laws_def)

lemma store_header_mono: "lzma_header_mono store_lzma"
  by (auto simp: lzma_header_mono_def word_gt_0)

lemmas store_literal_laws = errs_ok_std store_header_laws store_check_laws store_header_mono

lemma store_literal_filters: "\<exists>f. literalFilters store_lzma = Ret f"
  by (simp add: literalFilters_def NewOptionsLZMA_def Filters_Append_def NewFilters_def Let_def)

lemma store_literal_size: "literalBlockSize store_lzma errs_std CHECK_CRC32 3 = Ret 24"
proof -
  obtain f where f: "literalFilters store_lzma = Ret f" using store_literal_filters by blast
  have c: "literalCompSize 3 = 7" by (simp add: literalCompSize_exact)
  have h: "HeaderSize store_lzma (NewBlockCustom store_lzma CHECK_CRC32 f 7 3) =
      ((12, None), (NewBlockCustom store_lzma CHECK_CRC32 f 7 3)
        \<lparr>b_block := (b_block (NewBlockCustom store_lzma CHECK_CRC32 f 7 3))\<lparr>blk_header_size := 12\<rparr>\<rparr>)"
    by (simp add: HeaderSize_def NewBlockCustom_fields of_i64_def)
  have w: "wrap64 (wrap64 (wrap64 19 + 1) + 4) = 24" by (simp add: wrap64_def)
  have r: "go_rem (4 - go_rem 7 4) 4 = 1" by (simp add: go_rem_def)
  show ?thesis
    by (simp add: literalBlockSize_def literalCheckSupport_def CheckSize_def f c h r w
        errs_okD(1) [OF errs_ok_std])
qed





text \<open>
  C21: The size computed for the data of a literal block is exact: on \<open>int64\<close>, with no wrap-around
  up to \<open>2^62\<close> bytes, it is the number of bytes the encoder emits for the chunks, their headers and
  the end marker, which is at most three bytes per started chunk, and one, above the input.
\<close>

theorem literalCompSize_correct:
  assumes "length input \<le> 2 ^ 62"
  shows "literalCompSize (int (length input)) = int (length (lzma2_literal input)) \<and>
    literalCompSize (int (length input)) \<le> int (length input) + 3 * (int (length input) div 65536 + 1) + 1 \<and>
    int (length input) < literalCompSize (int (length input))"
proof -
  let ?u = "int (length input)"
  have "?u \<le> 2 ^ 62" using assms by simp
  then have a: "literalCompSize ?u = ?u + 3 * ((?u + 65535) div 65536) + 1"
    by (simp add: literalCompSize_exact)
  have b: "(?u + 65535) div 65536 \<le> (?u + 65536) div 65536"
    by (rule zdiv_mono1) simp_all
  have c: "(?u + 65536) div 65536 = ?u div 65536 + 1"
    by (rule div_add_self2) simp
  have d: "0 \<le> (?u + 65535) div 65536" by simp
  have "s \<le> v + 3 * (r + 1) + 1" if "s = v + 3 * q + 1" "q \<le> p" "p = r + 1" for s v q p r :: int
    using that by simp
  from this [OF a b c] have "literalCompSize ?u \<le> ?u + 3 * (?u div 65536 + 1) + 1" .
  moreover have "?u < literalCompSize ?u" unfolding a using d by simp
  ultimately show ?thesis using literalCompSize_length [OF assms] by blast
qed

theorem literalCompSize_correct_witness:
  "literalCompSize (int (length [1 :: byte, 2])) = int (length (lzma2_literal [1, 2]))"
  using literalCompSize_correct [of "[1, 2]"] by simp


end
