(* ===== verification/Bufpipe.thy ===== *)
theory Bufpipe
  imports Golib
begin

text \<open>
  Package \<open>golib/bufpipe\<close>, a third-party package whose source is not part of the repository: a
  buffered pipe between a producer and a consumer. \<open>'p\<close> is the type of \<open>*BufferPipe\<close> values, nil
  (\<open>bp_nil\<close>) included, since the program calls methods on nil pipes; a method that changes the pipe
  returns the changed pipe.

  \<open>bp_Array\<close> is the memory behind the slice \<open>Buffer()\<close>, up to its capacity; \<open>bp_SetBuffer\<close> is the
  pipe after the program stored through that slice, \<open>bp_Store\<close> after it stored at the front of the
  first slice of \<open>WriteSlices()\<close>, whose two lengths \<open>bp_WriteSlices\<close> gives.
\<close>

datatype bp_mode = LineMono | LineDual | RingPoll | RingBlock

record 'p bufpipe =
  bp_nil :: 'p
  bp_New :: "bytes \<Rightarrow> bp_mode \<Rightarrow> 'p"
  bp_Mode :: "'p \<Rightarrow> bp_mode"
  bp_Capacity :: "'p \<Rightarrow> int"
  bp_Length :: "'p \<Rightarrow> int"
  bp_Buffer :: "'p \<Rightarrow> bytes"
  bp_Array :: "'p \<Rightarrow> bytes"
  bp_SetBuffer :: "'p \<Rightarrow> bytes \<Rightarrow> 'p"
  bp_Pointers :: "'p \<Rightarrow> int \<times> int"
  bp_ReadSlices :: "'p \<Rightarrow> bytes \<times> bytes \<times> goerr option"
  bp_WriteSlices :: "'p \<Rightarrow> nat \<times> nat \<times> goerr option"
  bp_Store :: "'p \<Rightarrow> bytes \<Rightarrow> 'p"
  bp_ReadMark :: "'p \<Rightarrow> int \<Rightarrow> 'p"
  bp_WriteMark :: "'p \<Rightarrow> int \<Rightarrow> 'p"
  bp_Write :: "'p \<Rightarrow> bytes \<Rightarrow> (int \<times> goerr option) \<times> 'p"
  bp_Rollback :: "'p \<Rightarrow> 'p"
  bp_Reset :: "'p \<Rightarrow> 'p"
  bp_Close :: "'p \<Rightarrow> 'p"

text \<open>Allocation of a byte slice: \<open>make([]byte, size)\<close> panics for a negative size.\<close>

definition make_bytes :: "int \<Rightarrow> bytes go" where
  "make_bytes n = (if n < 0 then Pan PRuntime else Ret (replicate (nat n) 0))"

text \<open>
  What a new or reset pipe is: it has the size of the buffer it was given and the requested mode;
  resetting keeps both.
\<close>

definition pipe_new_laws :: "'p bufpipe \<Rightarrow> bool" where
  "pipe_new_laws B \<longleftrightarrow>
     (\<forall>buf m. bp_Capacity B (bp_New B buf m) = int (length buf) \<and> bp_Mode B (bp_New B buf m) = m) \<and>
     (\<forall>p. bp_Capacity B (bp_Reset B p) = bp_Capacity B p \<and> bp_Mode B (bp_Reset B p) = bp_Mode B p)"

lemma pipe_new_lawsD [golib_laws]:
  assumes "pipe_new_laws B"
  shows "bp_Capacity B (bp_New B buf m) = int (length buf)" and "bp_Mode B (bp_New B buf m) = m"
    and "bp_Capacity B (bp_Reset B p) = bp_Capacity B p" and "bp_Mode B (bp_Reset B p) = bp_Mode B p"
  using assms by (simp_all add: pipe_new_laws_def)

text \<open>
  A pipe as a queue of bytes: \<open>view p\<close> are the bytes that are written and not yet read. Reading sees
  the front of the queue, marking bytes as read drops them, and bytes stored into the write slice
  join the queue when they are marked as written. On the nil pipe all of these see an empty queue
  without room. \<open>good\<close> are the states a pipe can be in.
\<close>

definition pipe_queue :: "'p bufpipe \<Rightarrow> ('p \<Rightarrow> bool) \<Rightarrow> ('p \<Rightarrow> bytes) \<Rightarrow> bool" where
  "pipe_queue B good view \<longleftrightarrow>
     good (bp_nil B) \<and> view (bp_nil B) = [] \<and> fst (bp_WriteSlices B (bp_nil B)) = 0 \<and>
     (\<forall>buf m. good (bp_New B buf m) \<and> view (bp_New B buf m) = []) \<and>
     (\<forall>p. good p \<longrightarrow> bp_Length B p = int (length (view p))) \<and>
     (\<forall>p lo hi e. good p \<longrightarrow> bp_ReadSlices B p = (lo, hi, e) \<longrightarrow>
        lo @ hi = view p \<and> (lo = [] \<longrightarrow> hi = [])) \<and>
     (\<forall>p n. good p \<longrightarrow> 0 \<le> n \<longrightarrow> n \<le> int (length (view p)) \<longrightarrow>
        good (bp_ReadMark B p n) \<and> view (bp_ReadMark B p n) = drop (nat n) (view p)) \<and>
     (\<forall>p bs. good p \<longrightarrow> length bs \<le> fst (bp_WriteSlices B p) \<longrightarrow>
        good (bp_WriteMark B (bp_Store B p bs) (int (length bs))) \<and>
        view (bp_WriteMark B (bp_Store B p bs) (int (length bs))) = view p @ bs)"

lemma pipe_queueD:
  assumes "pipe_queue B good view"
  shows "good (bp_nil B)" and "view (bp_nil B) = []" and "fst (bp_WriteSlices B (bp_nil B)) = 0"
    and "good (bp_New B buf m)" and "view (bp_New B buf m) = []"
    and "good p \<Longrightarrow> bp_Length B p = int (length (view p))"
    and "good p \<Longrightarrow> bp_ReadSlices B p = (lo, hi, e) \<Longrightarrow> lo @ hi = view p \<and> (lo = [] \<longrightarrow> hi = [])"
    and "good p \<Longrightarrow> 0 \<le> n \<Longrightarrow> n \<le> int (length (view p)) \<Longrightarrow>
       good (bp_ReadMark B p n) \<and> view (bp_ReadMark B p n) = drop (nat n) (view p)"
    and "good p \<Longrightarrow> length bs \<le> fst (bp_WriteSlices B p) \<Longrightarrow>
       good (bp_WriteMark B (bp_Store B p bs) (int (length bs))) \<and>
       view (bp_WriteMark B (bp_Store B p bs) (int (length bs))) = view p @ bs"
  using assms unfolding pipe_queue_def by blast+

text \<open>
  A ring buffer that is empty has room again: the write slice of an empty pipe in the polling mode
  is not empty if the pipe's capacity is not. Reading and writing keep mode and capacity.
\<close>

definition pipe_ring :: "'p bufpipe \<Rightarrow> ('p \<Rightarrow> bool) \<Rightarrow> ('p \<Rightarrow> bytes) \<Rightarrow> bool" where
  "pipe_ring B good view \<longleftrightarrow>
     (\<forall>p. good p \<longrightarrow> bp_Mode B p = RingPoll \<longrightarrow> 0 < bp_Capacity B p \<longrightarrow> view p = [] \<longrightarrow>
        0 < fst (bp_WriteSlices B p)) \<and>
     (\<forall>p n. bp_Mode B (bp_ReadMark B p n) = bp_Mode B p \<and> bp_Capacity B (bp_ReadMark B p n) = bp_Capacity B p) \<and>
     (\<forall>p n. bp_Mode B (bp_WriteMark B p n) = bp_Mode B p \<and> bp_Capacity B (bp_WriteMark B p n) = bp_Capacity B p) \<and>
     (\<forall>p bs. good p \<longrightarrow> length bs \<le> fst (bp_WriteSlices B p) \<longrightarrow>
        bp_Mode B (bp_Store B p bs) = bp_Mode B p \<and> bp_Capacity B (bp_Store B p bs) = bp_Capacity B p)"

definition ring_buf :: "'p bufpipe \<Rightarrow> 'p \<Rightarrow> bool" where
  "ring_buf B p \<longleftrightarrow> bp_Mode B p = RingPoll \<and> 0 < bp_Capacity B p"

lemma pipe_ringD:
  assumes "pipe_ring B good view"
  shows "good p \<Longrightarrow> ring_buf B p \<Longrightarrow> view p = [] \<Longrightarrow> 0 < fst (bp_WriteSlices B p)"
    and "ring_buf B (bp_ReadMark B p n) = ring_buf B p"
    and "good p \<Longrightarrow> length bs \<le> fst (bp_WriteSlices B p) \<Longrightarrow>
      ring_buf B (bp_WriteMark B (bp_Store B p bs) n) = ring_buf B p"
  using assms by (simp_all add: pipe_ring_def ring_buf_def)

section \<open>An executable instance\<close>

text \<open>
  A bounded queue: the buffer's memory, the mode, the positions up to which bytes are read and
  written, whether it is closed and the error it was closed with; in a ring mode a queue that becomes
  empty starts over. For evaluation on concrete inputs.
\<close>

record lpipe =
  lp_buf :: bytes
  lp_mode :: bp_mode
  lp_lo :: nat
  lp_hi :: nat
  lp_closed :: bool
  lp_err :: "goerr option"

definition lp_good :: "lpipe option \<Rightarrow> bool" where
  "lp_good p \<longleftrightarrow> (case p of None \<Rightarrow> True | Some q \<Rightarrow> lp_lo q \<le> lp_hi q \<and> lp_hi q \<le> length (lp_buf q) \<and>
     (lp_mode q = RingPoll \<and> lp_lo q = lp_hi q \<longrightarrow> lp_lo q = 0))"

definition lp_view :: "lpipe option \<Rightarrow> bytes" where
  "lp_view p = (case p of None \<Rightarrow> [] | Some q \<Rightarrow> take (lp_hi q - lp_lo q) (drop (lp_lo q) (lp_buf q)))"

definition line_pipe :: "lpipe option bufpipe" where
  "line_pipe = \<lparr>
     bp_nil = None,
     bp_New = (\<lambda>buf m. Some \<lparr>lp_buf = buf, lp_mode = m, lp_lo = 0, lp_hi = 0, lp_closed = False, lp_err = None\<rparr>),
     bp_Mode = (\<lambda>p. case p of None \<Rightarrow> LineMono | Some q \<Rightarrow> lp_mode q),
     bp_Capacity = (\<lambda>p. case p of None \<Rightarrow> 0 | Some q \<Rightarrow> int (length (lp_buf q))),
     bp_Length = (\<lambda>p. int (length (lp_view p))),
     bp_Buffer = (\<lambda>p. case p of None \<Rightarrow> [] | Some q \<Rightarrow> lp_buf q),
     bp_Array = (\<lambda>p. case p of None \<Rightarrow> [] | Some q \<Rightarrow> lp_buf q),
     bp_SetBuffer = (\<lambda>p bs. map_option (\<lambda>q. q\<lparr>lp_buf := bs\<rparr>) p),
     bp_Pointers = (\<lambda>p. case p of None \<Rightarrow> (0, 0) | Some q \<Rightarrow> (int (lp_lo q), int (lp_hi q))),
     bp_ReadSlices = (\<lambda>p. (lp_view p, [],
        case p of None \<Rightarrow> None
        | Some q \<Rightarrow> if lp_view p = [] \<and> lp_closed q then Some (case lp_err q of None \<Rightarrow> EOF | Some e \<Rightarrow> e) else None)),
     bp_WriteSlices = (\<lambda>p. case p of None \<Rightarrow> (0, 0, None) | Some q \<Rightarrow>
        (length (lp_buf q) - lp_hi q, 0,
         if lp_hi q \<ge> length (lp_buf q) then Some ErrShortWrite else None)),
     bp_Store = (\<lambda>p bs. map_option (\<lambda>q. q\<lparr>lp_buf := overwrite (lp_buf q) (lp_hi q) bs\<rparr>) p),
     bp_ReadMark = (\<lambda>p n. map_option (\<lambda>q. if lp_mode q = RingPoll \<and> lp_lo q + nat n = lp_hi q
        then q\<lparr>lp_lo := 0, lp_hi := 0\<rparr> else q\<lparr>lp_lo := lp_lo q + nat n\<rparr>) p),
     bp_WriteMark = (\<lambda>p n. map_option (\<lambda>q. q\<lparr>lp_hi := lp_hi q + nat n\<rparr>) p),
     bp_Write = (\<lambda>p bs. case p of None \<Rightarrow> ((0, Some ErrShortWrite), None) | Some q \<Rightarrow>
        (let k = min (length bs) (length (lp_buf q) - lp_hi q)
         in ((int k, if k < length bs then Some ErrShortWrite else None),
             Some (q\<lparr>lp_buf := overwrite (lp_buf q) (lp_hi q) (take k bs), lp_hi := lp_hi q + k\<rparr>)))),
     bp_Rollback = (\<lambda>p. map_option (\<lambda>q. q\<lparr>lp_hi := lp_lo q\<rparr>) p),
     bp_Reset = (\<lambda>p. map_option (\<lambda>q. q\<lparr>lp_lo := 0, lp_hi := 0, lp_closed := False, lp_err := None\<rparr>) p),
     bp_Close = (\<lambda>p. map_option (\<lambda>q. q\<lparr>lp_closed := True\<rparr>) p)\<rparr>"

lemma line_pipe_ops:
  "bp_ReadSlices line_pipe (Some q) = (lp_view (Some q), [],
     if lp_view (Some q) = [] \<and> lp_closed q then Some (case lp_err q of None \<Rightarrow> EOF | Some e \<Rightarrow> e) else None)"
  "bp_WriteSlices line_pipe (Some q) = (length (lp_buf q) - lp_hi q, 0,
     if lp_hi q \<ge> length (lp_buf q) then Some ErrShortWrite else None)"
  "bp_Store line_pipe (Some q) bs = Some (q\<lparr>lp_buf := overwrite (lp_buf q) (lp_hi q) bs\<rparr>)"
  "bp_WriteMark line_pipe (Some q) n = Some (q\<lparr>lp_hi := lp_hi q + nat n\<rparr>)"
  "bp_ReadMark line_pipe (Some q) n = Some (if lp_mode q = RingPoll \<and> lp_lo q + nat n = lp_hi q
     then q\<lparr>lp_lo := 0, lp_hi := 0\<rparr> else q\<lparr>lp_lo := lp_lo q + nat n\<rparr>)"
  "bp_nil line_pipe = None" "bp_Length line_pipe p = int (length (lp_view p))"
  by (simp_all add: line_pipe_def)

lemma line_pipe_new_laws: "pipe_new_laws line_pipe"
  by (simp add: pipe_new_laws_def line_pipe_def split: option.split)

lemma line_pipe_queue: "pipe_queue line_pipe lp_good lp_view"
proof -
  have mark: "lp_good p \<Longrightarrow> 0 \<le> n \<Longrightarrow> n \<le> int (length (lp_view p)) \<Longrightarrow>
      lp_good (bp_ReadMark line_pipe p n) \<and>
      lp_view (bp_ReadMark line_pipe p n) = drop (nat n) (lp_view p)" for p n
    by (cases p) (auto simp: lp_good_def lp_view_def line_pipe_def drop_take add.commute)
  have "lp_good p \<Longrightarrow> length bs \<le> fst (bp_WriteSlices line_pipe p) \<Longrightarrow>
      lp_good (bp_WriteMark line_pipe (bp_Store line_pipe p bs) (int (length bs))) \<and>
      lp_view (bp_WriteMark line_pipe (bp_Store line_pipe p bs) (int (length bs))) = lp_view p @ bs"
    for p bs
    by (cases p) (auto simp: lp_good_def lp_view_def line_pipe_def overwrite_def drop_take)
  with mark show ?thesis
    by (simp add: pipe_queue_def) (simp add: line_pipe_def lp_good_def lp_view_def)
qed

lemma line_pipe_ring: "pipe_ring line_pipe lp_good lp_view"
  by (auto simp: pipe_ring_def line_pipe_def lp_good_def lp_view_def split: option.splits)

end
