(* ===== verification/Xz_Pool.thy ===== *)
theory Xz_Pool
  imports Bufpipe
begin

text \<open>
  The pools of \<open>xz/pool.go\<close>: sets of pipes (\<open>pipeSet\<close>) and the pool of pipes through which the parallel
  writer's routines exchange buffers (\<open>pipePool\<close>). The pool of worker routines of the same file is in
  theory \<open>Xz_Workers\<close>.

  Pipes are shared between the pool and the routines, so they live in a store (\<open>pp_heap\<close>) and the
  sets hold addresses. A Go map is an association list with distinct keys, a nil map is \<open>None\<close>; the
  element a \<open>range\<close> loop visits first is unspecified in Go and is chosen by a number the operation
  takes as an argument.

  Every operation of the pool holds the mutex from its start to its end or to a wait on a condition
  variable. An operation that can wait is therefore split at the wait: \<open>Wait\<close> says that the routine
  parked, and the matching \<open>_wake\<close> operation is what it runs when it is woken.
\<close>

section \<open>Maps from indexes to pipes\<close>

type_synonym pipeSet = "(int \<times> nat) list option"

definition entries_of :: "pipeSet \<Rightarrow> (int \<times> nat) list" where
  "entries_of m = (case m of None \<Rightarrow> [] | Some al \<Rightarrow> al)"

definition ps_lookup :: "pipeSet \<Rightarrow> int \<Rightarrow> nat option" where
  "ps_lookup m k = map_of (entries_of m) k"

definition ps_len :: "pipeSet \<Rightarrow> nat" where
  "ps_len m = length (entries_of m)"

definition ps_delete :: "pipeSet \<Rightarrow> int \<Rightarrow> pipeSet" where
  "ps_delete m k = map_option (filter (\<lambda>e. fst e \<noteq> k)) m"

definition ps_insert :: "pipeSet \<Rightarrow> int \<Rightarrow> nat \<Rightarrow> pipeSet go" where
  "ps_insert m k a =
     (case m of None \<Rightarrow> Pan PRuntime | Some al \<Rightarrow> Ret (Some ((k, a) # filter (\<lambda>e. fst e \<noteq> k) al)))"

section \<open>Pipes and pools\<close>

record ('p, 'd) pipe =
  pi_pipe :: 'p
  pi_idx :: int
  pi_data :: "'d option"

record ('p, 'd) pipePool =
  pp_len :: int
  pp_cap :: int
  pp_closed :: bool
  pp_free :: pipeSet
  pp_ready :: pipeSet
  pp_active :: pipeSet
  pp_waitIdx :: int
  pp_wrWaitCnt :: int
  pp_rdWaitCnt :: int
  pp_heap :: "('p, 'd) pipe list"

text \<open>The methods of \<open>pipeSet\<close>, with the store the addresses refer to.\<close>

definition pipeSet_remove :: "('p, 'd) pipe list \<Rightarrow> pipeSet \<Rightarrow> nat option \<Rightarrow> bool \<times> pipeSet" where
  "pipeSet_remove h m p =
     (case p of
        None \<Rightarrow> (False, m)
      | Some a \<Rightarrow> (ps_lookup m (pi_idx (h ! a)) \<noteq> None, ps_delete m (pi_idx (h ! a))))"

definition pipeSet_pop :: "nat \<Rightarrow> ('p, 'd) pipe list \<Rightarrow> pipeSet \<Rightarrow> nat option \<times> pipeSet" where
  "pipeSet_pop i h m =
     (if ps_len m = 0 then (None, m)
      else let a = snd (entries_of m ! (i mod ps_len m)) in (Some a, ps_delete m (pi_idx (h ! a))))"

definition pipeSet_push :: "('p, 'd) pipe list \<Rightarrow> pipeSet \<Rightarrow> nat option \<Rightarrow> pipeSet go" where
  "pipeSet_push h m p =
     (case p of None \<Rightarrow> Ret m | Some a \<Rightarrow> ps_insert m (pi_idx (h ! a)) a)"

definition close_pipe :: "'p bufpipe \<Rightarrow> nat \<Rightarrow> ('p, 'd) pipe list \<Rightarrow> ('p, 'd) pipe list" where
  "close_pipe B a h = h[a := (h ! a)\<lparr>pi_pipe := bp_Close B (pi_pipe (h ! a))\<rparr>]"

definition pipeSet_close ::
  "'p bufpipe \<Rightarrow> pipeSet \<Rightarrow> ('p, 'd) pipe list \<Rightarrow> ('p, 'd) pipe list" where
  "pipeSet_close B m h = fold (close_pipe B) (map snd (entries_of m)) h"

section \<open>Operations of the pool\<close>

definition newPipePool :: "('p, 'd) pipePool" where
  "newPipePool = \<lparr>pp_len = 0, pp_cap = 0, pp_closed = False, pp_free = Some [], pp_ready = Some [],
     pp_active = Some [], pp_waitIdx = -1, pp_wrWaitCnt = 0, pp_rdWaitCnt = 0, pp_heap = []\<rparr>"

text \<open>What an operation does to the condition variables.\<close>

datatype signal = SignalWr | BroadcastWr | SignalRd | BroadcastRd

datatype 'r attempt = Wait | Done 'r

type_synonym ('p, 'd, 'r) pool_result = "('r attempt \<times> signal list \<times> ('p, 'd) pipePool) go"

definition getWriter_blocks :: "int \<Rightarrow> ('p, 'd) pipePool \<Rightarrow> bool" where
  "getWriter_blocks idx pp \<longleftrightarrow>
     \<not> pp_closed pp \<and> idx \<noteq> pp_waitIdx pp \<and> ps_len (pp_free pp) = 0 \<and> pp_len pp \<ge> pp_cap pp"

text \<open>The pipe to hand out: a free one, fitted to the request, or a new one.\<close>

definition getWriter_pipe ::
  "'p bufpipe \<Rightarrow> nat \<Rightarrow> int \<Rightarrow> bp_mode \<Rightarrow> ('p, 'd) pipePool \<Rightarrow> (nat \<times> ('p, 'd) pipePool) go" where
  "getWriter_pipe B i sz mode pp =
     (case pipeSet_pop i (pp_heap pp) (pp_free pp) of
        (None, free) \<Rightarrow>
          gobind (make_bytes sz) (\<lambda>buf.
          Ret (length (pp_heap pp),
               pp\<lparr>pp_free := free, pp_len := pp_len pp + 1,
                  pp_heap := pp_heap pp @ [\<lparr>pi_pipe = bp_New B buf mode, pi_idx = 0, pi_data = None\<rparr>]\<rparr>))
      | (Some a, free) \<Rightarrow>
          let c = pp_heap pp ! a; p = pi_pipe c in
          gobind
            (if bp_Capacity B p \<noteq> sz \<or> bp_Mode B p \<noteq> mode then
               (if int (length (bp_Array B p)) \<ge> sz then
                  (if sz < 0 then Pan PRuntime else Ret (bp_New B (take (nat sz) (bp_Array B p)) mode))
                else gobind (make_bytes sz) (\<lambda>buf. Ret (bp_New B buf mode)))
             else Ret (bp_Reset B p)) (\<lambda>p.
          Ret (a, pp\<lparr>pp_free := free, pp_heap := (pp_heap pp)[a := c\<lparr>pi_pipe := p\<rparr>]\<rparr>)))"

definition getWriter_take ::
  "'p bufpipe \<Rightarrow> nat \<Rightarrow> int \<Rightarrow> int \<Rightarrow> bp_mode \<Rightarrow> 'd option \<Rightarrow> ('p, 'd) pipePool \<Rightarrow>
   (nat option \<times> signal list \<times> ('p, 'd) pipePool) go" where
  "getWriter_take B i idx sz mode data pp =
     (if pp_closed pp then Ret (None, [], pp)
      else
        gobind (getWriter_pipe B i sz mode pp) (\<lambda>(a, pp).
        let pp = pp\<lparr>pp_heap := (pp_heap pp)[a := (pp_heap pp ! a)\<lparr>pi_idx := idx, pi_data := data\<rparr>]\<rparr> in
        if ps_lookup (pp_ready pp) idx \<noteq> None
        then Pan (PMsg ''pipe with this index already exists'')
        else
          gobind (pipeSet_push (pp_heap pp) (pp_ready pp) (Some a)) (\<lambda>ready.
          Ret (Some a, [SignalRd], pp\<lparr>pp_ready := ready\<rparr>))))"

text \<open>From the test of the wait loop on: park, or leave the loop and take a pipe.\<close>

definition getWriter_loop ::
  "'p bufpipe \<Rightarrow> nat \<Rightarrow> int \<Rightarrow> int \<Rightarrow> bp_mode \<Rightarrow> 'd option \<Rightarrow> ('p, 'd) pipePool \<Rightarrow>
   ('p, 'd, nat option) pool_result" where
  "getWriter_loop B i idx sz mode data pp =
     (if getWriter_blocks idx pp
      then Ret (Wait, [], pp\<lparr>pp_wrWaitCnt := pp_wrWaitCnt pp + 1\<rparr>)
      else gobind (getWriter_take B i idx sz mode data pp) (\<lambda>(p, sg, pp). Ret (Done p, sg, pp)))"

definition getWriter ::
  "'p bufpipe \<Rightarrow> nat \<Rightarrow> int \<Rightarrow> int \<Rightarrow> bp_mode \<Rightarrow> 'd option \<Rightarrow> ('p, 'd) pipePool \<Rightarrow>
   ('p, 'd, nat option) pool_result" where
  "getWriter B i idx sz mode data pp =
     (if idx < 0 then Pan (PMsg ''identifier index must be non-negative'')
      else getWriter_loop B i idx sz mode data pp)"

definition getWriter_wake ::
  "'p bufpipe \<Rightarrow> nat \<Rightarrow> int \<Rightarrow> int \<Rightarrow> bp_mode \<Rightarrow> 'd option \<Rightarrow> ('p, 'd) pipePool \<Rightarrow>
   ('p, 'd, nat option) pool_result" where
  "getWriter_wake B i idx sz mode data pp =
     getWriter_loop B i idx sz mode data (pp\<lparr>pp_wrWaitCnt := pp_wrWaitCnt pp - 1\<rparr>)"

definition getReader_blocks :: "int \<Rightarrow> ('p, 'd) pipePool \<Rightarrow> bool" where
  "getReader_blocks idx pp \<longleftrightarrow>
     \<not> pp_closed pp \<and>
     (if idx \<ge> 0 then ps_lookup (pp_ready pp) idx = None else ps_len (pp_ready pp) = 0)"

definition getReader_take ::
  "nat \<Rightarrow> int \<Rightarrow> ('p, 'd) pipePool \<Rightarrow> (nat option \<times> ('p, 'd) pipePool) go" where
  "getReader_take i idx pp =
     (let (p, pp) =
        (if idx \<ge> 0 then
           let p = ps_lookup (pp_ready pp) idx;
               (_, ready) = pipeSet_remove (pp_heap pp) (pp_ready pp) p
           in (p, pp\<lparr>pp_ready := ready, pp_waitIdx := -1\<rparr>)
         else
           let (p, ready) = pipeSet_pop i (pp_heap pp) (pp_ready pp)
           in (p, pp\<lparr>pp_ready := ready\<rparr>)) in
      gobind (pipeSet_push (pp_heap pp) (pp_active pp) p) (\<lambda>active.
      Ret (p, pp\<lparr>pp_active := active\<rparr>)))"

definition getReader_loop ::
  "nat \<Rightarrow> int \<Rightarrow> signal list \<Rightarrow> ('p, 'd) pipePool \<Rightarrow> ('p, 'd, nat option) pool_result" where
  "getReader_loop i idx sg pp =
     (if getReader_blocks idx pp
      then Ret (Wait, sg, pp\<lparr>pp_rdWaitCnt := pp_rdWaitCnt pp + 1\<rparr>)
      else gobind (getReader_take i idx pp) (\<lambda>(p, pp). Ret (Done p, sg, pp)))"

definition getReader ::
  "nat \<Rightarrow> int \<Rightarrow> ('p, 'd) pipePool \<Rightarrow> ('p, 'd, nat option) pool_result" where
  "getReader i idx pp =
     (if idx \<ge> 0 then
        (if pp_waitIdx pp \<ge> 0 then Pan (PMsg ''already waiting on an index identifier'')
         else getReader_loop i idx [BroadcastWr] (pp\<lparr>pp_waitIdx := idx\<rparr>))
      else getReader_loop i idx [] pp)"

definition getReader_wake ::
  "nat \<Rightarrow> int \<Rightarrow> ('p, 'd) pipePool \<Rightarrow> ('p, 'd, nat option) pool_result" where
  "getReader_wake i idx pp = getReader_loop i idx [] (pp\<lparr>pp_rdWaitCnt := pp_rdWaitCnt pp - 1\<rparr>)"

text \<open>\<open>iterReader\<close> and \<open>iterReaderIdx\<close> store the pipe and report whether there is one.\<close>

definition iterReader ::
  "nat \<Rightarrow> ('p, 'd) pipePool \<Rightarrow> ('p, 'd, nat option \<times> bool) pool_result" where
  "iterReader i pp =
     gobind (getReader i (-1) pp) (\<lambda>(r, sg, pp).
     Ret (case r of Wait \<Rightarrow> Wait | Done p \<Rightarrow> Done (p, p \<noteq> None), sg, pp))"

definition iterReaderIdx ::
  "nat \<Rightarrow> int \<Rightarrow> ('p, 'd) pipePool \<Rightarrow> ('p, 'd, nat option \<times> int \<times> bool) pool_result" where
  "iterReaderIdx i idx pp =
     gobind (getReader i idx pp) (\<lambda>(r, sg, pp).
     Ret (case r of Wait \<Rightarrow> Wait | Done p \<Rightarrow> Done (p, idx + 1, p \<noteq> None), sg, pp))"

definition restore ::
  "'p bufpipe \<Rightarrow> nat option \<Rightarrow> ('p, 'd) pipePool \<Rightarrow> ('p, 'd, unit) pool_result" where
  "restore B p pp =
     (let (ok, active) = pipeSet_remove (pp_heap pp) (pp_active pp) p; pp = pp\<lparr>pp_active := active\<rparr> in
      if \<not> ok then Pan (PMsg ''pipe is not active in this pool'')
      else
        let pp = pp\<lparr>pp_heap := close_pipe B (the p) (pp_heap pp)\<rparr> in
        if pp_cap pp \<ge> pp_len pp then
          gobind (pipeSet_push (pp_heap pp) (pp_free pp) p) (\<lambda>free.
          Ret (Done (), [SignalWr], pp\<lparr>pp_free := free\<rparr>))
        else Ret (Done (), [], pp\<lparr>pp_len := pp_len pp - 1\<rparr>))"

definition setCapacity :: "int \<Rightarrow> ('p, 'd) pipePool \<Rightarrow> signal list \<times> ('p, 'd) pipePool" where
  "setCapacity cnt pp = ([BroadcastWr], pp\<lparr>pp_cap := cnt\<rparr>)"

definition getStats :: "('p, 'd) pipePool \<Rightarrow> int \<times> int" where
  "getStats pp = (pp_wrWaitCnt pp, pp_rdWaitCnt pp)"

definition interrupt :: "'p bufpipe \<Rightarrow> ('p, 'd) pipePool \<Rightarrow> ('p, 'd) pipePool" where
  "interrupt B pp =
     (let h = pipeSet_close B (pp_ready pp) (pp_heap pp)
      in pp\<lparr>pp_heap := pipeSet_close B (pp_active pp) h\<rparr>)"

definition pool_close :: "('p, 'd) pipePool \<Rightarrow> signal list \<times> ('p, 'd) pipePool" where
  "pool_close pp = ([BroadcastWr, BroadcastRd], pp\<lparr>pp_closed := True\<rparr>)"

definition pool_terminate ::
  "'p bufpipe \<Rightarrow> ('p, 'd) pipePool \<Rightarrow> signal list \<times> ('p, 'd) pipePool" where
  "pool_terminate B pp =
     (let h = pipeSet_close B (pp_ready pp) (pp_heap pp);
          h = pipeSet_close B (pp_active pp) h;
          pp = pp\<lparr>pp_heap := h, pp_ready := None\<rparr>
      in ([BroadcastWr, BroadcastRd], pp\<lparr>pp_closed := True\<rparr>))"

declare pipeSet_remove_def [pool_defs] pipeSet_pop_def [pool_defs] pipeSet_push_def [pool_defs]
  getWriter_blocks_def [pool_defs] getReader_blocks_def [pool_defs] getWriter_pipe_def [pool_defs]
  getWriter_take_def [pool_defs] getReader_take_def [pool_defs] restore_def [pool_defs]

section \<open>The invariant of a pool\<close>

text \<open>
  All pipes the pool knows, with the index each is filed under.
\<close>

definition entries :: "('p, 'd) pipePool \<Rightarrow> (int \<times> nat) list" where
  "entries pp = entries_of (pp_free pp) @ entries_of (pp_ready pp) @ entries_of (pp_active pp)"

text \<open>
  No index and no pipe is filed twice, every pipe is filed under its own index, the maps are
  allocated (\<open>ready\<close> may be nil once the pool is closed), and \<open>len\<close> counts the pipes (a terminated
  pool, whose \<open>ready\<close> is nil, has given up its count).
\<close>

definition pool_ok :: "('p, 'd) pipePool \<Rightarrow> bool" where
  "pool_ok pp \<longleftrightarrow>
     distinct (map fst (entries pp)) \<and> distinct (map snd (entries pp)) \<and>
     (\<forall>e \<in> set (entries pp). snd e < length (pp_heap pp) \<and> pi_idx (pp_heap pp ! snd e) = fst e) \<and>
     pp_free pp \<noteq> None \<and> pp_active pp \<noteq> None \<and> (pp_ready pp = None \<longrightarrow> pp_closed pp) \<and>
     (pp_ready pp \<noteq> None \<longrightarrow> pp_len pp = int (length (entries pp))) \<and> -1 \<le> pp_waitIdx pp"

definition indexes :: "('p, 'd) pipePool \<Rightarrow> int set" where
  "indexes pp = fst ` set (entries pp)"

lemma entries_of_simps [simp]:
  "entries_of None = []" "entries_of (Some al) = al"
  "entries_of (ps_delete m k) = filter (\<lambda>e. fst e \<noteq> k) (entries_of m)"
  "ps_delete m k = None \<longleftrightarrow> m = None" "ps_len m = length (entries_of m)"
  by (cases m; simp add: entries_of_def ps_delete_def ps_len_def)+

lemma filter_key_split:
  "distinct (map fst (xs @ (k, a) # ys)) \<Longrightarrow> filter (\<lambda>e. fst e \<noteq> k) (xs @ (k, a) # ys) = xs @ ys"
proof -
  assume d: "distinct (map fst (xs @ (k, a) # ys))"
  then have "filter (\<lambda>e. fst e \<noteq> k) xs = xs" "filter (\<lambda>e. fst e \<noteq> k) ys = ys"
    by (force intro!: filter_True)+
  then show ?thesis by simp
qed

text \<open>Looking up or popping an entry of a well-keyed set splits its list at that entry.\<close>

lemma ps_lookup_split:
  assumes "ps_lookup m k = Some a" and "distinct (map fst (entries_of m))"
  obtains xs ys where "entries_of m = xs @ (k, a) # ys" "entries_of (ps_delete m k) = xs @ ys"
proof -
  from assms(1) have "(k, a) \<in> set (entries_of m)" by (simp add: ps_lookup_def map_of_SomeD)
  then obtain xs ys where xy: "entries_of m = xs @ (k, a) # ys" by (meson split_list)
  with assms(2) have "entries_of (ps_delete m k) = xs @ ys"
    by (simp only: entries_of_simps filter_key_split)
  with xy that show ?thesis by blast
qed

lemma ps_lookup_None: "ps_lookup m k = None \<longleftrightarrow> k \<notin> fst ` set (entries_of m)"
  by (simp add: ps_lookup_def map_of_eq_None_iff)

lemma ps_lookup_entry:
  "distinct (map fst (entries_of m)) \<Longrightarrow> (k, a) \<in> set (entries_of m) \<Longrightarrow> ps_lookup m k = Some a"
  by (simp add: ps_lookup_def)

lemma pipeSet_pop_None: "fst (pipeSet_pop i h m) = None \<longleftrightarrow> entries_of m = []"
  by (simp add: pipeSet_pop_def Let_def)

lemma pipeSet_pop_split:
  assumes "pipeSet_pop i h m = (Some a, m')" and "distinct (map fst (entries_of m))"
    and "\<And>e. e \<in> set (entries_of m) \<Longrightarrow> pi_idx (h ! snd e) = fst e"
  obtains k xs ys where "entries_of m = xs @ (k, a) # ys" "entries_of m' = xs @ ys"
    "m' = None \<longleftrightarrow> m = None"
proof -
  from assms(1) have ne: "entries_of m \<noteq> []"
    and a: "a = snd (entries_of m ! (i mod length (entries_of m)))"
    and m': "m' = ps_delete m (pi_idx (h ! a))"
    by (auto simp: pipeSet_pop_def Let_def split: if_splits)
  have "entries_of m ! (i mod length (entries_of m)) \<in> set (entries_of m)"
    using ne by (intro nth_mem) simp
  then obtain k where ka: "(k, a) \<in> set (entries_of m)" using a by (metis prod.collapse)
  then obtain xs ys where xy: "entries_of m = xs @ (k, a) # ys" by (meson split_list)
  have "pi_idx (h ! a) = k" using assms(3) [OF ka] by simp
  then have "entries_of m' = xs @ ys"
    using xy assms(2) by (simp only: m' entries_of_simps filter_key_split)
  moreover have "m' = None \<longleftrightarrow> m = None" by (simp add: m')
  ultimately show ?thesis using xy that by blast
qed

lemma ps_insert_fresh:
  "m \<noteq> None \<Longrightarrow> k \<notin> fst ` set (entries_of m) \<Longrightarrow>
   \<exists>m'. ps_insert m k a = Ret m' \<and> m' \<noteq> None \<and> entries_of m' = (k, a) # entries_of m"
  by (cases m) (force simp: ps_insert_def intro!: filter_True)+

lemma close_pipe_simps [simp]:
  "length (close_pipe B a h) = length h" "pi_idx (close_pipe B a h ! b) = pi_idx (h ! b)"
  by (simp add: close_pipe_def) (cases "a < length h"; cases "a = b"; simp add: close_pipe_def list_update_beyond)

lemma pipeSet_close_simps [simp]:
  "length (pipeSet_close B m h) = length h" "pi_idx (pipeSet_close B m h ! b) = pi_idx (h ! b)"
proof -
  have "length (fold (close_pipe B) as h) = length h \<and>
        pi_idx (fold (close_pipe B) as h ! b) = pi_idx (h ! b)" for as
    by (induction as arbitrary: h) simp_all
  then show "length (pipeSet_close B m h) = length h"
    "pi_idx (pipeSet_close B m h ! b) = pi_idx (h ! b)" by (simp_all add: pipeSet_close_def)
qed

lemma newPipePool_ok: "pool_ok newPipePool"
  by (simp add: pool_ok_def newPipePool_def entries_def)

lemma pool_okD:
  assumes "pool_ok pp"
  shows "distinct (map fst (entries_of (pp_free pp)))" "distinct (map fst (entries_of (pp_ready pp)))"
    "distinct (map fst (entries_of (pp_active pp)))"
    "\<And>e. e \<in> set (entries pp) \<Longrightarrow> snd e < length (pp_heap pp) \<and> pi_idx (pp_heap pp ! snd e) = fst e"
    "pp_free pp \<noteq> None" "pp_active pp \<noteq> None" "\<not> pp_closed pp \<Longrightarrow> pp_ready pp \<noteq> None"
    "pp_ready pp \<noteq> None \<Longrightarrow> pp_len pp = int (length (entries pp))"
  using assms by (auto simp: pool_ok_def entries_def)

lemma pool_ok_disjoint:
  assumes "pool_ok pp"
  shows "fst ` set (entries_of (pp_free pp)) \<inter> fst ` set (entries_of (pp_active pp)) = {}"
    and "fst ` set (entries_of (pp_ready pp)) \<inter> fst ` set (entries_of (pp_active pp)) = {}"
  using assms by (auto simp: pool_ok_def entries_def)

lemma pool_ok_heap:
  assumes "pool_ok pp" and "length (pp_heap pp) \<le> length h"
    and "\<And>a. a < length (pp_heap pp) \<Longrightarrow> a \<in> snd ` set (entries pp) \<Longrightarrow>
           pi_idx (h ! a) = pi_idx (pp_heap pp ! a)"
  shows "pool_ok (pp\<lparr>pp_heap := h\<rparr>)"
proof -
  have "snd e < length h \<and> pi_idx (h ! snd e) = fst e" if "e \<in> set (entries pp)" for e
    using pool_okD(4) [OF assms(1) that] assms(2,3) that by simp
  with assms(1) show ?thesis by (simp add: pool_ok_def entries_def)
qed

subsection \<open>Taking a pipe for writing\<close>

text \<open>
  The pipe the pool picks is not filed anywhere, fits the request, and the rest of the pool is as
  before.
\<close>

lemma getWriter_pipe_free:
  assumes ok: "pool_ok pp" and new: "pipe_new_laws B" and sz: "0 \<le> sz"
    and pop: "pipeSet_pop i (pp_heap pp) (pp_free pp) = (Some a, free)"
  shows "\<exists>q k xs ys. getWriter_pipe B i sz mode pp =
      Ret (a, pp\<lparr>pp_free := free, pp_heap := (pp_heap pp)[a := (pp_heap pp ! a)\<lparr>pi_pipe := q\<rparr>]\<rparr>) \<and>
    bp_Capacity B q = sz \<and> bp_Mode B q = mode \<and> free \<noteq> None \<and>
    entries_of (pp_free pp) = xs @ (k, a) # ys \<and> entries_of free = xs @ ys"
proof -
  let ?p = "pi_pipe (pp_heap pp ! a)"
  have own: "e \<in> set (entries_of (pp_free pp)) \<Longrightarrow> pi_idx (pp_heap pp ! snd e) = fst e" for e
    using pool_okD(4) [OF ok] by (simp add: entries_def)
  obtain k xs ys where sp: "entries_of (pp_free pp) = xs @ (k, a) # ys" "entries_of free = xs @ ys"
    "free = None \<longleftrightarrow> pp_free pp = None"
    using pop pool_okD(1) [OF ok] own by (rule pipeSet_pop_split)
  define q where "q = (if bp_Capacity B ?p \<noteq> sz \<or> bp_Mode B ?p \<noteq> mode then
      (if int (length (bp_Array B ?p)) \<ge> sz then bp_New B (take (nat sz) (bp_Array B ?p)) mode
       else bp_New B (replicate (nat sz) 0) mode) else bp_Reset B ?p)"
  have "bp_Capacity B q = sz" "bp_Mode B q = mode"
    using new sz by (auto simp: q_def pipe_new_lawsD [OF new] nat_le_iff)
  moreover have "getWriter_pipe B i sz mode pp =
      Ret (a, pp\<lparr>pp_free := free, pp_heap := (pp_heap pp)[a := (pp_heap pp ! a)\<lparr>pi_pipe := q\<rparr>]\<rparr>)"
    using sz by (simp add: getWriter_pipe_def pop make_bytes_def Let_def q_def)
  ultimately show ?thesis using sp pool_okD(5) [OF ok] by blast
qed

lemma getWriter_pipe_new:
  assumes "pipeSet_pop i (pp_heap pp) (pp_free pp) = (None, free)" and "0 \<le> sz"
  shows "getWriter_pipe B i sz mode pp =
      Ret (length (pp_heap pp), pp\<lparr>pp_len := pp_len pp + 1, pp_heap := pp_heap pp @
        [\<lparr>pi_pipe = bp_New B (replicate (nat sz) 0) mode, pi_idx = 0, pi_data = None\<rparr>]\<rparr>)"
    and "entries_of (pp_free pp) = []"
  using assms by (auto simp: getWriter_pipe_def make_bytes_def pipeSet_pop_def Let_def split: if_splits)

lemma getWriter_pipe_spec:
  assumes ok: "pool_ok pp" and new: "pipe_new_laws B" and sz: "0 \<le> sz" and op: "pp_ready pp \<noteq> None"
  shows "\<exists>a pp'. getWriter_pipe B i sz mode pp = Ret (a, pp') \<and>
    a < length (pp_heap pp') \<and> a \<notin> snd ` set (entries pp') \<and>
    bp_Capacity B (pi_pipe (pp_heap pp' ! a)) = sz \<and> bp_Mode B (pi_pipe (pp_heap pp' ! a)) = mode \<and>
    pool_ok (pp'\<lparr>pp_len := pp_len pp' - 1\<rparr>) \<and> set (entries pp') \<subseteq> set (entries pp) \<and>
    pp_ready pp' = pp_ready pp \<and> pp_active pp' = pp_active pp \<and> pp_cap pp' = pp_cap pp \<and>
    pp_closed pp' = pp_closed pp \<and> pp_waitIdx pp' = pp_waitIdx pp \<and>
    pp_wrWaitCnt pp' = pp_wrWaitCnt pp \<and> pp_rdWaitCnt pp' = pp_rdWaitCnt pp \<and>
    ps_len (pp_free pp') = ps_len (pp_free pp) - 1 \<and>
    pp_len pp' = pp_len pp + (if ps_len (pp_free pp) = 0 then 1 else 0)"
proof (cases "fst (pipeSet_pop i (pp_heap pp) (pp_free pp))")
  case None
  then obtain free where pop: "pipeSet_pop i (pp_heap pp) (pp_free pp) = (None, free)"
    by (metis prod.collapse)
  note gp = getWriter_pipe_new [OF pop sz]
  have "pool_ok (pp\<lparr>pp_heap := pp_heap pp @ [c], pp_len := pp_len pp\<rparr>)" for c
    using pool_ok_heap [OF ok, of "pp_heap pp @ [c]"]
    by (simp add: nth_append pool_ok_def entries_def)
  moreover have "length (pp_heap pp) \<notin> snd ` set (entries pp)"
    using pool_okD(4) [OF ok] by (metis imageE less_irrefl)
  ultimately show ?thesis
    using gp sz by (simp add: entries_def pipe_new_lawsD [OF new])
next
  case (Some a)
  then obtain free where pop: "pipeSet_pop i (pp_heap pp) (pp_free pp) = (Some a, free)"
    by (metis prod.collapse)
  from getWriter_pipe_free [OF ok new sz pop, of mode] obtain q k xs ys where
    gp: "getWriter_pipe B i sz mode pp =
      Ret (a, pp\<lparr>pp_free := free, pp_heap := (pp_heap pp)[a := (pp_heap pp ! a)\<lparr>pi_pipe := q\<rparr>]\<rparr>)"
    and q: "bp_Capacity B q = sz" "bp_Mode B q = mode" and free: "free \<noteq> None"
    and sp: "entries_of (pp_free pp) = xs @ (k, a) # ys" "entries_of free = xs @ ys" by blast
  let ?pp = "pp\<lparr>pp_free := free, pp_heap := (pp_heap pp)[a := (pp_heap pp ! a)\<lparr>pi_pipe := q\<rparr>]\<rparr>"
  have a: "a < length (pp_heap pp)" using pool_okD(4) [OF ok, of "(k, a)"] sp by (simp add: entries_def)
  have e: "entries pp = xs @ (k, a) # ys @ entries_of (pp_ready pp) @ entries_of (pp_active pp)"
    "entries ?pp = xs @ ys @ entries_of (pp_ready pp) @ entries_of (pp_active pp)"
    by (simp_all add: entries_def sp)
  have na: "a \<notin> snd ` set (entries ?pp)" using ok by (auto simp: pool_ok_def e)
  have "pool_ok (pp\<lparr>pp_free := free, pp_len := pp_len pp - 1\<rparr>)"
    using ok free pool_okD(8) [OF ok op] by (simp add: pool_ok_def entries_def sp)
  then have "pool_ok ((pp\<lparr>pp_free := free, pp_len := pp_len pp - 1\<rparr>)
      \<lparr>pp_heap := (pp_heap pp)[a := (pp_heap pp ! a)\<lparr>pi_pipe := q\<rparr>]\<rparr>)"
    by (rule pool_ok_heap) (simp_all add: nth_list_update a)
  then have "pool_ok (?pp\<lparr>pp_len := pp_len ?pp - 1\<rparr>)" by (simp add: pool_ok_def entries_def)
  then show ?thesis
    using gp a na q by (auto simp: sp entries_def)
qed

text \<open>
  Filing the pipe under a fresh index: the pool stays well formed, the pipe is ready under its
  index with the data, capacity and mode that were asked for.
\<close>

lemma getWriter_take_spec:
  assumes ok: "pool_ok pp" and new: "pipe_new_laws B" and sz: "0 \<le> sz"
    and op: "\<not> pp_closed pp" and fresh: "idx \<notin> indexes pp"
  shows "\<exists>a pp'. getWriter_take B i idx sz mode data pp = Ret (Some a, [SignalRd], pp') \<and>
    pool_ok pp' \<and> entries_of (pp_ready pp') = (idx, a) # entries_of (pp_ready pp) \<and>
    pp_ready pp' \<noteq> None \<and> pi_data (pp_heap pp' ! a) = data \<and>
    bp_Capacity B (pi_pipe (pp_heap pp' ! a)) = sz \<and> bp_Mode B (pi_pipe (pp_heap pp' ! a)) = mode \<and>
    pp_active pp' = pp_active pp \<and> pp_cap pp' = pp_cap pp \<and> pp_closed pp' = pp_closed pp \<and>
    pp_waitIdx pp' = pp_waitIdx pp \<and> pp_wrWaitCnt pp' = pp_wrWaitCnt pp \<and>
    pp_rdWaitCnt pp' = pp_rdWaitCnt pp \<and> indexes pp' \<subseteq> insert idx (indexes pp) \<and>
    ps_len (pp_free pp') = ps_len (pp_free pp) - 1 \<and>
    pp_len pp' = pp_len pp + (if ps_len (pp_free pp) = 0 then 1 else 0)"
proof -
  have rdy: "pp_ready pp \<noteq> None" using pool_okD(7) [OF ok op] .
  from getWriter_pipe_spec [OF ok new sz rdy, of i mode] obtain a p1 where
    gp: "getWriter_pipe B i sz mode pp = Ret (a, p1)"
    and a: "a < length (pp_heap p1)" "a \<notin> snd ` set (entries p1)"
    and cm: "bp_Capacity B (pi_pipe (pp_heap p1 ! a)) = sz" "bp_Mode B (pi_pipe (pp_heap p1 ! a)) = mode"
    and ok1: "pool_ok (p1\<lparr>pp_len := pp_len p1 - 1\<rparr>)" and sub: "set (entries p1) \<subseteq> set (entries pp)"
    and fr: "pp_ready p1 = pp_ready pp" "pp_active p1 = pp_active pp" "pp_cap p1 = pp_cap pp"
      "pp_closed p1 = pp_closed pp" "pp_waitIdx p1 = pp_waitIdx pp"
      "pp_wrWaitCnt p1 = pp_wrWaitCnt pp" "pp_rdWaitCnt p1 = pp_rdWaitCnt pp"
      "ps_len (pp_free p1) = ps_len (pp_free pp) - 1"
      "pp_len p1 = pp_len pp + (if ps_len (pp_free pp) = 0 then 1 else 0)" by blast
  let ?h = "(pp_heap p1)[a := (pp_heap p1 ! a)\<lparr>pi_idx := idx, pi_data := data\<rparr>]"
  have fresh1: "idx \<notin> fst ` set (entries p1)" using fresh sub by (auto simp: indexes_def)
  then have nr: "idx \<notin> fst ` set (entries_of (pp_ready p1))" by (auto simp: entries_def)
  with rdy fr obtain m where m: "ps_insert (pp_ready p1) idx a = Ret m" "m \<noteq> None"
    "entries_of m = (idx, a) # entries_of (pp_ready p1)" using ps_insert_fresh by metis
  let ?pp = "p1\<lparr>pp_heap := ?h, pp_ready := m\<rparr>"
  have run: "getWriter_take B i idx sz mode data pp = Ret (Some a, [SignalRd], ?pp)"
    using op gp a nr m(1) by (simp add: getWriter_take_def pipeSet_push_def ps_lookup_None Let_def)
  have "pool_ok (p1\<lparr>pp_len := pp_len p1 - 1, pp_heap := ?h\<rparr>)"
  proof -
    have "pi_idx (?h ! b) = pi_idx (pp_heap p1 ! b)" if "b \<in> snd ` set (entries p1)" for b
      using that a(2) by (metis nth_list_update_neq)
    then show ?thesis using pool_ok_heap [OF ok1, of ?h] by (simp add: entries_def)
  qed
  then have "pool_ok ?pp"
    using m a fresh1 op rdy fr(1) by (auto simp: pool_ok_def entries_def)
  moreover have "indexes ?pp \<subseteq> insert idx (indexes pp)"
    using sub m(3) by (auto simp: indexes_def entries_def)
  ultimately show ?thesis using run m fr a cm by simp
qed

lemma getWriter_closed: "pp_closed pp \<Longrightarrow> getWriter_take B i idx sz mode data pp = Ret (None, [], pp)"
  by (simp add: getWriter_take_def)

subsection \<open>Taking a pipe for reading\<close>

lemma pool_ok_activate:
  assumes ok: "pool_ok pp" and rdy: "entries_of (pp_ready pp) = xs @ (k, a) # ys"
    and r: "entries_of r = xs @ ys" "r \<noteq> None" and act: "entries_of act = (k, a) # entries_of (pp_active pp)"
      "act \<noteq> None" and w: "-1 \<le> w"
  shows "pool_ok (pp\<lparr>pp_ready := r, pp_active := act, pp_waitIdx := w\<rparr>)"
proof -
  have "pp_ready pp \<noteq> None" using rdy by (cases "pp_ready pp") simp_all
  then show ?thesis using ok r act w by (auto simp: pool_ok_def entries_def rdy)
qed

lemma active_insert:
  assumes ok: "pool_ok pp" and mem: "(k, a) \<in> set (entries_of (pp_ready pp))"
  shows "\<exists>act. pipeSet_push (pp_heap pp) (pp_active pp) (Some a) = Ret act \<and> act \<noteq> None \<and>
           entries_of act = (k, a) # entries_of (pp_active pp) \<and> pi_idx (pp_heap pp ! a) = k"
proof -
  have k: "pi_idx (pp_heap pp ! a) = k" using pool_okD(4) [OF ok, of "(k, a)"] mem
    by (simp add: entries_def)
  have "k \<notin> fst ` set (entries_of (pp_active pp))"
    using pool_ok_disjoint(2) [OF ok] mem by (metis IntI empty_iff fst_conv image_eqI)
  with k pool_okD(6) [OF ok] show ?thesis
    using ps_insert_fresh [of "pp_active pp" k a] by (auto simp: pipeSet_push_def)
qed

text \<open>
  A reader that leaves the wait loop either finds its pipe, which moves from ready to active, or
  there is none (and then the pool is closed) and nothing moves.
\<close>

lemma getReader_take_Some:
  assumes ok: "pool_ok pp" and nb: "\<not> getReader_blocks idx pp"
    and some: "idx \<ge> 0 \<Longrightarrow> ps_lookup (pp_ready pp) idx \<noteq> None"
      "idx < 0 \<Longrightarrow> entries_of (pp_ready pp) \<noteq> []"
  shows "\<exists>k a xs ys pp'. getReader_take i idx pp = Ret (Some a, pp') \<and> pool_ok pp' \<and>
    entries_of (pp_ready pp) = xs @ (k, a) # ys \<and> entries_of (pp_ready pp') = xs @ ys \<and>
    pp_ready pp' \<noteq> None \<and> entries_of (pp_active pp') = (k, a) # entries_of (pp_active pp) \<and>
    (idx \<ge> 0 \<longrightarrow> k = idx) \<and> pp' = pp\<lparr>pp_ready := pp_ready pp', pp_active := pp_active pp',
        pp_waitIdx := (if idx \<ge> 0 then -1 else pp_waitIdx pp)\<rparr>"
proof (cases "idx \<ge> 0")
  case True
  with some obtain a where a: "ps_lookup (pp_ready pp) idx = Some a" by auto
  define r where "r = ps_delete (pp_ready pp) idx"
  obtain xs ys where sp: "entries_of (pp_ready pp) = xs @ (idx, a) # ys" "entries_of r = xs @ ys"
    using a pool_okD(2) [OF ok] unfolding r_def by (rule ps_lookup_split)
  from active_insert [OF ok, of idx a] sp obtain act where
    act: "pipeSet_push (pp_heap pp) (pp_active pp) (Some a) = Ret act" "act \<noteq> None"
      "entries_of act = (idx, a) # entries_of (pp_active pp)" "pi_idx (pp_heap pp ! a) = idx" by auto
  have rn: "r \<noteq> None" using sp by (cases "pp_ready pp") (simp_all add: r_def)
  let ?pp = "pp\<lparr>pp_ready := r, pp_active := act, pp_waitIdx := -1\<rparr>"
  have "getReader_take i idx pp = Ret (Some a, ?pp)"
    using True a act by (simp add: getReader_take_def pipeSet_remove_def r_def)
  moreover have "pool_ok ?pp" using pool_ok_activate [OF ok sp rn act(3,2), of "-1"] by simp
  moreover have "?pp = pp\<lparr>pp_ready := pp_ready ?pp, pp_active := pp_active ?pp, pp_waitIdx := -1\<rparr>" by simp
  moreover have "pp_ready ?pp = r" "pp_active ?pp = act" by simp_all
  ultimately show ?thesis
    using sp act(3) rn True by (intro exI [of _ idx] exI [of _ a] exI [of _ xs] exI [of _ ys]
        exI [of _ ?pp]) (simp only: if_True simp_thms)
next
  case False
  with some obtain a r where pop: "pipeSet_pop i (pp_heap pp) (pp_ready pp) = (Some a, r)"
    by (metis linorder_not_le option.exhaust pipeSet_pop_None prod.collapse)
  have own: "e \<in> set (entries_of (pp_ready pp)) \<Longrightarrow> pi_idx (pp_heap pp ! snd e) = fst e" for e
    using pool_okD(4) [OF ok] by (simp add: entries_def)
  obtain k xs ys where sp: "entries_of (pp_ready pp) = xs @ (k, a) # ys" "entries_of r = xs @ ys"
    "r = None \<longleftrightarrow> pp_ready pp = None"
    using pop pool_okD(2) [OF ok] own by (rule pipeSet_pop_split)
  from active_insert [OF ok, of k a] sp obtain act where
    act: "pipeSet_push (pp_heap pp) (pp_active pp) (Some a) = Ret act" "act \<noteq> None"
      "entries_of act = (k, a) # entries_of (pp_active pp)" by auto
  have rn: "r \<noteq> None" using sp by (cases "pp_ready pp") simp_all
  let ?pp = "pp\<lparr>pp_ready := r, pp_active := act, pp_waitIdx := pp_waitIdx pp\<rparr>"
  have "getReader_take i idx pp = Ret (Some a, ?pp)"
    using False pop act by (simp add: getReader_take_def)
  moreover have "pool_ok ?pp"
    using pool_ok_activate [OF ok sp(1,2) rn act(3,2), of "pp_waitIdx pp"] ok
    by (simp add: pool_ok_def)
  moreover have "?pp = pp\<lparr>pp_ready := pp_ready ?pp, pp_active := pp_active ?pp,
      pp_waitIdx := pp_waitIdx pp\<rparr>" by simp
  moreover have "pp_ready ?pp = r" "pp_active ?pp = act" by simp_all
  ultimately show ?thesis
    using sp act(3) rn False by (intro exI [of _ k] exI [of _ a] exI [of _ xs] exI [of _ ys]
        exI [of _ ?pp]) (simp only: if_False simp_thms)
qed

lemma getReader_take_None:
  assumes ok: "pool_ok pp"
    and none: "idx \<ge> 0 \<Longrightarrow> ps_lookup (pp_ready pp) idx = None" "idx < 0 \<Longrightarrow> entries_of (pp_ready pp) = []"
  shows "getReader_take i idx pp =
    Ret (None, pp\<lparr>pp_waitIdx := (if idx \<ge> 0 then -1 else pp_waitIdx pp)\<rparr>)"
  using none by (cases "idx \<ge> 0")
    (simp_all add: getReader_take_def pipeSet_remove_def pipeSet_pop_def pipeSet_push_def)

subsection \<open>Giving a pipe back\<close>

lemma restore_spec:
  assumes ok: "pool_ok pp" and act: "(k, a) \<in> set (entries_of (pp_active pp))"
  shows "\<exists>sg pp'. restore B (Some a) pp = Ret (Done (), sg, pp') \<and> pool_ok pp' \<and>
    (\<exists>xs ys. entries_of (pp_active pp) = xs @ (k, a) # ys \<and> entries_of (pp_active pp') = xs @ ys) \<and>
    pp_ready pp' = pp_ready pp \<and> pp_cap pp' = pp_cap pp \<and> pp_closed pp' = pp_closed pp \<and>
    pp_waitIdx pp' = pp_waitIdx pp \<and> pp_wrWaitCnt pp' = pp_wrWaitCnt pp \<and>
    pp_rdWaitCnt pp' = pp_rdWaitCnt pp \<and> indexes pp' \<subseteq> indexes pp \<and>
    (if pp_cap pp \<ge> pp_len pp
     then sg = [SignalWr] \<and> entries_of (pp_free pp') = (k, a) # entries_of (pp_free pp) \<and>
          pp_len pp' = pp_len pp
     else sg = [] \<and> pp_free pp' = pp_free pp \<and> pp_len pp' = pp_len pp - 1)"
proof -
  have k: "pi_idx (pp_heap pp ! a) = k" using pool_okD(4) [OF ok, of "(k, a)"] act
    by (simp add: entries_def)
  have lk: "ps_lookup (pp_active pp) k = Some a"
    using pool_okD(3) [OF ok] act by (rule ps_lookup_entry)
  obtain xs ys where sp: "entries_of (pp_active pp) = xs @ (k, a) # ys"
    "entries_of (ps_delete (pp_active pp) k) = xs @ ys"
    using lk pool_okD(3) [OF ok] by (rule ps_lookup_split)
  let ?h = "close_pipe B a (pp_heap pp)" and ?act = "ps_delete (pp_active pp) k"
  have kf: "k \<notin> fst ` set (entries_of (pp_free pp))"
    using pool_ok_disjoint(1) [OF ok] act by (metis IntI empty_iff fst_conv image_eqI)
  obtain fr where fr: "ps_insert (pp_free pp) k a = Ret fr" "fr \<noteq> None"
    "entries_of fr = (k, a) # entries_of (pp_free pp)"
    using ps_insert_fresh [OF pool_okD(5) [OF ok] kf] by blast
  have actn: "pp_active pp \<noteq> None" by (rule pool_okD(6) [OF ok])
  have h: "pool_ok (pp\<lparr>pp_heap := ?h\<rparr>)" using ok by (rule pool_ok_heap) simp_all
  show ?thesis
  proof (cases "pp_cap pp \<ge> pp_len pp")
    case True
    let ?pp = "pp\<lparr>pp_active := ?act, pp_heap := ?h, pp_free := fr\<rparr>"
    have "restore B (Some a) pp = Ret (Done (), [SignalWr], ?pp)"
      using True lk fr by (simp add: restore_def pipeSet_remove_def pipeSet_push_def k)
    moreover have "pool_ok ?pp"
      using h fr actn sp by (auto simp: pool_ok_def entries_def)
    moreover have "indexes ?pp \<subseteq> indexes pp" using fr sp by (auto simp: indexes_def entries_def)
    ultimately show ?thesis using True sp fr by auto
  next
    case False
    let ?pp = "pp\<lparr>pp_active := ?act, pp_heap := ?h, pp_len := pp_len pp - 1\<rparr>"
    have "restore B (Some a) pp = Ret (Done (), [], ?pp)"
      using False lk by (simp add: restore_def pipeSet_remove_def k)
    moreover have "pool_ok ?pp"
      using h actn sp by (auto simp: pool_ok_def entries_def)
    moreover have "indexes ?pp \<subseteq> indexes pp" using sp by (auto simp: indexes_def entries_def)
    ultimately show ?thesis using False sp by auto
  qed
qed

end
