(* ===== verification/Xz_Pool_Sys.thy ===== *)
theory Xz_Pool_Sys
  imports Xz_Pool
begin

text \<open>
  Routines that share a pipe pool, with the condition variables of \<open>xz/pool.go\<close> made explicit: a
  routine that finds nothing to do parks, a signal wakes one parked routine, a broadcast wakes all
  of them, and a woken routine runs its wait loop again when it is scheduled. The steps are those of
  \<open>pipePool\<close>, in any order and by any routine; which parked routine a signal wakes, and which pipe a
  \<open>range\<close> loop picks, is arbitrary.

  A pool is used the way the writer uses its two pools: indexes are not reused, and the readers are
  either all anonymous (the workers on the input pool, parameter \<open>anon\<close>) or a single routine (the
  writing routine on the output pool).
\<close>

section \<open>Routines and wake-ups\<close>

type_synonym 'd wreq = "int \<times> int \<times> bp_mode \<times> 'd option"

datatype 'd tstate =
  Idle | WrParked "'d wreq" | WrWoken "'d wreq" | RdParked int | RdWoken int

fun wake :: "'d tstate \<Rightarrow> 'd tstate" where
  "wake (WrParked w) = WrWoken w"
| "wake (RdParked i) = RdWoken i"
| "wake s = s"

fun is_wrp :: "'d tstate \<Rightarrow> bool" where "is_wrp (WrParked w) = True" | "is_wrp _ = False"
fun is_wrw :: "'d tstate \<Rightarrow> bool" where "is_wrw (WrWoken w) = True" | "is_wrw _ = False"
fun is_rdp :: "'d tstate \<Rightarrow> bool" where "is_rdp (RdParked i) = True" | "is_rdp _ = False"
fun is_rdw :: "'d tstate \<Rightarrow> bool" where "is_rdw (RdWoken i) = True" | "is_rdw _ = False"

definition num :: "('a \<Rightarrow> bool) \<Rightarrow> 'a list \<Rightarrow> nat" where
  "num P xs = length (filter P xs)"

definition wake_one :: "('d tstate \<Rightarrow> bool) \<Rightarrow> nat \<Rightarrow> 'd tstate list \<Rightarrow> 'd tstate list" where
  "wake_one P j thr =
     (let ts = filter (\<lambda>t. P (thr ! t)) [0..<length thr] in
      if ts = [] then thr
      else let t = ts ! (j mod length ts) in thr[t := wake (thr ! t)])"

definition wake_all :: "('d tstate \<Rightarrow> bool) \<Rightarrow> 'd tstate list \<Rightarrow> 'd tstate list" where
  "wake_all P thr = map (\<lambda>s. if P s then wake s else s) thr"

fun apply_signal :: "nat \<Rightarrow> signal \<Rightarrow> 'd tstate list \<Rightarrow> 'd tstate list" where
  "apply_signal j SignalWr thr = wake_one is_wrp j thr"
| "apply_signal j BroadcastWr thr = wake_all is_wrp thr"
| "apply_signal j SignalRd thr = wake_one is_rdp j thr"
| "apply_signal j BroadcastRd thr = wake_all is_rdp thr"

definition apply_signals :: "nat \<Rightarrow> signal list \<Rightarrow> 'd tstate list \<Rightarrow> 'd tstate list" where
  "apply_signals j sg thr = fold (apply_signal j) sg thr"

definition wr_after :: "'d wreq \<Rightarrow> 'r attempt \<Rightarrow> 'd tstate" where
  "wr_after w r = (case r of Wait \<Rightarrow> WrParked w | Done _ \<Rightarrow> Idle)"

definition rd_after :: "int \<Rightarrow> 'r attempt \<Rightarrow> 'd tstate" where
  "rd_after i r = (case r of Wait \<Rightarrow> RdParked i | Done _ \<Rightarrow> Idle)"

record ('p, 'd) psys =
  sy_pool :: "('p, 'd) pipePool"
  sy_thr :: "'d tstate list"
  sy_used :: "int set"

definition no_reader :: "'d tstate list \<Rightarrow> bool" where
  "no_reader thr \<longleftrightarrow> num is_rdp thr = 0 \<and> num is_rdw thr = 0"

text \<open>One rule per operation of the pool, run by routine \<open>t\<close>.\<close>

inductive psys_step :: "'p bufpipe \<Rightarrow> bool \<Rightarrow> ('p, 'd) psys \<Rightarrow> ('p, 'd) psys \<Rightarrow> bool"
  for B :: "'p bufpipe" and anon :: bool where
  call_writer:
    "t < length (sy_thr s) \<Longrightarrow> sy_thr s ! t = Idle \<Longrightarrow> 0 \<le> idx \<Longrightarrow> idx \<notin> sy_used s \<Longrightarrow> 0 \<le> sz \<Longrightarrow>
     getWriter B i idx sz mode data (sy_pool s) = Ret (r, sg, pp') \<Longrightarrow>
     psys_step B anon s (s\<lparr>sy_pool := pp', sy_used := insert idx (sy_used s),
       sy_thr := apply_signals j sg ((sy_thr s)[t := wr_after (idx, sz, mode, data) r])\<rparr>)"
| wake_writer:
    "t < length (sy_thr s) \<Longrightarrow> sy_thr s ! t = WrWoken (idx, sz, mode, data) \<Longrightarrow>
     getWriter_wake B i idx sz mode data (sy_pool s) = Ret (r, sg, pp') \<Longrightarrow>
     psys_step B anon s (s\<lparr>sy_pool := pp',
       sy_thr := apply_signals j sg ((sy_thr s)[t := wr_after (idx, sz, mode, data) r])\<rparr>)"
| call_reader:
    "t < length (sy_thr s) \<Longrightarrow> sy_thr s ! t = Idle \<Longrightarrow>
     (if anon then idx < 0 else no_reader (sy_thr s)) \<Longrightarrow>
     getReader i idx (sy_pool s) = Ret (r, sg, pp') \<Longrightarrow>
     psys_step B anon s (s\<lparr>sy_pool := pp',
       sy_thr := apply_signals j sg ((sy_thr s)[t := rd_after idx r])\<rparr>)"
| wake_reader:
    "t < length (sy_thr s) \<Longrightarrow> sy_thr s ! t = RdWoken idx \<Longrightarrow>
     getReader_wake i idx (sy_pool s) = Ret (r, sg, pp') \<Longrightarrow>
     psys_step B anon s (s\<lparr>sy_pool := pp',
       sy_thr := apply_signals j sg ((sy_thr s)[t := rd_after idx r])\<rparr>)"
| give_back:
    "(k, a) \<in> set (entries_of (pp_active (sy_pool s))) \<Longrightarrow>
     restore B (Some a) (sy_pool s) = Ret (r, sg, pp') \<Longrightarrow>
     psys_step B anon s (s\<lparr>sy_pool := pp', sy_thr := apply_signals j sg (sy_thr s)\<rparr>)"
| set_capacity:
    "setCapacity cnt (sy_pool s) = (sg, pp') \<Longrightarrow>
     psys_step B anon s (s\<lparr>sy_pool := pp', sy_thr := apply_signals j sg (sy_thr s)\<rparr>)"
| interrupted: "psys_step B anon s (s\<lparr>sy_pool := interrupt B (sy_pool s)\<rparr>)"
| closed:
    "pool_close (sy_pool s) = (sg, pp') \<Longrightarrow>
     psys_step B anon s (s\<lparr>sy_pool := pp', sy_thr := apply_signals j sg (sy_thr s)\<rparr>)"
| terminated:
    "pool_terminate B (sy_pool s) = (sg, pp') \<Longrightarrow>
     psys_step B anon s (s\<lparr>sy_pool := pp', sy_thr := apply_signals j sg (sy_thr s)\<rparr>)"

definition psys_init :: "('p, 'd) psys \<Rightarrow> bool" where
  "psys_init s \<longleftrightarrow> sy_pool s = newPipePool \<and> sy_used s = {} \<and> set (sy_thr s) \<subseteq> {Idle}"

section \<open>Counting routines\<close>

lemma num_simps [simp]:
  "num P [] = 0" "num P (x # xs) = (if P x then 1 else 0) + num P xs"
  "num P (xs @ ys) = num P xs + num P ys"
  by (simp_all add: num_def)

lemma num_0: "num P xs = 0 \<longleftrightarrow> (\<forall>x \<in> set xs. \<not> P x)"
  by (simp add: num_def filter_empty_conv)

lemma num_update:
  "t < length xs \<Longrightarrow>
   num P (xs[t := y]) + (if P (xs ! t) then 1 else 0) = num P xs + (if P y then 1 else 0)"
proof -
  assume t: "t < length xs"
  have "num P (xs[t := y]) = num P (take t xs @ y # drop (Suc t) xs)"
    using t by (simp only: upd_conv_take_nth_drop)
  moreover have "num P xs = num P (take t xs @ xs ! t # drop (Suc t) xs)"
    using t by (simp only: id_take_nth_drop [symmetric])
  ultimately show ?thesis by simp
qed

text \<open>A signal changes nothing when nobody is parked, and moves one parked routine otherwise.\<close>

lemma wake_one_cases:
  obtains (none) "num P thr = 0" "wake_one P j thr = thr"
  | (one) t where "t < length thr" "P (thr ! t)" "wake_one P j thr = thr[t := wake (thr ! t)]"
proof (cases "filter (\<lambda>t. P (thr ! t)) [0..<length thr] = []")
  case True
  then have "\<not> P (thr ! t)" if "t < length thr" for t using that by (auto simp: filter_empty_conv)
  then have "num P thr = 0" by (auto simp: num_0 in_set_conv_nth)
  with True none show thesis by (simp add: wake_one_def)
next
  case False
  let ?ts = "filter (\<lambda>t. P (thr ! t)) [0..<length thr]"
  have "?ts ! (j mod length ?ts) \<in> set ?ts" using False by (intro nth_mem) simp
  then have "?ts ! (j mod length ?ts) < length thr" "P (thr ! (?ts ! (j mod length ?ts)))" by simp_all
  moreover have "wake_one P j thr =
      thr[?ts ! (j mod length ?ts) := wake (thr ! (?ts ! (j mod length ?ts)))]"
    using False by (simp only: wake_one_def Let_def if_False)
  ultimately show thesis by (rule one)
qed

text \<open>What a routine waits for; waking it does not change that.\<close>

fun wreqs :: "'d tstate \<Rightarrow> 'd wreq list" where
  "wreqs (WrParked w) = [w]" | "wreqs (WrWoken w) = [w]" | "wreqs _ = []"

fun rreqs :: "'d tstate \<Rightarrow> int list" where
  "rreqs (RdParked i) = [i]" | "rreqs (RdWoken i) = [i]" | "rreqs _ = []"

definition pending_wr :: "'d tstate list \<Rightarrow> 'd wreq list" where
  "pending_wr thr = concat (map wreqs thr)"

definition pending_rd :: "'d tstate list \<Rightarrow> int list" where
  "pending_rd thr = concat (map rreqs thr)"

lemma wake_reqs [simp]: "wreqs (wake s) = wreqs s" "rreqs (wake s) = rreqs s"
  by (cases s; simp)+

lemma map_update_same: "t < length xs \<Longrightarrow> f y = f (xs ! t) \<Longrightarrow> map f (xs[t := y]) = map f xs"
  by (metis list_update_id map_update)

lemma map_reqs_wake_one:
  "map wreqs (wake_one P j thr) = map wreqs thr" "map rreqs (wake_one P j thr) = map rreqs thr"
  by (rule wake_one_cases [of P thr j]; simp add: map_update_same)+

lemma map_reqs_signal:
  "map wreqs (apply_signal j g thr) = map wreqs thr \<and> map rreqs (apply_signal j g thr) = map rreqs thr"
  by (cases g) (simp_all add: map_reqs_wake_one wake_all_def)

lemma pending_signals [simp]:
  "pending_wr (apply_signals j sg thr) = pending_wr thr"
  "pending_rd (apply_signals j sg thr) = pending_rd thr"
proof -
  have "map wreqs (fold (apply_signal j) sg thr) = map wreqs thr \<and>
        map rreqs (fold (apply_signal j) sg thr) = map rreqs thr"
    by (induction sg arbitrary: thr) (simp_all add: map_reqs_signal)
  then show "pending_wr (apply_signals j sg thr) = pending_wr thr"
    "pending_rd (apply_signals j sg thr) = pending_rd thr"
    by (simp_all add: apply_signals_def pending_wr_def pending_rd_def)
qed

lemma concat_map_update:
  assumes "t < length xs"
  obtains A C where "concat (map f xs) = A @ f (xs ! t) @ C"
    "\<And>y. concat (map f (xs[t := y])) = A @ f y @ C"
proof
  have "concat (map f xs) = concat (map f (take t xs @ xs ! t # drop (Suc t) xs))"
    using assms by (simp only: id_take_nth_drop [symmetric])
  then show "concat (map f xs) = concat (map f (take t xs)) @ f (xs ! t) @ concat (map f (drop (Suc t) xs))"
    by simp
  show "concat (map f (xs[t := y])) =
      concat (map f (take t xs)) @ f y @ concat (map f (drop (Suc t) xs))" for y
    using assms by (simp add: upd_conv_take_nth_drop)
qed

lemma pending_parked:
  "WrParked w \<in> set thr \<Longrightarrow> w \<in> set (pending_wr thr)"
  "RdParked i \<in> set thr \<Longrightarrow> i \<in> set (pending_rd thr)"
  by (force simp: pending_wr_def pending_rd_def)+

lemma length_pending:
  "length (pending_wr thr) = num (\<lambda>t. is_wrp t \<or> is_wrw t) thr"
  "length (pending_rd thr) = num (\<lambda>t. is_rdp t \<or> is_rdw t) thr"
proof (induction thr)
  case (Cons x xs)
  { case 1 then show ?case using Cons by (cases x) (simp_all add: pending_wr_def)
  next
    case 2 then show ?case using Cons by (cases x) (simp_all add: pending_rd_def) }
qed (simp_all add: pending_wr_def pending_rd_def)

lemma num_parked_0:
  "num is_wrp thr = 0 \<longleftrightarrow> (\<forall>w. WrParked w \<notin> set thr)" "num is_rdp thr = 0 \<longleftrightarrow> (\<forall>i. RdParked i \<notin> set thr)"
  unfolding num_0 by (metis is_wrp.elims(2) is_wrp.simps(1), metis is_rdp.elims(2) is_rdp.simps(1))

text \<open>Signals to one condition variable leave the waiters of the other alone.\<close>

lemma wake_other:
  "\<not> is_wrp s \<Longrightarrow> \<not> is_wrw s \<Longrightarrow> is_wrw (wake s) = False \<and> (wake s = WrParked w) = False"
  "\<not> is_rdp s \<Longrightarrow> \<not> is_rdw s \<Longrightarrow> is_rdw (wake s) = False \<and> (wake s = RdParked i) = False"
  by (cases s; simp)+

definition wr_part :: "'d tstate \<Rightarrow> 'd tstate" where
  "wr_part s = (if is_wrp s \<or> is_wrw s then s else Idle)"

definition rd_part :: "'d tstate \<Rightarrow> 'd tstate" where
  "rd_part s = (if is_rdp s \<or> is_rdw s then s else Idle)"

lemma parts_wake:
  "is_rdp s \<Longrightarrow> wr_part (wake s) = wr_part s" "is_wrp s \<Longrightarrow> rd_part (wake s) = rd_part s"
  by (cases s; simp add: wr_part_def rd_part_def)+

lemma parts_signal [simp]:
  "map wr_part (apply_signal j SignalRd thr) = map wr_part thr"
  "map wr_part (apply_signal j BroadcastRd thr) = map wr_part thr"
  "map rd_part (apply_signal j SignalWr thr) = map rd_part thr"
  "map rd_part (apply_signal j BroadcastWr thr) = map rd_part thr"
  by (simp_all add: wake_all_def parts_wake)
    (rule wake_one_cases [of is_rdp thr j]; simp add: map_update_same parts_wake
    |rule wake_one_cases [of is_wrp thr j]; simp add: map_update_same parts_wake)+

lemma num_parts:
  "num is_wrw thr = num is_wrw (map wr_part thr)" "num is_rdw thr = num is_rdw (map rd_part thr)"
  by (induction thr) (auto simp: wr_part_def rd_part_def)

lemma parked_parts:
  "WrParked w \<in> set thr \<longleftrightarrow> WrParked w \<in> set (map wr_part thr)"
  "RdParked i \<in> set thr \<longleftrightarrow> RdParked i \<in> set (map rd_part thr)"
  by (force simp: wr_part_def rd_part_def image_iff split: if_splits)+

section \<open>The invariant\<close>

text \<open>
  The pool is well formed; routines that wait for a writer hold different indexes that are not in
  the pool; the counters that \<open>getStats\<close> reports count the waiting routines.
\<close>

definition psys_core :: "('p, 'd) pipePool \<Rightarrow> 'd tstate list \<Rightarrow> int set \<Rightarrow> bool" where
  "psys_core pp thr used \<longleftrightarrow>
     pool_ok pp \<and> indexes pp \<subseteq> used \<and>
     (\<forall>w \<in> set (pending_wr thr). 0 \<le> fst w \<and> fst w \<in> used \<and> fst w \<notin> indexes pp \<and> 0 \<le> fst (snd w)) \<and>
     distinct (map fst (pending_wr thr)) \<and>
     pp_wrWaitCnt pp = int (length (pending_wr thr)) \<and> pp_rdWaitCnt pp = int (length (pending_rd thr))"

text \<open>
  A parked writer has reason to wait: the pool is open and full, its index is not the one awaited,
  and every free pipe (but \<open>k\<close> of them) has a woken writer on its way.
\<close>

definition wr_wake :: "nat \<Rightarrow> ('p, 'd) pipePool \<Rightarrow> 'd tstate list \<Rightarrow> bool" where
  "wr_wake k pp thr \<longleftrightarrow>
     (\<forall>w. WrParked w \<in> set thr \<longrightarrow>
        \<not> pp_closed pp \<and> pp_cap pp \<le> pp_len pp \<and> fst w \<noteq> pp_waitIdx pp \<and>
        ps_len (pp_free pp) \<le> num is_wrw thr + k)"

text \<open>
  A parked reader has reason to wait: with anonymous readers every ready pipe (but \<open>k\<close>) has a woken
  reader on its way; a single reader's wait condition holds (when \<open>k\<close> is 0).
\<close>

definition rd_anon :: "nat \<Rightarrow> ('p, 'd) pipePool \<Rightarrow> 'd tstate list \<Rightarrow> bool" where
  "rd_anon k pp thr \<longleftrightarrow>
     (\<forall>i \<in> set (pending_rd thr). i < 0) \<and> pp_waitIdx pp = -1 \<and>
     (\<forall>i. RdParked i \<in> set thr \<longrightarrow> \<not> pp_closed pp \<and> ps_len (pp_ready pp) \<le> num is_rdw thr + k)"

definition rd_single :: "nat \<Rightarrow> ('p, 'd) pipePool \<Rightarrow> 'd tstate list \<Rightarrow> bool" where
  "rd_single k pp thr \<longleftrightarrow>
     length (pending_rd thr) \<le> 1 \<and>
     pp_waitIdx pp = (case pending_rd thr of [] \<Rightarrow> -1 | i # _ \<Rightarrow> max i (-1)) \<and>
     (k = 0 \<longrightarrow> (\<forall>i. RdParked i \<in> set thr \<longrightarrow> getReader_blocks i pp))"

definition rd_wake :: "bool \<Rightarrow> nat \<Rightarrow> ('p, 'd) pipePool \<Rightarrow> 'd tstate list \<Rightarrow> bool" where
  "rd_wake anon k pp thr = (if anon then rd_anon k pp thr else rd_single k pp thr)"

definition psys_inv :: "bool \<Rightarrow> ('p, 'd) psys \<Rightarrow> bool" where
  "psys_inv anon s \<longleftrightarrow>
     psys_core (sy_pool s) (sy_thr s) (sy_used s) \<and> wr_wake 0 (sy_pool s) (sy_thr s) \<and>
     rd_wake anon 0 (sy_pool s) (sy_thr s)"

subsection \<open>Signals restore the wake-up conditions\<close>

lemma wr_wake_parts: "map wr_part thr = map wr_part thr' \<Longrightarrow> wr_wake k pp thr = wr_wake k pp thr'"
  unfolding wr_wake_def by (simp only: parked_parts [of _ thr] parked_parts [of _ thr']
      num_parts(1) [of thr] num_parts(1) [of thr'])

lemma rd_wake_parts:
  "map rd_part thr = map rd_part thr' \<Longrightarrow> pending_rd thr = pending_rd thr' \<Longrightarrow>
   rd_wake anon k pp thr = rd_wake anon k pp thr'"
  unfolding rd_wake_def rd_anon_def rd_single_def
  by (simp only: parked_parts [of _ thr] parked_parts [of _ thr']
      num_parts(2) [of thr] num_parts(2) [of thr'])

lemma no_parked_after_broadcast:
  "WrParked w \<notin> set (apply_signal j BroadcastWr thr)" "RdParked i \<notin> set (apply_signal j BroadcastRd thr)"
proof -
  have "WrParked w \<noteq> (if is_wrp s then wake s else s)" for s by (cases s; simp)
  then show "WrParked w \<notin> set (apply_signal j BroadcastWr thr)"
    unfolding apply_signal.simps wake_all_def set_map by blast
  have "RdParked i \<noteq> (if is_rdp s then wake s else s)" for s by (cases s; simp)
  then show "RdParked i \<notin> set (apply_signal j BroadcastRd thr)"
    unfolding apply_signal.simps wake_all_def set_map by blast
qed

lemma pending_signal1 [simp]:
  "pending_rd (apply_signal j g thr) = pending_rd thr" "pending_wr (apply_signal j g thr) = pending_wr thr"
  using map_reqs_signal [of j g thr] by (simp_all add: pending_rd_def pending_wr_def)

lemma wr_wake_signal:
  "wr_wake k pp (apply_signal j SignalRd thr) = wr_wake k pp thr"
  "wr_wake k pp (apply_signal j BroadcastRd thr) = wr_wake k pp thr"
  "wr_wake k pp (apply_signal j BroadcastWr thr)"
  by (simp_all only: wr_wake_parts [OF parts_signal(1)] wr_wake_parts [OF parts_signal(2)])
    (simp only: wr_wake_def no_parked_after_broadcast simp_thms)

lemma rd_wake_signal:
  "rd_wake anon k pp (apply_signal j SignalWr thr) = rd_wake anon k pp thr"
  "rd_wake anon k pp (apply_signal j BroadcastWr thr) = rd_wake anon k pp thr"
  by (rule rd_wake_parts; simp only: parts_signal pending_signal1)+

lemma rd_wake_broadcast:
  "rd_wake anon 1 pp thr \<Longrightarrow> rd_wake anon 0 pp' (apply_signal j BroadcastRd thr)"
  if "pp_waitIdx pp' = pp_waitIdx pp"
  using that by (auto simp: rd_wake_def rd_anon_def rd_single_def no_parked_after_broadcast
      simp del: apply_signal.simps)

lemma signal_wr_wakes:
  assumes "wr_wake 1 pp thr"
  shows "wr_wake 0 pp (apply_signal j SignalWr thr)"
proof (rule wake_one_cases [of is_wrp thr j])
  assume "num is_wrp thr = 0" "wake_one is_wrp j thr = thr"
  then show ?thesis by (force simp: wr_wake_def num_0)
next
  fix t assume t: "t < length thr" "is_wrp (thr ! t)" "wake_one is_wrp j thr = thr[t := wake (thr ! t)]"
  have k: "\<not> is_wrw (thr ! t)" "is_wrw (wake (thr ! t))" "wake (thr ! t) \<noteq> WrParked w" for w
    using t(2) by (cases "thr ! t"; simp)+
  have "num is_wrw (thr[t := wake (thr ! t)]) = num is_wrw thr + 1"
    using num_update [OF t(1), of is_wrw "wake (thr ! t)"] k by simp
  moreover have "WrParked w \<in> set (thr[t := wake (thr ! t)]) \<Longrightarrow> WrParked w \<in> set thr" for w
    using set_update_subset_insert [of thr t "wake (thr ! t)"] k(3) [of w] by auto
  ultimately show ?thesis
    using assms t(3) unfolding wr_wake_def by (metis add.assoc add_0_right apply_signal.simps(1) add.commute)
qed

lemma signal_rd_wakes:
  assumes "rd_wake anon 1 pp thr"
  shows "rd_wake anon 0 pp (apply_signal j SignalRd thr)"
proof (rule wake_one_cases [of is_rdp thr j])
  assume "num is_rdp thr = 0" "wake_one is_rdp j thr = thr"
  then show ?thesis using assms by (force simp: rd_wake_def rd_anon_def rd_single_def num_0)
next
  fix t assume t: "t < length thr" "is_rdp (thr ! t)" "wake_one is_rdp j thr = thr[t := wake (thr ! t)]"
  let ?thr = "thr[t := wake (thr ! t)]"
  have k: "\<not> is_rdw (thr ! t)" "is_rdw (wake (thr ! t))" "wake (thr ! t) \<noteq> RdParked w"
    "rreqs (wake (thr ! t)) \<noteq> []" for w
    using t(2) by (cases "thr ! t"; simp)+
  have n: "num is_rdw ?thr = num is_rdw thr + 1"
    using num_update [OF t(1), of is_rdw "wake (thr ! t)"] k by simp
  have m: "RdParked i \<in> set ?thr \<Longrightarrow> RdParked i \<in> set thr" for i
    using set_update_subset_insert [of thr t "wake (thr ! t)"] k(3) [of i] by auto
  have p: "pending_rd ?thr = pending_rd thr"
    using pending_signal1(1) [of j SignalRd thr] t(3) by simp
  have "RdParked i \<notin> set ?thr" if one: "length (pending_rd thr) \<le> 1" for i
  proof
    assume "RdParked i \<in> set ?thr"
    then obtain u where u: "u < length thr" "u \<noteq> t" "?thr ! u = RdParked i"
      using k(3) t(1) by (metis in_set_conv_nth length_list_update nth_list_update)
    obtain A C where ac: "pending_rd ?thr = A @ rreqs (?thr ! t) @ C"
      "\<And>y. pending_rd (?thr[t := y]) = A @ rreqs y @ C"
      using concat_map_update [of t ?thr rreqs] t(1) unfolding pending_rd_def by auto
    have "RdParked i \<in> set (?thr[t := Idle])"
      using u by (metis length_list_update nth_list_update_neq nth_mem)
    then have "i \<in> set (pending_rd (?thr[t := Idle]))" by (rule pending_parked)
    then have "1 \<le> length (A @ C)" unfolding ac(2) by (cases "A @ C") auto
    moreover have "1 \<le> length (rreqs (?thr ! t))" using k(4) t(1) by (cases "rreqs (wake (thr ! t))") auto
    ultimately show False using one ac(1) p by simp
  qed
  then have "rd_single 0 pp ?thr" if "rd_single 1 pp thr" using that p by (simp add: rd_single_def)
  moreover have "rd_anon 0 pp ?thr" if "rd_anon 1 pp thr" using that p n m by (auto simp: rd_anon_def)
  ultimately show ?thesis using assms by (simp add: t(3) rd_wake_def)
qed

subsection \<open>The outcomes of an attempt\<close>

lemma getWriter_loop_cases:
  assumes ok: "pool_ok pp" and new: "pipe_new_laws B" and sz: "0 \<le> sz" and fresh: "idx \<notin> indexes pp"
  obtains (wait) "getWriter_blocks idx pp"
      "getWriter_loop B i idx sz mode data pp = Ret (Wait, [], pp\<lparr>pp_wrWaitCnt := pp_wrWaitCnt pp + 1\<rparr>)"
  | (refused) "pp_closed pp" "getWriter_loop B i idx sz mode data pp = Ret (Done None, [], pp)"
  | (taken) a pp' where "\<not> pp_closed pp"
      "getWriter_loop B i idx sz mode data pp = Ret (Done (Some a), [SignalRd], pp')" "pool_ok pp'"
      "entries_of (pp_ready pp') = (idx, a) # entries_of (pp_ready pp)" "pp_cap pp' = pp_cap pp"
      "pp_closed pp' = pp_closed pp" "pp_waitIdx pp' = pp_waitIdx pp"
      "pp_wrWaitCnt pp' = pp_wrWaitCnt pp" "pp_rdWaitCnt pp' = pp_rdWaitCnt pp"
      "indexes pp' \<subseteq> insert idx (indexes pp)" "ps_len (pp_free pp') = ps_len (pp_free pp) - 1"
      "pp_len pp' \<ge> pp_len pp"
proof (cases "getWriter_blocks idx pp")
  case True
  with wait show thesis by (simp add: getWriter_loop_def)
next
  case nb: False
  show thesis
  proof (cases "pp_closed pp")
    case True
    with nb refused show thesis by (simp add: getWriter_loop_def getWriter_closed)
  next
    case False
    with getWriter_take_spec [OF ok new sz False fresh, of i mode data] nb taken show thesis
      by (fastforce simp: getWriter_loop_def)
  qed
qed

lemma getReader_loop_cases:
  assumes ok: "pool_ok pp"
  obtains (wait) "getReader_blocks idx pp"
      "getReader_loop i idx sg pp = Ret (Wait, sg, pp\<lparr>pp_rdWaitCnt := pp_rdWaitCnt pp + 1\<rparr>)"
  | (ended) "pp_closed pp" "getReader_loop i idx sg pp =
      Ret (Done None, sg, pp\<lparr>pp_waitIdx := (if idx \<ge> 0 then -1 else pp_waitIdx pp)\<rparr>)"
      "if idx \<ge> 0 then ps_lookup (pp_ready pp) idx = None else entries_of (pp_ready pp) = []"
  | (taken) k a r act where "\<not> getReader_blocks idx pp"
      "getReader_loop i idx sg pp = Ret (Done (Some a), sg, pp\<lparr>pp_ready := r, pp_active := act,
         pp_waitIdx := (if idx \<ge> 0 then -1 else pp_waitIdx pp)\<rparr>)"
      "pool_ok (pp\<lparr>pp_ready := r, pp_active := act, pp_waitIdx := (if idx \<ge> 0 then -1 else pp_waitIdx pp)\<rparr>)"
      "idx \<ge> 0 \<longrightarrow> k = idx" "(k, a) \<in> set (entries_of (pp_ready pp))"
      "ps_len r < ps_len (pp_ready pp)" "entries_of act = (k, a) # entries_of (pp_active pp)"
      "set (entries_of (pp_ready pp)) = insert (k, a) (set (entries_of r))"
proof (cases "getReader_blocks idx pp")
  case True
  with wait show thesis by (simp add: getReader_loop_def)
next
  case nb: False
  show thesis
  proof (cases "if idx \<ge> 0 then ps_lookup (pp_ready pp) idx = None else entries_of (pp_ready pp) = []")
    case True
    with nb have "pp_closed pp" by (auto simp: getReader_blocks_def split: if_splits)
    moreover have "getReader_take i idx pp =
        Ret (None, pp\<lparr>pp_waitIdx := (if idx \<ge> 0 then -1 else pp_waitIdx pp)\<rparr>)"
      using ok by (rule getReader_take_None) (use True in \<open>simp_all split: if_splits\<close>)
    ultimately have "getReader_loop i idx sg pp =
        Ret (Done None, sg, pp\<lparr>pp_waitIdx := (if idx \<ge> 0 then -1 else pp_waitIdx pp)\<rparr>)"
      using nb unfolding getReader_loop_def by (simp only: if_False gobind.simps prod.case)
    with \<open>pp_closed pp\<close> show thesis using True by (rule ended)
  next
    case False
    then have c: "idx \<ge> 0 \<Longrightarrow> ps_lookup (pp_ready pp) idx \<noteq> None"
      "idx < 0 \<Longrightarrow> entries_of (pp_ready pp) \<noteq> []" by auto
    from getReader_take_Some [OF ok nb c, of i] obtain k a xs ys pp' where
      run: "getReader_take i idx pp = Ret (Some a, pp')" and ok': "pool_ok pp'"
      and sp: "entries_of (pp_ready pp) = xs @ (k, a) # ys" "entries_of (pp_ready pp') = xs @ ys"
      and act: "entries_of (pp_active pp') = (k, a) # entries_of (pp_active pp)" and k: "idx \<ge> 0 \<longrightarrow> k = idx"
      and pp': "pp' = pp\<lparr>pp_ready := pp_ready pp', pp_active := pp_active pp',
        pp_waitIdx := (if idx \<ge> 0 then -1 else pp_waitIdx pp)\<rparr>" by blast
    have "getReader_loop i idx sg pp = Ret (Done (Some a), sg, pp')"
      using run nb by (simp add: getReader_loop_def)
    then show thesis
      using taken [of a "pp_active pp'" "pp_ready pp'" k] nb ok' k act sp pp' by auto
  qed
qed

text \<open>Changes to a pool that matter to neither its shape nor its sets.\<close>

lemma pool_ok_frame:
  "pool_ok (pp\<lparr>pp_wrWaitCnt := n\<rparr>) = pool_ok pp" "pool_ok (pp\<lparr>pp_rdWaitCnt := n\<rparr>) = pool_ok pp"
  "pool_ok (pp\<lparr>pp_cap := n\<rparr>) = pool_ok pp" "-1 \<le> i \<Longrightarrow> pool_ok pp \<Longrightarrow> pool_ok (pp\<lparr>pp_waitIdx := i\<rparr>)"
  "pool_ok pp \<Longrightarrow> pool_ok (pp\<lparr>pp_closed := True\<rparr>)"
  "indexes (pp\<lparr>pp_wrWaitCnt := n\<rparr>) = indexes pp" "indexes (pp\<lparr>pp_rdWaitCnt := n\<rparr>) = indexes pp"
  "indexes (pp\<lparr>pp_cap := n\<rparr>) = indexes pp" "indexes (pp\<lparr>pp_waitIdx := i\<rparr>) = indexes pp"
  "indexes (pp\<lparr>pp_closed := c\<rparr>) = indexes pp" "indexes (pp\<lparr>pp_heap := h\<rparr>) = indexes pp"
  by (auto simp: pool_ok_def entries_def indexes_def)

subsection \<open>Every step keeps the invariant\<close>

lemma psys_coreD:
  assumes "psys_core pp thr used"
  shows "pool_ok pp" "indexes pp \<subseteq> used" "distinct (map fst (pending_wr thr))"
    "\<And>w. w \<in> set (pending_wr thr) \<Longrightarrow> 0 \<le> fst w \<and> fst w \<in> used \<and> fst w \<notin> indexes pp \<and> 0 \<le> fst (snd w)"
    "pp_wrWaitCnt pp = int (length (pending_wr thr))" "pp_rdWaitCnt pp = int (length (pending_rd thr))"
  using assms unfolding psys_core_def by blast+

text \<open>The invariant only depends on these parts of the pool.\<close>

lemma psys_core_cong:
  assumes "psys_core pp thr used" and "pool_ok pp'" and "indexes pp' \<subseteq> indexes pp"
    and "pp_wrWaitCnt pp' = pp_wrWaitCnt pp" and "pp_rdWaitCnt pp' = pp_rdWaitCnt pp"
    and "pending_wr thr' = pending_wr thr" and "pending_rd thr' = pending_rd thr"
  shows "psys_core pp' thr' used"
  using assms unfolding psys_core_def by auto

lemma psys_core_used: "psys_core pp thr used \<Longrightarrow> psys_core pp thr (insert i used)"
  unfolding psys_core_def by auto

lemma rd_wake_pool:
  "pp_closed pp' = pp_closed pp \<Longrightarrow> pp_ready pp' = pp_ready pp \<Longrightarrow> pp_waitIdx pp' = pp_waitIdx pp \<Longrightarrow>
   rd_wake anon k pp' thr = rd_wake anon k pp thr"
  by (simp add: rd_wake_def rd_anon_def rd_single_def getReader_blocks_def)

lemma wr_wakeI:
  assumes "\<And>w. WrParked w \<in> set thr \<Longrightarrow> \<not> pp_closed pp \<and> pp_cap pp \<le> pp_len pp \<and>
     fst w \<noteq> pp_waitIdx pp \<and> ps_len (pp_free pp) \<le> num is_wrw thr + k"
  shows "wr_wake k pp thr"
  using assms unfolding wr_wake_def by blast

lemma wr_wakeD:
  assumes "wr_wake k pp thr" and "WrParked w \<in> set thr"
  shows "\<not> pp_closed pp" "pp_cap pp \<le> pp_len pp" "fst w \<noteq> pp_waitIdx pp"
    "ps_len (pp_free pp) \<le> num is_wrw thr + k"
  using assms unfolding wr_wake_def by blast+

lemma wr_part_simps [simp]:
  "wr_part Idle = Idle" "wr_part (RdParked i) = Idle" "wr_part (RdWoken i) = Idle"
  "rd_part Idle = Idle" "rd_part (WrParked w) = Idle" "rd_part (WrWoken w) = Idle"
  by (simp_all add: wr_part_def rd_part_def)

lemma pending_update:
  assumes "t < length thr"
  obtains A C where "pending_wr thr = A @ wreqs (thr ! t) @ C" "\<And>x. pending_wr (thr[t := x]) = A @ wreqs x @ C"
  using concat_map_update [OF assms, of wreqs] unfolding pending_wr_def by blast

lemma pending_update_rd:
  assumes "t < length thr"
  obtains A C where "pending_rd thr = A @ rreqs (thr ! t) @ C" "\<And>x. pending_rd (thr[t := x]) = A @ rreqs x @ C"
  using concat_map_update [OF assms, of rreqs] unfolding pending_rd_def by blast

text \<open>A routine takes part in one of the two queues only.\<close>

lemma update_wr_only:
  assumes "t < length thr" and "rd_part x = Idle" and "rd_part (thr ! t) = Idle"
  shows "pending_rd (thr[t := x]) = pending_rd thr" and "rd_wake anon k pp (thr[t := x]) = rd_wake anon k pp thr"
proof -
  have "rreqs x = rreqs (thr ! t)" using assms(2,3) by (cases x; cases "thr ! t"; simp add: rd_part_def)
  then show p: "pending_rd (thr[t := x]) = pending_rd thr"
    using assms(1) by (simp add: pending_rd_def map_update_same)
  have "map rd_part (thr[t := x]) = map rd_part thr" using assms by (simp add: map_update_same)
  then show "rd_wake anon k pp (thr[t := x]) = rd_wake anon k pp thr" using p by (rule rd_wake_parts)
qed

lemma update_rd_only:
  assumes "t < length thr" and "wr_part x = Idle" and "wr_part (thr ! t) = Idle"
  shows "pending_wr (thr[t := x]) = pending_wr thr" and "wr_wake k pp (thr[t := x]) = wr_wake k pp thr"
proof -
  have "wreqs x = wreqs (thr ! t)" using assms(2,3) by (cases x; cases "thr ! t"; simp add: wr_part_def)
  then show p: "pending_wr (thr[t := x]) = pending_wr thr"
    using assms(1) by (simp add: pending_wr_def map_update_same)
  have "map wr_part (thr[t := x]) = map wr_part thr" using assms by (simp add: map_update_same)
  then show "wr_wake k pp (thr[t := x]) = wr_wake k pp thr" by (rule wr_wake_parts)
qed

lemma writer_attempt:
  assumes core: "psys_core pp thr used" and t: "t < length thr" "thr ! t = Idle"
    and wr: "wr_wake 1 pp thr" and rd: "rd_wake anon 0 pp thr" and new: "pipe_new_laws B"
    and req: "0 \<le> sz" "0 \<le> idx" "idx \<in> used" "idx \<notin> indexes pp" "idx \<notin> fst ` set (pending_wr thr)"
    and run: "getWriter_loop B i idx sz mode data pp = Ret (r, sg, pp')"
    and thr': "thr' = apply_signals j sg (thr[t := wr_after (idx, sz, mode, data) r])"
  shows "psys_core pp' thr' used \<and> wr_wake 0 pp' thr' \<and> rd_wake anon 0 pp' thr'"
  using psys_coreD(1) [OF core] new req(1,4)
proof (cases rule: getWriter_loop_cases [of pp B sz idx i mode data])
  case wait
  let ?w = "(idx, sz, mode, data)"
  from wait run have r: "thr' = thr[t := WrParked ?w]" "pp' = pp\<lparr>pp_wrWaitCnt := pp_wrWaitCnt pp + 1\<rparr>"
    by (auto simp: thr' wr_after_def apply_signals_def)
  obtain A C where p: "pending_wr thr = A @ C" "pending_wr thr' = A @ ?w # C"
    using pending_update [OF t(1)] t(2) by (metis append_Cons append_Nil r(1) wreqs.simps(1) wreqs.simps(3))
  have "psys_core pp' thr' used"
    using core p req update_wr_only(1) [OF t(1), of "WrParked ?w"] t(2)
    by (auto simp: psys_core_def r(1) r(2) pool_ok_frame)
  moreover have "wr_wake 0 pp' thr'"
  proof (rule wr_wakeI)
    fix w assume "WrParked w \<in> set thr'"
    then have "w = ?w \<or> WrParked w \<in> set thr"
      using set_update_subset_insert [of thr t "WrParked ?w"] by (auto simp: r(1))
    then show "\<not> pp_closed pp' \<and> pp_cap pp' \<le> pp_len pp' \<and> fst w \<noteq> pp_waitIdx pp' \<and>
        ps_len (pp_free pp') \<le> num is_wrw thr' + 0"
      using wait(1) wr_wakeD(3) [OF wr, of w] by (auto simp: getWriter_blocks_def r(2))
  qed
  moreover have "rd_wake anon 0 pp' thr'"
  proof -
    have "rd_wake anon 0 pp thr'"
      using rd update_wr_only(2) [OF t(1), of "WrParked ?w" anon 0 pp] t(2) by (simp add: r(1))
    then show ?thesis by (subst rd_wake_pool [of pp' pp]) (simp_all add: r(2))
  qed
  ultimately show ?thesis by blast
next
  case refused
  with run t have "thr' = thr" "pp' = pp"
    by (auto simp: thr' wr_after_def apply_signals_def) (metis list_update_id)
  moreover have "wr_wake 0 pp thr" using wr_wakeD(1) [OF wr] refused(1) by (intro wr_wakeI) blast
  ultimately show ?thesis using core rd by simp
next
  case (taken a q)
  have upd: "thr[t := Idle] = thr" using t by (metis list_update_id)
  from taken(2) run upd have r: "thr' = apply_signal j SignalRd thr" "pp' = q"
    by (auto simp: thr' wr_after_def apply_signals_def)
  have w: "0 \<le> fst w \<and> fst w \<in> used \<and> fst w \<notin> indexes q \<and> 0 \<le> fst (snd w)"
    if "w \<in> set (pending_wr thr)" for w
    using psys_coreD(4) [OF core that] taken(10) req(5) that by (metis image_eqI insertE subsetD)
  have "indexes q \<subseteq> used" using taken(10) psys_coreD(2) [OF core] req(3) by blast
  moreover have "pp_wrWaitCnt q = int (length (pending_wr thr))" "pp_rdWaitCnt q = int (length (pending_rd thr))"
    using taken(8,9) psys_coreD(5,6) [OF core] by simp_all
  ultimately have "psys_core pp' thr' used"
    unfolding psys_core_def r pending_signal1 using w taken(3) psys_coreD(3) [OF core] by blast
  moreover have "wr_wake 0 pp' thr"
  proof (rule wr_wakeI)
    fix w assume "WrParked w \<in> set thr"
    note d = wr_wakeD [OF wr this]
    show "\<not> pp_closed pp' \<and> pp_cap pp' \<le> pp_len pp' \<and> fst w \<noteq> pp_waitIdx pp' \<and>
        ps_len (pp_free pp') \<le> num is_wrw thr + 0"
      unfolding r(2) taken(5,6,7,11) using d taken(12) by linarith
  qed
  moreover have "rd_wake anon 1 pp' thr"
    using rd taken by (auto simp: rd_wake_def rd_anon_def rd_single_def r(2))
  ultimately show ?thesis
    using signal_rd_wakes [of anon pp' thr j] by (simp only: r(1) wr_wake_signal simp_thms)
qed

lemma wr_wake_frame:
  assumes core: "psys_core pp thr used" and wr: "wr_wake k pp thr"
    and eq: "pp_closed pp' = pp_closed pp" "pp_cap pp' = pp_cap pp" "pp_len pp' = pp_len pp"
      "pp_free pp' = pp_free pp" and ix: "pp_waitIdx pp' = pp_waitIdx pp \<or> pp_waitIdx pp' = -1"
  shows "wr_wake k pp' thr"
proof (rule wr_wakeI)
  fix w assume m: "WrParked w \<in> set thr"
  have "0 \<le> fst w" using psys_coreD(4) [OF core pending_parked(1) [OF m]] by simp
  then show "\<not> pp_closed pp' \<and> pp_cap pp' \<le> pp_len pp' \<and> fst w \<noteq> pp_waitIdx pp' \<and>
      ps_len (pp_free pp') \<le> num is_wrw thr + k"
    using wr_wakeD [OF wr m] eq ix by auto
qed

text \<open>The state a reader is in when it reaches the test of its wait loop.\<close>

definition rd_ready :: "bool \<Rightarrow> int \<Rightarrow> ('p, 'd) pipePool \<Rightarrow> 'd tstate list \<Rightarrow> bool" where
  "rd_ready anon idx pp thr \<longleftrightarrow>
     (if anon then idx < 0 \<and> rd_anon 1 pp thr else pending_rd thr = [] \<and> pp_waitIdx pp = max idx (-1))"

lemma rd_wake_parked:
  assumes rd: "rd_ready anon idx pp thr" and t: "t < length thr" "thr ! t = Idle" and b: "getReader_blocks idx pp"
  shows "rd_wake anon 0 (pp\<lparr>pp_rdWaitCnt := n\<rparr>) (thr[t := RdParked idx])"
proof -
  let ?thr = "thr[t := RdParked idx]"
  obtain A C where p: "pending_rd thr = A @ C" "pending_rd ?thr = A @ idx # C"
    using pending_update_rd [OF t(1)] t(2) by (metis append_Cons append_Nil rreqs.simps(1) rreqs.simps(3))
  show ?thesis
  proof (cases anon)
    case True
    with rd p b show ?thesis by (auto simp: rd_wake_def rd_ready_def rd_anon_def getReader_blocks_def)
  next
    case False
    then have "pending_rd ?thr = [idx]" using rd p by (simp add: rd_ready_def)
    moreover have "getReader_blocks i (pp\<lparr>pp_rdWaitCnt := n\<rparr>)" if "RdParked i \<in> set ?thr" for i
      using pending_parked(2) [OF that] calculation b
      by (auto simp: getReader_blocks_def split: if_splits)
    ultimately show ?thesis
      using False rd by (auto simp: rd_wake_def rd_ready_def rd_single_def)
  qed
qed

lemma rd_wake_left:
  assumes rd: "rd_ready anon idx pp thr" and w: "pp_waitIdx pp' = (if idx \<ge> 0 then -1 else pp_waitIdx pp)"
    and c: "pp_closed pp' = pp_closed pp" and r: "pp_closed pp \<or> ps_len (pp_ready pp') < ps_len (pp_ready pp)"
  shows "rd_wake anon 0 pp' thr"
proof (cases anon)
  case True
  with rd w c r show ?thesis by (fastforce simp: rd_wake_def rd_ready_def rd_anon_def)
next
  case False
  with rd have "RdParked i \<notin> set thr" for i using pending_parked(2) [of i thr] by (auto simp: rd_ready_def)
  with False rd w show ?thesis by (auto simp: rd_wake_def rd_ready_def rd_single_def)
qed

lemma reader_attempt:
  assumes core: "psys_core pp thr used" and t: "t < length thr" "thr ! t = Idle"
    and wr: "wr_wake 0 pp thr \<and> sg0 = [] \<or> sg0 = [BroadcastWr]" and rd: "rd_ready anon idx pp thr"
    and run: "getReader_loop i idx sg0 pp = Ret (r, sg, pp')"
    and thr': "thr' = apply_signals j sg (thr[t := rd_after idx r])"
  shows "psys_core pp' thr' used \<and> wr_wake 0 pp' thr' \<and> rd_wake anon 0 pp' thr'"
proof -
  let ?thr = "thr[t := rd_after idx r]"
  have upd: "thr[t := Idle] = thr" using t by (metis list_update_id)
  have "sg = sg0 \<and> psys_core pp' ?thr used \<and> rd_wake anon 0 pp' ?thr \<and>
      (wr_wake 0 pp thr \<longrightarrow> wr_wake 0 pp' ?thr)"
    using psys_coreD(1) [OF core]
  proof (cases rule: getReader_loop_cases [of pp idx i sg0])
    case wait
    with run have r: "sg = sg0" "r = Wait" "pp' = pp\<lparr>pp_rdWaitCnt := pp_rdWaitCnt pp + 1\<rparr>" by simp_all
    obtain A C where p: "pending_rd thr = A @ C" "pending_rd (thr[t := RdParked idx]) = A @ idx # C"
      using pending_update_rd [OF t(1)] t(2) by (metis append_Cons append_Nil rreqs.simps(1) rreqs.simps(3))
    have i: "wr_part (RdParked idx) = Idle" "wr_part (thr ! t) = Idle" using t(2) by simp_all
    note u = update_rd_only [OF t(1) i]
    have "psys_core pp' (thr[t := RdParked idx]) used"
      unfolding psys_core_def u(1) p(2) r(3) pool_ok_frame using core p(1) by (simp add: psys_core_def)
    moreover have "wr_wake 0 pp thr \<Longrightarrow> wr_wake 0 pp' (thr[t := RdParked idx])"
      unfolding u(2) r(3) using core by (rule wr_wake_frame) simp_all
    ultimately show ?thesis using r rd_wake_parked [OF rd t wait(1)] by (simp add: rd_after_def)
  next
    case ended
    with run have r: "sg = sg0" "r = Done None"
      "pp' = pp\<lparr>pp_waitIdx := (if idx \<ge> 0 then -1 else pp_waitIdx pp)\<rparr>" by auto
    have "-1 \<le> pp_waitIdx pp" using psys_coreD(1) [OF core] by (simp add: pool_ok_def)
    then have "pool_ok pp'" using psys_coreD(1) [OF core] unfolding r(3) by (intro pool_ok_frame) simp_all
    then have "psys_core pp' thr used"
      by (rule psys_core_cong [OF core]) (simp_all add: r(3) pool_ok_frame)
    moreover have "wr_wake 0 pp thr \<Longrightarrow> wr_wake 0 pp' thr"
      using core by (rule wr_wake_frame) (simp_all add: r(3))
    moreover have "rd_wake anon 0 pp' thr" using ended(1) by (intro rd_wake_left [OF rd]) (simp_all add: r(3))
    ultimately show ?thesis using r upd by (simp add: rd_after_def)
  next
    case (taken k a rdy act)
    define q where "q = pp\<lparr>pp_ready := rdy, pp_active := act,
         pp_waitIdx := (if idx \<ge> 0 then -1 else pp_waitIdx pp)\<rparr>"
    from taken(2) run have r: "sg = sg0" "r = Done (Some a)" "pp' = q" by (auto simp: q_def)
    have "indexes q \<subseteq> indexes pp" using taken(7,8) by (auto simp: q_def indexes_def entries_def)
    then have "psys_core q thr used"
      using taken(3) by (intro psys_core_cong [OF core]) (simp_all add: q_def)
    moreover have "wr_wake 0 pp thr \<Longrightarrow> wr_wake 0 q thr"
      using core by (rule wr_wake_frame) (simp_all add: q_def)
    moreover have "rd_wake anon 0 q thr" using taken(6) by (intro rd_wake_left [OF rd]) (simp_all add: q_def)
    ultimately show ?thesis using r upd by (simp add: rd_after_def)
  qed
  then have c: "sg = sg0" "psys_core pp' ?thr used" "rd_wake anon 0 pp' ?thr"
    "wr_wake 0 pp thr \<longrightarrow> wr_wake 0 pp' ?thr" by blast+
  have "psys_core pp' thr' used"
    using psys_coreD(1) [OF c(2)] by (intro psys_core_cong [OF c(2)]) (simp_all add: thr')
  moreover have "wr_wake 0 pp' thr' \<and> rd_wake anon 0 pp' thr'"
    using wr c by (auto simp: thr' apply_signals_def rd_wake_signal wr_wake_signal simp del: apply_signal.simps)
  ultimately show ?thesis by blast
qed

text \<open>Before a woken routine runs its loop again, it is counted neither as waiting nor as woken.\<close>

lemma wake_writer_ready:
  assumes inv: "psys_core pp thr used" "wr_wake 0 pp thr" "rd_wake anon 0 pp thr"
    and t: "t < length thr" "thr ! t = WrWoken w"
  shows "psys_core (pp\<lparr>pp_wrWaitCnt := pp_wrWaitCnt pp - 1\<rparr>) (thr[t := Idle]) used"
    and "wr_wake 1 (pp\<lparr>pp_wrWaitCnt := n\<rparr>) (thr[t := Idle])"
    and "rd_wake anon 0 (pp\<lparr>pp_wrWaitCnt := n\<rparr>) (thr[t := Idle])"
    and "fst w \<notin> fst ` set (pending_wr (thr[t := Idle]))" and "w \<in> set (pending_wr thr)"
proof -
  obtain A C where p: "pending_wr thr = A @ w # C" "pending_wr (thr[t := Idle]) = A @ C"
    using pending_update [OF t(1)] t(2) by (metis append_Cons append_Nil wreqs.simps(2) wreqs.simps(3))
  have i: "rd_part Idle = Idle" "rd_part (thr ! t) = Idle" using t(2) by simp_all
  note u = update_wr_only [OF t(1) i]
  show "psys_core (pp\<lparr>pp_wrWaitCnt := pp_wrWaitCnt pp - 1\<rparr>) (thr[t := Idle]) used"
    using inv(1) unfolding psys_core_def u(1) p pool_ok_frame by auto
  show "fst w \<notin> fst ` set (pending_wr (thr[t := Idle]))" "w \<in> set (pending_wr thr)"
    using psys_coreD(3) [OF inv(1)] p by auto
  show "rd_wake anon 0 (pp\<lparr>pp_wrWaitCnt := n\<rparr>) (thr[t := Idle])"
    unfolding u(2) using inv(3) by (subst rd_wake_pool [of _ pp]) simp_all
  have n: "num is_wrw (thr[t := Idle]) + 1 = num is_wrw thr"
    using num_update [OF t(1), of is_wrw Idle] t(2) by simp
  show "wr_wake 1 (pp\<lparr>pp_wrWaitCnt := n\<rparr>) (thr[t := Idle])"
  proof (rule wr_wakeI)
    fix v assume "WrParked v \<in> set (thr[t := Idle])"
    then have "WrParked v \<in> set thr" using set_update_subset_insert [of thr t Idle] by auto
    from wr_wakeD [OF inv(2) this] n show
      "\<not> pp_closed (pp\<lparr>pp_wrWaitCnt := n\<rparr>) \<and> pp_cap (pp\<lparr>pp_wrWaitCnt := n\<rparr>) \<le> pp_len (pp\<lparr>pp_wrWaitCnt := n\<rparr>) \<and>
       fst v \<noteq> pp_waitIdx (pp\<lparr>pp_wrWaitCnt := n\<rparr>) \<and>
       ps_len (pp_free (pp\<lparr>pp_wrWaitCnt := n\<rparr>)) \<le> num is_wrw (thr[t := Idle]) + 1" by auto
  qed
qed

lemma wake_reader_ready:
  assumes inv: "psys_core pp thr used" "wr_wake 0 pp thr" "rd_wake anon 0 pp thr"
    and t: "t < length thr" "thr ! t = RdWoken idx"
  shows "psys_core (pp\<lparr>pp_rdWaitCnt := pp_rdWaitCnt pp - 1\<rparr>) (thr[t := Idle]) used"
    and "wr_wake 0 (pp\<lparr>pp_rdWaitCnt := n\<rparr>) (thr[t := Idle])"
    and "rd_ready anon idx (pp\<lparr>pp_rdWaitCnt := n\<rparr>) (thr[t := Idle])"
proof -
  obtain A C where p: "pending_rd thr = A @ idx # C" "pending_rd (thr[t := Idle]) = A @ C"
    using pending_update_rd [OF t(1)] t(2) by (metis append_Cons append_Nil rreqs.simps(2) rreqs.simps(3))
  have i: "wr_part Idle = Idle" "wr_part (thr ! t) = Idle" using t(2) by simp_all
  note u = update_rd_only [OF t(1) i]
  show "psys_core (pp\<lparr>pp_rdWaitCnt := pp_rdWaitCnt pp - 1\<rparr>) (thr[t := Idle]) used"
    using inv(1) unfolding psys_core_def u(1) p pool_ok_frame by auto
  show "wr_wake 0 (pp\<lparr>pp_rdWaitCnt := n\<rparr>) (thr[t := Idle])"
    unfolding u(2) using inv(1,2) by (rule wr_wake_frame) simp_all
  have n: "num is_rdw (thr[t := Idle]) + 1 = num is_rdw thr"
    using num_update [OF t(1), of is_rdw Idle] t(2) by simp
  have m: "RdParked v \<in> set (thr[t := Idle]) \<Longrightarrow> RdParked v \<in> set thr" for v
    using set_update_subset_insert [of thr t Idle] by auto
  show "rd_ready anon idx (pp\<lparr>pp_rdWaitCnt := n\<rparr>) (thr[t := Idle])"
  proof (cases anon)
    case True
    with inv(3) p n m show ?thesis by (force simp: rd_wake_def rd_ready_def rd_anon_def)
  next
    case False
    with inv(3) p show ?thesis by (auto simp: rd_wake_def rd_ready_def rd_single_def)
  qed
qed

lemma restore_keeps:
  assumes inv: "psys_core pp thr used" "wr_wake 0 pp thr" "rd_wake anon 0 pp thr"
    and act: "(k, a) \<in> set (entries_of (pp_active pp))"
    and run: "restore B (Some a) pp = Ret (r, sg, pp')" and thr': "thr' = apply_signals j sg thr"
  shows "psys_core pp' thr' used \<and> wr_wake 0 pp' thr' \<and> rd_wake anon 0 pp' thr'"
proof -
  note sp = restore_spec [OF psys_coreD(1) [OF inv(1)] act, of B]
  have core: "psys_core pp' thr' used" using sp run inv(1) by (intro psys_core_cong [OF inv(1)]) (auto simp: thr')
  have rd: "rd_wake anon 0 pp' thr" using sp run inv(3) by (subst rd_wake_pool [of pp' pp]) auto
  show ?thesis
  proof (cases "pp_cap pp \<ge> pp_len pp")
    case True
    with sp run have sg: "sg = [SignalWr]" and e: "ps_len (pp_free pp') = ps_len (pp_free pp) + 1"
      "pp_len pp' = pp_len pp" "pp_cap pp' = pp_cap pp" "pp_closed pp' = pp_closed pp"
      "pp_waitIdx pp' = pp_waitIdx pp" by auto
    have "wr_wake 1 pp' thr"
    proof (rule wr_wakeI)
      fix w assume "WrParked w \<in> set thr"
      from wr_wakeD [OF inv(2) this] show "\<not> pp_closed pp' \<and> pp_cap pp' \<le> pp_len pp' \<and>
        fst w \<noteq> pp_waitIdx pp' \<and> ps_len (pp_free pp') \<le> num is_wrw thr + 1" unfolding e by linarith
    qed
    from signal_wr_wakes [OF this, of j] core rd show ?thesis
      by (simp add: thr' sg apply_signals_def rd_wake_signal del: apply_signal.simps)
  next
    case False
    with sp run have sg: "sg = []" and e: "pp_free pp' = pp_free pp" "pp_len pp' = pp_len pp - 1"
      "pp_cap pp' = pp_cap pp" "pp_closed pp' = pp_closed pp" "pp_waitIdx pp' = pp_waitIdx pp" by auto
    have "wr_wake 0 pp' thr"
    proof (rule wr_wakeI)
      fix w assume "WrParked w \<in> set thr"
      from wr_wakeD [OF inv(2) this] False show "\<not> pp_closed pp' \<and> pp_cap pp' \<le> pp_len pp' \<and>
        fst w \<noteq> pp_waitIdx pp' \<and> ps_len (pp_free pp') \<le> num is_wrw thr + 0" unfolding e by linarith
    qed
    with core rd sg show ?thesis by (simp add: thr' apply_signals_def)
  qed
qed

text \<open>Closing and terminating wake everybody.\<close>

lemma broadcast_keeps:
  assumes core: "psys_core pp thr used" and rd: "rd_wake anon 0 pp thr" and ok: "pool_ok pp'"
    and e: "indexes pp' \<subseteq> indexes pp" "pp_wrWaitCnt pp' = pp_wrWaitCnt pp" "pp_rdWaitCnt pp' = pp_rdWaitCnt pp"
      "pp_waitIdx pp' = pp_waitIdx pp" and thr': "thr' = apply_signals j [BroadcastWr, BroadcastRd] thr"
  shows "psys_core pp' thr' used \<and> wr_wake 0 pp' thr' \<and> rd_wake anon 0 pp' thr'"
proof -
  have "rd_wake anon 1 pp thr" using rd by (auto simp: rd_wake_def rd_anon_def rd_single_def)
  then have "rd_wake anon 1 pp (apply_signal j BroadcastWr thr)" by (simp only: rd_wake_signal)
  from rd_wake_broadcast [OF e(4) this] have "rd_wake anon 0 pp' thr'" by (simp add: thr' apply_signals_def)
  moreover have "wr_wake 0 pp' thr'"
    by (simp add: thr' apply_signals_def wr_wake_signal del: apply_signal.simps)
  moreover have "psys_core pp' thr' used" using ok e by (intro psys_core_cong [OF core]) (simp_all add: thr')
  ultimately show ?thesis by blast
qed

lemma interrupt_keeps:
  assumes "pool_ok pp"
  shows "pool_ok (interrupt B pp)" and "indexes (interrupt B pp) = indexes pp"
  using pool_ok_heap [OF assms, of "pipeSet_close B (pp_active pp) (pipeSet_close B (pp_ready pp) (pp_heap pp))"]
  by (simp_all add: interrupt_def Let_def pool_ok_frame)

lemma terminate_keeps:
  assumes "pool_ok pp"
  shows "pool_ok (snd (pool_terminate B pp))" and "indexes (snd (pool_terminate B pp)) \<subseteq> indexes pp"
proof -
  let ?h = "pipeSet_close B (pp_active pp) (pipeSet_close B (pp_ready pp) (pp_heap pp))"
  have "pool_ok (pp\<lparr>pp_heap := ?h\<rparr>)" using assms by (rule pool_ok_heap) simp_all
  then show "pool_ok (snd (pool_terminate B pp))"
    by (auto simp: pool_terminate_def Let_def pool_ok_def entries_def)
  show "indexes (snd (pool_terminate B pp)) \<subseteq> indexes pp"
    by (auto simp: pool_terminate_def Let_def indexes_def entries_def)
qed

lemma psys_invD:
  assumes "psys_inv anon s"
  shows "psys_core (sy_pool s) (sy_thr s) (sy_used s)" and "wr_wake 0 (sy_pool s) (sy_thr s)"
    and "rd_wake anon 0 (sy_pool s) (sy_thr s)"
  using assms by (simp_all add: psys_inv_def)

lemma no_reader_pending: "no_reader thr \<Longrightarrow> pending_rd thr = []"
  by (auto simp: no_reader_def num_0 pending_rd_def)
     (metis is_rdp.simps(1) is_rdw.simps(1) rreqs.elims)

lemma psys_call_writer:
  assumes inv: "psys_inv anon s" and new: "pipe_new_laws B" and t: "t < length (sy_thr s)" "sy_thr s ! t = Idle"
    and req: "0 \<le> idx" "idx \<notin> sy_used s" "0 \<le> sz"
    and run: "getWriter B i idx sz mode data (sy_pool s) = Ret (r, sg, pp')"
  shows "psys_inv anon (s\<lparr>sy_pool := pp', sy_used := insert idx (sy_used s),
       sy_thr := apply_signals j sg ((sy_thr s)[t := wr_after (idx, sz, mode, data) r])\<rparr>)"
proof -
  note c = psys_invD [OF inv]
  have "wr_wake 1 (sy_pool s) (sy_thr s)"
    using wr_wakeD [OF c(2)] by (intro wr_wakeI) (simp add: le_SucI)
  moreover have "idx \<notin> indexes (sy_pool s)" "idx \<notin> fst ` set (pending_wr (sy_thr s))"
    using psys_coreD(2,4) [OF c(1)] req(2) by auto
  moreover have "getWriter_loop B i idx sz mode data (sy_pool s) = Ret (r, sg, pp')"
    using run req(1) by (simp add: getWriter_def)
  ultimately show ?thesis
    using writer_attempt [OF psys_core_used [OF c(1), of idx] t _ c(3) new req(3,1)] by (simp add: psys_inv_def)
qed

lemma psys_wake_writer:
  assumes inv: "psys_inv anon s" and new: "pipe_new_laws B"
    and t: "t < length (sy_thr s)" "sy_thr s ! t = WrWoken (idx, sz, mode, data)"
    and run: "getWriter_wake B i idx sz mode data (sy_pool s) = Ret (r, sg, pp')"
  shows "psys_inv anon (s\<lparr>sy_pool := pp',
       sy_thr := apply_signals j sg ((sy_thr s)[t := wr_after (idx, sz, mode, data) r])\<rparr>)"
proof -
  note w = wake_writer_ready [OF psys_invD [OF inv] t]
  note q = psys_coreD(4) [OF psys_invD(1) [OF inv] w(5)]
  show ?thesis
    using writer_attempt [OF w(1) _ _ w(2,3) new, of t sz idx i mode data r sg pp'] q w(4) t run
    by (simp add: psys_inv_def getWriter_wake_def pool_ok_frame)
qed

lemma psys_call_reader:
  assumes inv: "psys_inv anon s" and t: "t < length (sy_thr s)" "sy_thr s ! t = Idle"
    and use: "if anon then idx < 0 else no_reader (sy_thr s)"
    and run: "getReader i idx (sy_pool s) = Ret (r, sg, pp')"
  shows "psys_inv anon (s\<lparr>sy_pool := pp', sy_thr := apply_signals j sg ((sy_thr s)[t := rd_after idx r])\<rparr>)"
proof (cases "idx \<ge> 0")
  case True
  note c = psys_invD [OF inv]
  let ?pp = "(sy_pool s)\<lparr>pp_waitIdx := idx\<rparr>"
  have nr: "\<not> anon" "pending_rd (sy_thr s) = []"
    using True use by (auto intro: no_reader_pending split: if_splits)
  have "psys_core ?pp (sy_thr s) (sy_used s)"
    using c(1) True by (intro psys_core_cong [OF c(1)]) (simp_all add: pool_ok_frame psys_core_def)
  moreover have "rd_ready anon idx ?pp (sy_thr s)" using nr True by (simp add: rd_ready_def)
  moreover have "getReader_loop i idx [BroadcastWr] ?pp = Ret (r, sg, pp')"
    using run True by (simp add: getReader_def split: if_splits)
  ultimately show ?thesis
    using reader_attempt [of ?pp "sy_thr s" "sy_used s" t "[BroadcastWr]" anon idx i r sg pp'] t
    by (simp add: psys_inv_def)
next
  case False
  note c = psys_invD [OF inv]
  have "rd_ready anon idx (sy_pool s) (sy_thr s)"
  proof (cases anon)
    case True
    with False c(3) show ?thesis by (auto simp: rd_ready_def rd_wake_def rd_anon_def)
  next
    case na: False
    then have "pending_rd (sy_thr s) = []" using use no_reader_pending by auto
    with na False c(3) show ?thesis by (simp add: rd_ready_def rd_wake_def rd_single_def)
  qed
  moreover have "getReader_loop i idx [] (sy_pool s) = Ret (r, sg, pp')"
    using run False by (simp add: getReader_def)
  ultimately show ?thesis
    using reader_attempt [of "sy_pool s" "sy_thr s" "sy_used s" t "[]" anon idx i r sg pp'] c t
    by (simp add: psys_inv_def)
qed

lemma psys_wake_reader:
  assumes inv: "psys_inv anon s" and t: "t < length (sy_thr s)" "sy_thr s ! t = RdWoken idx"
    and run: "getReader_wake i idx (sy_pool s) = Ret (r, sg, pp')"
  shows "psys_inv anon (s\<lparr>sy_pool := pp', sy_thr := apply_signals j sg ((sy_thr s)[t := rd_after idx r])\<rparr>)"
proof -
  note w = wake_reader_ready [OF psys_invD [OF inv] t]
  show ?thesis
    using reader_attempt [OF w(1) _ _ _ w(3), of t "[]" i r sg pp'] w(2) t run
    by (simp add: psys_inv_def getReader_wake_def)
qed

lemma psys_set_capacity:
  assumes inv: "psys_inv anon s" and run: "setCapacity cnt (sy_pool s) = (sg, pp')"
  shows "psys_inv anon (s\<lparr>sy_pool := pp', sy_thr := apply_signals j sg (sy_thr s)\<rparr>)"
proof -
  note c = psys_invD [OF inv]
  from run have e: "pp' = (sy_pool s)\<lparr>pp_cap := cnt\<rparr>" "sg = [BroadcastWr]" by (auto simp: setCapacity_def)
  have "psys_core pp' (apply_signals j sg (sy_thr s)) (sy_used s)"
    using psys_coreD(1) [OF c(1)] by (intro psys_core_cong [OF c(1)]) (simp_all add: e(1) pool_ok_frame)
  moreover have "rd_wake anon 0 pp' (sy_thr s)"
    using c(3) by (subst rd_wake_pool [of _ "sy_pool s"]) (simp_all add: e(1))
  ultimately show ?thesis
    by (simp add: psys_inv_def e(2) apply_signals_def wr_wake_signal rd_wake_signal del: apply_signal.simps)
qed

lemma interrupt_fields [simp]:
  "pp_closed (interrupt B pp) = pp_closed pp" "pp_ready (interrupt B pp) = pp_ready pp"
  "pp_waitIdx (interrupt B pp) = pp_waitIdx pp" "pp_cap (interrupt B pp) = pp_cap pp"
  "pp_len (interrupt B pp) = pp_len pp" "pp_free (interrupt B pp) = pp_free pp"
  "pp_wrWaitCnt (interrupt B pp) = pp_wrWaitCnt pp" "pp_rdWaitCnt (interrupt B pp) = pp_rdWaitCnt pp"
  by (simp_all add: interrupt_def Let_def)

lemma psys_interrupt:
  assumes inv: "psys_inv anon s"
  shows "psys_inv anon (s\<lparr>sy_pool := interrupt B (sy_pool s)\<rparr>)"
proof -
  note c = psys_invD [OF inv]
  have "psys_core (interrupt B (sy_pool s)) (sy_thr s) (sy_used s)"
    using interrupt_keeps [OF psys_coreD(1) [OF c(1)], of B] by (intro psys_core_cong [OF c(1)]) simp_all
  moreover have "wr_wake 0 (interrupt B (sy_pool s)) (sy_thr s)"
    using c(1,2) by (rule wr_wake_frame) simp_all
  moreover have "rd_wake anon 0 (interrupt B (sy_pool s)) (sy_thr s)"
    using c(3) by (subst rd_wake_pool [of _ "sy_pool s"]) simp_all
  ultimately show ?thesis by (simp add: psys_inv_def)
qed

lemma psys_terminate:
  assumes inv: "psys_inv anon s" and run: "pool_terminate B (sy_pool s) = (sg, pp')"
  shows "psys_inv anon (s\<lparr>sy_pool := pp', sy_thr := apply_signals j sg (sy_thr s)\<rparr>)"
proof -
  note c = psys_invD [OF inv]
  from run have e: "sg = [BroadcastWr, BroadcastRd]" "pp' = snd (pool_terminate B (sy_pool s))"
    "pp_wrWaitCnt pp' = pp_wrWaitCnt (sy_pool s)" "pp_rdWaitCnt pp' = pp_rdWaitCnt (sy_pool s)"
    "pp_waitIdx pp' = pp_waitIdx (sy_pool s)" by (auto simp: pool_terminate_def Let_def)
  show ?thesis
    using broadcast_keeps [OF c(1,3), of pp'] terminate_keeps [OF psys_coreD(1) [OF c(1)], of B] e
    by (simp add: psys_inv_def)
qed

lemma psys_step_inv:
  assumes new: "pipe_new_laws B" and inv: "psys_inv anon s" and step: "psys_step B anon s s'"
  shows "psys_inv anon s'"
  using step
proof cases
  case (give_back k a r sg pp' j)
  then show ?thesis using restore_keeps [OF psys_invD [OF inv] give_back(2,3) refl] by (simp add: psys_inv_def)
next
  case (closed sg pp' j)
  then show ?thesis
    using broadcast_keeps [of "sy_pool s" "sy_thr s" "sy_used s" anon pp'] psys_invD [OF inv]
      psys_coreD(1) [of "sy_pool s"] by (auto simp: psys_inv_def pool_close_def pool_ok_frame)
qed (simp_all add: psys_call_writer [OF inv new] psys_wake_writer [OF inv new] psys_call_reader [OF inv]
      psys_wake_reader [OF inv] psys_set_capacity [OF inv] psys_interrupt [OF inv] psys_terminate [OF inv])

lemma psys_init_inv: "psys_init s \<Longrightarrow> psys_inv anon s"
proof -
  assume i: "psys_init s"
  then have p: "pending_wr (sy_thr s) = []" "pending_rd (sy_thr s) = []"
    by (force simp: psys_init_def pending_wr_def pending_rd_def)+
  have "WrParked w \<notin> set (sy_thr s)" "RdParked r \<notin> set (sy_thr s)" for w r
    using i by (auto simp: psys_init_def)
  with p i show ?thesis
    by (simp add: psys_init_def psys_inv_def psys_core_def newPipePool_ok wr_wake_def rd_wake_def
        rd_anon_def rd_single_def) (simp add: newPipePool_def indexes_def entries_def)
qed

text \<open>With a pipe package that keeps its promises, the invariant holds in every reachable state.\<close>

interpretation pool_run: invariant_system psys_init "psys_step B anon" "\<lambda>s. pipe_new_laws B \<longrightarrow> psys_inv anon s"
  for B anon
  by unfold_locales (blast intro: psys_init_inv psys_step_inv)+

lemma psys_reachable:
  "pipe_new_laws B \<Longrightarrow> psys_init s0 \<Longrightarrow> (psys_step B anon)\<^sup>*\<^sup>* s0 s \<Longrightarrow> psys_inv anon s"
  using pool_run.reachable_inv by blast

text \<open>A small run for the witnesses: two routines, and the first one has to wait for a pipe.\<close>

definition wit_start :: "(lpipe option, unit) psys" where
  "wit_start = \<lparr>sy_pool = newPipePool, sy_thr = [Idle, Idle], sy_used = {}\<rparr>"

definition wit_wr :: "(lpipe option, unit) psys" where
  "wit_wr = \<lparr>sy_pool = newPipePool\<lparr>pp_wrWaitCnt := 1\<rparr>,
     sy_thr = [WrParked (3, 4, LineMono, None), Idle], sy_used = {3}\<rparr>"

definition wit_rd :: "int \<Rightarrow> (lpipe option, unit) psys" where
  "wit_rd i = \<lparr>sy_pool = newPipePool\<lparr>pp_rdWaitCnt := 1, pp_waitIdx := max i (-1)\<rparr>,
     sy_thr = [Idle, RdParked i], sy_used = {}\<rparr>"

lemma wit_init: "psys_init wit_start"
  by (simp add: psys_init_def wit_start_def)

lemma wit_wr_reached: "(psys_step line_pipe anon)\<^sup>*\<^sup>* wit_start wit_wr"
proof -
  have "getWriter line_pipe 0 3 4 LineMono None (sy_pool wit_start) =
      Ret (Wait, [], newPipePool\<lparr>pp_wrWaitCnt := 1\<rparr>)"
    by (simp add: getWriter_def getWriter_loop_def getWriter_blocks_def wit_start_def newPipePool_def)
  from psys_step.call_writer [of 0 wit_start 3 4, OF _ _ _ _ _ this, of anon 0]
  have "psys_step line_pipe anon wit_start wit_wr"
    by (simp add: wit_start_def wit_wr_def wr_after_def apply_signals_def)
  then show ?thesis by blast
qed

lemma wit_rd_reached:
  assumes "if anon then i < 0 else True"
  shows "(psys_step line_pipe anon)\<^sup>*\<^sup>* wit_start (wit_rd i)"
proof -
  have "\<exists>sg. getReader 0 i (sy_pool wit_start) =
      Ret (Wait, sg, newPipePool\<lparr>pp_rdWaitCnt := 1, pp_waitIdx := max i (-1)\<rparr>) \<and> (sg = [] \<or> sg = [BroadcastWr])"
    by (simp add: getReader_def getReader_loop_def getReader_blocks_def wit_start_def newPipePool_def
        ps_lookup_def)
  then obtain sg where g: "getReader 0 i (sy_pool wit_start) =
      Ret (Wait, sg, newPipePool\<lparr>pp_rdWaitCnt := 1, pp_waitIdx := max i (-1)\<rparr>)" "sg = [] \<or> sg = [BroadcastWr]" by blast
  have "psys_step line_pipe anon wit_start (wit_rd i)"
    using psys_step.call_reader [of 1 wit_start anon i, OF _ _ _ g(1), of line_pipe 0] g(2) assms
    by (auto simp: wit_start_def wit_rd_def rd_after_def apply_signals_def wake_all_def no_reader_def)
  then show ?thesis by blast
qed

section \<open>Properties of the pool\<close>

text \<open>
  C23: No wake-up is lost on the writer side. However the routines of a pool interleave, a routine
  parked in \<open>getWriter\<close> has reason to be: the pool is open and full, its index is not the one the
  reader waits for, and there are no more free pipes than woken writers on their way to them; so if
  no writer has been woken, the condition of its wait loop still holds.
\<close>

theorem pool_writer_wakeup:
  assumes "pipe_new_laws B" and "psys_init s0" and "(psys_step B anon)\<^sup>*\<^sup>* s0 s"
    and "WrParked (idx, sz, mode, data) \<in> set (sy_thr s)"
  shows "\<not> pp_closed (sy_pool s) \<and> idx \<noteq> pp_waitIdx (sy_pool s) \<and> pp_len (sy_pool s) \<ge> pp_cap (sy_pool s) \<and>
    ps_len (pp_free (sy_pool s)) \<le> num is_wrw (sy_thr s) \<and>
    (num is_wrw (sy_thr s) = 0 \<longrightarrow> getWriter_blocks idx (sy_pool s))"
proof -
  from psys_reachable [OF assms(1-3)] have "wr_wake 0 (sy_pool s) (sy_thr s)" by (rule psys_invD)
  from wr_wakeD [OF this assms(4)] show ?thesis by (auto simp: getWriter_blocks_def)
qed

theorem pool_writer_wakeup_witness: "getWriter_blocks 3 (sy_pool wit_wr)"
  using pool_writer_wakeup [OF line_pipe_new_laws wit_init wit_wr_reached, of 3 4 LineMono None]
  by (simp add: wit_wr_def)

text \<open>
  C24: No wake-up is lost on the reader side: while a routine is parked in \<open>getReader\<close> the pool is
  open, and either every ready pipe has a woken reader on its way (anonymous readers), or the
  single reader's pipe is not there yet, although a new pipe is announced by \<open>Signal\<close> and not by
  \<open>Broadcast\<close>.
\<close>

theorem pool_reader_wakeup:
  assumes "pipe_new_laws B" and "psys_init s0" and "(psys_step B anon)\<^sup>*\<^sup>* s0 s"
    and "RdParked idx \<in> set (sy_thr s)"
  shows "\<not> pp_closed (sy_pool s) \<and>
    (if anon then ps_len (pp_ready (sy_pool s)) \<le> num is_rdw (sy_thr s)
     else getReader_blocks idx (sy_pool s))"
  using psys_invD(3) [OF psys_reachable [OF assms(1-3)]] assms(4) getReader_blocks_def [of idx "sy_pool s"]
  by (auto simp: rd_wake_def rd_anon_def rd_single_def)

theorem pool_reader_wakeup_witness: "getReader_blocks 5 (sy_pool (wit_rd 5))"
  using pool_reader_wakeup [OF line_pipe_new_laws wit_init wit_rd_reached [of False 5], of 5]
  by (simp add: wit_rd_def)

text \<open>
  C25: Under the usage policy no operation panics: a routine may call \<open>getWriter\<close> with an unused
  index, wake up in either wait loop, call \<open>getReader\<close> as its pool allows it, and give back any
  pipe that is active, in every reachable state.
\<close>

theorem pool_never_panics:
  assumes "pipe_new_laws B" and "psys_init s0" and "(psys_step B anon)\<^sup>*\<^sup>* s0 s" and "0 \<le> sz"
  shows "(0 \<le> idx \<and> idx \<notin> sy_used s \<longrightarrow>
      (\<exists>x. getWriter B i idx sz mode data (sy_pool s) = Ret x)) \<and>
    (WrWoken (idx, sz, mode, data) \<in> set (sy_thr s) \<longrightarrow>
      (\<exists>x. getWriter_wake B i idx sz mode data (sy_pool s) = Ret x)) \<and>
    ((if anon then idx < 0 else no_reader (sy_thr s)) \<longrightarrow> (\<exists>x. getReader i idx (sy_pool s) = Ret x)) \<and>
    (RdWoken idx \<in> set (sy_thr s) \<longrightarrow> (\<exists>x. getReader_wake i idx (sy_pool s) = Ret x)) \<and>
    ((idx, a) \<in> set (entries_of (pp_active (sy_pool s))) \<longrightarrow> (\<exists>x. restore B (Some a) (sy_pool s) = Ret x))"
proof -
  note c = psys_invD [OF psys_reachable [OF assms(1-3)]]
  note ok = psys_coreD(1) [OF c(1)]
  have wr: "\<exists>x. getWriter_loop B i idx sz mode data pp = Ret x" if "pool_ok pp" "idx \<notin> indexes pp"
    for pp :: "('a, 'b) pipePool"
    by (rule getWriter_loop_cases [OF that(1) assms(1,4) that(2), of i mode data]) blast+
  have rd: "\<exists>x. getReader_loop i idx sg pp = Ret x" if "pool_ok pp" for pp :: "('a, 'b) pipePool" and sg
    by (rule getReader_loop_cases [OF that, of idx i sg]) blast+
  have "idx \<notin> sy_used s \<Longrightarrow> idx \<notin> indexes (sy_pool s)" using psys_coreD(2) [OF c(1)] by blast
  moreover have "WrWoken (idx, sz, mode, data) \<in> set (sy_thr s) \<Longrightarrow> idx \<notin> indexes (sy_pool s)"
    using psys_coreD(4) [OF c(1), of "(idx, sz, mode, data)"] by (force simp: pending_wr_def)
  moreover have "\<exists>x. getReader i idx (sy_pool s) = Ret x" if "if anon then idx < 0 else no_reader (sy_thr s)"
  proof -
    have "\<not> (idx \<ge> 0 \<and> pp_waitIdx (sy_pool s) \<ge> 0)"
      using that c(3) no_reader_pending [of "sy_thr s"] by (auto simp: rd_wake_def rd_single_def split: if_splits)
    then show ?thesis using rd ok by (auto simp: getReader_def pool_ok_frame)
  qed
  ultimately show ?thesis
    using wr rd ok restore_spec [OF ok, of idx a B]
    by (auto simp: getWriter_def getWriter_wake_def getReader_wake_def pool_ok_frame)
qed

theorem pool_never_panics_witness: "\<exists>x. getWriter line_pipe 0 7 4 LineMono None (sy_pool wit_wr) = Ret x"
  using pool_never_panics [OF line_pipe_new_laws wit_init wit_wr_reached, of 4 7 0 LineMono None]
  by (simp add: wit_wr_def)

text \<open>
  C26: The capacity limit cannot block the writer the reader waits for. While the single reader of a
  pool is parked on an index, a \<open>getWriter\<close> call with that index (not used before) does not wait,
  whatever the pool's capacity: it returns a pipe of the requested size and mode, which is ready
  under that index, and signals the reader; and no routine is parked in \<open>getWriter\<close> with that
  index.
\<close>

theorem awaited_writer_never_blocks:
  assumes "pipe_new_laws B" and "psys_init s0" and "(psys_step B False)\<^sup>*\<^sup>* s0 s"
    and "RdParked idx \<in> set (sy_thr s)" and "0 \<le> idx" and "0 \<le> sz"
  shows "(idx \<notin> sy_used s \<longrightarrow>
      (\<exists>a pp'. getWriter B i idx sz mode data (sy_pool s) = Ret (Done (Some a), [SignalRd], pp') \<and>
         ps_lookup (pp_ready pp') idx = Some a \<and> bp_Capacity B (pi_pipe (pp_heap pp' ! a)) = sz \<and>
         bp_Mode B (pi_pipe (pp_heap pp' ! a)) = mode)) \<and>
    WrParked (idx, sz, mode, data) \<notin> set (sy_thr s)"
proof -
  note c = psys_invD [OF psys_reachable [OF assms(1-3)]]
  note ok = psys_coreD(1) [OF c(1)]
  have "idx \<in> set (pending_rd (sy_thr s))" using assms(4) by (rule pending_parked)
  with c(3) assms(5) have w: "pp_waitIdx (sy_pool s) = idx"
    by (cases "pending_rd (sy_thr s)") (auto simp: rd_wake_def rd_single_def max_def)
  have op: "\<not> pp_closed (sy_pool s)"
    using c(3) assms(4) by (auto simp: rd_wake_def rd_single_def getReader_blocks_def)
  have "idx \<notin> sy_used s \<Longrightarrow> idx \<notin> indexes (sy_pool s)" using psys_coreD(2) [OF c(1)] by blast
  with getWriter_take_spec [OF ok assms(1,6) op, of idx i mode data] w assms(5)
  have "idx \<notin> sy_used s \<longrightarrow> ?thesis"
    using wr_wakeD(3) [OF c(2)]
    by (fastforce simp: getWriter_def getWriter_loop_def getWriter_blocks_def ps_lookup_def)
  moreover have "WrParked (idx, sz, mode, data) \<notin> set (sy_thr s)"
    using wr_wakeD(3) [OF c(2), of "(idx, sz, mode, data)"] w by auto
  ultimately show ?thesis by blast
qed

theorem awaited_writer_never_blocks_witness:
  "\<exists>a pp'. getWriter line_pipe 0 5 4 LineMono None (sy_pool (wit_rd 5)) = Ret (Done (Some a), [SignalRd], pp')"
  using awaited_writer_never_blocks [OF line_pipe_new_laws wit_init wit_rd_reached [of False 5], of 5 4 0 LineMono None]
  by (auto simp: wit_rd_def)

text \<open>
  C27: A pool's pipes are never lost or shared: in every reachable state no pipe is in two of the sets
  free, ready and active or twice in one, every pipe is filed under its own index, and, until the
  pool is terminated, \<open>len\<close> is the number of pipes in the sets; the counters \<open>getStats\<close> reports are
  the numbers of routines waiting in \<open>getWriter\<close> and \<open>getReader\<close>.
\<close>

theorem pool_accounting:
  assumes "pipe_new_laws B" and "psys_init s0" and "(psys_step B anon)\<^sup>*\<^sup>* s0 s"
  shows "pool_ok (sy_pool s) \<and>
    getStats (sy_pool s) =
      (int (num (\<lambda>t. is_wrp t \<or> is_wrw t) (sy_thr s)), int (num (\<lambda>t. is_rdp t \<or> is_rdw t) (sy_thr s)))"
proof -
  note c = psys_invD(1) [OF psys_reachable [OF assms]]
  show ?thesis using psys_coreD(1,5,6) [OF c] by (simp add: getStats_def length_pending)
qed

theorem pool_accounting_witness: "getStats (sy_pool wit_wr) = (1, 0)"
  using pool_accounting [OF line_pipe_new_laws wit_init wit_wr_reached] by (simp add: wit_wr_def)



end
