(* ===== verification/Xz_Workers.thy ===== *)
theory Xz_Workers
  imports Golib
begin

text \<open>
  The pool of worker routines of \<open>xz/pool.go\<close> (\<open>workerPool\<close>): routines are started and killed until
  there are as many as asked for, and a single monitor runs the \<open>end\<close> callback when all are gone.
\<close>

section \<open>The pool of worker routines\<close>

text \<open>
  A kill channel is numbered; \<open>wk_killed\<close> are the closed ones, closing one twice is a run-time
  panic. \<open>wk_spawned\<close> counts the routines started (and added to the wait group), \<open>wk_monitor\<close> is
  whether the monitor routine has been started, which \<open>sync.Once\<close> does the first time only.
\<close>

record workerPool =
  wk_workers :: "nat list"
  wk_closed :: bool
  wk_killed :: "nat set"
  wk_spawned :: nat
  wk_monitor :: bool

definition newWorkerPool :: workerPool where
  "newWorkerPool =
     \<lparr>wk_workers = [], wk_closed = False, wk_killed = {}, wk_spawned = 0, wk_monitor = False\<rparr>"

definition close_chan :: "nat \<Rightarrow> workerPool \<Rightarrow> workerPool go" where
  "close_chan c wp =
     (if c \<in> wk_killed wp then Pan PRuntime else Ret (wp\<lparr>wk_killed := insert c (wk_killed wp)\<rparr>))"

function worker_spawn :: "int \<Rightarrow> workerPool \<Rightarrow> workerPool" where
  "worker_spawn cnt wp =
     (if int (length (wk_workers wp)) < cnt then
        worker_spawn cnt (wp\<lparr>wk_spawned := wk_spawned wp + 1,
                             wk_workers := wk_workers wp @ [wk_spawned wp], wk_monitor := True\<rparr>)
      else wp)"
  by pat_completeness auto
termination
  by (relation "measure (\<lambda>(cnt, wp). nat (cnt - int (length (wk_workers wp))))") auto

function worker_kill :: "int \<Rightarrow> workerPool \<Rightarrow> workerPool go" where
  "worker_kill cnt wp =
     (if int (length (wk_workers wp)) > cnt then
        (if wk_workers wp = [] then Pan PRuntime
         else
           gobind (close_chan (last (wk_workers wp)) (wp\<lparr>wk_workers := butlast (wk_workers wp)\<rparr>))
             (\<lambda>wp. worker_kill cnt wp))
      else Ret wp)"
  by pat_completeness auto
termination
  by (relation "measure (\<lambda>(cnt, wp). length (wk_workers wp))")
     (auto simp: close_chan_def split: if_splits)

declare worker_spawn.simps [simp del] worker_kill.simps [simp del]

definition worker_setCapacity :: "int \<Rightarrow> workerPool \<Rightarrow> workerPool go" where
  "worker_setCapacity cnt wp =
     (if wk_closed wp then Ret wp else worker_kill cnt (worker_spawn cnt wp))"

fun close_all :: "nat list \<Rightarrow> workerPool \<Rightarrow> workerPool go" where
  "close_all [] wp = Ret wp"
| "close_all (c # cs) wp = gobind (close_chan c wp) (close_all cs)"

definition worker_terminate :: "workerPool \<Rightarrow> workerPool go" where
  "worker_terminate wp =
     (let wp = wp\<lparr>wk_closed := True\<rparr> in
      gobind (close_all (wk_workers wp) wp) (\<lambda>wp. Ret (wp\<lparr>wk_workers := []\<rparr>)))"

section \<open>Properties of the worker pool\<close>

text \<open>
  The channels of the live workers are distinct, numbered by the routines started, and open; the
  closed ones belong to routines started before; the monitor runs once a routine was started.
\<close>

definition workers_ok :: "workerPool \<Rightarrow> bool" where
  "workers_ok wp \<longleftrightarrow>
     distinct (wk_workers wp) \<and> set (wk_workers wp) \<inter> wk_killed wp = {} \<and>
     set (wk_workers wp) \<union> wk_killed wp = {0..<wk_spawned wp} \<and> (wk_monitor wp \<longleftrightarrow> wk_spawned wp \<noteq> 0)"

lemma newWorkerPool_ok: "workers_ok newWorkerPool"
  by (simp add: workers_ok_def newWorkerPool_def)

lemma worker_spawn_spec:
  assumes "workers_ok wp"
  shows "workers_ok (worker_spawn cnt wp) \<and> wk_killed (worker_spawn cnt wp) = wk_killed wp \<and>
    wk_closed (worker_spawn cnt wp) = wk_closed wp \<and>
    (\<exists>ns. wk_workers (worker_spawn cnt wp) = wk_workers wp @ ns) \<and>
    int (length (wk_workers (worker_spawn cnt wp))) = max (int (length (wk_workers wp))) cnt"
  using assms
proof (induction cnt wp rule: worker_spawn.induct)
  case (1 cnt wp)
  show ?case
  proof (cases "int (length (wk_workers wp)) < cnt")
    case True
    let ?wp = "wp\<lparr>wk_spawned := wk_spawned wp + 1, wk_workers := wk_workers wp @ [wk_spawned wp],
                  wk_monitor := True\<rparr>"
    have e: "worker_spawn cnt wp = worker_spawn cnt ?wp" using True by (subst worker_spawn.simps) simp
    have "set (wk_workers wp) \<subseteq> {0..<wk_spawned wp}" "wk_killed wp \<subseteq> {0..<wk_spawned wp}"
      using "1.prems" by (auto simp: workers_ok_def)
    then have "workers_ok ?wp" using "1.prems" by (auto simp: workers_ok_def)
    from "1.IH" [OF True this] True show ?thesis unfolding e by auto
  next
    case False
    then have "worker_spawn cnt wp = wp" by (subst worker_spawn.simps) simp
    with False "1.prems" show ?thesis by simp
  qed
qed

lemma worker_kill_spec:
  assumes "workers_ok wp" and "0 \<le> cnt" and "cnt \<le> int (length (wk_workers wp))"
  shows "\<exists>wp'. worker_kill cnt wp = Ret wp' \<and> workers_ok wp' \<and> wk_closed wp' = wk_closed wp \<and>
    wk_spawned wp' = wk_spawned wp \<and> wk_workers wp' = take (nat cnt) (wk_workers wp) \<and>
    wk_killed wp' = wk_killed wp \<union> set (drop (nat cnt) (wk_workers wp))"
  using assms
proof (induction cnt wp rule: worker_kill.induct)
  case (1 cnt wp)
  show ?case
  proof (cases "int (length (wk_workers wp)) > cnt")
    case False
    with "1.prems" have "worker_kill cnt wp = Ret wp" by (subst worker_kill.simps) simp
    with False "1.prems" show ?thesis by (intro exI [of _ wp]) simp
  next
    case True
    with "1.prems"(2) obtain ws c where w: "wk_workers wp = ws @ [c]"
      by (cases "wk_workers wp" rule: rev_exhaust) auto
    then have ne: "wk_workers wp \<noteq> []" by simp
    let ?wp = "wp\<lparr>wk_workers := ws, wk_killed := insert c (wk_killed wp)\<rparr>"
    have c: "close_chan (last (wk_workers wp)) (wp\<lparr>wk_workers := butlast (wk_workers wp)\<rparr>) = Ret ?wp"
      using "1.prems"(1) by (simp add: w close_chan_def workers_ok_def)
    have e: "worker_kill cnt wp = worker_kill cnt ?wp"
      using True w c by (subst worker_kill.simps) simp
    have "workers_ok ?wp" using "1.prems"(1) by (auto simp: workers_ok_def w)
    moreover have "cnt \<le> int (length (wk_workers ?wp))" using True w by simp
    ultimately have "\<exists>wp'. worker_kill cnt ?wp = Ret wp' \<and> workers_ok wp' \<and> wk_closed wp' = wk_closed ?wp \<and>
      wk_spawned wp' = wk_spawned ?wp \<and> wk_workers wp' = take (nat cnt) (wk_workers ?wp) \<and>
      wk_killed wp' = wk_killed ?wp \<union> set (drop (nat cnt) (wk_workers ?wp))"
      using "1.IH" [OF True ne c _ "1.prems"(2)] by blast
    moreover have "nat cnt \<le> length ws" using True w "1.prems"(2) by simp
    ultimately show ?thesis unfolding e w by auto
  qed
qed

lemma worker_kill_negative: "workers_ok wp \<Longrightarrow> cnt < 0 \<Longrightarrow> worker_kill cnt wp = Pan PRuntime"
proof (induction "length (wk_workers wp)" arbitrary: wp)
  case 0
  then show ?case by (subst worker_kill.simps) simp
next
  case (Suc n)
  then obtain ws c where w: "wk_workers wp = ws @ [c]" by (cases "wk_workers wp" rule: rev_exhaust) auto
  let ?wp = "wp\<lparr>wk_workers := ws, wk_killed := insert c (wk_killed wp)\<rparr>"
  have "worker_kill cnt wp = worker_kill cnt ?wp"
    using Suc.prems w by (subst worker_kill.simps) (simp add: close_chan_def workers_ok_def)
  moreover have "workers_ok ?wp" using Suc.prems by (auto simp: workers_ok_def w)
  ultimately show ?case using Suc.hyps(1) [of ?wp] Suc.hyps(2) Suc.prems w by simp
qed

lemma close_all_spec:
  assumes "distinct cs" and "set cs \<inter> wk_killed wp = {}"
  shows "close_all cs wp = Ret (wp\<lparr>wk_killed := wk_killed wp \<union> set cs\<rparr>)"
  using assms by (induction cs arbitrary: wp) (auto simp: close_chan_def)

text \<open>
  C29: Setting the capacity of an open worker pool to a count that is not negative succeeds and
  leaves exactly that many live workers: if there were fewer, the old ones stay and new ones are
  started (and the monitor with the first), if there were more, the newest are killed, each kill
  channel being closed once. A negative count is a run-time panic, and on a terminated pool
  nothing happens.
\<close>

theorem worker_setCapacity_exact:
  assumes "workers_ok wp"
  shows "(wk_closed wp \<longrightarrow> worker_setCapacity cnt wp = Ret wp) \<and>
    (\<not> wk_closed wp \<and> 0 \<le> cnt \<longrightarrow>
      (\<exists>wp'. worker_setCapacity cnt wp = Ret wp' \<and> workers_ok wp' \<and> \<not> wk_closed wp' \<and>
        length (wk_workers wp') = nat cnt \<and>
        take (nat cnt) (wk_workers wp) = take (length (wk_workers wp)) (wk_workers wp') \<and>
        wk_killed wp' = wk_killed wp \<union> set (drop (nat cnt) (wk_workers wp)))) \<and>
    (\<not> wk_closed wp \<and> cnt < 0 \<longrightarrow> worker_setCapacity cnt wp = Pan PRuntime)"
proof -
  note sp = worker_spawn_spec [OF assms, of cnt]
  then obtain ns where w: "wk_workers (worker_spawn cnt wp) = wk_workers wp @ ns" by blast
  have "\<exists>wp'. worker_setCapacity cnt wp = Ret wp' \<and> workers_ok wp' \<and> \<not> wk_closed wp' \<and>
        length (wk_workers wp') = nat cnt \<and>
        take (nat cnt) (wk_workers wp) = take (length (wk_workers wp)) (wk_workers wp') \<and>
        wk_killed wp' = wk_killed wp \<union> set (drop (nat cnt) (wk_workers wp))"
    if op: "\<not> wk_closed wp" and c: "0 \<le> cnt"
  proof -
    have n: "ns = [] \<or> length (wk_workers wp) + length ns = nat cnt" using sp w by (auto simp: max_def split: if_splits)
    have "cnt \<le> int (length (wk_workers (worker_spawn cnt wp)))" using sp by simp
    with worker_kill_spec [OF _ c, of "worker_spawn cnt wp"] sp obtain wp' where
      k: "worker_kill cnt (worker_spawn cnt wp) = Ret wp'" "workers_ok wp'" "wk_closed wp' = wk_closed wp"
        "wk_workers wp' = take (nat cnt) (wk_workers wp @ ns)"
        "wk_killed wp' = wk_killed wp \<union> set (drop (nat cnt) (wk_workers wp @ ns))"
      unfolding w [symmetric] by auto
    moreover have "nat cnt \<le> length (wk_workers wp @ ns)" using sp w by (simp add: nat_le_iff)
    ultimately show ?thesis
      using op n by (intro exI [of _ wp']) (auto simp: worker_setCapacity_def min_def)
  qed
  moreover have "worker_setCapacity cnt wp = Pan PRuntime" if "\<not> wk_closed wp" "cnt < 0"
    using sp that worker_kill_negative [of "worker_spawn cnt wp" cnt] by (simp add: worker_setCapacity_def)
  ultimately show ?thesis by (auto simp: worker_setCapacity_def)
qed

theorem worker_setCapacity_exact_witness:
  "\<exists>wp'. worker_setCapacity 3 newWorkerPool = Ret wp' \<and> length (wk_workers wp') = 3"
  using worker_setCapacity_exact [OF newWorkerPool_ok, of 3] by (auto simp: newWorkerPool_def)

text \<open>
  C30: Terminating a worker pool kills every live worker, closing each kill channel exactly once
  (so it never panics), and terminating again or setting a capacity afterwards changes nothing.
\<close>

theorem worker_terminate_once:
  assumes "workers_ok wp"
  shows "\<exists>wp'. worker_terminate wp = Ret wp' \<and> wk_workers wp' = [] \<and> wk_killed wp' = {0..<wk_spawned wp} \<and>
    workers_ok wp' \<and> worker_terminate wp' = Ret wp' \<and> worker_setCapacity cnt wp' = Ret wp'"
  using assms close_all_spec [of "wk_workers wp" "wp\<lparr>wk_closed := True\<rparr>"]
  by (auto simp: worker_terminate_def Let_def worker_setCapacity_def workers_ok_def Un_commute)

theorem worker_terminate_once_witness:
  "\<exists>wp'. gobind (worker_setCapacity 2 newWorkerPool) worker_terminate = Ret wp' \<and> wk_killed wp' = {0, 1}"
proof -
  let ?wp = "\<lparr>wk_workers = [0, 1], wk_closed = False, wk_killed = {}, wk_spawned = 2, wk_monitor = True\<rparr>"
  have e: "worker_setCapacity 2 newWorkerPool = Ret ?wp"
    by (simp add: worker_setCapacity_def newWorkerPool_def worker_spawn.simps worker_kill.simps)
  have "workers_ok ?wp" by (auto simp: workers_ok_def)
  from worker_terminate_once [OF this, of 0] show ?thesis
    unfolding e by (auto simp: numeral_2_eq_2)
qed

end
