(* ===== verification/Go_Act.thy ===== *)
theory Go_Act
  imports Golib
begin

text \<open>
  Sequential Go code with state: a computation takes a state and does not return (\<open>None\<close>), returns
  or panics, in both cases with the state it leaves behind: what a panicking function had changed
  stays changed when a deferred \<open>errs.Recover\<close> turns the panic into an error.
\<close>

section \<open>Computations\<close>

type_synonym ('s, 'a) act = "'s \<Rightarrow> ('a go \<times> 's) option"

definition aret :: "'a \<Rightarrow> ('s, 'a) act" where
  "aret x s = Some (Ret x, s)"

definition abind :: "('s, 'a) act \<Rightarrow> ('a \<Rightarrow> ('s, 'b) act) \<Rightarrow> ('s, 'b) act" where
  "abind m f s =
     (case m s of
        None \<Rightarrow> None
      | Some (r, s') \<Rightarrow> (case r of Ret x \<Rightarrow> f x s' | Pan p \<Rightarrow> Some (Pan p, s')))"

definition athen :: "('s, 'a) act \<Rightarrow> ('s, 'b) act \<Rightarrow> ('s, 'b) act" where
  "athen m n = abind m (\<lambda>_. n)"

definition aget :: "('s \<Rightarrow> 'a) \<Rightarrow> ('s, 'a) act" where
  "aget f s = Some (Ret (f s), s)"

definition amod :: "('s \<Rightarrow> 's) \<Rightarrow> ('s, unit) act" where
  "amod f s = Some (Ret (), f s)"

text \<open>A computation that reads and updates the state at once, and a computation without state.\<close>

definition astep :: "('s \<Rightarrow> 'a \<times> 's) \<Rightarrow> ('s, 'a) act" where
  "astep f s = (case f s of (x, s') \<Rightarrow> Some (Ret x, s'))"

definition alift :: "'a go \<Rightarrow> ('s, 'a) act" where
  "alift g s = Some (g, s)"

text \<open>A call of a computation that has no state of its own.\<close>

definition acall :: "'a go option \<Rightarrow> ('s, 'a) act" where
  "acall r s = map_option (\<lambda>g. (g, s)) r"

text \<open>A computation on a part of the state.\<close>

definition azoom :: "('s \<Rightarrow> 't) \<Rightarrow> ('t \<Rightarrow> 's \<Rightarrow> 's) \<Rightarrow> ('t, 'a) act \<Rightarrow> ('s, 'a) act" where
  "azoom g p m s = map_option (\<lambda>(r, t). (r, p t s)) (m (g s))"

text \<open>A slice expression \<open>xs[i:]\<close> or \<open>xs[:i]\<close>, which panics when the bound is out of range.\<close>

definition slice_from :: "'a list \<Rightarrow> int \<Rightarrow> 'a list go" where
  "slice_from xs i = (if 0 \<le> i \<and> i \<le> int (length xs) then Ret (drop (nat i) xs) else Pan PRuntime)"

definition slice_to :: "'a list \<Rightarrow> int \<Rightarrow> 'a list go" where
  "slice_to xs i = (if 0 \<le> i \<and> i \<le> int (length xs) then Ret (take (nat i) xs) else Pan PRuntime)"

section \<open>Defer and recover\<close>

text \<open>A deferred call runs whether the function returns or panics.\<close>

definition adefer :: "('s, unit) act \<Rightarrow> ('s, 'a) act \<Rightarrow> ('s, 'a) act" where
  "adefer d m s =
     (case m s of
        None \<Rightarrow> None
      | Some (r, s') \<Rightarrow>
          (case d s' of
             None \<Rightarrow> None
           | Some (q, s'') \<Rightarrow> Some (case q of Ret _ \<Rightarrow> r | Pan p \<Rightarrow> Pan p, s'')))"

text \<open>
  \<open>defer errs.Recover(&err)\<close>: a panic that \<open>errs\<close> raised becomes the result \<open>h e s\<close> of its error (and
  of the state, where a named result is kept), any other panic goes on.
\<close>

definition arecover :: "errs \<Rightarrow> (goerr option \<Rightarrow> 's \<Rightarrow> 'a) \<Rightarrow> ('s, 'a) act \<Rightarrow> ('s, 'a) act" where
  "arecover E h m s =
     (case m s of
        None \<Rightarrow> None
      | Some (r, s') \<Rightarrow>
          Some (case r of
                  Ret x \<Rightarrow> Ret x
                | Pan p \<Rightarrow> (case errs_Recover E p of Inl e \<Rightarrow> Ret (h e s') | Inr p' \<Rightarrow> Pan p'), s'))"

definition aPanic :: "errs \<Rightarrow> goerr option \<Rightarrow> ('s, unit) act" where
  "aPanic E e = alift (errs_Panic E e)"

definition aAssert :: "errs \<Rightarrow> bool \<Rightarrow> goerr option \<Rightarrow> ('s, unit) act" where
  "aAssert E c e = alift (errs_Assert E c e)"

section \<open>Rules\<close>

lemma abind_simps [simp]:
  "abind (aret x) f s = f x s" "abind (aget g) f1 s = f1 (g s) s" "abind (amod h) f2 s = f2 () (h s)"
  "abind (astep k) f3 s = (case k s of (y, s') \<Rightarrow> f3 y s')"
  "abind (alift (Ret u)) f4 s = f4 u s" "abind (alift (Pan p)) f5 s = Some (Pan p, s)"
  "athen m n s = abind m (\<lambda>_. n) s"
  by (simp_all add: abind_def aret_def aget_def amod_def astep_def alift_def athen_def split: prod.split)

lemma act_simps [simp]:
  "aret x s = Some (Ret x, s)" "aget g s = Some (Ret (g s), s)" "amod k s = Some (Ret (), k s)"
  "alift r s = Some (r, s)" "astep h s = (case h s of (y, s') \<Rightarrow> Some (Ret y, s'))"
  by (simp_all add: aret_def aget_def amod_def alift_def astep_def)

lemma abind_assoc: "abind (abind m f) g = abind m (\<lambda>x. abind (f x) g)"
  by (rule ext) (simp add: abind_def split: option.split prod.split go.split)

lemma abind_aPanic [simp]:
  assumes "errs_ok E"
  shows "abind (aPanic E e) f s = (if e = None then f () s else Some (Pan (PErr e), s))"
    and "abind (aAssert E c e) g s = (if c then g () s else Some (Pan (PErr e), s))"
    and "aPanic E e s = Some (if e = None then Ret () else Pan (PErr e), s)"
    and "aAssert E c e s = Some (if c then Ret () else Pan (PErr e), s)"
  using assms by (simp_all add: aPanic_def aAssert_def errs_Panic_eq errs_Assert_eq)

lemma abind_Some:
  "abind m f s = Some (r, s'') \<longleftrightarrow>
     (\<exists>x s'. m s = Some (Ret x, s') \<and> f x s' = Some (r, s'')) \<or>
     (\<exists>p. m s = Some (Pan p, s'') \<and> r = Pan p)"
  by (auto simp: abind_def split: option.split prod.split go.split)

lemma abind_Ret:
  "abind m f s = Some (Ret y, s'') \<longleftrightarrow> (\<exists>x s'. m s = Some (Ret x, s') \<and> f x s' = Some (Ret y, s''))"
  by (auto simp: abind_Some)

lemma abind_eval:
  "m s = Some (Ret x, s') \<Longrightarrow> abind m f s = f x s'" "m s = Some (Pan p, s') \<Longrightarrow> abind m f s = Some (Pan p, s')"
  "m s = None \<Longrightarrow> abind m f s = None"
  by (simp_all add: abind_def)

lemma adefer_eval:
  "m s = Some (r, s') \<Longrightarrow> d s' = Some (Ret (), s'') \<Longrightarrow> adefer d m s = Some (r, s'')"
  "m s = None \<Longrightarrow> adefer d m s = None"
  by (simp_all add: adefer_def)

lemma arecover_eval:
  assumes "errs_ok E"
  shows "m s = Some (Ret x, s') \<Longrightarrow> arecover E h m s = Some (Ret x, s')"
    and "m s = Some (Pan (PErr e), s') \<Longrightarrow> arecover E h m s = Some (Ret (h e s'), s')"
    and "m s = None \<Longrightarrow> arecover E h m s = None"
  using assms by (simp_all add: arecover_def golib_laws)

text \<open>\<open>errs.Recover\<close> never leaves a panic that \<open>errs\<close> raised.\<close>

lemma arecover_no_err:
  assumes "errs_ok E" and "arecover E h m s = Some (Pan p, s')"
  shows "\<exists>q. m s = Some (Pan q, s') \<and> (\<forall>e. q \<noteq> PErr e)"
proof -
  from assms(2) obtain r where r: "m s = Some (r, s')"
    "(case r of Ret x \<Rightarrow> Ret x | Pan p \<Rightarrow> (case errs_Recover E p of Inl e \<Rightarrow> Ret (h e s') | Inr p' \<Rightarrow> Pan p')) = Pan p"
    by (auto simp: arecover_def split: option.splits)
  then obtain q where q: "r = Pan q" by (cases r) simp_all
  with r(2) have "q \<noteq> PErr e" for e using errs_okD(5) [OF assms(1), of e] by auto
  with r q show ?thesis by blast
qed

section \<open>Panics that carry an error\<close>

text \<open>
  A computation whose panics all carry an error that \<open>errs\<close> raised, and not nil: \<open>errs.Recover\<close> turns
  each of them into an error the caller sees. A run-time panic, or \<open>errs.Assert\<close> with a nil error,
  breaks this.
\<close>

definition honest :: "('s, 'a) act \<Rightarrow> bool" where
  "honest m \<longleftrightarrow> (\<forall>s p s'. m s = Some (Pan p, s') \<longrightarrow> (\<exists>e. p = PErr (Some e)))"

lemma honestI: "(\<And>s p s'. m s = Some (Pan p, s') \<Longrightarrow> \<exists>e. p = PErr (Some e)) \<Longrightarrow> honest m"
  by (auto simp: honest_def)

lemma honestD: "honest m \<Longrightarrow> m s = Some (Pan p, s') \<Longrightarrow> \<exists>e. p = PErr (Some e)"
  by (auto simp: honest_def)

lemma honest_simps [simp]:
  "honest (aret x)" "honest (aget f)" "honest (amod g)" "honest (astep h)" "honest (alift (Ret y))"
  by (simp_all add: honest_def split: prod.split)

lemma honest_errs:
  assumes "errs_ok E"
  shows "honest (aPanic E e)" and "honest (aAssert E c (Some e'))"
  using assms by (auto simp: honest_def split: if_splits)

lemma honest_abind: "honest m \<Longrightarrow> (\<And>x. honest (f x)) \<Longrightarrow> honest (abind m f)"
  unfolding honest_def abind_Some by blast

lemma honest_athen: "honest m \<Longrightarrow> honest n \<Longrightarrow> honest (athen m n)"
  by (simp add: athen_def honest_abind)

lemmas honest_intros = honest_abind honest_athen honest_simps

text \<open>Recovering from such a computation always gives a result, and an error if it panicked.\<close>

lemma arecover_honest:
  assumes "errs_ok E" and "honest m" and "m s = Some (r, s')"
  shows "\<exists>x. arecover E h m s = Some (Ret x, s') \<and> (r = Ret x \<or> (\<exists>e. r = Pan (PErr (Some e)) \<and> x = h (Some e) s'))"
proof (cases r)
  case (Ret x)
  then have "arecover E h m s = Some (Ret x, s')"
    using arecover_eval(1) [OF assms(1), of m s x s' h] assms(3) by simp
  with Ret show ?thesis by simp
next
  case (Pan p)
  with honestD [OF assms(2), of s p s'] assms(3) obtain e where "p = PErr (Some e)" by auto
  with Pan have "r = Pan (PErr (Some e))" "arecover E h m s = Some (Ret (h (Some e) s'), s')"
    using arecover_eval(2) [OF assms(1), of m s "Some e" s' h] assms(3) by simp_all
  then show ?thesis by simp
qed

section \<open>Outcomes\<close>

text \<open>
  A run returns, with a result and a state related by \<open>Q\<close>, or fails with an error that \<open>errs\<close> raised
  and a state in \<open>R\<close>; it neither runs forever nor panics otherwise.
\<close>

definition outcome :: "('a go \<times> 's) option \<Rightarrow> ('a \<Rightarrow> 's \<Rightarrow> bool) \<Rightarrow> ('s \<Rightarrow> bool) \<Rightarrow> bool" where
  "outcome m Q R \<longleftrightarrow> (\<exists>x s. m = Some (Ret x, s) \<and> Q x s) \<or> (\<exists>e s. m = Some (Pan (PErr (Some e)), s) \<and> R s)"

lemma outcome_simps [simp]:
  "outcome (Some (Ret x, s)) Q R \<longleftrightarrow> Q x s" "outcome (Some (Pan (PErr (Some e)), s)) Q R \<longleftrightarrow> R s" "\<not> outcome None Q R"
  by (simp_all add: outcome_def)

lemma outcome_cases:
  assumes "outcome m Q R"
  obtains (ret) x s where "m = Some (Ret x, s)" "Q x s" | (err) e s where "m = Some (Pan (PErr (Some e)), s)" "R s"
  using assms by (auto simp: outcome_def)

lemma outcome_mono:
  assumes "outcome m Q R" and "\<And>x t. Q x t \<Longrightarrow> Q' x t" and "\<And>t. R t \<Longrightarrow> R' t"
  shows "outcome m Q' R'"
  using assms by (auto simp: outcome_def)

lemma outcome_abind:
  assumes "outcome (m s) Q R" and "\<And>x t. Q x t \<Longrightarrow> outcome (f x t) Q' R"
  shows "outcome (abind m f s) Q' R"
  using assms(1) by (rule outcome_cases) (simp_all add: abind_eval assms(2))

lemma outcome_adefer:
  assumes "outcome (m s) Q R" and "\<And>t. d t = Some (Ret (), g t)"
  shows "outcome (adefer d m s) (\<lambda>x t. \<exists>t'. t = g t' \<and> Q x t') (\<lambda>t. \<exists>t'. t = g t' \<and> R t')"
  using assms(1) by (rule outcome_cases) (auto simp: adefer_def assms(2))

lemma outcome_azoom:
  assumes "outcome (m (g s)) Q R"
  shows "outcome (azoom g p m s) (\<lambda>x t. \<exists>t'. t = p t' s \<and> Q x t') (\<lambda>t. \<exists>t'. t = p t' s \<and> R t')"
  using assms by (rule outcome_cases) (auto simp: azoom_def)

lemma outcome_aPanic:
  assumes "errs_ok E" and "e = None \<Longrightarrow> outcome (m s) Q R" and "e \<noteq> None \<Longrightarrow> R s"
  shows "outcome (abind (aPanic E e) (\<lambda>_. m) s) Q R"
  using assms by (cases e) simp_all

lemma arecover_Ret:
  "arecover E h m s = Some (Ret x, s') \<longleftrightarrow>
     m s = Some (Ret x, s') \<or> (\<exists>p e. m s = Some (Pan p, s') \<and> errs_Recover E p = Inl e \<and> x = h e s')"
  by (auto simp: arecover_def split: option.split go.split sum.split)

section \<open>What a computation leaves alone\<close>

definition akeeps :: "('s \<Rightarrow> 't) \<Rightarrow> ('s, 'a) act \<Rightarrow> bool" where
  "akeeps f m \<longleftrightarrow> (\<forall>s r s'. m s = Some (r, s') \<longrightarrow> f s' = f s)"

lemma akeepsD: "akeeps f m \<Longrightarrow> m s = Some (r, s') \<Longrightarrow> f s' = f s"
  by (auto simp: akeeps_def)

lemma akeeps_simps [simp]:
  "akeeps f (aret x)" "akeeps f (aget g)" "akeeps f (alift r)" "akeeps f (aPanic E e)"
  "akeeps f (amod h) \<longleftrightarrow> (\<forall>s. f (h s) = f s)" "akeeps f (astep k) \<longleftrightarrow> (\<forall>s. f (snd (k s)) = f s)"
  by (auto simp: akeeps_def aPanic_def split: prod.splits) (metis snd_conv prod.collapse)+

lemma akeeps_abind: "akeeps f m \<Longrightarrow> (\<And>x. akeeps f (g x)) \<Longrightarrow> akeeps f (abind m g)"
  unfolding akeeps_def abind_Some by metis

lemma akeeps_athen: "akeeps f m \<Longrightarrow> akeeps f n \<Longrightarrow> akeeps f (athen m n)"
  by (simp add: athen_def akeeps_abind)

lemma akeeps_adefer: "akeeps f d \<Longrightarrow> akeeps f m \<Longrightarrow> akeeps f (adefer d m)"
  by (auto simp: akeeps_def adefer_def split: option.splits)

lemma akeeps_azoom: "(\<And>t s. f (p t s) = f s) \<Longrightarrow> akeeps f (azoom g p m)"
  by (auto simp: akeeps_def azoom_def)

lemmas akeeps_intros = akeeps_abind akeeps_athen akeeps_adefer akeeps_azoom

end
