(* ===== verification/Lib_Stream.thy ===== *)
theory Lib_Stream
  imports Lib_Types Bufpipe "HOL-Library.Monad_Syntax"
begin

text \<open>
  \<open>lib.Stream\<close>: an \<open>lzma_stream\<close> with its buffers (\<open>lib/base.go\<close>) and its constructors
  (\<open>lib/container.go\<close>, and the two of \<open>lib/block.go\<close>). \<open>Process\<close> pumps data from an \<open>io.Reader\<close>
  through the coder into an \<open>io.Writer\<close>, \<open>ProcessPipe\<close> from one buffer pipe into another.

  The caller's reader and writer are functions on a state of their own: \<open>rd s n\<close> is a \<open>Read\<close> with room
  for \<open>n\<close> bytes (the bytes it stored and its error), \<open>wr w buf\<close> is \<open>Write(buf)\<close> (its count and
  error); a nil interface is \<open>None\<close>. The loops run as long as the coder, the reader and the writer
  make them, so they are partial functions, \<open>None\<close> being a call that does not return. The 64-bit
  byte counts a call returns are unbounded here: they count bytes moved during one call.
\<close>

section \<open>Streams\<close>

record ('z, 'p) Stream =
  st_coder :: 'z
  st_next_in :: bytes
  st_avail_out :: nat
  st_total_in :: "64 word"
  st_total_out :: "64 word"
  st_inBuf :: 'p
  st_outBuf :: 'p

type_synonym 's io_read = "'s \<Rightarrow> nat \<Rightarrow> (bytes \<times> goerr option) \<times> 's"
type_synonym 'w io_write = "'w \<Rightarrow> bytes \<Rightarrow> (int \<times> goerr option) \<times> 'w"

definition chunkSize :: nat where
  "chunkSize = 2 ^ 16"

definition NewStream :: "('z, 'x) liblzma \<Rightarrow> 'p bufpipe \<Rightarrow> ('z, 'p) Stream" where
  "NewStream L B =
     \<lparr>st_coder = c_stream_init L, st_next_in = [], st_avail_out = 0, st_total_in = 0,
      st_total_out = 0, st_inBuf = bp_nil B, st_outBuf = bp_nil B\<rparr>"

definition SetInput :: "('z, 'p) Stream \<Rightarrow> bytes \<Rightarrow> ('z, 'p) Stream" where
  "SetInput z buffer = z\<lparr>st_next_in := buffer\<rparr>"

text \<open>Of an output buffer only its length matters; the stored bytes are returned by \<open>Code\<close>.\<close>

definition SetOutput :: "('z, 'p) Stream \<Rightarrow> nat \<Rightarrow> ('z, 'p) Stream" where
  "SetOutput z n = z\<lparr>st_avail_out := n\<rparr>"

definition GetAvailIn :: "('z, 'p) Stream \<Rightarrow> int" where
  "GetAvailIn z = wrap64 (int (length (st_next_in z)))"

definition GetTotalIn :: "('z, 'p) Stream \<Rightarrow> int" where
  "GetTotalIn z = to_i64 (st_total_in z)"

definition GetAvailOut :: "('z, 'p) Stream \<Rightarrow> int" where
  "GetAvailOut z = wrap64 (int (st_avail_out z))"

definition GetTotalOut :: "('z, 'p) Stream \<Rightarrow> int" where
  "GetTotalOut z = to_i64 (st_total_out z)"

definition Code ::
  "('z, 'x) liblzma \<Rightarrow> lzma_action \<Rightarrow> ('z, 'p) Stream \<Rightarrow> (goerr option \<times> bytes) \<times> ('z, 'p) Stream" where
  "Code L action z =
     (let (r, k, out, c) = c_code L (st_coder z) action (st_next_in z) (st_avail_out z)
      in ((NewError r, out),
          z\<lparr>st_coder := c, st_next_in := drop k (st_next_in z),
            st_avail_out := st_avail_out z - length out,
            st_total_in := st_total_in z + of_nat k,
            st_total_out := st_total_out z + of_nat (length out)\<rparr>))"

definition CodeSlice ::
  "('z, 'x) liblzma \<Rightarrow> lzma_action \<Rightarrow> nat \<Rightarrow> bytes \<Rightarrow> ('z, 'p) Stream \<Rightarrow>
   (int \<times> int \<times> goerr option) \<times> bytes \<times> ('z, 'p) Stream" where
  "CodeSlice L action dst src z =
     (let z = SetOutput z dst;
          z = SetInput z src;
          ((err, out), z) = Code L action z;
          wrCnt = int dst - int (st_avail_out z);
          rdCnt = int (length src) - int (length (st_next_in z))
      in ((wrCnt, rdCnt, err), out, z))"

definition End :: "('z, 'x) liblzma \<Rightarrow> ('z, 'p) Stream \<Rightarrow> ('z, 'p) Stream" where
  "End L z = z\<lparr>st_coder := c_end L (st_coder z)\<rparr>"

definition GetBuffers :: "('z, 'p) Stream \<Rightarrow> 'p \<times> 'p" where
  "GetBuffers z = (st_outBuf z, st_inBuf z)"

definition SetBuffers :: "'p bufpipe \<Rightarrow> 'p \<Rightarrow> 'p \<Rightarrow> ('z, 'p) Stream \<Rightarrow> ('z, 'p) Stream go" where
  "SetBuffers B outBuf inBuf z =
     (if outBuf \<noteq> bp_nil B \<and> bp_Mode B outBuf \<noteq> RingPoll
      then Pan (PMsg ''internal buffers must be in polling mode'')
      else if inBuf \<noteq> bp_nil B \<and> bp_Mode B inBuf \<noteq> RingPoll
      then Pan (PMsg ''internal buffers must be in polling mode'')
      else Ret (z\<lparr>st_outBuf := outBuf, st_inBuf := inBuf\<rparr>))"

section \<open>Pumping from a reader to a writer\<close>

text \<open>The loop that reads until the input buffer has data or the reader reports an error.\<close>

partial_function (option) process_fill ::
  "'p bufpipe \<Rightarrow> 's io_read \<Rightarrow> 'p \<times> 's \<times> goerr option \<times> int \<Rightarrow> ('p \<times> 's \<times> goerr option \<times> int) option" where
  "process_fill B rd st =
     (case st of (p, s, rdErr, inCnt) \<Rightarrow>
        if rdErr = None \<and> bp_Length B p = 0 then
          (case rd s (fst (bp_WriteSlices B p)) of ((bs, e), s) \<Rightarrow>
             process_fill B rd
               (bp_WriteMark B (bp_Store B p bs) (int (length bs)), s, e, inCnt + int (length bs)))
        else Some (p, s, rdErr, inCnt))"

text \<open>The loop that writes until the output buffer is empty or the writer reports an error.\<close>

partial_function (option) process_drain ::
  "'p bufpipe \<Rightarrow> 'w io_write \<Rightarrow> 'p \<times> 'w \<times> goerr option \<times> int \<Rightarrow> ('p \<times> 'w \<times> goerr option \<times> int) option" where
  "process_drain B wr st =
     (case st of (p, w, wrErr, outCnt) \<Rightarrow>
        if wrErr = None \<and> bp_Length B p > 0 then
          (case wr w (fst (bp_ReadSlices B p)) of ((wrCnt, e), w) \<Rightarrow>
             process_drain B wr (bp_ReadMark B p wrCnt, w, e, outCnt + wrCnt))
        else Some (p, w, wrErr, outCnt))"

text \<open>One call of the coder between the two buffers.\<close>

definition process_code ::
  "'p bufpipe \<Rightarrow> ('z, 'x) liblzma \<Rightarrow> lzma_action \<Rightarrow> bool \<Rightarrow> bool \<Rightarrow> ('z, 'p) Stream \<Rightarrow>
   goerr option \<times> ('z, 'p) Stream" where
  "process_code B L action noSrc noDst z =
     (let inBuf = fst (bp_ReadSlices B (st_inBuf z));
          outBuf = fst (bp_WriteSlices B (st_outBuf z));
          ((wrCnt, rdCnt, xzErr), out, z) = CodeSlice L action outBuf inBuf z;
          z = z\<lparr>st_inBuf := bp_ReadMark B (st_inBuf z) rdCnt\<rparr>;
          z = z\<lparr>st_outBuf := bp_WriteMark B (bp_Store B (st_outBuf z) out) wrCnt\<rparr>;
          xzErr = (if (noSrc \<or> length inBuf > 0) \<and> (noDst \<or> outBuf > 0) \<and> xzErr = Some (LibErr BUF_ERROR)
                   then None else xzErr)
      in (xzErr, z))"

type_synonym ('z, 'p, 's, 'w) process_result =
  "((int \<times> int \<times> goerr option) \<times> ('z, 'p) Stream \<times> 's \<times> 'w) option"

partial_function (option) process_loop ::
  "'p bufpipe \<Rightarrow> ('z, 'x) liblzma \<Rightarrow> lzma_action \<Rightarrow> 'w io_write option \<Rightarrow> 's io_read option \<Rightarrow>
   ('z, 'p) Stream \<times> 's \<times> 'w \<times> int \<times> int \<times> goerr option \<Rightarrow> ('z, 'p, 's, 'w) process_result" where
  "process_loop B L action dst src st =
     (case st of (z, s, w, inCnt, outCnt, rdErr) \<Rightarrow>
        (case src of None \<Rightarrow> Some (st_inBuf z, s, rdErr, inCnt)
           | Some rd \<Rightarrow> process_fill B rd (st_inBuf z, s, rdErr, inCnt)) \<bind> (\<lambda>(inBuf, s, rdErr, inCnt).
        case process_code B L action (src = None) (dst = None) (z\<lparr>st_inBuf := inBuf\<rparr>) of (xzErr, z) \<Rightarrow>
        (case dst of None \<Rightarrow> Some (st_outBuf z, w, None, outCnt)
           | Some wr \<Rightarrow> process_drain B wr (st_outBuf z, w, None, outCnt)) \<bind> (\<lambda>(outBuf, w, wrErr, outCnt).
        let z = z\<lparr>st_outBuf := outBuf\<rparr> in
        if wrErr \<noteq> None then Some ((outCnt, inCnt, wrErr), z, s, w)
        else if xzErr \<noteq> None \<and> bp_Length B (st_outBuf z) = 0 then Some ((outCnt, inCnt, xzErr), z, s, w)
        else if rdErr \<noteq> None \<and> bp_Length B (st_outBuf z) = 0 \<and> bp_Length B (st_inBuf z) = 0
        then Some ((outCnt, inCnt, rdErr), z, s, w)
        else process_loop B L action dst src (z, s, w, inCnt, outCnt, rdErr))))"

text \<open>The internal ring buffers are allocated on first use.\<close>

definition process_alloc ::
  "'p bufpipe \<Rightarrow> bool \<Rightarrow> bool \<Rightarrow> ('z, 'p) Stream \<Rightarrow> ('z, 'p) Stream" where
  "process_alloc B noSrc noDst z =
     (let z = (if \<not> noSrc \<and> st_inBuf z = bp_nil B
               then z\<lparr>st_inBuf := bp_New B (replicate chunkSize 0) RingPoll\<rparr> else z)
      in if \<not> noDst \<and> st_outBuf z = bp_nil B
         then z\<lparr>st_outBuf := bp_New B (replicate chunkSize 0) RingPoll\<rparr> else z)"

definition Process ::
  "'p bufpipe \<Rightarrow> ('z, 'x) liblzma \<Rightarrow> lzma_action \<Rightarrow> 'w io_write option \<Rightarrow> 's io_read option \<Rightarrow>
   ('z, 'p) Stream \<Rightarrow> 's \<Rightarrow> 'w \<Rightarrow> ('z, 'p, 's, 'w) process_result" where
  "Process B L action dst src z s w =
     (if src = None \<and> dst = None then Some ((0, 0, None), z, s, w)
      else process_loop B L action dst src
             (process_alloc B (src = None) (dst = None) z, s, w, 0, 0, None))"

section \<open>Pumping between pipes\<close>

text \<open>
  \<open>None\<close> for \<open>dst\<close> or \<open>src\<close> is a nil pipe; the marks of the loop are then taken on the nil pipe and
  have no effect on the caller.
\<close>

partial_function (option) processPipe_loop ::
  "'p bufpipe \<Rightarrow> ('z, 'x) liblzma \<Rightarrow> lzma_action \<Rightarrow>
   'p option \<times> 'p option \<times> ('z, 'p) Stream \<times> int \<times> int \<Rightarrow>
   ((int \<times> int \<times> goerr option) \<times> 'p option \<times> 'p option \<times> ('z, 'p) Stream) option" where
  "processPipe_loop B L action st =
     (case st of (dst, src, z, outCnt, inCnt) \<Rightarrow>
      case (case src of None \<Rightarrow> ([], None)
              | Some p \<Rightarrow> (case bp_ReadSlices B p of (lo, _, e) \<Rightarrow> (take chunkSize lo, e))) of (inBuf, rdErr) \<Rightarrow>
      if rdErr \<noteq> None then Some ((outCnt, inCnt, rdErr), dst, src, z)
      else
        case (case dst of None \<Rightarrow> (0, None)
                | Some p \<Rightarrow> (case bp_WriteSlices B p of (n, _, e) \<Rightarrow> (min n chunkSize, e))) of (outBuf, wrErr) \<Rightarrow>
        if wrErr \<noteq> None then Some ((outCnt, inCnt, wrErr), dst, src, z)
        else
          case CodeSlice L action outBuf inBuf z of ((wrCnt, rdCnt, err), out, z) \<Rightarrow>
          let src = map_option (\<lambda>p. bp_ReadMark B p rdCnt) src;
              dst = map_option (\<lambda>p. bp_WriteMark B (bp_Store B p out) wrCnt) dst;
              inCnt = inCnt + rdCnt; outCnt = outCnt + wrCnt
          in if err \<noteq> None then Some ((outCnt, inCnt, err), dst, src, z)
             else processPipe_loop B L action (dst, src, z, outCnt, inCnt))"

definition ProcessPipe ::
  "'p bufpipe \<Rightarrow> ('z, 'x) liblzma \<Rightarrow> lzma_action \<Rightarrow> 'p option \<Rightarrow> 'p option \<Rightarrow> ('z, 'p) Stream \<Rightarrow>
   ((int \<times> int \<times> goerr option) \<times> 'p option \<times> 'p option \<times> ('z, 'p) Stream) option" where
  "ProcessPipe B L action dst src z =
     (if src = None \<and> dst = None then Some ((0, 0, None), dst, src, z)
      else processPipe_loop B L action (dst, src, z, 0, 0))"

section \<open>Constructors\<close>

text \<open>
  Each constructor initialises a stream and has liblzma attach a coder to it; the references the
  stream keeps for the garbage collector are not part of the model.
\<close>

definition new_coder ::
  "('z, 'x) liblzma \<Rightarrow> 'p bufpipe \<Rightarrow> lzma_ret \<times> 'z \<Rightarrow> ('z, 'p) Stream option \<times> goerr option" where
  "new_coder L B rc =
     (let strm = NewStream L B; (r, c) = rc; err = NewError r
      in if err \<noteq> None then (None, err) else (Some (strm\<lparr>st_coder := c\<rparr>), None))"

definition NewStreamLZMAAloneEncoder ::
  "('z, 'x) liblzma \<Rightarrow> 'p bufpipe \<Rightarrow> lzma_options option \<Rightarrow> ('z, 'p) Stream option \<times> goerr option" where
  "NewStreamLZMAAloneEncoder L B opts = new_coder L B (c_alone_encoder L opts)"

definition NewStreamLZMAAloneDecoder ::
  "('z, 'x) liblzma \<Rightarrow> 'p bufpipe \<Rightarrow> 64 word \<Rightarrow> ('z, 'p) Stream option \<times> goerr option" where
  "NewStreamLZMAAloneDecoder L B memlimit = new_coder L B (c_alone_decoder L memlimit)"

definition NewStreamEncoder ::
  "('z, 'x) liblzma \<Rightarrow> 'p bufpipe \<Rightarrow> Filters \<Rightarrow> lzma_check \<Rightarrow> ('z, 'p) Stream option \<times> goerr option" where
  "NewStreamEncoder L B filters check = new_coder L B (c_stream_encoder L (fl_filters filters) check)"

definition NewStreamDecoder ::
  "('z, 'x) liblzma \<Rightarrow> 'p bufpipe \<Rightarrow> 64 word \<Rightarrow> 32 word \<Rightarrow> ('z, 'p) Stream option \<times> goerr option" where
  "NewStreamDecoder L B memlimit flags = new_coder L B (c_stream_decoder L memlimit flags)"

definition Block_NewStreamEncoder ::
  "('z, 'x) liblzma \<Rightarrow> 'p bufpipe \<Rightarrow> Block \<Rightarrow> ('z, 'p) Stream option \<times> goerr option" where
  "Block_NewStreamEncoder L B b = new_coder L B (c_block_encoder L (b_block b))"

definition Block_NewStreamDecoder ::
  "('z, 'x) liblzma \<Rightarrow> 'p bufpipe \<Rightarrow> Block \<Rightarrow> ('z, 'p) Stream option \<times> goerr option" where
  "Block_NewStreamDecoder L B b = new_coder L B (c_block_decoder L (b_block b))"

lemma new_coder_cases:
  obtains (ok) c where "rc = (OK, c)" "new_coder L B rc = (Some ((NewStream L B)\<lparr>st_coder := c\<rparr>), None)"
  | (failed) r c where "rc = (r, c)" "r \<noteq> OK" "new_coder L B rc = (None, Some (LibErr r))"
  by (cases rc) (auto simp: new_coder_def Let_def)

end
