(* ===== verification/Lib_Index.thy ===== *)
theory Lib_Index
  imports Lib_Stream
begin

text \<open>
  \<open>lib/index.go\<close>: the wrapper around \<open>lzma_index\<close> and its iterators, and who owns the C structure.

  A Go \<open>Index\<close> is a possibly null pointer to a C index, here an \<open>'x option\<close> (its contents). The last
  part models the pointers themselves: several Go objects, the live C allocations, and the
  operations that allocate, hand over and free them.
\<close>

section \<open>Indexes\<close>

definition NewIndex :: "('z, 'x) liblzma \<Rightarrow> 'x option \<times> goerr option" where
  "NewIndex L = (if c_index_init L = None then (None, NewError MEM_ERROR) else (c_index_init L, None))"

definition Index_NewStreamEncoder ::
  "('z, 'x) liblzma \<Rightarrow> 'p bufpipe \<Rightarrow> 'x option \<Rightarrow> ('z, 'p) Stream option \<times> goerr option" where
  "Index_NewStreamEncoder L B ix = new_coder L B (c_index_encoder L ix)"

definition Index_End :: "'x option \<Rightarrow> 'x option" where
  "Index_End ix = None"

text \<open>
  The decoder frees the old index first; the index it decodes becomes visible through the pointer
  it was given (\<open>decoded_index\<close>).
\<close>

definition Index_NewStreamDecoder ::
  "('z, 'x) liblzma \<Rightarrow> 'p bufpipe \<Rightarrow> 'x option \<Rightarrow> 64 word \<Rightarrow>
   (('z, 'p) Stream option \<times> goerr option) \<times> 'x option" where
  "Index_NewStreamDecoder L B ix memlimit =
     (let ix = Index_End ix in (new_coder L B (c_index_decoder L memlimit), ix))"

definition decoded_index :: "('z, 'x) liblzma \<Rightarrow> ('z, 'p) Stream \<Rightarrow> 'x option" where
  "decoded_index L z = c_coder_index L (st_coder z)"

definition Index_Append ::
  "('z, 'x) liblzma \<Rightarrow> 'x option \<Rightarrow> int \<Rightarrow> int \<Rightarrow> goerr option \<times> 'x option" where
  "Index_Append L ix unpadSize uncompSize =
     (let (r, ix) = c_index_append L ix (of_i64 unpadSize) (of_i64 uncompSize) in (NewError r, ix))"

definition StreamCount :: "('z, 'x) liblzma \<Rightarrow> 'x option \<Rightarrow> int" where
  "StreamCount L ix = to_i64 (c_index_stream_count L ix)"

definition BlockCount :: "('z, 'x) liblzma \<Rightarrow> 'x option \<Rightarrow> int" where
  "BlockCount L ix = to_i64 (c_index_block_count L ix)"

definition Index_Size :: "('z, 'x) liblzma \<Rightarrow> 'x option \<Rightarrow> int" where
  "Index_Size L ix = to_i64 (c_index_size L ix)"

definition StreamSize :: "('z, 'x) liblzma \<Rightarrow> 'x option \<Rightarrow> int" where
  "StreamSize L ix = to_i64 (c_index_stream_size L ix)"

definition Index_TotalSize :: "('z, 'x) liblzma \<Rightarrow> 'x option \<Rightarrow> int" where
  "Index_TotalSize L ix = to_i64 (c_index_total_size L ix)"

definition FileSize :: "('z, 'x) liblzma \<Rightarrow> 'x option \<Rightarrow> int" where
  "FileSize L ix = to_i64 (c_index_file_size L ix)"

definition UncompressedSize :: "('z, 'x) liblzma \<Rightarrow> 'x option \<Rightarrow> int" where
  "UncompressedSize L ix = to_i64 (c_index_uncompressed_size L ix)"

definition Checks :: "('z, 'x) liblzma \<Rightarrow> 'x option \<Rightarrow> 32 word" where
  "Checks L ix = c_index_checks L ix"

definition Index_StreamFlags ::
  "('z, 'x) liblzma \<Rightarrow> 'x option \<Rightarrow> StreamFlags \<Rightarrow> goerr option \<times> 'x option" where
  "Index_StreamFlags L ix flags = (let (r, ix) = c_index_stream_flags L ix flags in (NewError r, ix))"

definition StreamPadding ::
  "('z, 'x) liblzma \<Rightarrow> 'x option \<Rightarrow> int \<Rightarrow> goerr option \<times> 'x option" where
  "StreamPadding L ix padding =
     (let (r, ix) = c_index_stream_padding L ix (of_i64 padding) in (NewError r, ix))"

text \<open>\<open>dest.Cat(src)\<close> returns the new \<open>dest\<close> and the new \<open>src\<close>.\<close>

definition Cat ::
  "('z, 'x) liblzma \<Rightarrow> 'x option \<Rightarrow> 'x option \<Rightarrow> goerr option \<times> 'x option \<times> 'x option" where
  "Cat L dest src =
     (let (r, dest) = c_index_cat L dest src; err = NewError r
      in if err \<noteq> None then (err, dest, src) else (None, dest, None))"

definition Dup :: "('z, 'x) liblzma \<Rightarrow> 'x option \<Rightarrow> 'x option \<times> goerr option" where
  "Dup L ix1 =
     (let ix2 = c_index_dup L ix1
      in if ix2 = None then (None, Some (LibErr MEM_ERROR)) else (ix2, None))"

section \<open>Iterators\<close>

text \<open>
  \<open>lzma_index_iter\<close>: the fields a caller reads and the internal state; the functions of liblzma that
  move an iterator are a record of their own.
\<close>

record 'i lzma_index_iter =
  ii_internal :: 'i
  ii_stream_flags :: "lzma_stream_flags option"
  ii_stream_number :: "64 word"
  ii_stream_block_count :: "64 word"
  ii_stream_compressed_size :: "64 word"
  ii_stream_uncompressed_size :: "64 word"
  ii_stream_padding :: "64 word"
  ii_block_number_in_file :: "64 word"
  ii_block_number_in_stream :: "64 word"
  ii_block_compressed_file_offset :: "64 word"
  ii_block_uncompressed_file_offset :: "64 word"
  ii_block_compressed_stream_offset :: "64 word"
  ii_block_uncompressed_stream_offset :: "64 word"
  ii_block_uncompressed_size :: "64 word"
  ii_block_unpadded_size :: "64 word"
  ii_block_total_size :: "64 word"

record ('x, 'i) lzma_iter_api =
  c_iter_init :: "'x option \<Rightarrow> 'i lzma_index_iter"
  c_iter_next :: "'i lzma_index_iter \<Rightarrow> int \<Rightarrow> int \<times> 'i lzma_index_iter"
  c_iter_locate :: "'i lzma_index_iter \<Rightarrow> 64 word \<Rightarrow> int \<times> 'i lzma_index_iter"
  c_iter_rewind :: "'i lzma_index_iter \<Rightarrow> 'i lzma_index_iter"

text \<open>An \<open>IndexIter\<close>; its fields \<open>Stream\<close> and \<open>Block\<close> are views of the iterator itself.\<close>

record ('x, 'i) IndexIter =
  it_iter :: "'i lzma_index_iter"
  it_index :: "'x option"

definition NewIter :: "('x, 'i) lzma_iter_api \<Rightarrow> 'x option \<Rightarrow> ('x, 'i) IndexIter" where
  "NewIter A ix = \<lparr>it_iter = c_iter_init A ix, it_index = ix\<rparr>"

definition Iter_Next ::
  "('x, 'i) lzma_iter_api \<Rightarrow> ('x, 'i) IndexIter \<Rightarrow> int \<Rightarrow> bool \<times> ('x, 'i) IndexIter" where
  "Iter_Next A it mode = (let (r, i) = c_iter_next A (it_iter it) mode in (r \<noteq> 0, it\<lparr>it_iter := i\<rparr>))"

definition Iter_Locate ::
  "('x, 'i) lzma_iter_api \<Rightarrow> ('x, 'i) IndexIter \<Rightarrow> int \<Rightarrow> bool \<times> ('x, 'i) IndexIter" where
  "Iter_Locate A it offset =
     (let (r, i) = c_iter_locate A (it_iter it) (of_i64 offset) in (r \<noteq> 0, it\<lparr>it_iter := i\<rparr>))"

definition Iter_Rewind :: "('x, 'i) lzma_iter_api \<Rightarrow> ('x, 'i) IndexIter \<Rightarrow> ('x, 'i) IndexIter" where
  "Iter_Rewind A it = it\<lparr>it_iter := c_iter_rewind A (it_iter it)\<rparr>"

definition Stream_GetFlags :: "('x, 'i) IndexIter \<Rightarrow> StreamFlags option" where
  "Stream_GetFlags it = ii_stream_flags (it_iter it)"
definition Stream_GetNumber :: "('x, 'i) IndexIter \<Rightarrow> int" where
  "Stream_GetNumber it = to_i64 (ii_stream_number (it_iter it))"
definition Stream_GetBlockCount :: "('x, 'i) IndexIter \<Rightarrow> int" where
  "Stream_GetBlockCount it = to_i64 (ii_stream_block_count (it_iter it))"
definition Stream_GetCompressedSize :: "('x, 'i) IndexIter \<Rightarrow> int" where
  "Stream_GetCompressedSize it = to_i64 (ii_stream_compressed_size (it_iter it))"
definition Stream_GetUncompressedSize :: "('x, 'i) IndexIter \<Rightarrow> int" where
  "Stream_GetUncompressedSize it = to_i64 (ii_stream_uncompressed_size (it_iter it))"
definition Stream_GetPadding :: "('x, 'i) IndexIter \<Rightarrow> int" where
  "Stream_GetPadding it = to_i64 (ii_stream_padding (it_iter it))"
definition Block_GetNumberInFile :: "('x, 'i) IndexIter \<Rightarrow> int" where
  "Block_GetNumberInFile it = to_i64 (ii_block_number_in_file (it_iter it))"
definition Block_GetNumberInStream :: "('x, 'i) IndexIter \<Rightarrow> int" where
  "Block_GetNumberInStream it = to_i64 (ii_block_number_in_stream (it_iter it))"
definition Block_GetCompressedFileOffset :: "('x, 'i) IndexIter \<Rightarrow> int" where
  "Block_GetCompressedFileOffset it = to_i64 (ii_block_compressed_file_offset (it_iter it))"
definition Block_GetUncompressedFileOffset :: "('x, 'i) IndexIter \<Rightarrow> int" where
  "Block_GetUncompressedFileOffset it = to_i64 (ii_block_uncompressed_file_offset (it_iter it))"
definition Block_GetCompressedStreamOffset :: "('x, 'i) IndexIter \<Rightarrow> int" where
  "Block_GetCompressedStreamOffset it = to_i64 (ii_block_compressed_stream_offset (it_iter it))"
definition Block_GetUncompressedStreamOffset :: "('x, 'i) IndexIter \<Rightarrow> int" where
  "Block_GetUncompressedStreamOffset it = to_i64 (ii_block_uncompressed_stream_offset (it_iter it))"
definition Block_GetUncompressedSize :: "('x, 'i) IndexIter \<Rightarrow> int" where
  "Block_GetUncompressedSize it = to_i64 (ii_block_uncompressed_size (it_iter it))"
definition Block_GetUnpaddedSize :: "('x, 'i) IndexIter \<Rightarrow> int" where
  "Block_GetUnpaddedSize it = to_i64 (ii_block_unpadded_size (it_iter it))"
definition Block_GetTotalSize :: "('x, 'i) IndexIter \<Rightarrow> int" where
  "Block_GetTotalSize it = to_i64 (ii_block_total_size (it_iter it))"

section \<open>Ownership of the C index\<close>

text \<open>
  Go objects are numbered, \<open>im_ptr\<close> is the pointer each holds (0 to \<open>im_next - 1\<close> have been allocated
  by liblzma), \<open>im_live\<close> the C indexes that are allocated. Freeing or using an index that is not
  live is undefined behaviour, \<open>None\<close> here.
\<close>

record index_mem =
  im_ptr :: "nat \<Rightarrow> nat option"
  im_live :: "nat set"
  im_next :: nat

definition c_alloc :: "index_mem \<Rightarrow> nat \<times> index_mem" where
  "c_alloc m = (im_next m, m\<lparr>im_live := insert (im_next m) (im_live m), im_next := im_next m + 1\<rparr>)"

definition c_free :: "nat \<Rightarrow> index_mem \<Rightarrow> index_mem option" where
  "c_free a m = (if a \<in> im_live m then Some (m\<lparr>im_live := im_live m - {a}\<rparr>) else None)"

definition mem_use :: "nat \<Rightarrow> index_mem \<Rightarrow> bool" where
  "mem_use ob m \<longleftrightarrow> (case im_ptr m ob of None \<Rightarrow> True | Some a \<Rightarrow> a \<in> im_live m)"

definition mem_NewIndex :: "nat \<Rightarrow> bool \<Rightarrow> index_mem \<Rightarrow> index_mem" where
  "mem_NewIndex ob fails m =
     (if fails then m else let (a, m) = c_alloc m in m\<lparr>im_ptr := (im_ptr m)(ob := Some a)\<rparr>)"

definition mem_End :: "nat \<Rightarrow> index_mem \<Rightarrow> index_mem option" where
  "mem_End ob m =
     (case im_ptr m ob of
        None \<Rightarrow> Some m
      | Some a \<Rightarrow> map_option (\<lambda>m. m\<lparr>im_ptr := (im_ptr m)(ob := None)\<rparr>) (c_free a m))"

text \<open>The decoder frees the old index and allocates a new one (when it gets that far).\<close>

definition mem_NewStreamDecoder :: "nat \<Rightarrow> bool \<Rightarrow> index_mem \<Rightarrow> index_mem option" where
  "mem_NewStreamDecoder ob fails m = map_option (mem_NewIndex ob fails) (mem_End ob m)"

definition mem_Dup :: "nat \<Rightarrow> nat \<Rightarrow> bool \<Rightarrow> index_mem \<Rightarrow> index_mem option" where
  "mem_Dup ob1 ob2 fails m = (if mem_use ob1 m then Some (mem_NewIndex ob2 fails m) else None)"

text \<open>\<open>lzma_index_cat\<close> frees the source when it succeeds, and \<open>Cat\<close> then clears the Go pointer.\<close>

definition mem_Cat :: "nat \<Rightarrow> nat \<Rightarrow> bool \<Rightarrow> index_mem \<Rightarrow> index_mem option" where
  "mem_Cat dest src fails m =
     (if \<not> (mem_use dest m \<and> mem_use src m) then None
      else if fails then Some m
      else case im_ptr m src of
             None \<Rightarrow> Some (m\<lparr>im_ptr := (im_ptr m)(src := None)\<rparr>)
           | Some a \<Rightarrow> map_option (\<lambda>m. m\<lparr>im_ptr := (im_ptr m)(src := None)\<rparr>) (c_free a m))"

text \<open>
  Any sequence of these operations; \<open>NewIndex\<close> and \<open>Dup\<close> make a new object, and a Go object is not
  concatenated with itself. \<open>None\<close> is the state after undefined behaviour.
\<close>

inductive mem_step :: "index_mem option \<Rightarrow> index_mem option \<Rightarrow> bool" where
  new: "im_ptr m ob = None \<Longrightarrow> mem_step (Some m) (Some (mem_NewIndex ob fails m))"
| ended: "mem_step (Some m) (mem_End ob m)"
| decoder: "mem_step (Some m) (mem_NewStreamDecoder ob fails m)"
| dup: "im_ptr m ob2 = None \<Longrightarrow> mem_step (Some m) (mem_Dup ob1 ob2 fails m)"
| cat: "dest \<noteq> src \<Longrightarrow> mem_step (Some m) (mem_Cat dest src fails m)"

definition mem_ok :: "index_mem option \<Rightarrow> bool" where
  "mem_ok mo \<longleftrightarrow>
     (case mo of None \<Rightarrow> False | Some m \<Rightarrow>
        (\<forall>ob1 ob2 a. im_ptr m ob1 = Some a \<longrightarrow> im_ptr m ob2 = Some a \<longrightarrow> ob1 = ob2) \<and>
        im_live m = ran (im_ptr m) \<and> (\<forall>a \<in> im_live m. a < im_next m))"

definition mem_init :: "index_mem option \<Rightarrow> bool" where
  "mem_init mo \<longleftrightarrow> (\<exists>n. mo = Some \<lparr>im_ptr = Map.empty, im_live = {}, im_next = n\<rparr>)"

lemma mem_okD:
  assumes "mem_ok (Some m)"
  shows "im_ptr m ob1 = Some a \<Longrightarrow> im_ptr m ob2 = Some a \<Longrightarrow> ob1 = ob2" and "im_live m = ran (im_ptr m)"
    and "a \<in> im_live m \<Longrightarrow> a < im_next m"
  using assms unfolding mem_ok_def option.case by blast+

lemma mem_NewIndex_ok:
  assumes ok: "mem_ok (Some m)" and new: "im_ptr m ob = None"
  shows "mem_ok (Some (mem_NewIndex ob fails m))"
proof (cases fails)
  case True
  with ok show ?thesis by (simp add: mem_NewIndex_def)
next
  case False
  have e: "mem_NewIndex ob fails m = m\<lparr>im_ptr := (im_ptr m)(ob \<mapsto> im_next m),
      im_live := insert (im_next m) (im_live m), im_next := im_next m + 1\<rparr>"
    using False by (simp add: mem_NewIndex_def c_alloc_def)
  have "im_ptr m ob' \<noteq> Some (im_next m)" for ob'
    using mem_okD(2,3) [OF ok] by (metis less_irrefl ranI)
  then have i: "ob1 = ob2" if "((im_ptr m)(ob \<mapsto> im_next m)) ob1 = Some a" "((im_ptr m)(ob \<mapsto> im_next m)) ob2 = Some a"
    for ob1 ob2 a using that mem_okD(1) [OF ok, of ob1 a ob2] by (auto split: if_splits)
  have r: "insert (im_next m) (im_live m) = ran ((im_ptr m)(ob \<mapsto> im_next m))"
    using new mem_okD(2) [OF ok] by simp
  have l: "a < im_next m + 1" if "a \<in> insert (im_next m) (im_live m)" for a
    using mem_okD(3) [OF ok, of a] that by auto
  have p: "im_ptr (mem_NewIndex ob fails m) = (im_ptr m)(ob \<mapsto> im_next m)"
    "im_live (mem_NewIndex ob fails m) = insert (im_next m) (im_live m)"
    "im_next (mem_NewIndex ob fails m) = im_next m + 1" by (simp_all add: e)
  show ?thesis
    unfolding mem_ok_def option.case p by (intro conjI allI impI ballI; (rule i | rule r | rule l); assumption)
qed

lemma free_ok:
  assumes ok: "mem_ok (Some m)" and p: "im_ptr m ob = Some a"
  shows "mem_ok (map_option (\<lambda>m. m\<lparr>im_ptr := (im_ptr m)(ob := None)\<rparr>) (c_free a m))"
proof -
  have a: "a \<in> im_live m" using p mem_okD(2) [OF ok] by (simp add: ranI)
  have r: "im_live m - {a} = ran ((im_ptr m)(ob := None))"
  proof (intro set_eqI iffI)
    fix b assume "b \<in> im_live m - {a}"
    then obtain ob' where "im_ptr m ob' = Some b" "b \<noteq> a" using mem_okD(2) [OF ok] by (auto simp: ran_def)
    with p show "b \<in> ran ((im_ptr m)(ob := None))" by (intro ranI [of _ ob']) auto
  next
    fix b assume "b \<in> ran ((im_ptr m)(ob := None))"
    then obtain ob' where o: "ob' \<noteq> ob" "im_ptr m ob' = Some b" by (auto simp: ran_def split: if_splits)
    with mem_okD(1) [OF ok p, of ob'] have "b \<noteq> a" by blast
    with o show "b \<in> im_live m - {a}" using mem_okD(2) [OF ok] by (simp add: ranI)
  qed
  have i: "ob1 = ob2" if "((im_ptr m)(ob := None)) ob1 = Some b" "((im_ptr m)(ob := None)) ob2 = Some b"
    for ob1 ob2 b using that mem_okD(1) [OF ok, of ob1 b ob2] by (auto split: if_splits)
  have l: "b < im_next m" if "b \<in> im_live m - {a}" for b using mem_okD(3) [OF ok, of b] that by blast
  let ?m = "(m\<lparr>im_live := im_live m - {a}\<rparr>)\<lparr>im_ptr := (im_ptr m)(ob := None)\<rparr>"
  have q: "im_ptr ?m = (im_ptr m)(ob := None)" "im_live ?m = im_live m - {a}" "im_next ?m = im_next m" by simp_all
  have "mem_ok (Some ?m)"
    unfolding mem_ok_def option.case q by (intro conjI allI impI ballI; (rule i | rule r | rule l); assumption)
  with a show ?thesis by (simp add: c_free_def)
qed

lemma mem_End_ok: "mem_ok (Some m) \<Longrightarrow> mem_ok (mem_End ob m)"
  using free_ok by (auto simp: mem_End_def split: option.split)

lemma mem_use_ok: "mem_ok (Some m) \<Longrightarrow> mem_use ob m"
  by (auto simp: mem_okD(2) mem_use_def ranI split: option.split)

lemma mem_step_ok: "mem_step mo mo' \<Longrightarrow> mem_ok mo \<Longrightarrow> mem_ok mo'"
proof (induction rule: mem_step.induct)
  case (decoder m ob fails)
  then have e: "mem_ok (mem_End ob m)" by (rule mem_End_ok)
  then obtain m' where m': "mem_End ob m = Some m'" by (cases "mem_End ob m") (auto simp: mem_ok_def)
  moreover have "im_ptr m' ob = None"
    using m' by (auto simp: mem_End_def c_free_def split: option.splits if_splits)
  ultimately show ?case using e mem_NewIndex_ok by (simp add: mem_NewStreamDecoder_def)
next
  case (cat dest src m fails)
  then have "im_ptr m src = None \<Longrightarrow> mem_ok (Some (m\<lparr>im_ptr := (im_ptr m)(src := None)\<rparr>))"
    by (simp add: fun_upd_idem)
  with cat show ?case using free_ok [of m src] by (auto simp: mem_Cat_def mem_use_ok split: option.split)
qed (auto simp: mem_NewIndex_ok mem_End_ok mem_Dup_def mem_use_ok)

interpretation index_owner: invariant_system mem_init mem_step mem_ok
  by unfold_locales (auto simp: mem_init_def mem_ok_def dest: mem_step_ok)



end
