(* ===== verification/Lib_Stream_Props.thy ===== *)
theory Lib_Stream_Props
  imports Lib_Stream Lzma_Instance "HOL-Library.Sublist"
begin

text \<open>
  What \<open>Process\<close> and \<open>ProcessPipe\<close> do with the bytes: they neither lose, duplicate nor reorder any,
  on the way into the coder and on the way out of it, and \<open>Process\<close> returns if the coder makes
  progress. The documented contracts of \<open>io.Reader\<close>, \<open>io.Writer\<close> and \<open>lzma_code\<close> are hypotheses.
\<close>

section \<open>Contracts\<close>

text \<open>
  \<open>lzma_code\<close> consumes no more than it is given and stores no more than there is room for.
\<close>

definition lzma_code_laws :: "('z, 'x) liblzma \<Rightarrow> bool" where
  "lzma_code_laws L \<longleftrightarrow>
     (\<forall>z a src n r k out z'. c_code L z a src n = (r, k, out, z') \<longrightarrow> k \<le> length src \<and> length out \<le> n)"

text \<open>\<open>left s\<close> are the bytes the reader has still to deliver, \<open>got w\<close> those the writer has accepted.\<close>

definition reads_from :: "'s io_read option \<Rightarrow> ('s \<Rightarrow> bytes) \<Rightarrow> bool" where
  "reads_from src left \<longleftrightarrow> (case src of None \<Rightarrow> True | Some rd \<Rightarrow>
     (\<forall>s n bs e s'. rd s n = ((bs, e), s') \<longrightarrow> length bs \<le> n \<and> left s = bs @ left s'))"

definition writes_to :: "'w io_write option \<Rightarrow> ('w \<Rightarrow> bytes) \<Rightarrow> bool" where
  "writes_to dst got \<longleftrightarrow> (case dst of None \<Rightarrow> True | Some wr \<Rightarrow>
     (\<forall>w buf k e w'. wr w buf = ((k, e), w') \<longrightarrow>
        0 \<le> k \<and> k \<le> int (length buf) \<and> got w' = got w @ take (nat k) buf \<and>
        (k < int (length buf) \<longrightarrow> e \<noteq> None)))"

text \<open>The bytes a coder consumes and produces over a sequence of calls.\<close>

inductive coder_run :: "('z, 'x) liblzma \<Rightarrow> lzma_action \<Rightarrow> 'z \<Rightarrow> bytes \<Rightarrow> bytes \<Rightarrow> 'z \<Rightarrow> bool"
  for L :: "('z, 'x) liblzma" and a :: lzma_action where
  idle: "coder_run L a z [] [] z"
| call: "c_code L z a src n = (r, k, out, z') \<Longrightarrow> coder_run L a z' inp out' z'' \<Longrightarrow>
     coder_run L a z (take k src @ inp) (out @ out') z''"

lemma coder_run_trans:
  "coder_run L a z i1 o1 z' \<Longrightarrow> coder_run L a z' i2 o2 z'' \<Longrightarrow> coder_run L a z (i1 @ i2) (o1 @ o2) z''"
  by (induction rule: coder_run.induct) (auto dest: coder_run.call)

lemma coder_call: "c_code L z a src n = (r, k, out, z') \<Longrightarrow> coder_run L a z (take k src) out z'"
  using coder_run.call [OF _ coder_run.idle] by force

section \<open>The buffers\<close>

lemma fill_step:
  assumes q: "pipe_queue B good view" and rd: "reads_from (Some rd) left" and g: "good p"
    and r: "rd s (fst (bp_WriteSlices B p)) = ((bs, e), s')"
  shows "good (bp_WriteMark B (bp_Store B p bs) (int (length bs)))"
    and "view (bp_WriteMark B (bp_Store B p bs) (int (length bs))) = view p @ bs"
    and "left s = bs @ left s'" and "length bs \<le> fst (bp_WriteSlices B p)"
proof -
  show l: "length bs \<le> fst (bp_WriteSlices B p)" "left s = bs @ left s'"
    using rd r unfolding reads_from_def option.case by blast+
  show "good (bp_WriteMark B (bp_Store B p bs) (int (length bs)))"
    "view (bp_WriteMark B (bp_Store B p bs) (int (length bs))) = view p @ bs"
    using pipe_queueD(9) [OF q g l(1)] by simp_all
qed

lemma process_fill_spec:
  assumes "process_fill B rd st = Some st'"
  shows "pipe_queue B good view \<and> reads_from (Some rd) left \<and> good (fst st) \<longrightarrow>
   (case (st, st') of ((p, s, e, c), (p', s', e', c')) \<Rightarrow>
     good p' \<and> (\<exists>bs. left s = bs @ left s' \<and> view p' = view p @ bs \<and> c' = c + int (length bs)) \<and>
     (e' = None \<longrightarrow> view p' \<noteq> []) \<and> (e \<noteq> None \<longrightarrow> st' = st) \<and>
     (e = None \<longrightarrow> e' \<noteq> None \<longrightarrow> (\<exists>s0 n bs. rd s0 n = ((bs, e'), s'))))"
proof (rule process_fill.raw_induct [OF _ assms], intro impI, elim conjE, goal_cases)
  case (1 f B rd st st')
  note q = 1(3) and law = 1(4)
  obtain p s e c where st: "st = (p, s, e, c)" by (metis prod.collapse)
  show ?case
  proof (cases "e = None \<and> bp_Length B p = 0")
    case False
    with 1(2,5) st pipe_queueD(6) [OF q, of p] show ?thesis by auto
  next
    case True
    obtain bs e1 s1 where r: "rd s (fst (bp_WriteSlices B p)) = ((bs, e1), s1)" by (metis prod.collapse)
    have g: "good p" using 1(5) by (simp add: st)
    note fs = fill_step [OF q law g r]
    from True 1(2) have run: "f B rd (bp_WriteMark B (bp_Store B p bs) (int (length bs)), s1, e1, c + int (length bs)) = Some st'"
      by (simp add: st r)
    obtain p' s' e' c' where st': "st' = (p', s', e', c')" by (metis prod.collapse)
    have "pipe_queue B good view \<and> reads_from (Some rd) left \<and>
        good (fst (bp_WriteMark B (bp_Store B p bs) (int (length bs)), s1, e1, c + int (length bs)))"
      using q law fs(1) by simp
    from mp [OF 1(1) [OF run] this] obtain bs' where
      i: "good p'" "left s1 = bs' @ left s'" "view p' = (view p @ bs) @ bs'"
        "c' = c + int (length bs) + int (length bs')" "e' = None \<longrightarrow> view p' \<noteq> []"
        "e1 \<noteq> None \<longrightarrow> e' = e1 \<and> s' = s1"
        "e1 = None \<longrightarrow> e' \<noteq> None \<longrightarrow> (\<exists>s0 n bs. rd s0 n = ((bs, e'), s'))"
      unfolding st' prod.case prod.inject fs(2) by blast
    have "\<exists>s0 n bs. rd s0 n = ((bs, e'), s')" if "e' \<noteq> None" using that i(6,7) r by (cases e1) auto
    with i fs(3) True show ?thesis by (auto simp: st st' intro!: exI [of _ "bs @ bs'"])
  qed
qed

lemma drain_step:
  assumes q: "pipe_queue B good view" and wr: "writes_to (Some wr) got" and g: "good p"
    and r: "wr w (fst (bp_ReadSlices B p)) = ((k, e), w')"
  shows "0 \<le> k" and "good (bp_ReadMark B p k)" and "view (bp_ReadMark B p k) = drop (nat k) (view p)"
    and "got w' = got w @ take (nat k) (view p)" and "nat k \<le> length (view p)"
    and "e = None \<Longrightarrow> view p \<noteq> [] \<Longrightarrow> length (view (bp_ReadMark B p k)) < length (view p)"
proof -
  obtain lo hi er where rs: "bp_ReadSlices B p = (lo, hi, er)" by (metis prod.collapse)
  from pipe_queueD(7) [OF q g rs] have v: "view p = lo @ hi" "lo = [] \<Longrightarrow> hi = []" by auto
  have w: "0 \<le> k \<and> k \<le> int (length lo) \<and> got w' = got w @ take (nat k) lo \<and> (k < int (length lo) \<longrightarrow> e \<noteq> None)"
    using wr r unfolding writes_to_def option.case rs fst_conv by blast
  then have le: "nat k \<le> length lo" by auto
  then show "nat k \<le> length (view p)" "0 \<le> k" using v w by auto
  show "got w' = got w @ take (nat k) (view p)" using w le v by simp
  have "k \<le> int (length (view p))" using w v by simp
  with pipe_queueD(8) [OF q g, of k] w
  show m: "good (bp_ReadMark B p k)" "view (bp_ReadMark B p k) = drop (nat k) (view p)" by auto
  show "length (view (bp_ReadMark B p k)) < length (view p)" if "e = None" "view p \<noteq> []"
    using that v w le m(2) by (cases lo) auto
qed

lemma process_drain_spec:
  assumes "process_drain B wr st = Some st'"
  shows "pipe_queue B good view \<and> writes_to (Some wr) got \<and> good (fst st) \<longrightarrow>
   (case (st, st') of ((p, w, e, c), (p', w', e', c')) \<Rightarrow>
     good p' \<and> (\<exists>bs. view p = bs @ view p' \<and> got w' = got w @ bs \<and> c' = c + int (length bs)) \<and>
     (e' = None \<longrightarrow> view p' = []) \<and> (e \<noteq> None \<longrightarrow> st' = st) \<and>
     (e = None \<longrightarrow> e' \<noteq> None \<longrightarrow> (\<exists>w0 buf k. wr w0 buf = ((k, e'), w'))))"
proof (rule process_drain.raw_induct [OF _ assms], intro impI, elim conjE, goal_cases)
  case (1 f B wr st st')
  note q = 1(3) and law = 1(4)
  obtain p w e c where st: "st = (p, w, e, c)" by (metis prod.collapse)
  show ?case
  proof (cases "e = None \<and> bp_Length B p > 0")
    case False
    with 1(2,5) st pipe_queueD(6) [OF q, of p] show ?thesis by auto
  next
    case True
    obtain k e1 w1 where r: "wr w (fst (bp_ReadSlices B p)) = ((k, e1), w1)" by (metis prod.collapse)
    have g: "good p" using 1(5) by (simp add: st)
    note ds = drain_step [OF q law g r]
    from True 1(2) have run: "f B wr (bp_ReadMark B p k, w1, e1, c + k) = Some st'"
      by (simp add: st r)
    obtain p' w' e' c' where st': "st' = (p', w', e', c')" by (metis prod.collapse)
    from 1(1) [OF run] q law ds(2) obtain bs where
      i: "good p'" "view (bp_ReadMark B p k) = bs @ view p'" "got w' = got w1 @ bs" "c' = c + k + int (length bs)"
        "e' = None \<longrightarrow> view p' = []" "e1 = None \<longrightarrow> e' \<noteq> None \<longrightarrow> (\<exists>w0 buf k. wr w0 buf = ((k, e'), w'))"
        "e1 \<noteq> None \<longrightarrow> e' = e1 \<and> w' = w1"
      by (auto simp: st')
    have "view p = (take (nat k) (view p) @ bs) @ view p'" using i(2) ds(3) by (metis append.assoc append_take_drop_id)
    moreover have "got w' = got w @ take (nat k) (view p) @ bs" using i(3) ds(4) by simp
    moreover have "c' = c + int (length (take (nat k) (view p) @ bs))" using i(4) ds(1,5) by simp
    moreover have "\<exists>w0 buf k. wr w0 buf = ((k, e'), w')" if "e' \<noteq> None"
      using that i(6,7) r by (cases e1) auto
    ultimately show ?thesis using i(1,5) True by (auto simp: st st')
  qed
qed

section \<open>The coder between the buffers\<close>

text \<open>One call: what leaves the input buffer went into the coder, what it stored joined the output buffer.\<close>

lemma CodeSlice_spec:
  assumes laws: "lzma_code_laws L" and c: "c_code L (st_coder z) a src n = (r, k, out, c')"
  shows "CodeSlice L a n src z = ((int (length out), int k, NewError r), out,
     z\<lparr>st_next_in := drop k src, st_avail_out := n - length out, st_coder := c',
       st_total_in := st_total_in z + of_nat k, st_total_out := st_total_out z + of_nat (length out)\<rparr>)"
    and "k \<le> length src" and "length out \<le> n"
proof -
  show l: "k \<le> length src" "length out \<le> n" using laws c unfolding lzma_code_laws_def by blast+
  then show "CodeSlice L a n src z = ((int (length out), int k, NewError r), out,
     z\<lparr>st_next_in := drop k src, st_avail_out := n - length out, st_coder := c',
       st_total_in := st_total_in z + of_nat k, st_total_out := st_total_out z + of_nat (length out)\<rparr>)"
    using c by (simp add: CodeSlice_def Code_def SetInput_def SetOutput_def of_nat_diff)
qed

lemma process_code_spec:
  assumes q: "pipe_queue B good view" and laws: "lzma_code_laws L"
    and g: "good (st_inBuf z)" "good (st_outBuf z)" and run: "process_code B L a ns nd z = (xe, z')"
  obtains r k out lo where "c_code L (st_coder z) a lo (fst (bp_WriteSlices B (st_outBuf z))) = (r, k, out, st_coder z')"
    "prefix lo (view (st_inBuf z))" "lo = [] \<longleftrightarrow> view (st_inBuf z) = []" "k \<le> length lo"
    "length out \<le> fst (bp_WriteSlices B (st_outBuf z))"
    "good (st_inBuf z')" "good (st_outBuf z')" "view (st_inBuf z') = drop k (view (st_inBuf z))"
    "view (st_outBuf z') = view (st_outBuf z) @ out"
    "st_total_in z' = st_total_in z + of_nat k" "st_total_out z' = st_total_out z + of_nat (length out)"
    "xe = (if (ns \<or> lo \<noteq> []) \<and> (nd \<or> fst (bp_WriteSlices B (st_outBuf z)) > 0) \<and> r = BUF_ERROR then None else NewError r)"
    "xe = None \<longrightarrow> r = OK \<or> r = BUF_ERROR" "k \<le> length (view (st_inBuf z))"
    "st_inBuf z' = bp_ReadMark B (st_inBuf z) (int k)"
    "st_outBuf z' = bp_WriteMark B (bp_Store B (st_outBuf z) out) (int (length out))"
proof -
  obtain lo hi e where rs: "bp_ReadSlices B (st_inBuf z) = (lo, hi, e)" by (metis prod.collapse)
  let ?n = "fst (bp_WriteSlices B (st_outBuf z))"
  obtain r k out c where c: "c_code L (st_coder z) a lo ?n = (r, k, out, c)" by (metis prod.collapse)
  note cs = CodeSlice_spec [OF laws c]
  have v: "view (st_inBuf z) = lo @ hi" "lo = [] \<Longrightarrow> hi = []" using pipe_queueD(7) [OF q g(1) rs] by auto
  have z': "z' = z\<lparr>st_next_in := drop k lo, st_avail_out := ?n - length out, st_coder := c,
       st_total_in := st_total_in z + of_nat k, st_total_out := st_total_out z + of_nat (length out),
       st_inBuf := bp_ReadMark B (st_inBuf z) (int k),
       st_outBuf := bp_WriteMark B (bp_Store B (st_outBuf z) out) (int (length out))\<rparr>"
    and xe: "xe = (if (ns \<or> lo \<noteq> []) \<and> (nd \<or> ?n > 0) \<and> r = BUF_ERROR then None else NewError r)"
    using run by (auto simp: process_code_def rs cs(1) Let_def)
  have ri: "good (bp_ReadMark B (st_inBuf z) (int k)) \<and> view (bp_ReadMark B (st_inBuf z) (int k)) = drop k (view (st_inBuf z))"
    using pipe_queueD(8) [OF q g(1), of "int k"] cs(2) v by simp
  have wo: "good (bp_WriteMark B (bp_Store B (st_outBuf z) out) (int (length out))) \<and>
      view (bp_WriteMark B (bp_Store B (st_outBuf z) out) (int (length out))) = view (st_outBuf z) @ out"
    using pipe_queueD(9) [OF q g(2) cs(3)] by simp
  show thesis
    by (rule that [of lo r k out]) (use c v cs(2,3) ri wo xe in \<open>auto simp: z'\<close>)
qed

text \<open>An error of the coder is the status of its last call.\<close>

definition code_error :: "('z, 'x) liblzma \<Rightarrow> lzma_action \<Rightarrow> 'z \<Rightarrow> goerr option \<Rightarrow> bool" where
  "code_error L a c e \<longleftrightarrow> (\<exists>r c0 src n k out. e = Some (LibErr r) \<and> r \<noteq> OK \<and> c_code L c0 a src n = (r, k, out, c))"

lemma process_code_err:
  assumes "process_code B L a ns nd z = (xe, z')" and "xe \<noteq> None"
  shows "code_error L a (st_coder z') xe"
proof -
  obtain r k out c where c: "c_code L (st_coder z) a (fst (bp_ReadSlices B (st_inBuf z)))
      (fst (bp_WriteSlices B (st_outBuf z))) = (r, k, out, c)" by (metis prod.collapse)
  with assms have "st_coder z' = c" "xe = Some (LibErr r)" "r \<noteq> OK"
    by (auto simp: process_code_def CodeSlice_def Code_def NewError_def Let_def SetInput_def SetOutput_def
        split: if_splits)
  with c show ?thesis unfolding code_error_def by blast
qed

section \<open>The whole pump\<close>

text \<open>
  From one state of stream, reader and writer to another: what was buffered or still to be read is
  what the coder consumed and what is now buffered or still to be read, and what the writer has
  got and is now buffered is what it had, what was buffered, and what the coder produced.
\<close>

definition pumped ::
  "('z, 'x) liblzma \<Rightarrow> lzma_action \<Rightarrow> ('p \<Rightarrow> bytes) \<Rightarrow> ('s \<Rightarrow> bytes) \<Rightarrow> ('w \<Rightarrow> bytes) \<Rightarrow>
   ('z, 'p) Stream \<times> 's \<times> 'w \<Rightarrow> ('z, 'p) Stream \<times> 's \<times> 'w \<Rightarrow> bool" where
  "pumped L a view left got st st' \<longleftrightarrow>
     (case (st, st') of ((z, s, w), (z', s', w')) \<Rightarrow>
       \<exists>inp out. coder_run L a (st_coder z) inp out (st_coder z') \<and>
         view (st_inBuf z) @ left s = inp @ view (st_inBuf z') @ left s' \<and>
         got w' @ view (st_outBuf z') = got w @ view (st_outBuf z) @ out \<and>
         st_total_in z' = st_total_in z + of_nat (length inp) \<and>
         st_total_out z' = st_total_out z + of_nat (length out))"

lemma pumped_trans:
  assumes "pumped L a view left got st1 st2" and "pumped L a view left got st2 st3"
  shows "pumped L a view left got st1 st3"
proof -
  obtain z1 s1 w1 z2 s2 w2 z3 s3 w3 where st: "st1 = (z1, s1, w1)" "st2 = (z2, s2, w2)" "st3 = (z3, s3, w3)"
    by (metis prod.collapse)
  from assms(1) obtain i1 o1 where a: "coder_run L a (st_coder z1) i1 o1 (st_coder z2)"
    "view (st_inBuf z1) @ left s1 = i1 @ view (st_inBuf z2) @ left s2"
    "got w2 @ view (st_outBuf z2) = got w1 @ view (st_outBuf z1) @ o1"
    "st_total_in z2 = st_total_in z1 + of_nat (length i1)" "st_total_out z2 = st_total_out z1 + of_nat (length o1)"
    unfolding pumped_def st prod.case by blast
  from assms(2) obtain i2 o2 where b: "coder_run L a (st_coder z2) i2 o2 (st_coder z3)"
    "view (st_inBuf z2) @ left s2 = i2 @ view (st_inBuf z3) @ left s3"
    "got w3 @ view (st_outBuf z3) = got w2 @ view (st_outBuf z2) @ o2"
    "st_total_in z3 = st_total_in z2 + of_nat (length i2)" "st_total_out z3 = st_total_out z2 + of_nat (length o2)"
    unfolding pumped_def st prod.case by blast
  have "got w3 @ view (st_outBuf z3) = got w1 @ view (st_outBuf z1) @ o1 @ o2"
    using a(3) b(3) by (metis append.assoc)
  then show ?thesis
    unfolding pumped_def st prod.case
    using coder_run_trans [OF a(1) b(1)] a b by (intro exI [of _ "i1 @ i2"] exI [of _ "o1 @ o2"]) simp
qed

text \<open>One round of the loop: read, code, write.\<close>

definition round_fill ::
  "'p bufpipe \<Rightarrow> 's io_read option \<Rightarrow> 'p \<Rightarrow> 's \<Rightarrow> goerr option \<Rightarrow> int \<Rightarrow> ('p \<times> 's \<times> goerr option \<times> int) option" where
  "round_fill B src p s rdErr inCnt =
     (case src of None \<Rightarrow> Some (p, s, rdErr, inCnt) | Some rd \<Rightarrow> process_fill B rd (p, s, rdErr, inCnt))"

definition round_drain ::
  "'p bufpipe \<Rightarrow> 'w io_write option \<Rightarrow> 'p \<Rightarrow> 'w \<Rightarrow> int \<Rightarrow> ('p \<times> 'w \<times> goerr option \<times> int) option" where
  "round_drain B dst p w outCnt =
     (case dst of None \<Rightarrow> Some (p, w, None, outCnt) | Some wr \<Rightarrow> process_drain B wr (p, w, None, outCnt))"

text \<open>An error the loop holds came from the reader, whose state it left behind.\<close>

definition read_error :: "'s io_read option \<Rightarrow> 's \<Rightarrow> goerr option \<Rightarrow> bool" where
  "read_error src s e \<longleftrightarrow> e = None \<or> (\<exists>rd s0 n bs. src = Some rd \<and> rd s0 n = ((bs, e), s))"

definition write_error :: "'w io_write option \<Rightarrow> 'w \<Rightarrow> goerr option \<Rightarrow> bool" where
  "write_error dst w e \<longleftrightarrow> (\<exists>wr w0 buf k. dst = Some wr \<and> wr w0 buf = ((k, e), w))"

lemma round_fill_spec:
  assumes q: "pipe_queue B good view" and rd: "reads_from src left" and g: "good p"
    and run: "round_fill B src p s e c = Some (p', s', e', c')"
  shows "good p'" and "view p @ left s = view p' @ left s'"
    and "c' = c + (int (length (left s)) - int (length (left s')))"
    and "src \<noteq> None \<Longrightarrow> e' = None \<Longrightarrow> view p' \<noteq> []"
    and "read_error src s e \<Longrightarrow> read_error src s' e'"
proof -
  have "good p' \<and> view p @ left s = view p' @ left s' \<and> c' = c + (int (length (left s)) - int (length (left s'))) \<and>
    (src \<noteq> None \<longrightarrow> e' = None \<longrightarrow> view p' \<noteq> []) \<and> (read_error src s e \<longrightarrow> read_error src s' e')"
  proof (cases src)
    case None
    with run g show ?thesis by (simp add: round_fill_def)
  next
    case (Some f)
    with run have "process_fill B f (p, s, e, c) = Some (p', s', e', c')" by (simp add: round_fill_def)
    from process_fill_spec [OF this, of good view left] q rd g Some show ?thesis
      by (cases e) (auto simp: read_error_def)
  qed
  then show "good p'" "view p @ left s = view p' @ left s'"
    "c' = c + (int (length (left s)) - int (length (left s')))"
    "src \<noteq> None \<Longrightarrow> e' = None \<Longrightarrow> view p' \<noteq> []"
    "read_error src s e \<Longrightarrow> read_error src s' e'" by blast+
qed

lemma round_drain_spec:
  assumes q: "pipe_queue B good view" and wr: "writes_to dst got" and g: "good p"
    and run: "round_drain B dst p w c = Some (p', w', e', c')"
  shows "good p'" and "got w @ view p = got w' @ view p'"
    and "c' = c + (int (length (got w')) - int (length (got w)))"
    and "dst \<noteq> None \<Longrightarrow> e' = None \<Longrightarrow> view p' = []"
    and "e' \<noteq> None \<Longrightarrow> \<exists>wr w0 buf k. dst = Some wr \<and> wr w0 buf = ((k, e'), w')"
proof -
  have "good p' \<and> got w @ view p = got w' @ view p' \<and> c' = c + (int (length (got w')) - int (length (got w))) \<and>
    (dst \<noteq> None \<longrightarrow> e' = None \<longrightarrow> view p' = []) \<and>
    (e' \<noteq> None \<longrightarrow> (\<exists>wr w0 buf k. dst = Some wr \<and> wr w0 buf = ((k, e'), w')))"
  proof (cases dst)
    case None
    with run g show ?thesis by (simp add: round_drain_def)
  next
    case (Some f)
    with run have "process_drain B f (p, w, None, c) = Some (p', w', e', c')" by (simp add: round_drain_def)
    from process_drain_spec [OF this, of good view got] q wr g Some show ?thesis by auto
  qed
  then show "good p'" "got w @ view p = got w' @ view p'"
    "c' = c + (int (length (got w')) - int (length (got w)))"
    "dst \<noteq> None \<Longrightarrow> e' = None \<Longrightarrow> view p' = []"
    "e' \<noteq> None \<Longrightarrow> \<exists>wr w0 buf k. dst = Some wr \<and> wr w0 buf = ((k, e'), w')" by blast+
qed

lemma round_pumped:
  assumes q: "pipe_queue B good view" and laws: "lzma_code_laws L" and io: "reads_from src left" "writes_to dst got"
    and g: "good (st_inBuf z)" "good (st_outBuf z)"
    and fill: "round_fill B src (st_inBuf z) s e c = Some (p, s1, e1, c1)"
    and code: "process_code B L a ns nd (z\<lparr>st_inBuf := p\<rparr>) = (xe, z1)"
    and drain: "round_drain B dst (st_outBuf z1) w d = Some (p', w1, we, d1)"
  shows "good p" "good (st_inBuf z1)" "good (st_outBuf z1)" "good p'"
    "pumped L a view left got (z, s, w) (z1\<lparr>st_outBuf := p'\<rparr>, s1, w1)"
proof -
  note f = round_fill_spec [OF q io(1) g(1) fill]
  show gp: "good p" by (rule f(1))
  have g1: "good (st_inBuf (z\<lparr>st_inBuf := p\<rparr>))" "good (st_outBuf (z\<lparr>st_inBuf := p\<rparr>))" using f(1) g by simp_all
  from process_code_spec [OF q laws g1 code] obtain r k out lo where
    c: "c_code L (st_coder z) a lo (fst (bp_WriteSlices B (st_outBuf z))) = (r, k, out, st_coder z1)"
      "prefix lo (view p)" "k \<le> length lo" "good (st_inBuf z1)" "good (st_outBuf z1)"
      "view (st_inBuf z1) = drop k (view p)" "view (st_outBuf z1) = view (st_outBuf z) @ out"
      "st_total_in z1 = st_total_in z + of_nat k" "st_total_out z1 = st_total_out z + of_nat (length out)"
    by simp metis
  note d = round_drain_spec [OF q io(2) c(5) drain]
  show "good (st_inBuf z1)" "good (st_outBuf z1)" "good p'" by (rule c(4), rule c(5), rule d(1))
  have tk: "take k lo = take k (view p)" "length (take k lo) = k" using c(2,3) by (auto simp: prefix_def)
  have "view (st_inBuf z) @ left s = take k lo @ view (st_inBuf z1) @ left s1"
    using f(2) c(6) tk(1) by (metis append.assoc append_take_drop_id)
  moreover have "got w1 @ view p' = got w @ view (st_outBuf z) @ out" using d(2) c(7) by (metis append.assoc)
  ultimately show "pumped L a view left got (z, s, w) (z1\<lparr>st_outBuf := p'\<rparr>, s1, w1)"
    unfolding pumped_def prod.case using coder_call [OF c(1)] c(8,9) tk(2)
    by (intro exI [of _ "take k lo"] exI [of _ out]) simp
qed

text \<open>
  What \<open>Process\<close> leaves behind when it returns: its error is the writer's, or the coder's after all
  output was delivered, or the reader's after all input was consumed too.
\<close>

definition process_post ::
  "'p bufpipe \<Rightarrow> ('z, 'x) liblzma \<Rightarrow> lzma_action \<Rightarrow> ('p \<Rightarrow> bool) \<Rightarrow> ('p \<Rightarrow> bytes) \<Rightarrow> ('s \<Rightarrow> bytes) \<Rightarrow> ('w \<Rightarrow> bytes) \<Rightarrow>
   'w io_write option \<Rightarrow> 's io_read option \<Rightarrow> ('z, 'p) Stream \<Rightarrow> 's \<Rightarrow> 'w \<Rightarrow> int \<Rightarrow> int \<Rightarrow> int \<Rightarrow> int \<Rightarrow> goerr option \<Rightarrow>
   ('z, 'p) Stream \<Rightarrow> 's \<Rightarrow> 'w \<Rightarrow> bool" where
  "process_post B L a good view left got dst src z s w inCnt outCnt inCnt' outCnt' err z' s' w' \<longleftrightarrow>
     pumped L a view left got (z, s, w) (z', s', w') \<and> good (st_inBuf z') \<and> good (st_outBuf z') \<and>
     inCnt' = inCnt + (int (length (left s)) - int (length (left s'))) \<and>
     outCnt' = outCnt + (int (length (got w')) - int (length (got w))) \<and> err \<noteq> None \<and>
     (write_error dst w' err \<or>
      code_error L a (st_coder z') err \<and> view (st_outBuf z') = [] \<or>
      read_error src s' err \<and> view (st_outBuf z') = [] \<and> view (st_inBuf z') = [])"

lemma process_loop_post:
  assumes "process_loop B L a dst src st = Some st'"
  shows "pipe_queue B good view \<and> lzma_code_laws L \<and> reads_from src left \<and> writes_to dst got \<and>
      good (st_inBuf (fst st)) \<and> good (st_outBuf (fst st)) \<and>
      read_error src (fst (snd st)) (snd (snd (snd (snd (snd st))))) \<longrightarrow>
    (case (st, st') of ((z, s, w, ic, oc, e), ((oc', ic', err), z', s', w')) \<Rightarrow>
      process_post B L a good view left got dst src z s w ic oc ic' oc' err z' s' w')"
proof (rule process_loop.raw_induct [OF _ assms], intro impI, elim conjE, goal_cases)
  case (1 f B L a dst src st st')
  note q = 1(3) and laws = 1(4) and io = 1(5,6)
  obtain z s w ic oc e where st: "st = (z, s, w, ic, oc, e)" by (metis prod.collapse)
  obtain oc' ic' err z' s' w' where st': "st' = ((oc', ic', err), z', s', w')" by (metis prod.collapse)
  have g: "good (st_inBuf z)" "good (st_outBuf z)" using 1(7,8) by (simp_all add: st)
  obtain p s1 e1 c1 where fill: "round_fill B src (st_inBuf z) s e ic = Some (p, s1, e1, c1)"
    using 1(2) unfolding st prod.case round_fill_def [symmetric] by (auto simp: Option.bind_eq_Some_conv)
  obtain xe z1 where code: "process_code B L a (src = None) (dst = None) (z\<lparr>st_inBuf := p\<rparr>) = (xe, z1)"
    by (metis prod.collapse)
  obtain p' w1 we d1 where drain: "round_drain B dst (st_outBuf z1) w oc = Some (p', w1, we, d1)"
    using 1(2) unfolding st prod.case round_fill_def [symmetric] round_drain_def [symmetric]
    by (auto simp: Option.bind_eq_Some_conv fill code)
  note r = round_pumped [OF q laws io g fill code drain]
  note fs = round_fill_spec [OF q io(1) g(1) fill] and ds = round_drain_spec [OF q io(2) r(3) drain]
  let ?z = "z1\<lparr>st_outBuf := p'\<rparr>"
  have res: "(if we \<noteq> None then Some ((d1, c1, we), ?z, s1, w1)
        else if xe \<noteq> None \<and> bp_Length B (st_outBuf ?z) = 0 then Some ((d1, c1, xe), ?z, s1, w1)
        else if e1 \<noteq> None \<and> bp_Length B (st_outBuf ?z) = 0 \<and> bp_Length B (st_inBuf ?z) = 0
        then Some ((d1, c1, e1), ?z, s1, w1)
        else f B L a dst src (?z, s1, w1, c1, d1, e1)) = Some st'"
    using 1(2) unfolding st prod.case round_fill_def [symmetric] round_drain_def [symmetric]
    by (simp only: fill code drain Let_def Option.bind.simps prod.case)
  have len: "bp_Length B (st_outBuf ?z) = int (length (view p'))" "bp_Length B (st_inBuf ?z) = int (length (view (st_inBuf z1)))"
    using pipe_queueD(6) [OF q r(4)] pipe_queueD(6) [OF q r(2)] by simp_all
  have re: "read_error src s1 e1" using fs(5) 1(9) by (simp add: st)
  have xe: "xe \<noteq> None \<Longrightarrow> code_error L a (st_coder z1) xe" using process_code_err [OF code] .
  have stop: "process_post B L a good view left got dst src z s w ic oc c1 d1 x ?z s1 w1"
    if "x \<noteq> None" "x = we \<or> x = xe \<and> view p' = [] \<or> x = e1 \<and> view p' = [] \<and> view (st_inBuf z1) = []" for x
    using that r fs(3) ds(3,5) re xe unfolding process_post_def write_error_def by auto
  have again: "process_post B L a good view left got dst src z s w ic oc ic' oc' err z' s' w'"
    if "f B L a dst src (?z, s1, w1, c1, d1, e1) = Some st'"
  proof -
    have "process_post B L a good view left got dst src ?z s1 w1 c1 d1 ic' oc' err z' s' w'"
      using 1(1) [OF that] q laws io r(2,4) re by (simp add: st')
    then show ?thesis
      using pumped_trans [OF r(5)] fs(3) ds(3) unfolding process_post_def by auto
  qed
  show ?case
    using res stop again unfolding st st' prod.case len by (auto split: if_splits)
qed

lemma process_alloc_fields:
  assumes "pipe_queue B good view" and "good (st_inBuf z)" and "good (st_outBuf z)"
  shows "good (st_inBuf (process_alloc B ns nd z))" "good (st_outBuf (process_alloc B ns nd z))"
    "view (st_inBuf (process_alloc B ns nd z)) = view (st_inBuf z)"
    "view (st_outBuf (process_alloc B ns nd z)) = view (st_outBuf z)"
    "st_coder (process_alloc B ns nd z) = st_coder z" "st_total_in (process_alloc B ns nd z) = st_total_in z"
    "st_total_out (process_alloc B ns nd z) = st_total_out z"
  using assms by (simp_all add: process_alloc_def Let_def pipe_queueD(2,4,5) [OF assms(1)])

lemma Process_post:
  assumes run: "Process B L a dst src z s w = Some ((oc, ic, err), z', s', w')" and ne: "\<not> (src = None \<and> dst = None)"
    and q: "pipe_queue B good view" and laws: "lzma_code_laws L" "reads_from src left" "writes_to dst got"
    and g: "good (st_inBuf z)" "good (st_outBuf z)"
  shows "process_post B L a good view left got dst src z s w 0 0 ic oc err z' s' w'"
proof -
  note al = process_alloc_fields [OF q g, of "src = None" "dst = None"]
  have "process_loop B L a dst src (process_alloc B (src = None) (dst = None) z, s, w, 0, 0, None) =
      Some ((oc, ic, err), z', s', w')" using run ne by (auto simp: Process_def)
  from process_loop_post [OF this, of good view left got] q laws al(1,2) show ?thesis
    by (simp add: process_post_def pumped_def al read_error_def)
qed

section \<open>Liveness\<close>

text \<open>
  A reader that returns no bytes (though there is room) returns an error, as the documentation of
  \<open>io.Reader\<close> asks of implementations.
\<close>

definition reader_live :: "'s io_read option \<Rightarrow> bool" where
  "reader_live src \<longleftrightarrow> (case src of None \<Rightarrow> True | Some rd \<Rightarrow>
     (\<forall>s n e s'. rd s n = (([], e), s') \<longrightarrow> 0 < n \<longrightarrow> e \<noteq> None))"

text \<open>
  The coder makes progress: a call that neither ends nor fails, with room for output and with input
  (unless there is no writer or no reader), consumes input or reduces the work it has pending.
  Without a writer it produces no output.
\<close>

definition coder_progress :: "('z, 'x) liblzma \<Rightarrow> lzma_action \<Rightarrow> bool \<Rightarrow> bool \<Rightarrow> ('z \<Rightarrow> nat) \<Rightarrow> bool" where
  "coder_progress L a noSrc noDst pend \<longleftrightarrow>
     (\<forall>z src n r k out z'. c_code L z a src n = (r, k, out, z') \<longrightarrow>
        (noDst \<longrightarrow> out = []) \<and>
        (r \<in> {OK, BUF_ERROR} \<and> (noDst \<or> 0 < n) \<and> (noSrc \<or> src \<noteq> []) \<and> k = 0 \<longrightarrow> pend z' < pend z))"

lemma fill_returns:
  assumes q: "pipe_queue B good view" and ring: "pipe_ring B good view"
    and rd: "reads_from (Some rd) left" "reader_live (Some rd)" and p: "good p" "ring_buf B p"
  shows "\<exists>p' s' e' c'. process_fill B rd (p, s, e, c) = Some (p', s', e', c') \<and> ring_buf B p'"
proof (cases "e = None \<and> bp_Length B p = 0")
  case False
  then show ?thesis using p by (subst process_fill.simps) auto
next
  case True
  then have v: "view p = []" using pipe_queueD(6) [OF q p(1)] by simp
  obtain bs e1 s1 where r: "rd s (fst (bp_WriteSlices B p)) = ((bs, e1), s1)" by (metis prod.collapse)
  note fs = fill_step [OF q rd(1) p(1) r]
  have "0 < fst (bp_WriteSlices B p)" by (rule pipe_ringD(1) [OF ring p v])
  then have "bs = [] \<Longrightarrow> e1 \<noteq> None" using rd(2) r unfolding reader_live_def option.case by blast
  then have "\<not> (e1 = None \<and> bp_Length B (bp_WriteMark B (bp_Store B p bs) (int (length bs))) = 0)"
    using pipe_queueD(6) [OF q fs(1)] fs(2) v by auto
  moreover have "ring_buf B (bp_WriteMark B (bp_Store B p bs) (int (length bs)))"
    using pipe_ringD(3) [OF ring p(1) fs(4)] p(2) by simp
  ultimately show ?thesis
    using True by (subst process_fill.simps, simp add: r, subst process_fill.simps) auto
qed

lemma drain_returns:
  assumes q: "pipe_queue B good view" and ring: "pipe_ring B good view" and wr: "writes_to (Some wr) got"
    and p: "good p" "ring_buf B p"
  shows "\<exists>p' w' e' c'. process_drain B wr (p, w, e, c) = Some (p', w', e', c') \<and> ring_buf B p'"
  using p
proof (induction "length (view p)" arbitrary: p w e c rule: less_induct)
  case less
  show ?case
  proof (cases "e = None \<and> bp_Length B p > 0")
    case False
    then show ?thesis using less.prems by (subst process_drain.simps) auto
  next
    case True
    obtain k e1 w1 where r: "wr w (fst (bp_ReadSlices B p)) = ((k, e1), w1)" by (metis prod.collapse)
    note ds = drain_step [OF q wr less.prems(1) r]
    have rb: "ring_buf B (bp_ReadMark B p k)" using pipe_ringD(2) [OF ring] less.prems(2) by simp
    have "\<exists>p' w' e' c'. process_drain B wr (bp_ReadMark B p k, w1, e1, c + k) = Some (p', w', e', c') \<and> ring_buf B p'"
    proof (cases "e1 = None")
      case True
      have "view p \<noteq> []" using \<open>e = None \<and> bp_Length B p > 0\<close> pipe_queueD(6) [OF q less.prems(1)] by auto
      from less.hyps [OF ds(6) [OF True this] ds(2) rb] show ?thesis .
    next
      case False
      then show ?thesis using rb by (subst process_drain.simps) auto
    qed
    then show ?thesis using True by (subst process_drain.simps) (simp add: r)
  qed
qed

text \<open>
  The same for the coders of a set that is closed under coding: the coders a caller creates, when not
  every coder of the library behaves this way.
\<close>

definition coder_progress_on ::
  "'z set \<Rightarrow> ('z, 'x) liblzma \<Rightarrow> lzma_action \<Rightarrow> bool \<Rightarrow> bool \<Rightarrow> ('z \<Rightarrow> nat) \<Rightarrow> bool" where
  "coder_progress_on C L a noSrc noDst pend \<longleftrightarrow>
     (\<forall>z src n r k out z'. z \<in> C \<longrightarrow> c_code L z a src n = (r, k, out, z') \<longrightarrow>
        z' \<in> C \<and> (noDst \<longrightarrow> out = []) \<and>
        (r \<in> {OK, BUF_ERROR} \<and> (noDst \<or> 0 < n) \<and> (noSrc \<or> src \<noteq> []) \<and> k = 0 \<longrightarrow> pend z' < pend z))"

lemma coder_progress_UNIV: "coder_progress_on UNIV L a noSrc noDst pend \<longleftrightarrow> coder_progress L a noSrc noDst pend"
  by (simp add: coder_progress_on_def coder_progress_def)

text \<open>
  The buffers a call of \<open>Process\<close> works with: rings where there is a reader or writer. Output may be
  pending in front of the first round; behind it none is, unless the writer failed.
\<close>

definition work_bufs ::
  "'p bufpipe \<Rightarrow> ('p \<Rightarrow> bool) \<Rightarrow> ('p \<Rightarrow> bytes) \<Rightarrow> bool \<Rightarrow> bool \<Rightarrow> ('z, 'p) Stream \<Rightarrow> bool" where
  "work_bufs B good view noSrc noDst z \<longleftrightarrow>
     good (st_inBuf z) \<and> good (st_outBuf z) \<and> (noDst \<longrightarrow> view (st_outBuf z) = []) \<and>
     (noSrc \<or> ring_buf B (st_inBuf z)) \<and> (noDst \<or> ring_buf B (st_outBuf z))"

definition rings_kept :: "'p bufpipe \<Rightarrow> ('z, 'p) Stream \<Rightarrow> ('z, 'p) Stream \<Rightarrow> bool" where
  "rings_kept B z z' \<longleftrightarrow> (ring_buf B (st_inBuf z) \<longrightarrow> ring_buf B (st_inBuf z')) \<and>
     (ring_buf B (st_outBuf z) \<longrightarrow> ring_buf B (st_outBuf z'))"

text \<open>One round returns, and if the loop goes on there is less to do.\<close>

lemma round_returns:
  assumes q: "pipe_queue B good view" and ring: "pipe_ring B good view" and laws: "lzma_code_laws L"
    and rd: "reads_from src left" "reader_live src" and wr: "writes_to dst got"
    and prog: "coder_progress_on C L a (src = None) (dst = None) pend" and C: "st_coder z \<in> C"
    and rb: "work_bufs B good view (src = None) (dst = None) z"
  obtains p s1 e1 c1 xe z1 p' w1 we d1 where
    "round_fill B src (st_inBuf z) s e ic = Some (p, s1, e1, c1)"
    "process_code B L a (src = None) (dst = None) (z\<lparr>st_inBuf := p\<rparr>) = (xe, z1)"
    "round_drain B dst (st_outBuf z1) w oc = Some (p', w1, we, d1)"
    "st_coder z1 \<in> C" "rings_kept B z (z1\<lparr>st_outBuf := p'\<rparr>)"
    "we = None \<Longrightarrow> work_bufs B good view (src = None) (dst = None) (z1\<lparr>st_outBuf := p'\<rparr>) \<and> view p' = []"
    "we = None \<Longrightarrow> xe = None \<Longrightarrow> src = None \<or> e1 = None \<or> view (st_inBuf z1) \<noteq> [] \<Longrightarrow> view (st_outBuf z) = [] \<Longrightarrow>
      length (view (st_inBuf z1)) + length (left s1) < length (view (st_inBuf z)) + length (left s) \<or>
      length (view (st_inBuf z1)) + length (left s1) = length (view (st_inBuf z)) + length (left s) \<and>
      pend (st_coder z1) < pend (st_coder z)"
proof -
  have g: "good (st_inBuf z)" "good (st_outBuf z)" and vo: "dst = None \<Longrightarrow> view (st_outBuf z) = []"
    and ib: "src = None \<or> ring_buf B (st_inBuf z)" and ob: "dst = None \<or> ring_buf B (st_outBuf z)"
    using rb by (auto simp: work_bufs_def)
  have "\<exists>p s1 e1 c1. round_fill B src (st_inBuf z) s e ic = Some (p, s1, e1, c1) \<and> (ring_buf B (st_inBuf z) \<longrightarrow> ring_buf B p)"
    using fill_returns [OF q ring _ _ g(1)] rd ib by (cases src) (auto simp: round_fill_def)
  then obtain p s1 e1 c1 where fill: "round_fill B src (st_inBuf z) s e ic = Some (p, s1, e1, c1)"
    and pr: "ring_buf B (st_inBuf z) \<longrightarrow> ring_buf B p" by blast
  note f = round_fill_spec [OF q rd(1) g(1) fill]
  obtain xe z1 where code: "process_code B L a (src = None) (dst = None) (z\<lparr>st_inBuf := p\<rparr>) = (xe, z1)"
    by (metis prod.collapse)
  have gz: "good (st_inBuf (z\<lparr>st_inBuf := p\<rparr>))" "good (st_outBuf (z\<lparr>st_inBuf := p\<rparr>))" using f(1) g by simp_all
  obtain r k out lo where
    c: "c_code L (st_coder z) a lo (fst (bp_WriteSlices B (st_outBuf z))) = (r, k, out, st_coder z1)"
      "lo = [] \<longleftrightarrow> view p = []" "length out \<le> fst (bp_WriteSlices B (st_outBuf z))"
      "good (st_inBuf z1)" "good (st_outBuf z1)" "view (st_inBuf z1) = drop k (view p)" "k \<le> length (view p)"
      "view (st_outBuf z1) = view (st_outBuf z) @ out" "xe = None \<longrightarrow> r = OK \<or> r = BUF_ERROR"
      "st_inBuf z1 = bp_ReadMark B p (int k)"
      "st_outBuf z1 = bp_WriteMark B (bp_Store B (st_outBuf z) out) (int (length out))"
  proof (rule process_code_spec [OF q laws gz code], goal_cases)
    case (1 r k out lo)
    then show thesis by (intro that [of lo r k out]) simp_all
  qed
  have rr: "ring_buf B (st_inBuf z1) = ring_buf B p" "ring_buf B (st_outBuf z1) = ring_buf B (st_outBuf z)"
    using pipe_ringD(2) [OF ring] pipe_ringD(3) [OF ring g(2) c(3)] by (simp_all add: c(10,11))
  have "\<exists>p' w1 we d1. round_drain B dst (st_outBuf z1) w oc = Some (p', w1, we, d1) \<and>
      (ring_buf B (st_outBuf z) \<longrightarrow> ring_buf B p')"
    using drain_returns [OF q ring _ c(5)] wr rr(2) ob by (cases dst) (auto simp: round_drain_def)
  then obtain p' w1 we d1 where drain: "round_drain B dst (st_outBuf z1) w oc = Some (p', w1, we, d1)"
    and dr: "ring_buf B (st_outBuf z) \<longrightarrow> ring_buf B p'" by blast
  note d = round_drain_spec [OF q wr c(5) drain]
  have pg: "st_coder z1 \<in> C" "dst = None \<Longrightarrow> out = []"
      "r \<in> {OK, BUF_ERROR} \<Longrightarrow> dst = None \<or> 0 < fst (bp_WriteSlices B (st_outBuf z)) \<Longrightarrow>
      src = None \<or> lo \<noteq> [] \<Longrightarrow> k = 0 \<Longrightarrow> pend (st_coder z1) < pend (st_coder z)"
    using prog c(1) C unfolding coder_progress_on_def by blast+
  show thesis
  proof (rule that [OF fill code drain pg(1)])
    show "rings_kept B z (z1\<lparr>st_outBuf := p'\<rparr>)" using pr dr rr(1) by (simp add: rings_kept_def)
  next
    assume "we = None"
    then have "view p' = []"
      using d(4) drain c(8) vo pg(2) by (cases dst) (auto simp: round_drain_def)
    then show "work_bufs B good view (src = None) (dst = None) (z1\<lparr>st_outBuf := p'\<rparr>) \<and> view p' = []"
      using d(1) c(4) rr(1) pr dr ib ob by (auto simp: work_bufs_def)
  next
    assume "we = None" and xe: "xe = None" and go: "src = None \<or> e1 = None \<or> view (st_inBuf z1) \<noteq> []"
      and vo: "view (st_outBuf z) = []"
    have l: "length (view (st_inBuf z)) + length (left s) = length (view p) + length (left s1)"
      using arg_cong [OF f(2), of length] by simp
    have "src = None \<or> lo \<noteq> []" using go f(4) c(2,6) by auto
    moreover have "dst = None \<or> 0 < fst (bp_WriteSlices B (st_outBuf z))"
      using pipe_ringD(1) [OF ring g(2) _ vo] ob by auto
    ultimately have "k = 0 \<Longrightarrow> pend (st_coder z1) < pend (st_coder z)" using pg(3) c(9) xe by auto
    then show "length (view (st_inBuf z1)) + length (left s1) < length (view (st_inBuf z)) + length (left s) \<or>
      length (view (st_inBuf z1)) + length (left s1) = length (view (st_inBuf z)) + length (left s) \<and>
      pend (st_coder z1) < pend (st_coder z)"
      using c(6,7) l by (cases "k = 0") auto
  qed
qed

lemma rings_kept_refl [simp]: "rings_kept B z z"
  by (simp add: rings_kept_def)

lemma rings_kept_trans: "rings_kept B z z' \<Longrightarrow> rings_kept B z' z'' \<Longrightarrow> rings_kept B z z''"
  by (simp add: rings_kept_def)

lemma process_loop_returns:
  assumes q: "pipe_queue B good view" and ring: "pipe_ring B good view" and laws: "lzma_code_laws L"
    and rd: "reads_from src left" "reader_live src" and wr: "writes_to dst got"
    and prog: "coder_progress_on C L a (src = None) (dst = None) pend"
  shows "work_bufs B good view (src = None) (dst = None) z \<Longrightarrow> st_coder z \<in> C \<Longrightarrow> src = None \<longrightarrow> e = None \<Longrightarrow>
    \<exists>r z' s' w'. process_loop B L a dst src (z, s, w, ic, oc, e) = Some (r, z', s', w') \<and> rings_kept B z z'"
proof (induction "(if view (st_outBuf z) = [] then 0 else 1 :: nat, length (view (st_inBuf z)) + length (left s), pend (st_coder z))"
    arbitrary: z s w ic oc e rule: wf_induct_rule [OF wf_lex_prod [OF wf_less_than wf_lex_prod [OF wf_less_than wf_less_than]]])
  case (1 z s w ic oc e)
  show ?case
  proof (rule round_returns [OF q ring laws rd wr prog 1(3,2), of s e ic w oc])
    fix p s1 e1 c1 xe z1 p' w1 we d1
    assume fill: "round_fill B src (st_inBuf z) s e ic = Some (p, s1, e1, c1)"
      and code: "process_code B L a (src = None) (dst = None) (z\<lparr>st_inBuf := p\<rparr>) = (xe, z1)"
      and drain: "round_drain B dst (st_outBuf z1) w oc = Some (p', w1, we, d1)"
      and C: "st_coder z1 \<in> C" and kept: "rings_kept B z (z1\<lparr>st_outBuf := p'\<rparr>)"
      and rb: "we = None \<Longrightarrow> work_bufs B good view (src = None) (dst = None) (z1\<lparr>st_outBuf := p'\<rparr>) \<and> view p' = []"
      and less: "we = None \<Longrightarrow> xe = None \<Longrightarrow> src = None \<or> e1 = None \<or> view (st_inBuf z1) \<noteq> [] \<Longrightarrow> view (st_outBuf z) = [] \<Longrightarrow>
      length (view (st_inBuf z1)) + length (left s1) < length (view (st_inBuf z)) + length (left s) \<or>
      length (view (st_inBuf z1)) + length (left s1) = length (view (st_inBuf z)) + length (left s) \<and>
      pend (st_coder z1) < pend (st_coder z)"
    let ?z = "z1\<lparr>st_outBuf := p'\<rparr>"
    have e1: "src = None \<longrightarrow> e1 = None" using fill 1(4) by (auto simp: round_fill_def)
    have res: "process_loop B L a dst src (z, s, w, ic, oc, e) =
      (if we \<noteq> None then Some ((d1, c1, we), ?z, s1, w1)
        else if xe \<noteq> None \<and> bp_Length B (st_outBuf ?z) = 0 then Some ((d1, c1, xe), ?z, s1, w1)
        else if e1 \<noteq> None \<and> bp_Length B (st_outBuf ?z) = 0 \<and> bp_Length B (st_inBuf ?z) = 0
        then Some ((d1, c1, e1), ?z, s1, w1)
        else process_loop B L a dst src (?z, s1, w1, c1, d1, e1))"
      by (subst process_loop.simps, unfold prod.case round_fill_def [symmetric] round_drain_def [symmetric])
        (simp only: fill code drain Let_def Option.bind.simps prod.case)
    show ?thesis
    proof (cases "we = None \<and> xe = None \<and> (e1 = None \<or> view (st_inBuf z1) \<noteq> [])")
      case True
      have "((if view (st_outBuf ?z) = [] then 0 else 1 :: nat, length (view (st_inBuf ?z)) + length (left s1), pend (st_coder ?z)),
          (if view (st_outBuf z) = [] then 0 else 1, length (view (st_inBuf z)) + length (left s), pend (st_coder z)))
          \<in> less_than <*lex*> less_than <*lex*> less_than"
        using less rb True by (cases "view (st_outBuf z) = []") auto
      from 1(1) [OF this _ _ e1] rb C True have
        "\<exists>r z' s' w'. process_loop B L a dst src (?z, s1, w1, c1, d1, e1) = Some (r, z', s', w') \<and> rings_kept B ?z z'" by simp
      then show ?thesis using res kept rings_kept_trans [OF kept] by (auto split: if_splits)
    next
      case False
      have "we = None \<Longrightarrow> bp_Length B p' = 0 \<and> bp_Length B (st_inBuf z1) = int (length (view (st_inBuf z1)))"
        using rb pipe_queueD(6) [OF q] by (auto simp: work_bufs_def)
      with False show ?thesis using res kept by auto
    qed
  qed
qed

section \<open>Pumping between pipes\<close>

definition pview :: "('p \<Rightarrow> bytes) \<Rightarrow> 'p option \<Rightarrow> bytes" where
  "pview view po = (case po of None \<Rightarrow> [] | Some p \<Rightarrow> view p)"

definition pgood :: "('p \<Rightarrow> bool) \<Rightarrow> 'p option \<Rightarrow> bool" where
  "pgood good po = (case po of None \<Rightarrow> True | Some p \<Rightarrow> good p)"

text \<open>What the loop hands to the coder: a prefix of the source and room in the destination.\<close>

lemma pipe_source:
  assumes q: "pipe_queue B good view" and g: "pgood good src"
    and r: "(case src of None \<Rightarrow> ([], None)
       | Some p \<Rightarrow> (case bp_ReadSlices B p of (lo, _, e) \<Rightarrow> (take chunkSize lo, e))) = (inBuf, e)" and k: "k \<le> length inBuf"
  shows "pview view src = take k inBuf @ pview view (map_option (\<lambda>p. bp_ReadMark B p (int k)) src)"
    and "pgood good (map_option (\<lambda>p. bp_ReadMark B p (int k)) src)"
proof -
  have "pview view src = take k inBuf @ pview view (map_option (\<lambda>p. bp_ReadMark B p (int k)) src) \<and>
    pgood good (map_option (\<lambda>p. bp_ReadMark B p (int k)) src)"
  proof (cases src)
    case None
    with r k show ?thesis by (simp add: pview_def pgood_def)
  next
    case (Some p)
    obtain lo hi er where rs: "bp_ReadSlices B p = (lo, hi, er)" by (metis prod.collapse)
    from g Some have gp: "good p" by (simp add: pgood_def)
    have v: "view p = lo @ hi" using pipe_queueD(7) [OF q gp rs] by simp
    have i: "inBuf = take chunkSize lo" using r by (simp add: Some rs)
    have "k \<le> length lo" using k i by simp
    with pipe_queueD(8) [OF q gp, of "int k"] v have
      "good (bp_ReadMark B p (int k)) \<and> view (bp_ReadMark B p (int k)) = drop k lo @ hi" by simp
    moreover have "take k inBuf = take k lo" using k i by simp
    ultimately show ?thesis using v by (simp add: Some pview_def pgood_def)
  qed
  then show "pview view src = take k inBuf @ pview view (map_option (\<lambda>p. bp_ReadMark B p (int k)) src)"
    "pgood good (map_option (\<lambda>p. bp_ReadMark B p (int k)) src)" by simp_all
qed

lemma pipe_sink:
  assumes q: "pipe_queue B good view" and g: "pgood good dst"
    and r: "(case dst of None \<Rightarrow> (0, None)
       | Some p \<Rightarrow> (case bp_WriteSlices B p of (n, _, e) \<Rightarrow> (min n chunkSize, e))) = (n, e)" and out: "length out \<le> n"
  shows "pview view (map_option (\<lambda>p. bp_WriteMark B (bp_Store B p out) (int (length out))) dst) = pview view dst @ out"
    and "pgood good (map_option (\<lambda>p. bp_WriteMark B (bp_Store B p out) (int (length out))) dst)"
proof -
  have "pview view (map_option (\<lambda>p. bp_WriteMark B (bp_Store B p out) (int (length out))) dst) = pview view dst @ out \<and>
    pgood good (map_option (\<lambda>p. bp_WriteMark B (bp_Store B p out) (int (length out))) dst)"
  proof (cases dst)
    case None
    with r out show ?thesis by (simp add: pview_def pgood_def)
  next
    case (Some p)
    with r out have "length out \<le> fst (bp_WriteSlices B p)" by (auto split: prod.splits)
    with pipe_queueD(9) [OF q, of p out] g Some show ?thesis by (simp add: pview_def pgood_def)
  qed
  then show "pview view (map_option (\<lambda>p. bp_WriteMark B (bp_Store B p out) (int (length out))) dst) = pview view dst @ out"
    "pgood good (map_option (\<lambda>p. bp_WriteMark B (bp_Store B p out) (int (length out))) dst)" by simp_all
qed

text \<open>What \<open>ProcessPipe\<close> leaves behind when it returns.\<close>

definition pipe_post ::
  "('z, 'x) liblzma \<Rightarrow> lzma_action \<Rightarrow> ('p \<Rightarrow> bool) \<Rightarrow> ('p \<Rightarrow> bytes) \<Rightarrow> 'p option \<Rightarrow> 'p option \<Rightarrow> ('z, 'p) Stream \<Rightarrow> int \<Rightarrow> int \<Rightarrow>
   int \<Rightarrow> int \<Rightarrow> goerr option \<Rightarrow> 'p option \<Rightarrow> 'p option \<Rightarrow> ('z, 'p) Stream \<Rightarrow> bool" where
  "pipe_post L a good view dst src z oc ic oc' ic' err dst' src' z' \<longleftrightarrow>
     err \<noteq> None \<and> pgood good dst' \<and> pgood good src' \<and>
     (\<exists>inp out. coder_run L a (st_coder z) inp out (st_coder z') \<and>
        pview view src = inp @ pview view src' \<and> pview view dst' = pview view dst @ out \<and>
        ic' = ic + int (length inp) \<and> oc' = oc + int (length out))"

lemma pipe_post_step:
  assumes "c_code L (st_coder z) a inBuf n = (r, k, out, st_coder z1)" and "k \<le> length inBuf"
    and "pview view src = take k inBuf @ pview view src1" and "pview view dst1 = pview view dst @ out"
    and "pipe_post L a good view dst1 src1 z1 (oc + int (length out)) (ic + int k) oc' ic' err dst' src' z'"
  shows "pipe_post L a good view dst src z oc ic oc' ic' err dst' src' z'"
proof -
  from assms(5) obtain inp out' where p: "coder_run L a (st_coder z1) inp out' (st_coder z')"
    "pview view src1 = inp @ pview view src'" "pview view dst' = pview view dst1 @ out'"
    "ic' = ic + int k + int (length inp)" "oc' = oc + int (length out) + int (length out')"
    "err \<noteq> None" "pgood good dst'" "pgood good src'"
    unfolding pipe_post_def by blast
  have "coder_run L a (st_coder z) (take k inBuf @ inp) (out @ out') (st_coder z')"
    using coder_run.call [OF assms(1) p(1)] .
  with p assms(2-4) show ?thesis
    unfolding pipe_post_def by (intro conjI exI [of _ "take k inBuf @ inp"] exI [of _ "out @ out'"]) simp_all
qed

lemma processPipe_loop_post:
  assumes "processPipe_loop B L a st = Some st'"
  shows "pipe_queue B good view \<and> lzma_code_laws L \<and> pgood good (fst st) \<and> pgood good (fst (snd st)) \<longrightarrow>
    (case (st, st') of ((dst, src, z, oc, ic), ((oc', ic', err), dst', src', z')) \<Rightarrow>
      pipe_post L a good view dst src z oc ic oc' ic' err dst' src' z')"
proof (rule processPipe_loop.raw_induct [OF _ assms], intro impI, elim conjE, goal_cases)
  case (1 f B L a st st')
  note q = 1(3) and laws = 1(4)
  obtain dst src z oc ic where st: "st = (dst, src, z, oc, ic)" by (metis prod.collapse)
  obtain oc' ic' err dst' src' z' where st': "st' = ((oc', ic', err), dst', src', z')" by (metis prod.collapse)
  have g: "pgood good dst" "pgood good src" using 1(5,6) by (simp_all add: st)
  have refl_post: "pipe_post L a good view dst src z oc ic oc ic e dst src z" if "e \<noteq> None" for e
    unfolding pipe_post_def using that g by (intro conjI exI [of _ "[]"]) (auto intro: coder_run.idle)
  obtain inBuf re where src: "(case src of None \<Rightarrow> ([], None)
       | Some p \<Rightarrow> (case bp_ReadSlices B p of (lo, _, e) \<Rightarrow> (take chunkSize lo, e))) = (inBuf, re)" by (metis prod.collapse)
  obtain n we where dst: "(case dst of None \<Rightarrow> (0, None)
       | Some p \<Rightarrow> (case bp_WriteSlices B p of (n, _, e) \<Rightarrow> (min n chunkSize, e))) = (n, we)" by (metis prod.collapse)
  show ?case
  proof (cases "re = None \<and> we = None")
    case False
    then show ?thesis
      using 1(2) refl_post unfolding st prod.case src dst by (auto simp: st st' split: if_splits)
  next
    case True
    obtain r k out c where c: "c_code L (st_coder z) a inBuf n = (r, k, out, c)" by (metis prod.collapse)
    note cs = CodeSlice_spec [OF laws c]
    define z1 where "z1 = z\<lparr>st_next_in := drop k inBuf, st_avail_out := n - length out, st_coder := c,
       st_total_in := st_total_in z + of_nat k, st_total_out := st_total_out z + of_nat (length out)\<rparr>"
    define src1 where "src1 = map_option (\<lambda>p. bp_ReadMark B p (int k)) src"
    define dst1 where "dst1 = map_option (\<lambda>p. bp_WriteMark B (bp_Store B p out) (int (length out))) dst"
    note s1 = pipe_source [OF q g(2) src cs(2), folded src1_def] and d1 = pipe_sink [OF q g(1) dst cs(3), folded dst1_def]
    have c1: "c_code L (st_coder z) a inBuf n = (r, k, out, st_coder z1)" using c by (simp add: z1_def)
    have body: "(if NewError r \<noteq> None then Some ((oc + int (length out), ic + int k, NewError r), dst1, src1, z1)
        else f B L a (dst1, src1, z1, oc + int (length out), ic + int k)) = Some st'"
      using 1(2) True unfolding st prod.case src dst cs(1) Let_def src1_def dst1_def z1_def by simp
    have "pipe_post L a good view dst1 src1 z1 (oc + int (length out)) (ic + int k) oc' ic' err dst' src' z'"
    proof (cases "NewError r = None")
      case True
      with body have "f B L a (dst1, src1, z1, oc + int (length out), ic + int k) = Some st'" by simp
      from 1(1) [OF this] q laws s1(2) d1(2) show ?thesis by (simp add: st')
    next
      case False
      with body s1(2) d1(2) show ?thesis
        by (auto simp: st' pipe_post_def intro!: exI [of _ "[]"] coder_run.idle)
    qed
    from pipe_post_step [OF c1 cs(2) s1(1) d1(1) this] show ?thesis by (simp add: st st')
  qed
qed

section \<open>A concrete pump\<close>

text \<open>A reader over a list, a writer into a list, and the storing coder, for evaluation.\<close>

definition list_read :: "bytes io_read" where
  "list_read s n = ((take n s, if s = [] then Some EOF else None), drop n s)"

definition list_write :: "bytes io_write" where
  "list_write w buf = ((int (length buf), None), w @ buf)"

lemma list_io: "reads_from (Some list_read) id" "reader_live (Some list_read)" "writes_to (Some list_write) id"
  by (auto simp: reads_from_def reader_live_def writes_to_def list_read_def list_write_def)

lemma store_code_laws: "lzma_code_laws store_lzma"
  by (auto simp: lzma_code_laws_def store_code_def Let_def)

lemma store_progress: "coder_progress store_lzma a False False (\<lambda>z. length (sc_pending z))"
proof -
  have "length (sc_pending z') < length (sc_pending z)"
    if "store_code z a src n = (r, k, out, z')" "0 < n" "src \<noteq> []" "k = 0" for z src n r k out z'
  proof -
    from that have "n - length (take n (sc_pending z)) = 0" and z': "sc_pending z' = drop n (sc_pending z)"
      by (auto simp: store_code_def Let_def min_def split: if_splits)
    with that(2) show ?thesis by simp
  qed
  then show ?thesis by (auto simp: coder_progress_def)
qed

definition wit_stream :: "(store_coder, lpipe option) Stream" where
  "wit_stream = (NewStream store_lzma line_pipe)\<lparr>st_coder := store_init\<rparr>"

lemma wit_bufs: "lp_good (st_inBuf wit_stream)" "lp_good (st_outBuf wit_stream)"
  "lp_view (st_inBuf wit_stream) = []" "lp_view (st_outBuf wit_stream) = []"
  by (simp_all add: wit_stream_def NewStream_def line_pipe_def lp_good_def lp_view_def)

section \<open>Properties\<close>

lemma Process_nil_aux:
  assumes "Process B L a dst src z s w = Some ((outCnt, inCnt, err), z', s', w')"
    and "\<not> (src = None \<and> dst = None)"
  shows "err \<noteq> None"
proof -
  have "snd (snd (fst res)) \<noteq> None" if "process_loop B L a dst src st = Some res" for st res
  proof (rule process_loop.raw_induct [OF _ that], goal_cases)
    case (1 f B L a dst src st res)
    obtain z s w ic oc e where st: "st = (z, s, w, ic, oc, e)" by (metis prod.collapse)
    note body = 1(2) [unfolded st prod.case round_fill_def [symmetric] round_drain_def [symmetric]]
    then obtain p s1 e1 c1 where fill: "round_fill B src (st_inBuf z) s e ic = Some (p, s1, e1, c1)"
      by (auto simp: Option.bind_eq_Some_conv)
    obtain xe z1 where code: "process_code B L a (src = None) (dst = None) (z\<lparr>st_inBuf := p\<rparr>) = (xe, z1)"
      by (metis prod.collapse)
    from body obtain p' w1 we d1 where drain: "round_drain B dst (st_outBuf z1) w oc = Some (p', w1, we, d1)"
      by (auto simp: Option.bind_eq_Some_conv fill code)
    from body show ?case
      unfolding fill code drain Let_def Option.bind.simps prod.case using 1(1) by (auto split: if_splits)
  qed
  with assms show ?thesis by (fastforce simp: Process_def)
qed

lemma Process_returns_aux:
  assumes q: "pipe_queue B good view" and ring: "pipe_ring B good view" and new: "pipe_new_laws B"
    and laws: "lzma_code_laws L" and rd: "reads_from src left" "reader_live src" and wr: "writes_to dst got"
    and prog: "coder_progress L a (src = None) (dst = None) pend"
    and g: "good (st_inBuf z)" "good (st_outBuf z)" "view (st_outBuf z) = []"
    and bufs: "st_inBuf z = bp_nil B \<or> ring_buf B (st_inBuf z)" "st_outBuf z = bp_nil B \<or> ring_buf B (st_outBuf z)"
  shows "\<exists>res. Process B L a dst src z s w = Some res"
proof (cases "src = None \<and> dst = None")
  case True
  then show ?thesis by (simp add: Process_def)
next
  case False
  let ?z = "process_alloc B (src = None) (dst = None) z"
  have "ring_buf B (bp_New B (replicate chunkSize 0) RingPoll)"
    by (simp add: ring_buf_def pipe_new_lawsD [OF new] chunkSize_def)
  then have "work_bufs B good view (src = None) (dst = None) ?z"
    using process_alloc_fields [OF q g(1,2), of "src = None" "dst = None"] g(3) bufs
    by (auto simp: work_bufs_def process_alloc_def Let_def)
  from process_loop_returns [OF q ring laws rd wr prog [folded coder_progress_UNIV] this, of None s w 0 0] False
  show ?thesis by (auto simp: Process_def)
qed

text \<open>The same with buffers that may hold pending output, for the coders of a closed set.\<close>

lemma Process_returns_on:
  assumes q: "pipe_queue B good view" and ring: "pipe_ring B good view" and new: "pipe_new_laws B"
    and laws: "lzma_code_laws L" and rd: "reads_from src left" "reader_live src" and wr: "writes_to dst got"
    and prog: "coder_progress_on C L a (src = None) (dst = None) pend" and C: "st_coder z \<in> C"
    and g: "good (st_inBuf z)" "good (st_outBuf z)" "dst = None \<Longrightarrow> view (st_outBuf z) = []"
    and bufs: "ring_buf B (st_inBuf z)" "ring_buf B (st_outBuf z)" and ne: "\<not> (src = None \<and> dst = None)"
  obtains r z' s' w' where "Process B L a dst src z s w = Some (r, z', s', w')"
    "ring_buf B (st_inBuf z')" "ring_buf B (st_outBuf z')"
proof -
  let ?z = "process_alloc B (src = None) (dst = None) z"
  note al = process_alloc_fields [OF q g(1,2), of "src = None" "dst = None"]
  have "ring_buf B (bp_New B (replicate chunkSize 0) RingPoll)"
    by (simp add: ring_buf_def pipe_new_lawsD [OF new] chunkSize_def)
  then have r: "ring_buf B (st_inBuf ?z)" "ring_buf B (st_outBuf ?z)" using bufs by (auto simp: process_alloc_def Let_def)
  then have "work_bufs B good view (src = None) (dst = None) ?z" using al g(3) by (auto simp: work_bufs_def)
  from process_loop_returns [OF q ring laws rd wr prog this, of None s w 0 0] C obtain x z' s' w' where
    "process_loop B L a dst src (?z, s, w, 0, 0, None) = Some (x, z', s', w')" "rings_kept B ?z z'"
    by (auto simp: al)
  moreover from this(1) ne have "Process B L a dst src z s w = Some (x, z', s', w')" by (auto simp: Process_def)
  ultimately have "Process B L a dst src z s w = Some (x, z', s', w')" "rings_kept B ?z z'" by blast+
  with r that show thesis by (simp add: rings_kept_def)
qed

text \<open>What every write leaves alone, \<open>Process\<close> leaves alone.\<close>

definition sink_keeps :: "'w io_write option \<Rightarrow> ('w \<Rightarrow> 'k) \<Rightarrow> bool" where
  "sink_keeps dst f \<longleftrightarrow> (\<forall>wr w buf r w'. dst = Some wr \<longrightarrow> wr w buf = (r, w') \<longrightarrow> f w' = f w)"

lemma process_drain_keeps:
  assumes "process_drain B wr st = Some st'"
  shows "sink_keeps (Some wr) f \<longrightarrow> f (fst (snd st')) = f (fst (snd st))"
proof (rule process_drain.raw_induct [OF _ assms], intro impI, goal_cases)
  case (1 g B wr st st')
  obtain p w e c where st: "st = (p, w, e, c)" by (metis prod.collapse)
  show ?case
  proof (cases "e = None \<and> bp_Length B p > 0")
    case False
    with 1(2) st show ?thesis by auto
  next
    case True
    obtain k e1 w1 where r: "wr w (fst (bp_ReadSlices B p)) = ((k, e1), w1)" by (metis prod.collapse)
    from True 1(2) have "g B wr (bp_ReadMark B p k, w1, e1, c + k) = Some st'" by (simp add: st r)
    from 1(1) [OF this] 1(3) r show ?thesis by (auto simp: st sink_keeps_def)
  qed
qed

lemma process_loop_keeps:
  assumes "process_loop B L a dst src st = Some st'"
  shows "sink_keeps dst f \<longrightarrow> f (snd (snd (snd st'))) = f (fst (snd (snd st)))"
proof (rule process_loop.raw_induct [OF _ assms], intro impI, goal_cases)
  case (1 g B L a dst src st st')
  obtain z s w ic oc e where st: "st = (z, s, w, ic, oc, e)" by (metis prod.collapse)
  note body = 1(2) [unfolded st prod.case round_fill_def [symmetric] round_drain_def [symmetric]]
  then obtain p s1 e1 c1 where fill: "round_fill B src (st_inBuf z) s e ic = Some (p, s1, e1, c1)"
    by (auto simp: Option.bind_eq_Some_conv)
  obtain xe z1 where code: "process_code B L a (src = None) (dst = None) (z\<lparr>st_inBuf := p\<rparr>) = (xe, z1)"
    by (metis prod.collapse)
  from body obtain p' w1 we d1 where drain: "round_drain B dst (st_outBuf z1) w oc = Some (p', w1, we, d1)"
    by (auto simp: Option.bind_eq_Some_conv fill code)
  have "f w1 = f w"
    using drain 1(3) process_drain_keeps [of B _ "(st_outBuf z1, w, None, oc)" "(p', w1, we, d1)" f]
    by (cases dst) (auto simp: round_drain_def)
  with body 1(1,3) show ?case
    unfolding fill code drain Let_def Option.bind.simps prod.case by (auto simp: st split: if_splits)
qed

lemma Process_keeps:
  assumes "Process B L a dst src z s w = Some (r, z', s', w')" and "sink_keeps dst f"
  shows "f w' = f w"
  using assms process_loop_keeps [of B L a dst src _ "(r, z', s', w')" f] by (fastforce simp: Process_def split: if_splits)

text \<open>
  C31: \<open>Process\<close> neither loses, duplicates nor reorders bytes, whatever the coder does and however
  the reader and writer cut the data into pieces: what was buffered or still to be read at the
  start is what the coder consumed followed by what is buffered or still to be read at the end;
  what the writer got in addition, followed by the output still buffered, is the output buffered at
  the start followed by what the coder produced. The two counts it returns are the bytes read from
  the reader and the bytes accepted by the writer. The error is not nil: it is the writer's, or the
  coder's once all output has been delivered, or the reader's once all input has been consumed and
  all output delivered.
\<close>

theorem Process_conserves:
  assumes "Process B L a dst src z s w = Some ((outCnt, inCnt, err), z', s', w')"
    and "\<not> (src = None \<and> dst = None)" and "pipe_queue B good view" and "lzma_code_laws L"
    and "reads_from src left" and "writes_to dst got" and "good (st_inBuf z)" and "good (st_outBuf z)"
  shows "\<exists>inp out. coder_run L a (st_coder z) inp out (st_coder z') \<and>
    view (st_inBuf z) @ left s = inp @ view (st_inBuf z') @ left s' \<and>
    got w' @ view (st_outBuf z') = got w @ view (st_outBuf z) @ out \<and>
    inCnt = int (length (left s)) - int (length (left s')) \<and>
    outCnt = int (length (got w')) - int (length (got w)) \<and>
    st_total_in z' = st_total_in z + of_nat (length inp) \<and> err \<noteq> None \<and>
    (write_error dst w' err \<or> code_error L a (st_coder z') err \<and> view (st_outBuf z') = [] \<or>
     read_error src s' err \<and> view (st_outBuf z') = [] \<and> view (st_inBuf z') = [])"
  using Process_post [OF assms] unfolding process_post_def pumped_def prod.case by force

theorem Process_conserves_witness:
  "\<exists>outCnt inCnt err z' s' w' inp out.
     Process line_pipe store_lzma RUN (Some list_write) (Some list_read) wit_stream [1, 2, 3] [] =
       Some ((outCnt, inCnt, err), z', s', w') \<and>
     coder_run store_lzma RUN (st_coder wit_stream) inp out (st_coder z') \<and>
     [1, 2, 3] = inp @ lp_view (st_inBuf z') @ s' \<and> w' @ lp_view (st_outBuf z') = out"
proof -
  from Process_returns_aux [OF line_pipe_queue line_pipe_ring line_pipe_new_laws store_code_laws list_io,
      of RUN "\<lambda>z. length (sc_pending z)" wit_stream "[1, 2, 3]" "[]"] store_progress [of RUN] wit_bufs
  obtain outCnt inCnt err z' s' w' where
    run: "Process line_pipe store_lzma RUN (Some list_write) (Some list_read) wit_stream [1, 2, 3] [] =
       Some ((outCnt, inCnt, err), z', s', w')"
    by (auto simp: wit_stream_def NewStream_def)
  from Process_conserves [OF run _ line_pipe_queue store_code_laws list_io(1,3)] wit_bufs run
  show ?thesis by auto
qed

text \<open>
  C32: \<open>Process\<close> returns, if the coder makes progress and the reader keeps to its contract: the loops
  that fill the input buffer and drain the output buffer end, and so does the loop around them.
\<close>

theorem Process_returns:
  assumes "pipe_queue B good view" and "pipe_ring B good view" and "pipe_new_laws B"
    and "lzma_code_laws L" and "reads_from src left" and "reader_live src" and "writes_to dst got"
    and "coder_progress L a (src = None) (dst = None) pend"
    and "good (st_inBuf z)" and "good (st_outBuf z)" and "view (st_outBuf z) = []"
    and "st_inBuf z = bp_nil B \<or> ring_buf B (st_inBuf z)" and "st_outBuf z = bp_nil B \<or> ring_buf B (st_outBuf z)"
  shows "\<exists>res. Process B L a dst src z s w = Some res"
  by (rule Process_returns_aux [OF assms])

theorem Process_returns_witness:
  "\<exists>res. Process line_pipe store_lzma RUN (Some list_write) (Some list_read) wit_stream [1, 2, 3] [] = Some res"
  using Process_returns [OF line_pipe_queue line_pipe_ring line_pipe_new_laws store_code_laws list_io,
      of RUN "\<lambda>z. length (sc_pending z)" wit_stream "[1, 2, 3]" "[]"] store_progress [of RUN] wit_bufs
  by (auto simp: wit_stream_def NewStream_def)

text \<open>
  C33: \<open>Process\<close> reports the end of the data as an error too: if it returns, and was given a reader or
  a writer, the error is never nil. Nothing is assumed of the pipes, the coder, the reader or the
  writer. A caller has to ignore the error that means success, as the writer and the reader of the
  package do.
\<close>

theorem Process_never_nil:
  assumes "Process B L a dst src z s w = Some ((outCnt, inCnt, err), z', s', w')"
    and "\<not> (src = None \<and> dst = None)"
  shows "err \<noteq> None"
  by (rule Process_nil_aux [OF assms])

theorem Process_never_nil_witness:
  "\<exists>outCnt inCnt e z' s' w'.
     Process line_pipe store_lzma RUN (Some list_write) (Some list_read) wit_stream [1, 2, 3] [] =
       Some ((outCnt, inCnt, Some e), z', s', w')"
proof -
  from Process_returns_aux [OF line_pipe_queue line_pipe_ring line_pipe_new_laws store_code_laws list_io,
      of RUN "\<lambda>z. length (sc_pending z)" wit_stream "[1, 2, 3]" "[]"] store_progress [of RUN] wit_bufs
  obtain outCnt inCnt err z' s' w' where
    run: "Process line_pipe store_lzma RUN (Some list_write) (Some list_read) wit_stream [1, 2, 3] [] =
       Some ((outCnt, inCnt, err), z', s', w')"
    by (auto simp: wit_stream_def NewStream_def)
  with Process_never_nil [OF run] show ?thesis by auto
qed

text \<open>
  C18: \<open>ProcessPipe\<close> moves the bytes of one pipe through the coder into another: what it took from the
  source is what the coder consumed, in order, and what it added to the destination is what the
  coder produced; the counts are those of the bytes moved, and it returns only with an error (of a
  pipe or of the coder).
\<close>

theorem ProcessPipe_conserves:
  assumes "ProcessPipe B L a dst src z = Some ((outCnt, inCnt, err), dst', src', z')"
    and "\<not> (src = None \<and> dst = None)" and "pipe_queue B good view" and "lzma_code_laws L"
    and "pgood good dst" and "pgood good src"
  shows "err \<noteq> None \<and> (\<exists>inp out. coder_run L a (st_coder z) inp out (st_coder z') \<and>
    pview view src = inp @ pview view src' \<and> pview view dst' = pview view dst @ out \<and>
    inCnt = int (length inp) \<and> outCnt = int (length out))"
proof -
  have "processPipe_loop B L a (dst, src, z, 0, 0) = Some ((outCnt, inCnt, err), dst', src', z')"
    using assms(1,2) by (auto simp: ProcessPipe_def)
  from processPipe_loop_post [OF this, of good view] assms(3-6) show ?thesis
    unfolding pipe_post_def by auto
qed

definition wit_src :: "lpipe option" where
  "wit_src = Some \<lparr>lp_buf = [7, 8], lp_mode = LineMono, lp_lo = 0, lp_hi = 2, lp_closed = True, lp_err = None\<rparr>"

definition wit_dst :: "lpipe option" where
  "wit_dst = Some \<lparr>lp_buf = [0, 0, 0], lp_mode = LineMono, lp_lo = 0, lp_hi = 0, lp_closed = False, lp_err = None\<rparr>"

lemmas wit_eval = wit_dst_def wit_src_def wit_stream_def NewStream_def line_pipe_ops lp_view_def CodeSlice_def
  Code_def SetInput_def SetOutput_def store_code_def store_init_def no_block_def overwrite_def chunkSize_def Let_def

lemma wit_pipe_run:
  "\<exists>dst' src' z'. ProcessPipe line_pipe store_lzma RUN (Some wit_dst) (Some wit_src) wit_stream =
     Some ((2, 2, Some EOF), dst', src', z') \<and> pview lp_view src' = []"
proof -
  have "\<exists>d src1 z1. processPipe_loop line_pipe store_lzma RUN (Some wit_dst, Some wit_src, wit_stream, 0, 0) =
      processPipe_loop line_pipe store_lzma RUN (d, Some src1, z1, 2, 2) \<and>
      bp_ReadSlices line_pipe src1 = ([], [], Some EOF) \<and> lp_view src1 = []"
    by (subst processPipe_loop.simps, simp add: wit_eval, intro exI conjI, rule refl) (simp_all add: wit_eval)
  then obtain d src1 z1 where s1: "processPipe_loop line_pipe store_lzma RUN (Some wit_dst, Some wit_src, wit_stream, 0, 0) =
      processPipe_loop line_pipe store_lzma RUN (d, Some src1, z1, 2, 2)"
    "bp_ReadSlices line_pipe src1 = ([], [], Some EOF)" "lp_view src1 = []" by blast
  have "processPipe_loop line_pipe store_lzma RUN (d, Some src1, z1, 2, 2) = Some ((2, 2, Some EOF), d, Some src1, z1)"
    by (subst processPipe_loop.simps) (simp add: s1(2))
  with s1 show ?thesis by (simp add: ProcessPipe_def pview_def)
qed

theorem ProcessPipe_conserves_witness:
  "\<exists>dst' src' z' out. ProcessPipe line_pipe store_lzma RUN (Some wit_dst) (Some wit_src) wit_stream =
     Some ((2, 2, Some EOF), dst', src', z') \<and>
     coder_run store_lzma RUN (st_coder wit_stream) [7, 8] out (st_coder z') \<and> pview lp_view dst' = out"
proof -
  from wit_pipe_run obtain dst' src' z' where run:
    "ProcessPipe line_pipe store_lzma RUN (Some wit_dst) (Some wit_src) wit_stream =
     Some ((2, 2, Some EOF), dst', src', z')" "pview lp_view src' = []" by blast
  have v: "pview lp_view (Some wit_src) = [7, 8]" "pview lp_view (Some wit_dst) = []"
    "pgood lp_good (Some wit_dst)" "pgood lp_good (Some wit_src)"
    by (simp_all add: pgood_def pview_def wit_dst_def wit_src_def lp_good_def lp_view_def)
  from ProcessPipe_conserves [OF run(1) _ line_pipe_queue store_code_laws v(3,4)] run v(1,2) show ?thesis by auto
qed

end
