(* ===== verification/Xz_Index.thy ===== *)
theory Xz_Index
  imports Xz_Const Go_Act Lib_Index Lib_Stream_Props
begin

text \<open>
  \<open>xz/index.go\<close>: reading the indexes of a file backwards, stream by stream, and concatenating them.
  The file is an \<open>io.ReaderAt\<close>, \<open>ra off n\<close> being the bytes \<open>ReadAt\<close> stores into a slice of length \<open>n\<close>
  at offset \<open>off\<close>, and its error; it does not change while it is read.
\<close>

type_synonym reader_at = "int \<Rightarrow> nat \<Rightarrow> bytes \<times> goerr option"

definition maxMemory :: "64 word" where
  "maxMemory = - 1"

text \<open>\<open>io.SectionReader\<close> of the standard library: the state is the next offset and the limit.\<close>

definition section_read :: "reader_at \<Rightarrow> (int \<times> int) io_read" where
  "section_read ra st n =
     (case st of (off, limit) \<Rightarrow>
        if off \<ge> limit then (([], Some EOF), st)
        else let (bs, e) = ra off (min n (nat (limit - off)))
             in ((bs, e), (off + int (length bs), limit)))"

text \<open>A read into a fresh slice: bytes that are not stored stay zero.\<close>

definition read_block :: "errs \<Rightarrow> reader_at \<Rightarrow> int \<Rightarrow> nat \<Rightarrow> ('s, bytes) act" where
  "read_block E ra off n =
     (let (bs, err) = ra off n in
      athen (aPanic E (errs_Convert E err (Some ErrUnexpectedEOF) [EOF]))
        (aret (overwrite (replicate n 0) 0 bs)))"

text \<open>
  The loop reuses its slice; it goes on only after the slice compared equal to four zero bytes, so
  every read stores into a zeroed slice.
\<close>

partial_function (option) unrollPadding_loop ::
  "errs \<Rightarrow> reader_at \<Rightarrow> int \<Rightarrow> int \<Rightarrow> 's \<Rightarrow> (int go \<times> 's) option" where
  "unrollPadding_loop E ra pos padding s =
     (case read_block E ra (pos - padding - int (length padZeros)) (length padZeros) s of
        None \<Rightarrow> None
      | Some (r, s) \<Rightarrow>
          (case r of
             Pan p \<Rightarrow> Some (Pan p, s)
           | Ret buf \<Rightarrow>
               if buf = padZeros then unrollPadding_loop E ra pos (padding + int (length padZeros)) s
               else Some (Ret padding, s)))"

definition unrollPadding :: "errs \<Rightarrow> reader_at \<Rightarrow> int \<Rightarrow> ('s, int \<times> int) act" where
  "unrollPadding E ra pos =
     abind (unrollPadding_loop E ra pos 0) (\<lambda>padding. aret (padding, pos - padding))"

definition unrollFooter ::
  "errs \<Rightarrow> ('z, 'x) liblzma \<Rightarrow> reader_at \<Rightarrow> int \<Rightarrow> ('s, StreamFlags \<times> int) act" where
  "unrollFooter E L ra pos =
     abind (read_block E ra (pos - int (STREAM_FOOTER_SIZE L)) (STREAM_FOOTER_SIZE L)) (\<lambda>buf.
     let (err, flags) = FooterDecode L NewStreamFlags buf in
     athen (aPanic E err) (aret (flags, pos - int (STREAM_FOOTER_SIZE L))))"

definition unrollHeader ::
  "errs \<Rightarrow> ('z, 'x) liblzma \<Rightarrow> reader_at \<Rightarrow> int \<Rightarrow> ('s, StreamFlags \<times> int) act" where
  "unrollHeader E L ra pos =
     abind (read_block E ra (pos - int (STREAM_HEADER_SIZE L)) (STREAM_HEADER_SIZE L)) (\<lambda>buf.
     let (err, flags) = HeaderDecode L NewStreamFlags buf in
     athen (aPanic E err) (aret (flags, pos - int (STREAM_HEADER_SIZE L))))"

text \<open>The index is decoded without a writer; a decoder that could not be made is a nil stream.\<close>

definition unrollIndex ::
  "errs \<Rightarrow> 'p bufpipe \<Rightarrow> ('z, 'x) liblzma \<Rightarrow> reader_at \<Rightarrow> int \<Rightarrow> int \<Rightarrow> ('s, 'x option \<times> int) act" where
  "unrollIndex E B L ra pos sz =
     (let ((stream, err), index) = Index_NewStreamDecoder L B None maxMemory in
      athen (aPanic E err)
      (case stream of
         None \<Rightarrow> alift (Pan PRuntime)
       | Some z \<Rightarrow>
           (\<lambda>s. case Process B L FINISH (None :: unit io_write option) (Some (section_read ra)) z
                        (pos - sz, pos - sz + sz) () of
              None \<Rightarrow> None
            | Some ((_, _, err), z, _, _) \<Rightarrow>
                athen (aPanic E err)
                (athen (aAssert E (GetTotalIn z = sz) (Some formatError))
                 (aret (decoded_index L z, pos - sz))) s)))"

definition prevStreamIndex ::
  "errs \<Rightarrow> 'p bufpipe \<Rightarrow> ('z, 'x) liblzma \<Rightarrow> reader_at \<Rightarrow> int \<Rightarrow> ('s, 'x option \<times> int) act" where
  "prevStreamIndex E B L ra pos =
     abind (unrollPadding E ra pos) (\<lambda>(padding, pos).
     abind (unrollFooter E L ra pos) (\<lambda>(ftrFlags, pos).
     abind (unrollIndex E B L ra pos (GetBackwardSize ftrFlags)) (\<lambda>(index, pos).
     let pos = pos - Index_TotalSize L index in
     abind (unrollHeader E L ra pos) (\<lambda>(hdrFlags, pos).
     athen (aPanic E (Flags_Compare L hdrFlags ftrFlags))
     (let (err, index) = Index_StreamFlags L index ftrFlags in
      athen (aPanic E err)
      (let (err, index) = StreamPadding L index padding in
       athen (aPanic E err) (aret (index, pos))))))))"

text \<open>
  The loop over the streams; its state is the named result \<open>index\<close> (a possibly nil \<open>*Index\<close>), which
  keeps the streams read so far when an error is recovered.
\<close>

definition decodeIndex_step ::
  "errs \<Rightarrow> 'p bufpipe \<Rightarrow> ('z, 'x) liblzma \<Rightarrow> reader_at \<Rightarrow> int \<Rightarrow> ('x option option, int) act" where
  "decodeIndex_step E B L ra pos =
     abind (prevStreamIndex E B L ra pos) (\<lambda>(preIndex, pos).
     abind (aget (\<lambda>index. index)) (\<lambda>index.
     case index of
       None \<Rightarrow> athen (amod (\<lambda>_. Some preIndex)) (aret pos)
     | Some ix \<Rightarrow>
         (case Cat L preIndex ix of (err, preIndex, _) \<Rightarrow>
          athen (aPanic E err) (athen (amod (\<lambda>_. Some preIndex)) (aret pos)))))"

partial_function (option) decodeIndex_loop ::
  "errs \<Rightarrow> 'p bufpipe \<Rightarrow> ('z, 'x) liblzma \<Rightarrow> reader_at \<Rightarrow> int \<Rightarrow> 'x option option \<Rightarrow>
   (unit go \<times> 'x option option) option" where
  "decodeIndex_loop E B L ra pos index =
     (if pos > 0 then
        (case decodeIndex_step E B L ra pos index of
           None \<Rightarrow> None
         | Some (r, index) \<Rightarrow>
             (case r of
                Pan p \<Rightarrow> Some (Pan p, index)
              | Ret pos \<Rightarrow> decodeIndex_loop E B L ra pos index))
      else Some (Ret (), index))"

definition decodeIndex ::
  "errs \<Rightarrow> 'p bufpipe \<Rightarrow> ('z, 'x) liblzma \<Rightarrow> reader_at \<Rightarrow> int \<Rightarrow> ('x option option \<times> goerr option) go option" where
  "decodeIndex E B L ra pos =
     map_option fst
       (arecover E (\<lambda>e index. (index, e))
         (abind (decodeIndex_loop E B L ra pos) (\<lambda>_. aget (\<lambda>index. (index, None)))) None)"

section \<open>Padding\<close>

text \<open>
  The bytes of a file as an \<open>io.ReaderAt\<close>: a negative offset is an error, a short read reports \<open>EOF\<close>.
\<close>

definition file_at :: "bytes \<Rightarrow> reader_at" where
  "file_at f off n =
     (if off < 0 then ([], Some (OtherErr ''negative offset''))
      else let bs = take n (drop (nat off) f) in (bs, if length bs < n then Some EOF else None))"

text \<open>How many groups of four zero bytes end a sequence whose length is a multiple of four.\<close>

fun zero_groups :: "bytes \<Rightarrow> nat" where
  "zero_groups (a # b # c # d # r) = (if [a, b, c, d] = padZeros then Suc (zero_groups r) else 0)"
| "zero_groups _ = 0"

lemma read_block_file:
  assumes "errs_ok E" and "0 \<le> off" and "nat off + n \<le> length f"
  shows "read_block E (file_at f) off n s = Some (Ret (take n (drop (nat off) f)), s)"
  using assms by (simp add: read_block_def file_at_def Let_def golib_laws)

lemma zero_groups_step:
  "4 \<le> length r \<Longrightarrow> zero_groups r = (if take 4 r = padZeros then Suc (zero_groups (drop 4 r)) else 0)"
  by (cases r rule: zero_groups.cases) (simp_all add: eval_nat_numeral)

lemma zero_groups_short: "length r < 4 \<Longrightarrow> zero_groups r = 0"
  by (cases r rule: zero_groups.cases) simp_all

lemma unrollPadding_loop_file:
  assumes E: "errs_ok E" and pos: "pos \<le> length f" and r: "r = rev (take pos f)"
  shows "4 * j \<le> pos \<Longrightarrow> unrollPadding_loop E (file_at f) (int pos) (int (4 * j)) s =
     (let k = j + zero_groups (drop (4 * j) r) in
      if 4 * k + 4 \<le> pos then Some (Ret (int (4 * k)), s)
      else Some (Pan (PErr (Some (OtherErr ''negative offset''))), s))"
proof (induction "pos - 4 * j" arbitrary: j rule: less_induct)
  case less
  have lr: "length r = pos" using pos r by simp
  have pad: "length padZeros = 4" "rev padZeros = padZeros" by (simp_all add: padZeros_def)
  show ?case
  proof (cases "4 * j + 4 \<le> pos")
    case False
    then have "zero_groups (drop (4 * j) r) = 0" using lr by (intro zero_groups_short) simp
    with False E show ?thesis
      by (subst unrollPadding_loop.simps) (simp add: read_block_def file_at_def pad golib_laws)
  next
    case True
    let ?off = "pos - 4 * j - 4"
    have off: "int pos - int (4 * j) - 4 = int ?off" using True by simp
    have bs: "rev (take 4 (drop ?off f)) = take 4 (drop (4 * j) r)"
    proof -
      have "drop (4 * j) r = rev (take (pos - 4 * j) f)"
        using pos less.prems by (simp add: r drop_rev)
      moreover have "take (pos - 4 * j) f = take ?off f @ take 4 (drop ?off f)"
        using True by (simp add: take_add [symmetric])
      ultimately show ?thesis using pos True by simp
    qed
    have rb: "read_block E (file_at f) (int pos - int (4 * j) - 4) 4 s = Some (Ret (take 4 (drop ?off f)), s)"
      using read_block_file [OF E, of "int ?off" 4 f s] pos True unfolding off nat_int by simp
    have z: "take 4 (drop ?off f) = padZeros \<longleftrightarrow> take 4 (drop (4 * j) r) = padZeros"
      using bs pad(2) by (metis rev_rev_ident)
    have step: "unrollPadding_loop E (file_at f) (int pos) (int (4 * j)) s =
        (if take 4 (drop (4 * j) r) = padZeros
         then unrollPadding_loop E (file_at f) (int pos) (int (4 * (j + 1))) s else Some (Ret (int (4 * j)), s))"
      by (subst unrollPadding_loop.simps) (simp only: pad(1) of_nat_numeral rb option.case prod.case go.case z
          distrib_left of_nat_add mult_1_right)
    have zg: "zero_groups (drop (4 * j) r) =
        (if take 4 (drop (4 * j) r) = padZeros then Suc (zero_groups (drop (4 * (j + 1)) r)) else 0)"
      using True lr by (subst zero_groups_step) (simp_all add: add.commute)
    have "pos - 4 * (j + 1) < pos - 4 * j" "4 * (j + 1) \<le> pos" using True by simp_all
    from less.hyps [OF this] step zg True show ?thesis by (auto simp: Let_def)
  qed
qed

text \<open>
  C39: Stream padding is measured exactly. On a file whose first \<open>pos\<close> bytes exist, \<open>unrollPadding\<close>
  counts the groups of four zero bytes directly in front of \<open>pos\<close>, as many as there are, and
  returns their size and the position in front of them; if no group that is not zero is left
  before the start of the file, the read in front of the file fails and its error is reported.
\<close>

theorem unrollPadding_correct:
  assumes "errs_ok E" and "pos \<le> length f"
  shows "unrollPadding E (file_at f) (int pos) s =
     (let k = zero_groups (rev (take pos f)) in
      if 4 * k + 4 \<le> pos then Some (Ret (int (4 * k), int pos - int (4 * k)), s)
      else Some (Pan (PErr (Some (OtherErr ''negative offset''))), s))"
  using unrollPadding_loop_file [OF assms refl, of 0 s] by (simp add: unrollPadding_def Let_def abind_def)

theorem unrollPadding_correct_witness:
  "unrollPadding errs_std (file_at [1, 2, 3, 4, 5, 0, 0, 0, 0, 0, 0, 0, 0]) 13 () = Some (Ret (8, 5), ())"
  using unrollPadding_correct [OF errs_ok_std, of 13 "[1, 2, 3, 4, 5, 0, 0, 0, 0, 0, 0, 0, 0]" "()"]
  by (simp add: padZeros_def Let_def)

section \<open>Decoding the index\<close>

lemma unrollIndex_fails:
  assumes "errs_ok E"
  shows "unrollIndex E B L ra pos sz s \<noteq> Some (Ret x, s')"
proof
  assume run: "unrollIndex E B L ra pos sz s = Some (Ret x, s')"
  show False
  proof (rule new_coder_cases [of "c_index_decoder L maxMemory" L B])
    fix c
    assume "new_coder L B (c_index_decoder L maxMemory) = (Some ((NewStream L B)\<lparr>st_coder := c\<rparr>), None)"
    with run assms obtain oc ic z st w where
      "Process B L FINISH (None :: unit io_write option) (Some (section_read ra)) ((NewStream L B)\<lparr>st_coder := c\<rparr>)
         (pos - sz, pos) () = Some ((oc, ic, None), z, st, w)"
      by (auto simp: unrollIndex_def Index_NewStreamDecoder_def Let_def split: option.splits if_splits)
    from Process_nil_aux [OF this] show False by simp
  next
    fix r c
    assume "new_coder L B (c_index_decoder L maxMemory) = (None, Some (LibErr r))"
    with run assms show False by (simp add: unrollIndex_def Index_NewStreamDecoder_def Let_def)
  qed
qed

lemma prevStreamIndex_fails:
  assumes "errs_ok E"
  shows "prevStreamIndex E B L ra pos s \<noteq> Some (Ret x, s')"
  by (auto simp: prevStreamIndex_def abind_Ret unrollIndex_fails [OF assms] simp del: abind_simps split: prod.splits)

lemma honest_read_block:
  assumes "errs_ok E"
  shows "honest (read_block E ra off n)"
  by (auto simp: read_block_def Let_def split: prod.split intro!: honest_intros honest_errs [OF assms])

lemma unrollPadding_honest:
  assumes "unrollPadding_loop E ra pos padding s = Some y"
  shows "errs_ok E \<longrightarrow> fst y = Pan p \<longrightarrow> (\<exists>e. p = PErr (Some e))"
proof (rule unrollPadding_loop.raw_induct [OF _ assms], intro impI, goal_cases)
  case (1 f E ra pos padding s y)
  let ?rb = "read_block E ra (pos - padding - int (length padZeros)) (length padZeros) s"
  from 1(2) obtain r s1 where rb: "?rb = Some (r, s1)" by (auto split: option.splits)
  show ?case
  proof (cases r)
    case (Pan q)
    with honestD [OF honest_read_block [OF 1(3)]] rb 1(2,4) show ?thesis by auto
  next
    case (Ret buf)
    with rb 1(2,4) 1(1) 1(3) show ?thesis by (auto split: if_splits)
  qed
qed

lemma honest_unroll:
  assumes "errs_ok E"
  shows "honest (unrollPadding E ra pos)" "honest (unrollFooter E L ra pos)"
    "honest (unrollHeader E L ra pos)" "honest (unrollIndex E B L ra pos sz)"
proof -
  note rb = honest_read_block [OF assms]
  have "honest (unrollPadding_loop E ra pos 0)"
    by (rule honestI) (use unrollPadding_honest assms in fastforce)
  then show "honest (unrollPadding E ra pos)" by (auto simp: unrollPadding_def intro!: honest_intros)
  show "honest (unrollFooter E L ra pos)"
    by (auto simp: unrollFooter_def Let_def split: prod.split intro!: honest_intros rb honest_errs [OF assms])
  show "honest (unrollHeader E L ra pos)"
    by (auto simp: unrollHeader_def Let_def split: prod.split intro!: honest_intros rb honest_errs [OF assms])
  show "honest (unrollIndex E B L ra pos sz)"
    by (rule new_coder_cases [of "c_index_decoder L maxMemory" L B]; rule honestI)
       (use assms in \<open>auto simp: unrollIndex_def Index_NewStreamDecoder_def Let_def split: prod.splits option.splits if_splits\<close>)
qed

lemma honest_prevStreamIndex: "errs_ok E \<Longrightarrow> honest (prevStreamIndex E B L ra pos)"
  by (auto simp: prevStreamIndex_def Let_def split: prod.split
      intro!: honest_intros honest_unroll honest_errs)

lemma decodeIndex_loop_fails:
  assumes E: "errs_ok E" and pos: "0 < pos" and run: "decodeIndex_loop E B L ra pos s = Some (r, s')"
  shows "\<exists>e. r = Pan (PErr (Some e))"
proof -
  have h: "honest (decodeIndex_step E B L ra pos)"
    using E by (auto simp: decodeIndex_step_def split: prod.split option.split
        intro!: honest_intros honest_prevStreamIndex honest_errs)
  have f: "decodeIndex_step E B L ra pos s \<noteq> Some (Ret x, s2)" for x s2
    by (auto simp: decodeIndex_step_def abind_Ret prevStreamIndex_fails [OF E] simp del: abind_simps)
  from run pos have "(case decodeIndex_step E B L ra pos s of None \<Rightarrow> None
         | Some (q, index) \<Rightarrow>
             (case q of Pan p \<Rightarrow> Some (Pan p, index) | Ret pos \<Rightarrow> decodeIndex_loop E B L ra pos index)) = Some (r, s')"
    by (subst (asm) decodeIndex_loop.simps) simp
  with f honestD [OF h] show ?thesis by (auto split: option.splits prod.splits go.splits)
qed

text \<open>
  C40: \<open>decodeIndex\<close> never succeeds on a file that is not empty. For every position after the start of
  the file, every file contents and every behaviour of liblzma, a call that returns reports an
  error, because \<open>unrollIndex\<close> panics with whatever \<open>Process\<close> returns, and \<open>Process\<close> never returns
  nil: even a completely decoded index is reported as the error \<open>STREAM_END\<close>. At position 0 there
  is no index and no error.
\<close>

theorem decodeIndex_never_succeeds:
  assumes "errs_ok E"
  shows "decodeIndex E B L ra 0 = Some (Ret (None, None)) \<and>
    (0 < pos \<longrightarrow> decodeIndex E B L ra pos = Some (Ret (index, err)) \<longrightarrow> err \<noteq> None)"
proof -
  have "decodeIndex E B L ra 0 = Some (Ret (None, None))"
    by (simp add: decodeIndex_def arecover_def abind_def decodeIndex_loop.simps)
  moreover have "err \<noteq> None" if pos: "0 < pos" and run: "decodeIndex E B L ra pos = Some (Ret (index, err))"
  proof -
    from run obtain r s' where l: "decodeIndex_loop E B L ra pos None = Some (r, s')"
      by (auto simp: decodeIndex_def arecover_def abind_def split: option.splits)
    from decodeIndex_loop_fails [OF assms pos l] obtain e where "r = Pan (PErr (Some e))" by blast
    with run l assms show ?thesis by (auto simp: decodeIndex_def arecover_def abind_def golib_laws)
  qed
  ultimately show ?thesis by blast
qed

theorem decodeIndex_never_succeeds_witness:
  "decodeIndex errs_std line_pipe store_lzma (file_at []) 5 = Some (Ret (None, Some ErrUnexpectedEOF)) \<and>
   (Some ErrUnexpectedEOF :: goerr option) \<noteq> None"
proof -
  have "unrollPadding errs_std (file_at []) 5 (None :: (64 word \<times> 64 word) list option option) =
      Some (Pan (PErr (Some ErrUnexpectedEOF)), None)"
    by (simp add: unrollPadding_def abind_def unrollPadding_loop.simps read_block_def file_at_def padZeros_def
        abind_aPanic [OF errs_ok_std] errs_okD [OF errs_ok_std])
  then have "decodeIndex errs_std line_pipe store_lzma (file_at []) 5 = Some (Ret (None, Some ErrUnexpectedEOF))"
    by (simp add: decodeIndex_def arecover_def abind_def decodeIndex_loop.simps decodeIndex_step_def
        prevStreamIndex_def errs_okD [OF errs_ok_std])
  with decodeIndex_never_succeeds [OF errs_ok_std, of line_pipe store_lzma "file_at []" 5 None "Some ErrUnexpectedEOF"]
  show ?thesis by simp
qed

end
