(* ===== verification/Ioutil.thy ===== *)
theory Ioutil
  imports Lib_Stream_Props
begin

text \<open>
  Package \<open>golib/ioutil\<close>, a third-party package whose source is not part of the repository: readers
  and writers over a byte slice, and the size of a file. \<open>iu_Read\<close> and \<open>iu_Write\<close> are the methods of
  the objects \<open>NewReader(data)\<close> and \<open>NewWriter(buf)\<close>; \<open>iu_Stored\<close> are the bytes stored into \<open>buf\<close>.
\<close>

record ('v, 'u) ioutil =
  iu_NewReader :: "bytes \<Rightarrow> 'v"
  iu_Read :: "'v io_read"
  iu_NewWriter :: "nat \<Rightarrow> 'u"
  iu_Write :: "'u io_write"
  iu_Stored :: "'u \<Rightarrow> bytes"

text \<open>
  The reader delivers the slice and then reports \<open>EOF\<close> (and no other error); the writer stores what
  fits and reports \<open>ErrShortWrite\<close> (and no other error) when not everything does.
\<close>

definition ioutil_ok :: "('v, 'u) ioutil \<Rightarrow> ('v \<Rightarrow> bytes) \<Rightarrow> bool" where
  "ioutil_ok U left \<longleftrightarrow>
     reads_from (Some (iu_Read U)) left \<and> reader_live (Some (iu_Read U)) \<and>
     (\<forall>data. left (iu_NewReader U data) = data) \<and>
     (\<forall>s n bs e s'. iu_Read U s n = ((bs, Some e), s') \<longrightarrow> e = EOF \<and> left s' = []) \<and>
     writes_to (Some (iu_Write U)) (iu_Stored U) \<and> (\<forall>n. iu_Stored U (iu_NewWriter U n) = []) \<and>
     (\<forall>w buf k e w'. iu_Write U w buf = ((k, Some e), w') \<longrightarrow> e = ErrShortWrite)"

lemma ioutil_okD:
  assumes "ioutil_ok U left"
  shows "reads_from (Some (iu_Read U)) left" "reader_live (Some (iu_Read U))" "left (iu_NewReader U data) = data"
    "iu_Read U s n = ((bs, Some e), s') \<Longrightarrow> e = EOF \<and> left s' = []"
    "writes_to (Some (iu_Write U)) (iu_Stored U)" "iu_Stored U (iu_NewWriter U m) = []"
    "iu_Write U w buf = ((k, Some e), w') \<Longrightarrow> e = ErrShortWrite"
  using assms unfolding ioutil_ok_def by blast+

text \<open>An executable instance: a reader is what is left, a writer the bytes stored and the room.\<close>

definition list_ioutil :: "(bytes, bytes \<times> nat) ioutil" where
  "list_ioutil = \<lparr>iu_NewReader = id, iu_Read = list_read, iu_NewWriter = (\<lambda>n. ([], n)),
     iu_Write = (\<lambda>w buf. ((int (length (take (snd w) buf)),
         if snd w < length buf then Some ErrShortWrite else None),
        (fst w @ take (snd w) buf, snd w - length buf))),
     iu_Stored = fst\<rparr>"

lemma list_ioutil_ok: "ioutil_ok list_ioutil id"
proof -
  have "reads_from (Some (iu_Read list_ioutil)) id" "reader_live (Some (iu_Read list_ioutil))"
    using list_io(1,2) by (simp_all add: list_ioutil_def)
  moreover have "writes_to (Some (iu_Write list_ioutil)) (iu_Stored list_ioutil)"
    by (auto simp: writes_to_def list_ioutil_def split: if_splits)
  ultimately show ?thesis
    by (auto simp: ioutil_ok_def) (auto simp: list_ioutil_def list_read_def split: if_splits)
qed

end
