(* ===== verification/Lzma_RW.thy ===== *)
theory Lzma_RW
  imports Ioutil
begin

text \<open>
  Package \<open>lzma\<close>: a reader and a writer of the LZMA-alone format (\<open>lzma/reader.go\<close>, \<open>lzma/writer.go\<close>)
  around one stream. The underlying \<open>io.Reader\<close> and \<open>io.Writer\<close> of the caller are the functions \<open>rd\<close>
  and \<open>wr\<close> with their states. A call that does not return is \<open>None\<close>.
\<close>

definition lzma_maxMemory :: "64 word" where
  "lzma_maxMemory = - 1"

section \<open>The reader\<close>

record ('z, 'p, 's) lzma_reader =
  lr_Stream :: "('z, 'p) Stream"
  lr_rd :: 's
  lr_closed :: bool

definition lzma_NewReader ::
  "('z, 'x) liblzma \<Rightarrow> 'p bufpipe \<Rightarrow> 's \<Rightarrow> ('z, 'p, 's) lzma_reader option \<times> goerr option" where
  "lzma_NewReader L B s =
     (let (stream, err) = NewStreamLZMAAloneDecoder L B lzma_maxMemory
      in if err \<noteq> None then (None, err)
         else (map_option (\<lambda>z. \<lparr>lr_Stream = z, lr_rd = s, lr_closed = False\<rparr>) stream, None))"

text \<open>
  \<open>Read\<close> of \<open>n\<close> bytes: its count and error, the bytes stored into the caller's slice, and the reader.
\<close>

definition lzma_Read ::
  "errs \<Rightarrow> ('v, 'u) ioutil \<Rightarrow> 'p bufpipe \<Rightarrow> ('z, 'x) liblzma \<Rightarrow> 's io_read \<Rightarrow> nat \<Rightarrow> ('z, 'p, 's) lzma_reader \<Rightarrow>
   (((int \<times> goerr option) \<times> bytes) \<times> ('z, 'p, 's) lzma_reader) option" where
  "lzma_Read E U B L rd n r =
     (if lr_closed r then Some (((0, Some ErrClosedPipe), []), r)
      else
        case Process B L RUN (Some (iu_Write U)) (Some rd) (lr_Stream r) (lr_rd r) (iu_NewWriter U n) of
          None \<Rightarrow> None
        | Some ((rdCnt, _, err), z, s, u) \<Rightarrow>
            let r = r\<lparr>lr_Stream := z, lr_rd := s\<rparr>;
                err = errs_Ignore E err [ErrShortWrite];
                err = errs_Convert E err (Some ErrUnexpectedEOF) [EOF];
                err = errs_Convert E err (Some EOF) [streamEnd]
            in if err = Some EOF then
                 (if bp_Length B (snd (GetBuffers z)) \<noteq> 0
                  then Some (((rdCnt, Some dataError), iu_Stored U u), r)
                  else let ((_, e), s) = rd s 1; r = r\<lparr>lr_rd := s\<rparr>
                       in if e \<noteq> Some EOF then Some (((rdCnt, Some dataError), iu_Stored U u), r)
                          else Some (((rdCnt, err), iu_Stored U u), r))
               else Some (((rdCnt, err), iu_Stored U u), r))"

definition lzma_reader_Close ::
  "('z, 'x) liblzma \<Rightarrow> ('z, 'p, 's) lzma_reader \<Rightarrow> goerr option \<times> ('z, 'p, 's) lzma_reader" where
  "lzma_reader_Close L r =
     (if lr_closed r then (None, r)
      else (None, r\<lparr>lr_closed := True, lr_Stream := End L (lr_Stream r)\<rparr>))"

section \<open>The writer\<close>

record ('z, 'p, 'w) lzma_writer =
  lw_Stream :: "('z, 'p) Stream"
  lw_wr :: 'w
  lw_closed :: bool

definition lzma_NewWriterLevel ::
  "('z, 'x) liblzma \<Rightarrow> 'p bufpipe \<Rightarrow> 'w \<Rightarrow> int \<Rightarrow> ('z, 'p, 'w) lzma_writer option \<times> goerr option" where
  "lzma_NewWriterLevel L B w level =
     (let (opts, err) = NewOptionsLZMA L level
      in if err \<noteq> None then (None, err)
         else
           let (stream, err) = NewStreamLZMAAloneEncoder L B opts
           in if err \<noteq> None then (None, err)
              else (map_option (\<lambda>z. \<lparr>lw_Stream = z, lw_wr = w, lw_closed = False\<rparr>) stream, None))"

definition lzma_NewWriter ::
  "('z, 'x) liblzma \<Rightarrow> 'p bufpipe \<Rightarrow> 'w \<Rightarrow> ('z, 'p, 'w) lzma_writer option \<times> goerr option" where
  "lzma_NewWriter L B w = lzma_NewWriterLevel L B w (PRESET_DEFAULT L)"

definition lzma_Write ::
  "errs \<Rightarrow> ('v, 'u) ioutil \<Rightarrow> 'p bufpipe \<Rightarrow> ('z, 'x) liblzma \<Rightarrow> 'w io_write \<Rightarrow> bytes \<Rightarrow> ('z, 'p, 'w) lzma_writer \<Rightarrow>
   ((int \<times> goerr option) \<times> ('z, 'p, 'w) lzma_writer) option" where
  "lzma_Write E U B L wr data x =
     (if lw_closed x then Some ((0, Some ErrClosedPipe), x)
      else
        case Process B L RUN (Some wr) (Some (iu_Read U)) (lw_Stream x) (iu_NewReader U data) (lw_wr x) of
          None \<Rightarrow> None
        | Some ((_, rdCnt, err), z, _, w) \<Rightarrow>
            Some ((rdCnt, errs_Ignore E err [EOF]), x\<lparr>lw_Stream := z, lw_wr := w\<rparr>))"

definition lzma_writer_Close ::
  "errs \<Rightarrow> 'p bufpipe \<Rightarrow> ('z, 'x) liblzma \<Rightarrow> 'w io_write \<Rightarrow> ('z, 'p, 'w) lzma_writer \<Rightarrow>
   (goerr option \<times> ('z, 'p, 'w) lzma_writer) option" where
  "lzma_writer_Close E B L wr x =
     (if lw_closed x then Some (None, x)
      else
        let x = x\<lparr>lw_closed := True\<rparr> in
        case Process B L FINISH (Some wr) (None :: unit io_read option) (lw_Stream x) () (lw_wr x) of
          None \<Rightarrow> None
        | Some ((_, _, err), z, _, w) \<Rightarrow>
            Some (errs_Ignore E err [streamEnd], x\<lparr>lw_Stream := End L z, lw_wr := w\<rparr>))"

section \<open>Closing\<close>

interpretation lzma_rd: closable lr_closed "\<lambda>r e r'. lzma_reader_Close L r = (e, r')"
  "\<lambda>n r res r'. lzma_Read E U B L rd n r = Some (res, r')" None "\<lambda>_. ((0, Some ErrClosedPipe), [])"
  for L E U B rd
  by unfold_locales (auto simp: lzma_reader_Close_def lzma_Read_def split: if_splits)

interpretation lzma_wr: closable lw_closed "\<lambda>x e x'. lzma_writer_Close E B L wr x = Some (e, x')"
  "\<lambda>data x res x'. lzma_Write E U B L wr data x = Some (res, x')" None "\<lambda>_. (0, Some ErrClosedPipe)"
  for E U B L wr
  by unfold_locales (auto simp: lzma_writer_Close_def lzma_Write_def Let_def split: if_splits option.splits)

section \<open>What the writer writes\<close>

text \<open>A writer between two calls: nothing waits in its buffers.\<close>

definition lzma_writer_idle :: "('p \<Rightarrow> bool) \<Rightarrow> ('p \<Rightarrow> bytes) \<Rightarrow> ('z, 'p, 'w) lzma_writer \<Rightarrow> bool" where
  "lzma_writer_idle good view x \<longleftrightarrow>
     good (st_inBuf (lw_Stream x)) \<and> good (st_outBuf (lw_Stream x)) \<and>
     view (st_inBuf (lw_Stream x)) = [] \<and> view (st_outBuf (lw_Stream x)) = [] \<and> \<not> lw_closed x"

text \<open>\<open>io.EOF\<close> is what a \<open>Read\<close> reports at the end of its input; a writer does not return it.\<close>

definition no_eof :: "'w io_write \<Rightarrow> bool" where
  "no_eof wr \<longleftrightarrow> (\<forall>w buf k w'. wr w buf \<noteq> ((k, Some EOF), w'))"

lemma write_error_no_eof: "no_eof wr \<Longrightarrow> \<not> write_error (Some wr) w (Some EOF)"
  by (auto simp: no_eof_def write_error_def)

lemma lzma_Write_ok:
  assumes E: "errs_ok E" and U: "ioutil_ok U left" and q: "pipe_queue B good view" and laws: "lzma_code_laws L"
    and wr: "writes_to (Some wr) got" "no_eof wr" and x: "lzma_writer_idle good view x"
    and run: "lzma_Write E U B L wr data x = Some ((cnt, None), x')"
  shows "cnt = int (length data)" and "lzma_writer_idle good view x'"
    and "\<exists>out. coder_run L RUN (st_coder (lw_Stream x)) data out (st_coder (lw_Stream x')) \<and>
      got (lw_wr x') = got (lw_wr x) @ out"
proof -
  from x have xi: "\<not> lw_closed x" "good (st_inBuf (lw_Stream x))" "good (st_outBuf (lw_Stream x))"
    "view (st_inBuf (lw_Stream x)) = []" "view (st_outBuf (lw_Stream x)) = []" by (simp_all add: lzma_writer_idle_def)
  from run xi(1) obtain oc err z s w where
    p: "Process B L RUN (Some wr) (Some (iu_Read U)) (lw_Stream x) (iu_NewReader U data) (lw_wr x) = Some ((oc, cnt, err), z, s, w)"
      "errs_Ignore E err [EOF] = None" "x' = x\<lparr>lw_Stream := z, lw_wr := w\<rparr>"
    by (auto simp: lzma_Write_def split: option.splits)
  from Process_post [OF p(1) _ q laws ioutil_okD(1) [OF U] wr(1) xi(2,3)]
  have post: "process_post B L RUN good view left got (Some wr) (Some (iu_Read U)) (lw_Stream x) (iu_NewReader U data) (lw_wr x)
      0 0 cnt oc err z s w" by simp
  then have "err \<noteq> None" by (simp add: process_post_def)
  with p(2) have err: "err = Some EOF" using E by (cases err) (auto simp: golib_laws split: if_splits)
  with post have v: "view (st_outBuf z) = []" "view (st_inBuf z) = []" "read_error (Some (iu_Read U)) s (Some EOF)"
    using write_error_no_eof [OF wr(2)] by (auto simp: process_post_def code_error_def)
  then have l: "left s = []" using ioutil_okD(4) [OF U] by (auto simp: read_error_def)
  have g: "good (st_inBuf z)" "good (st_outBuf z)" using post by (simp_all add: process_post_def)
  show "cnt = int (length data)" using post l ioutil_okD(3) [OF U] by (simp add: process_post_def)
  show "lzma_writer_idle good view x'" using g v xi(1) p(3) by (simp add: lzma_writer_idle_def)
  show "\<exists>out. coder_run L RUN (st_coder (lw_Stream x)) data out (st_coder (lw_Stream x')) \<and>
      got (lw_wr x') = got (lw_wr x) @ out"
    using post v l xi(4,5) ioutil_okD(3) [OF U] p(3) unfolding process_post_def pumped_def prod.case by auto
qed

text \<open>A sequence of successful writes.\<close>

fun lzma_writes ::
  "errs \<Rightarrow> ('v, 'u) ioutil \<Rightarrow> 'p bufpipe \<Rightarrow> ('z, 'x) liblzma \<Rightarrow> 'w io_write \<Rightarrow> bytes list \<Rightarrow> ('z, 'p, 'w) lzma_writer \<Rightarrow>
   ('z, 'p, 'w) lzma_writer option" where
  "lzma_writes E U B L wr [] x = Some x"
| "lzma_writes E U B L wr (d # ds) x =
     (case lzma_Write E U B L wr d x of
        Some ((_, None), x) \<Rightarrow> lzma_writes E U B L wr ds x
      | _ \<Rightarrow> None)"

lemma lzma_writes_ok:
  assumes E: "errs_ok E" and U: "ioutil_ok U left" and q: "pipe_queue B good view" and laws: "lzma_code_laws L"
    and wr: "writes_to (Some wr) got" "no_eof wr"
  shows "lzma_writer_idle good view x \<Longrightarrow> lzma_writes E U B L wr ds x = Some x' \<Longrightarrow>
    lzma_writer_idle good view x' \<and>
    (\<exists>out. coder_run L RUN (st_coder (lw_Stream x)) (concat ds) out (st_coder (lw_Stream x')) \<and>
      got (lw_wr x') = got (lw_wr x) @ out)"
proof (induction ds arbitrary: x)
  case Nil
  then show ?case by (auto intro: coder_run.idle)
next
  case (Cons d ds)
  from Cons.prems(2) obtain cnt x1 where w: "lzma_Write E U B L wr d x = Some ((cnt, None), x1)"
    "lzma_writes E U B L wr ds x1 = Some x'"
    by (auto split: option.splits prod.splits)
  note k = lzma_Write_ok [OF E U q laws wr Cons.prems(1) w(1)]
  from k(3) obtain out where o: "coder_run L RUN (st_coder (lw_Stream x)) d out (st_coder (lw_Stream x1))"
    "got (lw_wr x1) = got (lw_wr x) @ out" by blast
  from Cons.IH [OF k(2) w(2)] obtain out' where o':
    "coder_run L RUN (st_coder (lw_Stream x1)) (concat ds) out' (st_coder (lw_Stream x'))"
    "got (lw_wr x') = got (lw_wr x1) @ out'" "lzma_writer_idle good view x'" by blast
  with coder_run_trans [OF o(1) o'(1)] o(2) show ?case by auto
qed

lemma lzma_writer_Close_ok:
  assumes E: "errs_ok E" and q: "pipe_queue B good view" and laws: "lzma_code_laws L"
    and wr: "writes_to (Some wr) got" and x: "lzma_writer_idle good view x"
    and run: "lzma_writer_Close E B L wr x = Some (None, x')"
    and lib: "\<And>w buf k w'. wr w buf \<noteq> ((k, Some streamEnd), w')"
  shows "\<exists>out z. coder_run L FINISH (st_coder (lw_Stream x)) [] out (st_coder z) \<and>
     code_error L FINISH (st_coder z) (Some streamEnd) \<and> got (lw_wr x') = got (lw_wr x) @ out \<and> lw_Stream x' = End L z \<and> lw_closed x'"
proof -
  from x have xi: "\<not> lw_closed x" "good (st_inBuf (lw_Stream x))" "good (st_outBuf (lw_Stream x))"
    "view (st_inBuf (lw_Stream x)) = []" "view (st_outBuf (lw_Stream x)) = []" by (simp_all add: lzma_writer_idle_def)
  from run xi(1) obtain oc ic err z s w where
    p: "Process B L FINISH (Some wr) (None :: unit io_read option) (lw_Stream x) () (lw_wr x) = Some ((oc, ic, err), z, s, w)"
      "errs_Ignore E err [streamEnd] = None" "x' = x\<lparr>lw_closed := True, lw_Stream := End L z, lw_wr := w\<rparr>"
    by (auto simp: lzma_writer_Close_def Let_def split: option.splits)
  from Process_post [OF p(1) _ q laws _ wr xi(2,3), of "\<lambda>_. []"]
  have post: "process_post B L FINISH good view (\<lambda>_. []) got (Some wr) (None :: unit io_read option) (lw_Stream x) () (lw_wr x)
      0 0 ic oc err z s w" by (simp add: reads_from_def)
  then have "err \<noteq> None" by (simp add: process_post_def)
  with p(2) have "err = Some streamEnd" using E by (cases err) (auto simp: golib_laws split: if_splits)
  with post lib have v: "view (st_outBuf z) = []" "code_error L FINISH (st_coder z) (Some streamEnd)"
    by (auto simp: process_post_def write_error_def read_error_def)
  from post obtain inp out where "coder_run L FINISH (st_coder (lw_Stream x)) inp out (st_coder z)"
    "[] = inp @ view (st_inBuf z)" "got w = got (lw_wr x) @ out"
    using v xi(4,5) unfolding process_post_def pumped_def prod.case by auto
  then show ?thesis using p(3) v(2) by auto
qed

text \<open>
  C15: Write after write, the LZMA writer hands its coder exactly the concatenation of the data it was
  given, however the data was cut, and the underlying writer has got exactly what the coder
  produced for it, followed by what the coder produces on \<open>FINISH\<close> when the writer is closed, up to
  the end of the stream.
\<close>

theorem lzma_writer_complete:
  assumes "errs_ok E" and "ioutil_ok U left" and "pipe_queue B good view" and "lzma_code_laws L"
    and "writes_to (Some wr) got" and "no_eof wr" and "\<And>w buf k w'. wr w buf \<noteq> ((k, Some streamEnd), w')"
    and "lzma_NewWriterLevel L B w level = (Some x0, None)" and "lzma_writes E U B L wr ds x0 = Some x1"
    and "lzma_writer_Close E B L wr x1 = Some (None, x2)"
  shows "\<exists>c out1 c' out2 c''. c_alone_encoder L (fst (NewOptionsLZMA L level)) = (OK, c) \<and>
    coder_run L RUN c (concat ds) out1 c' \<and> coder_run L FINISH c' [] out2 c'' \<and>
    code_error L FINISH c'' (Some streamEnd) \<and> got (lw_wr x2) = got w @ out1 @ out2"
proof -
  obtain opts c where o: "NewOptionsLZMA L level = (opts, None)" "c_alone_encoder L opts = (OK, c)"
    and x0: "x0 = \<lparr>lw_Stream = (NewStream L B)\<lparr>st_coder := c\<rparr>, lw_wr = w, lw_closed = False\<rparr>"
  proof -
    obtain opts where o: "NewOptionsLZMA L level = (opts, None)"
      using assms(8) by (cases "NewOptionsLZMA L level") (auto simp: lzma_NewWriterLevel_def split: if_splits)
    show thesis
      by (rule new_coder_cases [of "c_alone_encoder L opts" L B])
        (use o assms(8) in \<open>auto simp: lzma_NewWriterLevel_def NewStreamLZMAAloneEncoder_def intro: that\<close>)
  qed
  have "lzma_writer_idle good view x0"
    by (simp add: x0 lzma_writer_idle_def NewStream_def pipe_queueD(1,2) [OF assms(3)])
  from lzma_writes_ok [OF assms(1-6) this assms(9)] obtain out1 where
    w: "lzma_writer_idle good view x1" "coder_run L RUN c (concat ds) out1 (st_coder (lw_Stream x1))"
      "got (lw_wr x1) = got w @ out1" by (auto simp: x0)
  from lzma_writer_Close_ok [OF assms(1,3-5) w(1) assms(10,7)] w o show ?thesis by auto
qed

subsection \<open>A run\<close>

text \<open>The storing coder never reports anything on \<open>RUN\<close>, so a list writer takes every write.\<close>

lemma store_no_error: "\<not> code_error store_lzma RUN c e"
  by (auto simp: code_error_def store_code_def Let_def)

lemma list_write_no_error: "\<not> write_error (Some list_write) w (Some e)"
  by (auto simp: write_error_def list_write_def)

lemma store_run_pending: "coder_run store_lzma a c inp out c' \<Longrightarrow> sc_pending c = [] \<Longrightarrow> sc_pending c' = []"
  by (induction rule: coder_run.induct) (auto simp: store_code_def Let_def)

lemma store_alone_new:
  "\<exists>x0. lzma_NewWriterLevel store_lzma line_pipe w 6 = (Some x0, None) \<and> lzma_writer_idle lp_good lp_view x0 \<and>
     sc_pending (st_coder (lw_Stream x0)) = [] \<and> st_inBuf (lw_Stream x0) = None \<and> st_outBuf (lw_Stream x0) = None"
  by (simp add: lzma_NewWriterLevel_def NewOptionsLZMA_def NewStreamLZMAAloneEncoder_def new_coder_def NewStream_def
      store_lzma_def store_init_def lzma_writer_idle_def line_pipe_ops lp_good_def lp_view_def)

lemma store_Write_returns:
  assumes x: "lzma_writer_idle lp_good lp_view x" "st_inBuf (lw_Stream x) = None" "st_outBuf (lw_Stream x) = None"
  shows "\<exists>n x'. lzma_Write errs_std list_ioutil line_pipe store_lzma list_write data x = Some ((n, None), x')"
proof -
  note ok = ioutil_okD [OF list_ioutil_ok]
  from x have g: "\<not> lw_closed x" "lp_good (st_inBuf (lw_Stream x))" "lp_good (st_outBuf (lw_Stream x))"
    "lp_view (st_outBuf (lw_Stream x)) = []" by (simp_all add: lzma_writer_idle_def)
  from Process_returns_aux [OF line_pipe_queue line_pipe_ring line_pipe_new_laws store_code_laws ok(1,2) list_io(3),
      of RUN "\<lambda>z. length (sc_pending z)" "lw_Stream x" "iu_NewReader list_ioutil data" "lw_wr x"] store_progress [of RUN] g x(2,3)
  obtain oc ic err z s w where run: "Process line_pipe store_lzma RUN (Some list_write) (Some (iu_Read list_ioutil))
      (lw_Stream x) (iu_NewReader list_ioutil data) (lw_wr x) = Some ((oc, ic, err), z, s, w)"
    by (auto simp: line_pipe_ops)
  from Process_post [OF run _ line_pipe_queue store_code_laws ok(1) list_io(3) g(2,3)] store_no_error list_write_no_error
  obtain e where "err = Some e" "read_error (Some (iu_Read list_ioutil)) s (Some e)" by (auto simp: process_post_def)
  with ok(4) have "err = Some EOF" by (auto simp: read_error_def)
  with run g(1) show ?thesis by (simp add: lzma_Write_def errs_okD [OF errs_ok_std])
qed

lemma store_Close_returns:
  assumes x: "lzma_writer_idle lp_good lp_view x" and p: "sc_pending (st_coder (lw_Stream x)) = []"
  shows "\<exists>x'. lzma_writer_Close errs_std line_pipe store_lzma list_write x = Some (None, x')"
proof -
  let ?z = "process_alloc line_pipe True False (lw_Stream x)"
  from x have g: "\<not> lw_closed x" "lp_good (st_inBuf (lw_Stream x))" "lp_good (st_outBuf (lw_Stream x))"
    "lp_view (st_inBuf (lw_Stream x)) = []" "lp_view (st_outBuf (lw_Stream x)) = []" by (simp_all add: lzma_writer_idle_def)
  note al = process_alloc_fields [OF line_pipe_queue g(2,3), of True False]
  obtain xe z1 where code: "process_code line_pipe store_lzma FINISH True False ?z = (xe, z1)" by (metis prod.collapse)
  obtain r k out lo where c: "c_code store_lzma (st_coder ?z) FINISH lo (fst (bp_WriteSlices line_pipe (st_outBuf ?z))) =
      (r, k, out, st_coder z1)" "prefix lo (lp_view (st_inBuf ?z))" "lp_view (st_outBuf z1) = lp_view (st_outBuf ?z) @ out"
      "xe = (if fst (bp_WriteSlices line_pipe (st_outBuf ?z)) > 0 \<and> r = BUF_ERROR then None else NewError r)"
    by (rule process_code_spec [OF line_pipe_queue store_code_laws al(1,2) code], rule that) (assumption+, simp)
  with al g p have r: "xe = Some streamEnd" "lp_view (st_outBuf z1) = []"
    by (auto simp: store_code_def Let_def NewError_def streamEnd_def)
  have "process_drain line_pipe list_write (st_outBuf z1, w, None, n) = Some (st_outBuf z1, w, None, n)" for w n
    by (subst process_drain.simps) (simp add: line_pipe_ops r(2))
  then have "\<exists>z s w. process_loop line_pipe store_lzma FINISH (Some list_write) (None :: unit io_read option)
      (?z, (), lw_wr x, 0, 0, None) = Some ((0, 0, Some streamEnd), z, s, w)"
    by (subst process_loop.simps) (simp add: code r line_pipe_ops)
  with g(1) show ?thesis by (auto simp: lzma_writer_Close_def Process_def Let_def errs_okD [OF errs_ok_std])
qed

theorem lzma_writer_complete_witness:
  "\<exists>x0 x1 x2 c out1 c' out2 c''. lzma_NewWriterLevel store_lzma line_pipe [] 6 = (Some x0, None) \<and>
     lzma_writes errs_std list_ioutil line_pipe store_lzma list_write [[1, 2]] x0 = Some x1 \<and>
     lzma_writer_Close errs_std line_pipe store_lzma list_write x1 = Some (None, x2) \<and>
     coder_run store_lzma RUN c [1, 2] out1 c' \<and> coder_run store_lzma FINISH c' [] out2 c'' \<and> lw_wr x2 = out1 @ out2"
proof -
  obtain x0 where x0: "lzma_NewWriterLevel store_lzma line_pipe ([] :: bytes) 6 = (Some x0, None)" "lzma_writer_idle lp_good lp_view x0"
    "sc_pending (st_coder (lw_Stream x0)) = []" "st_inBuf (lw_Stream x0) = None" "st_outBuf (lw_Stream x0) = None"
    using store_alone_new [of "[] :: bytes"] by (elim exE conjE) (rule that)
  from store_Write_returns [OF x0(2,4,5), of "[1, 2]"] obtain n x1 where
    x1: "lzma_Write errs_std list_ioutil line_pipe store_lzma list_write [1, 2] x0 = Some ((n, None), x1)" by blast
  have ne: "no_eof list_write" "\<And>w buf k w'. list_write w buf \<noteq> ((k, Some streamEnd), w')"
    by (simp_all add: no_eof_def list_write_def)
  note k = lzma_Write_ok [OF errs_ok_std list_ioutil_ok line_pipe_queue store_code_laws list_io(3) ne(1) x0(2) x1]
  from k(3) x0(3) have "sc_pending (st_coder (lw_Stream x1)) = []" using store_run_pending by blast
  from store_Close_returns [OF k(2) this] obtain x2 where
    x2: "lzma_writer_Close errs_std line_pipe store_lzma list_write x1 = Some (None, x2)" by blast
  have ws: "lzma_writes errs_std list_ioutil line_pipe store_lzma list_write [[1, 2]] x0 = Some x1" by (simp add: x1)
  from lzma_writer_complete [OF errs_ok_std list_ioutil_ok line_pipe_queue store_code_laws list_io(3) ne x0(1) ws x2]
  obtain c out1 c' out2 c'' where "coder_run store_lzma RUN c [1, 2] out1 c'" "coder_run store_lzma FINISH c' [] out2 c''"
    "lw_wr x2 = out1 @ out2" by auto
  with x0(1) ws x2 show ?thesis by blast
qed

section \<open>What the reader reads\<close>

text \<open>
  A source that reports the end of its data only when nothing is left, and together with no data;
  errors of liblzma are not among its errors.
\<close>

definition clean_source :: "'s io_read \<Rightarrow> ('s \<Rightarrow> bytes) \<Rightarrow> bool" where
  "clean_source rd left \<longleftrightarrow>
     (\<forall>s n bs s'. rd s n = ((bs, Some EOF), s') \<longrightarrow> bs = [] \<and> left s' = []) \<and>
     (\<forall>s n bs r s'. rd s n \<noteq> ((bs, Some (LibErr r)), s'))"



section \<open>Using a closed reader or writer\<close>

text \<open>
  C17: Closing is final: after \<open>Close\<close> a writer refuses every write with \<open>ErrClosedPipe\<close>, touching
  neither the stream nor the underlying writer, and closing it again is a no-op without error; the
  same holds of the reader.
\<close>

theorem lzma_closed_final:
  "(\<forall>e x'. lzma_writer_Close E B L wr x = Some (e, x') \<longrightarrow>
      lzma_Write E U B L wr data x' = Some ((0, Some ErrClosedPipe), x') \<and>
      lzma_writer_Close E B L wr x' = Some (None, x')) \<and>
   (\<forall>e r'. lzma_reader_Close L r = (e, r') \<longrightarrow>
      e = None \<and> lzma_Read E V B L rd n r' = Some (((0, Some ErrClosedPipe), []), r') \<and>
      lzma_reader_Close L r' = (None, r'))"
proof (intro conjI allI impI)
  fix e x' assume c: "lzma_writer_Close E B L wr x = Some (e, x')"
  show "lzma_Write E U B L wr data x' = Some ((0, Some ErrClosedPipe), x')"
    using lzma_wr.operate_after_close [OF c] by blast
  show "lzma_writer_Close E B L wr x' = Some (None, x')" using lzma_wr.close_twice [OF c] by blast
next
  fix e r' assume c: "lzma_reader_Close L r = (e, r')"
  show "lzma_Read E V B L rd n r' = Some (((0, Some ErrClosedPipe), []), r')"
    using lzma_rd.operate_after_close [OF c] by blast
  show "lzma_reader_Close L r' = (None, r')" using lzma_rd.close_twice [OF c] by blast
  show "e = None" using c by (auto simp: lzma_reader_Close_def split: if_splits)
qed

theorem lzma_closed_final_witness:
  "\<exists>x x'. lzma_writer_Close errs_std line_pipe store_lzma list_write x = Some (None, x') \<and>
     lzma_Write errs_std list_ioutil line_pipe store_lzma list_write [1] x' = Some ((0, Some ErrClosedPipe), x')"
proof -
  from store_alone_new [of "[] :: bytes"]
  obtain x :: "(store_coder, lpipe option, bytes) lzma_writer" where
    "lzma_writer_idle lp_good lp_view x" "sc_pending (st_coder (lw_Stream x)) = []" by blast
  then obtain x' where c: "lzma_writer_Close errs_std line_pipe store_lzma list_write x = Some (None, x')"
    using store_Close_returns by blast
  then show ?thesis using lzma_closed_final [of errs_std line_pipe store_lzma list_write x list_ioutil "[1]"] by blast
qed

end
