(* ===== verification/Xz_Writer.thy ===== *)
theory Xz_Writer
  imports Xz_Literal Xz_Index Xz_Pool Xz_Workers Ioutil
begin

text \<open>
  \<open>xz/writer.go\<close>: creating an XZ writer, writing and closing. The underlying \<open>io.Writer\<close> is the
  function \<open>wr\<close> with its state \<open>w_wr\<close>. A write in the asynchronous mode runs against the other
  routines of the writer; its two branches are the arguments \<open>async\<close> of \<open>Writer_Write\<close> and
  \<open>Writer_Close\<close> here.
\<close>

section \<open>Writers\<close>

record sizeStats =
  ss_unpadSize :: int
  ss_uncompSize :: int

record ('z, 'x, 'p, 'w) Writer =
  w_wr :: 'w
  w_flags :: StreamFlags
  w_index :: "'x option"
  w_filters :: Filters
  w_closed :: bool
  w_maxWorkers :: int
  w_chunkSize :: int
  w_maxSize :: int
  w_idx :: int
  w_pipe :: "nat option"
  w_block :: "Block option"
  w_stream :: "('z, 'p) Stream option"
  w_rdBuf :: 'p
  w_wrBuf :: 'p
  w_inSize :: int
  w_outSize :: int
  w_inMode :: "bp_mode option"
  w_outMode :: "bp_mode option"
  w_inPool :: "('p, sizeStats) pipePool option"
  w_outPool :: "('p, sizeStats) pipePool option"
  w_workPool :: "workerPool option"

text \<open>A call of the underlying writer.\<close>

definition sink_Write :: "'w io_write \<Rightarrow> bytes \<Rightarrow> ('w, goerr option) act" where
  "sink_Write wr buf = astep (\<lambda>w. case wr w buf of ((_, e), w) \<Rightarrow> (e, w))"

definition set_wr :: "'w \<Rightarrow> ('z, 'x, 'p, 'w) Writer \<Rightarrow> ('z, 'x, 'p, 'w) Writer" where
  "set_wr s w = w\<lparr>w_wr := s\<rparr>"

definition blockInit :: "('z, 'x) liblzma \<Rightarrow> ('z, 'x, 'p, 'w) Writer \<Rightarrow> int \<Rightarrow> int \<Rightarrow> Block" where
  "blockInit L w compSize uncompSize = NewBlockCustom L (Flags_GetCheck (w_flags w)) (w_filters w) compSize uncompSize"

section \<open>Creating a writer\<close>

definition clamp_chunk :: "int \<Rightarrow> int" where
  "clamp_chunk chunkSz =
     (if chunkSz < 0 then ChunkStream
      else if 0 \<le> chunkSz \<and> chunkSz < ChunkLowest then ChunkLowest
      else if chunkSz > ChunkHighest then ChunkHighest
      else chunkSz)"

definition clamp_workers :: "int \<Rightarrow> int" where
  "clamp_workers maxWorkers = (if maxWorkers < 0 then WorkersMax else maxWorkers)"

text \<open>The filters: LZMA2 with the default preset, and a dictionary no larger than a chunk.\<close>

definition writer_filters :: "errs \<Rightarrow> ('z, 'x) liblzma \<Rightarrow> int \<Rightarrow> ('s, Filters) act" where
  "writer_filters E L chunkSz =
     (case NewOptionsLZMA L (PRESET_DEFAULT L) of (opts, err) \<Rightarrow>
      athen (aPanic E err)
      (let opts = map_option (\<lambda>opts. if chunkSz > 0 \<and> uint (GetDictSize opts) > chunkSz
                     then SetDictSize opts (word_of_int chunkSz) else opts) opts
       in alift (Filters_Append (NewFilters L) (FILTER_LZMA2 L) opts)))"

text \<open>
  \<open>new(Writer)\<close> with its configuration: the pools of the asynchronous mode, or the two pipes of the
  synchronous mode. Starting the routines of the asynchronous mode is part of \<open>Xz_Async\<close>.
\<close>

definition new_Writer ::
  "'p bufpipe \<Rightarrow> StreamFlags \<Rightarrow> 'x option \<Rightarrow> Filters \<Rightarrow> int \<Rightarrow> int \<Rightarrow> int \<Rightarrow> 'w \<Rightarrow> ('z, 'x, 'p, 'w) Writer go" where
  "new_Writer B flags index filters maxWorkers chunkSz maxSize s =
     (let w = \<lparr>w_wr = s, w_flags = flags, w_index = index, w_filters = filters, w_closed = False,
            w_maxWorkers = maxWorkers, w_chunkSize = chunkSz, w_maxSize = maxSize,
            w_idx = 0, w_pipe = None, w_block = None, w_stream = None, w_rdBuf = bp_nil B, w_wrBuf = bp_nil B,
            w_inSize = 0, w_outSize = 0, w_inMode = None, w_outMode = None,
            w_inPool = None, w_outPool = None, w_workPool = None\<rparr>
      in if maxWorkers \<noteq> WorkersSync then
           Ret (w\<lparr>w_inSize := chunkSz, w_outSize := maxSize, w_inMode := Some LineDual, w_outMode := Some LineMono,
                  w_inPool := Some newPipePool, w_outPool := Some newPipePool, w_workPool := Some newWorkerPool\<rparr>)
         else if chunkSz \<noteq> ChunkStream then
           gobind (make_bytes chunkSz) (\<lambda>rdBuf.
           gobind (make_bytes maxSize) (\<lambda>wrBuf.
           Ret (w\<lparr>w_rdBuf := bp_New B rdBuf LineMono, w_wrBuf := bp_New B wrBuf LineMono\<rparr>)))
         else Ret w)"

text \<open>The streamed mode writes the header of its only block at once.\<close>

definition open_streamed ::
  "errs \<Rightarrow> 'p bufpipe \<Rightarrow> ('z, 'x) liblzma \<Rightarrow> 'w io_write \<Rightarrow> ('z, 'x, 'p, 'w) Writer \<Rightarrow>
   ('w, ('z, 'x, 'p, 'w) Writer) act" where
  "open_streamed E B L wr w =
     (let w = w\<lparr>w_inMode := Some RingBlock, w_outMode := Some RingBlock\<rparr>;
          ((headerSize, err), block) = HeaderSize L (blockInit L w vliUnknown vliUnknown) in
      athen (aPanic E err)
      (abind (alift (make_bytes headerSize)) (\<lambda>data.
       abind (alift (Block_HeaderEncode L block data)) (\<lambda>(err, data).
       athen (aPanic E err)
       (abind (sink_Write wr data) (\<lambda>err.
        athen (aPanic E err)
        (case Block_NewStreamEncoder L B block of (stream, err) \<Rightarrow>
         athen (aPanic E err) (aret (w\<lparr>w_block := Some block, w_stream := stream\<rparr>)))))))))"

definition NewWriterCustom ::
  "errs \<Rightarrow> 'p bufpipe \<Rightarrow> ('z, 'x) liblzma \<Rightarrow> 'w io_write \<Rightarrow> int \<Rightarrow> lzma_check \<Rightarrow> int \<Rightarrow> int \<Rightarrow>
   ('w, ('z, 'x, 'p, 'w) Writer option \<times> goerr option) act" where
  "NewWriterCustom E B L wr level checkType chunkSz maxWorkers =
     arecover E (\<lambda>err _. (None, err))
     (let chunkSz = clamp_chunk chunkSz; maxWorkers = clamp_workers maxWorkers in
      abind (alift (literalBlockSize L E checkType chunkSz)) (\<lambda>maxSize.
      case HeaderEncode L NewStreamFlags checkType of ((buf, err), flags) \<Rightarrow>
      athen (aPanic E err)
      (case NewIndex L of (index, err) \<Rightarrow>
       athen (aPanic E err)
       (abind (writer_filters E L chunkSz) (\<lambda>filters.
        abind (sink_Write wr buf) (\<lambda>err.
        athen (aPanic E err)
        (abind (aget (\<lambda>s. s)) (\<lambda>s.
         abind (alift (new_Writer B flags index filters maxWorkers chunkSz maxSize s)) (\<lambda>w.
         abind (if chunkSz = ChunkStream then open_streamed E B L wr w else aret w) (\<lambda>w.
         aget (\<lambda>s. (Some (set_wr s w), None))))))))))))"

definition NewWriterLevel ::
  "errs \<Rightarrow> 'p bufpipe \<Rightarrow> ('z, 'x) liblzma \<Rightarrow> 'w io_write \<Rightarrow> int \<Rightarrow>
   ('w, ('z, 'x, 'p, 'w) Writer option \<times> goerr option) act" where
  "NewWriterLevel E B L wr level = NewWriterCustom E B L wr level CheckDefault ChunkDefault WorkersDefault"

definition NewWriter ::
  "errs \<Rightarrow> 'p bufpipe \<Rightarrow> ('z, 'x) liblzma \<Rightarrow> 'w io_write \<Rightarrow>
   ('w, ('z, 'x, 'p, 'w) Writer option \<times> goerr option) act" where
  "NewWriter E B L wr = NewWriterLevel E B L wr (DefaultCompression L)"

section \<open>Encoding a block\<close>

text \<open>
  The state of \<open>blockEncode\<close> is the pair of its write pipe and its read pipe; of the writer it only
  reads the configuration. The two calls of \<open>ProcessPipe\<close>, with and without the read pipe:
\<close>

definition encode_pipes ::
  "'p bufpipe \<Rightarrow> ('z, 'x) liblzma \<Rightarrow> lzma_action \<Rightarrow> bool \<Rightarrow> ('z, 'p) Stream \<Rightarrow>
   ('p \<times> 'p, goerr option \<times> ('z, 'p) Stream) act" where
  "encode_pipes B L action withSrc z s =
     (case s of (wrBuf, rdBuf) \<Rightarrow>
      case ProcessPipe B L action (Some wrBuf) (if withSrc then Some rdBuf else None) z of
        None \<Rightarrow> None
      | Some ((_, _, err), dst, src, z) \<Rightarrow>
          Some (Ret (err, z), (case dst of None \<Rightarrow> wrBuf | Some p \<Rightarrow> p, case src of None \<Rightarrow> rdBuf | Some p \<Rightarrow> p)))"

text \<open>
  The literal block. A panic inside \<open>literalBlockEncode\<close> may leave bytes in the buffer of the write
  pipe that are not marked as written; these are not part of the model.
\<close>

definition blockEncode_literal ::
  "errs \<Rightarrow> 'p bufpipe \<Rightarrow> ('z, 'x) liblzma \<Rightarrow> ('z, 'x, 'p, 'w) Writer \<Rightarrow> ('p \<times> 'p, int \<times> int) act" where
  "blockEncode_literal E B L w =
     abind (aget (\<lambda>s. s)) (\<lambda>(wrBuf, rdBuf).
     let rdSize = snd (bp_Pointers B rdBuf); check = Flags_GetCheck (w_flags w) in
     abind (alift (slice_to (bp_Array B rdBuf) rdSize)) (\<lambda>input.
     abind (alift (literalBlockEncode L E check input (bp_Buffer B wrBuf))) (\<lambda>((cnt, pad), output).
     athen (amod (\<lambda>(wrBuf, rdBuf).
         (bp_WriteMark B (bp_Rollback B (bp_SetBuffer B wrBuf output)) (int cnt), rdBuf)))
       (aret (int cnt - int pad, rdSize)))))"

text \<open>The header of a compressed block, with the sizes the coder has stored into the block by now.\<close>

definition blockEncode_header ::
  "errs \<Rightarrow> 'p bufpipe \<Rightarrow> ('z, 'x) liblzma \<Rightarrow> Block \<Rightarrow> int \<Rightarrow> ('p \<times> 'p, int \<times> int) act" where
  "blockEncode_header E B L block headerSize =
     abind (aget fst) (\<lambda>wrBuf.
     abind (alift (slice_to (bp_Array B wrBuf) headerSize)) (\<lambda>data.
     abind (alift (Block_HeaderEncode L block data)) (\<lambda>(err, data).
     athen (amod (\<lambda>(wrBuf, rdBuf). (bp_SetBuffer B wrBuf (overwrite (bp_Buffer B wrBuf) 0 data), rdBuf)))
     (athen (aPanic E err)
      (aret (UnpaddedSize L block, GetUncompressedSize block))))))"

text \<open>After the read pipe went through the coder: the end of the block, the literal block or the header.\<close>

definition blockEncode_rest ::
  "errs \<Rightarrow> 'p bufpipe \<Rightarrow> ('z, 'x) liblzma \<Rightarrow> ('z, 'x, 'p, 'w) Writer \<Rightarrow> Block \<Rightarrow> int \<Rightarrow> ('z, 'p) Stream \<Rightarrow> goerr option \<Rightarrow>
   ('p \<times> 'p, int \<times> int) act" where
  "blockEncode_rest E B L w block headerSize z err =
     (let doLiteral = errs_Match E err [ErrShortWrite] in
     athen (aPanic E (errs_Ignore E err [ErrShortWrite, EOF]))
     (abind (encode_pipes B L FINISH False z) (\<lambda>(err, z).
      let doLiteral = doLiteral \<or> errs_Match E err [ErrShortWrite] in
      athen (aPanic E (errs_Ignore E err [ErrShortWrite, streamEnd]))
      (if doLiteral then blockEncode_literal E B L w
       else blockEncode_header E B L (block\<lparr>b_block := c_coder_block L (st_coder z)\<rparr>) headerSize))))"

text \<open>
  The first part leaves a hole for the header and makes the coder. The deferred \<open>stream.End()\<close> only
  frees the coder, which nothing else refers to; on a nil stream it is a run-time panic of its own.
\<close>

definition blockEncode_open ::
  "errs \<Rightarrow> 'p bufpipe \<Rightarrow> ('z, 'x) liblzma \<Rightarrow> ('z, 'x, 'p, 'w) Writer \<Rightarrow> ('p \<times> 'p, Block \<times> int \<times> ('z, 'p) Stream) act" where
  "blockEncode_open E B L w =
     abind (aget (\<lambda>(wrBuf, _). bp_Mode B wrBuf)) (\<lambda>mode.
     if mode \<noteq> LineMono then alift (Pan (PMsg ''invalid output pipe mode''))
     else
       let ((headerSize, err), block) = HeaderSize L (blockInit L w (w_chunkSize w) (w_maxSize w)) in
       athen (aPanic E err)
       (athen (amod (\<lambda>(wrBuf, rdBuf). (bp_WriteMark B wrBuf headerSize, rdBuf)))
        (case Block_NewStreamEncoder L B block of (stream, err) \<Rightarrow>
         adefer (if stream = None then alift (Pan PRuntime) else aret ())
         (athen (aPanic E err)
          (case stream of
             None \<Rightarrow> alift (Pan PRuntime)
           | Some z \<Rightarrow> aret (block, headerSize, z))))))"

definition blockEncode ::
  "errs \<Rightarrow> 'p bufpipe \<Rightarrow> ('z, 'x) liblzma \<Rightarrow> ('z, 'x, 'p, 'w) Writer \<Rightarrow> ('p \<times> 'p, int \<times> int) act" where
  "blockEncode E B L w =
     abind (blockEncode_open E B L w) (\<lambda>(block, headerSize, z).
     abind (encode_pipes B L RUN True z) (\<lambda>(err, z).
     blockEncode_rest E B L w block headerSize z err))"

definition set_bufs :: "'p \<times> 'p \<Rightarrow> ('z, 'x, 'p, 'w) Writer \<Rightarrow> ('z, 'x, 'p, 'w) Writer" where
  "set_bufs s w = w\<lparr>w_wrBuf := fst s, w_rdBuf := snd s\<rparr>"

definition writer_Append :: "('z, 'x) liblzma \<Rightarrow> int \<Rightarrow> int \<Rightarrow> (('z, 'x, 'p, 'w) Writer, goerr option) act" where
  "writer_Append L unpadSize uncompSize =
     astep (\<lambda>w. case Index_Append L (w_index w) unpadSize uncompSize of (err, ix) \<Rightarrow> (err, w\<lparr>w_index := ix\<rparr>))"

definition blockEncodeSync ::
  "errs \<Rightarrow> 'p bufpipe \<Rightarrow> ('z, 'x) liblzma \<Rightarrow> 'w io_write \<Rightarrow> (('z, 'x, 'p, 'w) Writer, unit) act" where
  "blockEncodeSync E B L wr =
     athen (amod (\<lambda>w. w\<lparr>w_rdBuf := bp_Close B (w_rdBuf w)\<rparr>))
     (adefer (amod (\<lambda>w. w\<lparr>w_rdBuf := bp_Reset B (w_rdBuf w)\<rparr>))
      (abind (aget (\<lambda>w. w)) (\<lambda>w.
       abind (azoom (\<lambda>w. (w_wrBuf w, w_rdBuf w)) set_bufs (blockEncode E B L w)) (\<lambda>(unpadSize, uncompSize).
       abind (writer_Append L unpadSize uncompSize) (\<lambda>err.
       athen (aPanic E err)
       (athen (amod (\<lambda>w. w\<lparr>w_wrBuf := bp_Close B (w_wrBuf w)\<rparr>))
        (adefer (amod (\<lambda>w. w\<lparr>w_wrBuf := bp_Reset B (w_wrBuf w)\<rparr>))
         (abind (aget (\<lambda>w. fst (bp_ReadSlices B (w_wrBuf w)))) (\<lambda>data.
          abind (azoom w_wr set_wr (sink_Write wr data)) (aPanic E))))))))))"

section \<open>Writing\<close>

text \<open>
  The state of a write is the named result \<open>cnt\<close>, which a recovered error leaves as it is, and the
  writer. One round of the loop over full chunks:
\<close>

definition Write_block_step ::
  "errs \<Rightarrow> 'p bufpipe \<Rightarrow> ('z, 'x) liblzma \<Rightarrow> 'w io_write \<Rightarrow> bytes \<Rightarrow> (int \<times> ('z, 'x, 'p, 'w) Writer, unit) act" where
  "Write_block_step E B L wr data =
     abind (aget fst) (\<lambda>cnt.
     abind (alift (slice_from data cnt)) (\<lambda>rest.
     abind (astep (\<lambda>(cnt, w). case bp_Write B (w_rdBuf w) rest of
         ((rdCnt, err), p) \<Rightarrow> (err, (cnt + rdCnt, w\<lparr>w_rdBuf := p\<rparr>)))) (\<lambda>err.
     athen (if err = Some ErrShortWrite then azoom snd (\<lambda>w s. (fst s, w)) (blockEncodeSync E B L wr) else aret ())
       (aPanic E (errs_Ignore E err [ErrShortWrite])))))"

partial_function (option) Write_blocks ::
  "errs \<Rightarrow> 'p bufpipe \<Rightarrow> ('z, 'x) liblzma \<Rightarrow> 'w io_write \<Rightarrow> bytes \<Rightarrow> int \<times> ('z, 'x, 'p, 'w) Writer \<Rightarrow>
   (unit go \<times> int \<times> ('z, 'x, 'p, 'w) Writer) option" where
  "Write_blocks E B L wr data s =
     (if fst s < int (length data) then
        (case Write_block_step E B L wr data s of
           None \<Rightarrow> None
         | Some (r, s) \<Rightarrow> (case r of Pan p \<Rightarrow> Some (Pan p, s) | Ret _ \<Rightarrow> Write_blocks E B L wr data s))
      else Some (Ret (), s))"

definition Write_stream ::
  "errs \<Rightarrow> ('v, 'u) ioutil \<Rightarrow> 'p bufpipe \<Rightarrow> ('z, 'x) liblzma \<Rightarrow> 'w io_write \<Rightarrow> bytes \<Rightarrow>
   (int \<times> ('z, 'x, 'p, 'w) Writer, int \<times> goerr option) act" where
  "Write_stream E U B L wr data s =
     (case s of (cnt, w) \<Rightarrow>
      case w_stream w of
        None \<Rightarrow> Some (Pan PRuntime, s)
      | Some z \<Rightarrow>
          (case Process B L RUN (Some wr) (Some (iu_Read U)) z (iu_NewReader U data) (w_wr w) of
             None \<Rightarrow> None
           | Some ((_, rdCnt, err), z, _, v) \<Rightarrow>
               Some (Ret (rdCnt, errs_Ignore E err [EOF]), (cnt, w\<lparr>w_stream := Some z, w_wr := v\<rparr>))))"

type_synonym ('z, 'x, 'p, 'w) async_branch =
  "(int \<times> ('z, 'x, 'p, 'w) Writer, int \<times> goerr option) act"

definition Writer_Write ::
  "errs \<Rightarrow> ('v, 'u) ioutil \<Rightarrow> 'p bufpipe \<Rightarrow> ('z, 'x) liblzma \<Rightarrow> 'w io_write \<Rightarrow> (bytes \<Rightarrow> ('z, 'x, 'p, 'w) async_branch) \<Rightarrow>
   bytes \<Rightarrow> ('z, 'x, 'p, 'w) Writer \<Rightarrow> ((int \<times> goerr option) go \<times> ('z, 'x, 'p, 'w) Writer) option" where
  "Writer_Write E U B L wr async data w =
     map_option (\<lambda>(r, s). (r, snd s))
       (arecover E (\<lambda>err (cnt, _). (cnt, err))
         (if w_closed w then aret (0, Some ErrClosedPipe)
          else if w_maxWorkers w \<noteq> WorkersSync then async data
          else if w_chunkSize w = ChunkStream then Write_stream E U B L wr data
          else abind (Write_blocks E B L wr data) (\<lambda>_. aget (\<lambda>(cnt, _). (cnt, None)))) (0, w))"

section \<open>Closing\<close>

text \<open>What a stream without a reader delivers to the underlying writer, up to its end.\<close>

definition finish_stream ::
  "'p bufpipe \<Rightarrow> ('z, 'x) liblzma \<Rightarrow> 'w io_write \<Rightarrow> ('z, 'p) Stream \<Rightarrow> ('w, goerr option \<times> ('z, 'p) Stream) act" where
  "finish_stream B L wr z w =
     (case Process B L FINISH (Some wr) (None :: unit io_read option) z () w of
        None \<Rightarrow> None
      | Some ((_, _, err), z, _, w) \<Rightarrow> Some (Ret (err, z), w))"

definition Close_streamed ::
  "errs \<Rightarrow> 'p bufpipe \<Rightarrow> ('z, 'x) liblzma \<Rightarrow> 'w io_write \<Rightarrow> (('z, 'x, 'p, 'w) Writer, unit) act" where
  "Close_streamed E B L wr =
     abind (aget w_stream) (\<lambda>stream.
     case stream of
       None \<Rightarrow> alift (Pan PRuntime)
     | Some z \<Rightarrow>
         abind (azoom w_wr set_wr (finish_stream B L wr z)) (\<lambda>(err, z).
         athen (amod (\<lambda>w. w\<lparr>w_stream := Some z,
             w_block := map_option (\<lambda>b. b\<lparr>b_block := c_coder_block L (st_coder z)\<rparr>) (w_block w)\<rparr>))
         (athen (aPanic E (errs_Ignore E err [streamEnd]))
          (abind (aget w_block) (\<lambda>block.
           case block of
             None \<Rightarrow> alift (Pan PRuntime)
           | Some b \<Rightarrow>
               abind (writer_Append L (UnpaddedSize L b) (GetUncompressedSize b)) (aPanic E))))))"

definition Close_tail ::
  "errs \<Rightarrow> 'p bufpipe \<Rightarrow> ('z, 'x) liblzma \<Rightarrow> 'w io_write \<Rightarrow> (('z, 'x, 'p, 'w) Writer, unit) act" where
  "Close_tail E B L wr =
     abind (aget (\<lambda>w. Index_NewStreamEncoder L B (w_index w))) (\<lambda>(stream, err).
     athen (aPanic E err)
     (case stream of
        None \<Rightarrow> alift (Pan PRuntime)
      | Some z \<Rightarrow>
          abind (azoom w_wr set_wr (finish_stream B L wr z)) (\<lambda>(err, _).
          athen (aPanic E (errs_Ignore E err [streamEnd]))
          (abind (astep (\<lambda>w. case FooterEncode L (w_flags w) (Index_Size L (w_index w)) of
              (r, flags) \<Rightarrow> (r, w\<lparr>w_flags := flags\<rparr>))) (\<lambda>(buf, err).
           athen (aPanic E err)
           (abind (azoom w_wr set_wr (sink_Write wr buf)) (aPanic E)))))))"

definition Writer_Close ::
  "errs \<Rightarrow> 'p bufpipe \<Rightarrow> ('z, 'x) liblzma \<Rightarrow> 'w io_write \<Rightarrow> (('z, 'x, 'p, 'w) Writer, unit) act \<Rightarrow>
   (('z, 'x, 'p, 'w) Writer, goerr option) act" where
  "Writer_Close E B L wr async =
     arecover E (\<lambda>err _. err)
       (abind (aget (\<lambda>w. w)) (\<lambda>w.
        if w_closed w then aret None
        else
          athen (amod (\<lambda>w. w\<lparr>w_closed := True\<rparr>))
          (adefer (amod (\<lambda>w. w\<lparr>w_index := Index_End (w_index w)\<rparr>))
           (athen
             (if w_maxWorkers w \<noteq> WorkersSync then async
              else if w_chunkSize w \<noteq> ChunkStream \<and> bp_Length B (w_rdBuf w) > 0 then blockEncodeSync E B L wr
              else aret ())
             (athen
               (if w_chunkSize w = ChunkStream
                then adefer (amod (\<lambda>w. w\<lparr>w_stream := map_option (End L) (w_stream w)\<rparr>))
                  (athen (Close_streamed E B L wr) (Close_tail E B L wr))
                else Close_tail E B L wr)
               (aret None))))))"

end
