(* ===== verification/Bufpipe_Mono.thy ===== *)
theory Bufpipe_Mono
  imports Lib_Stream_Props "HOL-Library.Product_Lexorder"
begin

text \<open>
  Pipes in the linear modes of \<open>golib/bufpipe\<close>: a linear buffer that is written until it is closed and
  then read (\<open>LineMono\<close>), or read while it is written (\<open>LineDual\<close>), and what \<open>Stream.ProcessPipe\<close> does between two of them.
\<close>

section \<open>The contract\<close>

definition mono_ok :: "lpipe \<Rightarrow> bool" where
  "mono_ok q \<longleftrightarrow> lp_mode q \<in> {LineMono, LineDual} \<and> lp_lo q \<le> lp_hi q \<and> lp_hi q \<le> length (lp_buf q) \<and> lp_err q = None"

definition new_line :: "bytes \<Rightarrow> bp_mode \<Rightarrow> lpipe" where
  "new_line buf m = \<lparr>lp_buf = buf, lp_mode = m, lp_lo = 0, lp_hi = 0, lp_closed = False, lp_err = None\<rparr>"

text \<open>Storing and marking bytes as written, or marking them as read.\<close>

definition mono_put :: "lpipe \<Rightarrow> bytes \<Rightarrow> lpipe" where
  "mono_put q bs = q\<lparr>lp_buf := overwrite (lp_buf q) (lp_hi q) bs, lp_hi := lp_hi q + length bs\<rparr>"

definition mono_get :: "lpipe \<Rightarrow> nat \<Rightarrow> lpipe" where
  "mono_get q n = q\<lparr>lp_lo := lp_lo q + n\<rparr>"

definition mono_room :: "lpipe \<Rightarrow> nat" where
  "mono_room q = length (lp_buf q) - lp_hi q"

definition mono_data :: "lpipe \<Rightarrow> bytes" where
  "mono_data q = take (lp_hi q - lp_lo q) (drop (lp_lo q) (lp_buf q))"

text \<open>
  \<open>lin p\<close> is the linear buffer behind a pipe in these modes: its memory, the two positions and whether
  it is closed (without an error). An open pipe can be written, a full one reports \<open>ErrShortWrite\<close>; a
  closed pipe can be read, an empty one reports \<open>EOF\<close>; resetting reopens the pipe. An open pipe in
  \<open>LineDual\<close> can be read as well, as far as it is written; when there is nothing to read the reader
  waits. Rolling back, in \<open>LineMono\<close> only, forgets what was written.
\<close>

definition lp_readable :: "lpipe \<Rightarrow> bool" where
  "lp_readable q \<longleftrightarrow> lp_closed q \<or> lp_mode q = LineDual \<and> mono_data q \<noteq> []"

definition mono_reads :: "'p bufpipe \<Rightarrow> ('p \<Rightarrow> lpipe option) \<Rightarrow> bool" where
  "mono_reads B lin \<longleftrightarrow> (\<forall>p q. lin p = Some q \<longrightarrow>
     mono_ok q \<and> bp_Mode B p = lp_mode q \<and> bp_Capacity B p = int (length (lp_buf q)) \<and>
     bp_Length B p = int (length (mono_data q)) \<and> bp_Buffer B p = lp_buf q \<and>
     take (length (lp_buf q)) (bp_Array B p) = lp_buf q \<and> bp_Pointers B p = (int (lp_lo q), int (lp_hi q)) \<and>
     (lp_readable q \<longrightarrow> bp_ReadSlices B p = (mono_data q, [], if mono_data q = [] then Some EOF else None)) \<and>
     (\<not> lp_closed q \<longrightarrow> bp_WriteSlices B p = (mono_room q, 0, if mono_room q = 0 then Some ErrShortWrite else None)))"

definition mono_writes :: "'p bufpipe \<Rightarrow> ('p \<Rightarrow> lpipe option) \<Rightarrow> bool" where
  "mono_writes B lin \<longleftrightarrow>
     (\<forall>buf. \<forall>m \<in> {LineMono, LineDual}. lin (bp_New B buf m) = Some (new_line buf m)) \<and>
     (\<forall>p q. lin p = Some q \<longrightarrow>
        lin (bp_Close B p) = Some (q\<lparr>lp_closed := True\<rparr>) \<and>
        lin (bp_Reset B p) = Some (q\<lparr>lp_lo := 0, lp_hi := 0, lp_closed := False\<rparr>) \<and>
        (lp_mode q = LineMono \<and> lp_lo q = 0 \<longrightarrow> lin (bp_Rollback B p) = Some (q\<lparr>lp_hi := 0\<rparr>)) \<and>
        (\<forall>bs. length bs = length (lp_buf q) \<longrightarrow> lin (bp_SetBuffer B p bs) = Some (q\<lparr>lp_buf := bs\<rparr>)) \<and>
        (\<forall>n. lp_readable q \<longrightarrow> n \<le> length (mono_data q) \<longrightarrow> lin (bp_ReadMark B p (int n)) = Some (mono_get q n)) \<and>
        (\<forall>n. \<not> lp_closed q \<longrightarrow> n \<le> mono_room q \<longrightarrow> lin (bp_WriteMark B p (int n)) = Some (q\<lparr>lp_hi := lp_hi q + n\<rparr>)) \<and>
        (\<forall>bs. \<not> lp_closed q \<longrightarrow> length bs \<le> mono_room q \<longrightarrow>
           lin (bp_WriteMark B (bp_Store B p bs) (int (length bs))) = Some (mono_put q bs)) \<and>
        (\<forall>bs. \<not> lp_closed q \<longrightarrow> (\<exists>p'. bp_Write B p bs = ((int (min (length bs) (mono_room q)),
             if mono_room q < length bs then Some ErrShortWrite else None), p') \<and>
           lin p' = Some (mono_put q (take (mono_room q) bs)))))"

definition pipe_mono :: "'p bufpipe \<Rightarrow> ('p \<Rightarrow> lpipe option) \<Rightarrow> bool" where
  "pipe_mono B lin \<longleftrightarrow> mono_reads B lin \<and> mono_writes B lin"

lemma pipe_monoD:
  assumes "pipe_mono B lin" and "lin p = Some q"
  shows "mono_ok q" "bp_Mode B p = lp_mode q" "bp_Length B p = int (length (mono_data q))" "bp_Buffer B p = lp_buf q"
    "take (length (lp_buf q)) (bp_Array B p) = lp_buf q" "bp_Pointers B p = (int (lp_lo q), int (lp_hi q))"
    "lp_readable q \<Longrightarrow> bp_ReadSlices B p = (mono_data q, [], if mono_data q = [] then Some EOF else None)"
    "\<not> lp_closed q \<Longrightarrow> bp_WriteSlices B p = (mono_room q, 0, if mono_room q = 0 then Some ErrShortWrite else None)"
    "lin (bp_Close B p) = Some (q\<lparr>lp_closed := True\<rparr>)"
    "lin (bp_Reset B p) = Some (q\<lparr>lp_lo := 0, lp_hi := 0, lp_closed := False\<rparr>)"
    "lp_mode q = LineMono \<Longrightarrow> lp_lo q = 0 \<Longrightarrow> lin (bp_Rollback B p) = Some (q\<lparr>lp_hi := 0\<rparr>)"
    "length bs = length (lp_buf q) \<Longrightarrow> lin (bp_SetBuffer B p bs) = Some (q\<lparr>lp_buf := bs\<rparr>)"
    "lp_readable q \<Longrightarrow> n \<le> length (mono_data q) \<Longrightarrow> lin (bp_ReadMark B p (int n)) = Some (mono_get q n)"
    "\<not> lp_closed q \<Longrightarrow> n \<le> mono_room q \<Longrightarrow> lin (bp_WriteMark B p (int n)) = Some (q\<lparr>lp_hi := lp_hi q + n\<rparr>)"
    "\<not> lp_closed q \<Longrightarrow> length bs' \<le> mono_room q \<Longrightarrow>
       lin (bp_WriteMark B (bp_Store B p bs') (int (length bs'))) = Some (mono_put q bs')"
    "\<not> lp_closed q \<Longrightarrow> \<exists>p'. bp_Write B p bs'' = ((int (min (length bs'') (mono_room q)),
       if mono_room q < length bs'' then Some ErrShortWrite else None), p') \<and>
       lin p' = Some (mono_put q (take (mono_room q) bs''))"
    "bp_Capacity B p = int (length (lp_buf q))"
  using assms unfolding pipe_mono_def mono_reads_def mono_writes_def by blast+

lemma pipe_mono_new: "pipe_mono B lin \<Longrightarrow> m \<in> {LineMono, LineDual} \<Longrightarrow> lin (bp_New B buf m) = Some (new_line buf m)"
  by (auto simp: pipe_mono_def mono_writes_def)

text \<open>The executable queue is such a pipe.\<close>

definition line_lin :: "lpipe option \<Rightarrow> lpipe option" where
  "line_lin p = (case p of None \<Rightarrow> None | Some q \<Rightarrow> if mono_ok q then Some q else None)"

lemma line_lin_Some: "line_lin p = Some q \<longleftrightarrow> p = Some q \<and> mono_ok q"
  by (auto simp: line_lin_def split: option.splits if_splits)

lemma line_pipe_mono: "pipe_mono line_pipe line_lin"
proof -
  have "mono_reads line_pipe line_lin"
    by (auto simp: mono_reads_def line_lin_Some line_pipe_def mono_data_def mono_room_def mono_ok_def lp_view_def lp_readable_def)
  moreover have "mono_writes line_pipe line_lin"
    by (auto simp: mono_writes_def line_lin_Some line_pipe_def mono_data_def mono_room_def mono_ok_def new_line_def
        lp_readable_def mono_get_def mono_put_def Let_def min_def)
  ultimately show ?thesis by (simp add: pipe_mono_def)
qed

section \<open>Pipes of the parallel writer\<close>

text \<open>
  What only the parallel writer uses: closing a pipe with an error, delivering the bytes of a pipe to
  an \<open>io.Writer\<close>, and whether a routine that reads the pipe goes on, instead of waiting for the producer.
\<close>

record ('p, 'w) asyncpipe =
  ap_CloseWithError :: "'p \<Rightarrow> goerr option \<Rightarrow> 'p"
  ap_WriteTo :: "'w io_write \<Rightarrow> 'p \<Rightarrow> 'w \<Rightarrow> goerr option \<times> 'p \<times> 'w"
  ap_CanRead :: "'p \<Rightarrow> bool"

definition sink_fail :: "'w io_write \<Rightarrow> bool" where
  "sink_fail wr \<longleftrightarrow> (\<exists>w buf k e w'. wr w buf = ((k, Some e), w'))"

text \<open>\<open>er p\<close> is the error a pipe was closed with; a pipe with one is no linear buffer any more.\<close>

definition pipe_async :: "('p, 'w) asyncpipe \<Rightarrow> ('p \<Rightarrow> lpipe option) \<Rightarrow> ('p \<Rightarrow> goerr option) \<Rightarrow> bool" where
  "pipe_async A lin er \<longleftrightarrow>
     (\<forall>p q. lin p = Some q \<longrightarrow> er p = None) \<and>
     (\<forall>p q. lin p = Some q \<longrightarrow> ap_CanRead A p \<longrightarrow> lp_readable q) \<and>
     (\<forall>p q e. lin p = Some q \<longrightarrow> er (ap_CloseWithError A p e) = e \<and>
        (e = None \<longrightarrow> lin (ap_CloseWithError A p e) = Some (q\<lparr>lp_closed := True\<rparr>))) \<and>
     (\<forall>wr got p w p' w'. writes_to (Some wr) got \<longrightarrow> ap_WriteTo A wr p w = (None, p', w') \<longrightarrow>
        er p = None \<and> (\<forall>q. lin p = Some q \<longrightarrow> lin p' \<noteq> None \<and> got w' = got w @ mono_data q)) \<and>
     (\<forall>wr p w e p' w'. ap_WriteTo A wr p w = (Some e, p', w') \<longrightarrow> er p = None \<longrightarrow> sink_fail wr)"

definition line_async :: "(lpipe option, 'w) asyncpipe" where
  "line_async = \<lparr>
     ap_CloseWithError = (\<lambda>p e. map_option (\<lambda>q. q\<lparr>lp_closed := True, lp_err := e\<rparr>) p),
     ap_WriteTo = (\<lambda>wr p w. case wr w (lp_view p) of ((_, e), w) \<Rightarrow>
        (if e \<noteq> None then e else case p of None \<Rightarrow> None | Some q \<Rightarrow> lp_err q,
         map_option (\<lambda>q. q\<lparr>lp_lo := lp_hi q\<rparr>) p, w)),
     ap_CanRead = (\<lambda>p. case p of None \<Rightarrow> False
        | Some q \<Rightarrow> lp_closed q \<or> lp_mode q = LineDual \<and> lp_view p \<noteq> [])\<rparr>"

section \<open>Bytes in a linear buffer\<close>

lemma length_mono_data [simp]: "mono_ok q \<Longrightarrow> length (mono_data q) = lp_hi q - lp_lo q"
  by (auto simp: mono_data_def mono_ok_def)

lemma mono_put_Nil [simp]: "mono_ok q \<Longrightarrow> mono_put q [] = q"
  by (simp add: mono_put_def overwrite_def mono_ok_def)

lemma mono_get_0 [simp]: "mono_get q 0 = q"
  by (simp add: mono_get_def)

lemma mono_get_get: "mono_get (mono_get q m) n = mono_get q (m + n)"
  by (simp add: mono_get_def add.assoc)

lemma mono_put_put:
  assumes "mono_ok q" and "length xs \<le> mono_room q"
  shows "mono_put (mono_put q xs) ys = mono_put q (xs @ ys)"
  using assms by (simp add: mono_put_def overwrite_def mono_ok_def mono_room_def ac_simps)

lemma mono_put_fields [simp]:
  "lp_mode (mono_put q bs) = lp_mode q" "lp_mode (mono_get q n) = lp_mode q"
  "lp_closed (mono_put q bs) = lp_closed q" "lp_lo (mono_put q bs) = lp_lo q" "lp_hi (mono_put q bs) = lp_hi q + length bs"
  "lp_closed (mono_get q n) = lp_closed q" "lp_buf (mono_get q n) = lp_buf q" "lp_hi (mono_get q n) = lp_hi q"
  by (simp_all add: mono_put_def mono_get_def)

lemma length_mono_put [simp]: "mono_ok q \<Longrightarrow> length (lp_buf (mono_put q bs)) = length (lp_buf q)"
  by (simp add: mono_put_def mono_ok_def)

lemma mono_room_put: "mono_ok q \<Longrightarrow> length bs \<le> mono_room q \<Longrightarrow> mono_room (mono_put q bs) = mono_room q - length bs"
  by (auto simp: mono_put_def overwrite_def mono_ok_def mono_room_def)

lemma mono_data_put:
  assumes "mono_ok q" and "length bs \<le> mono_room q"
  shows "mono_data (mono_put q bs) = mono_data q @ bs" and "mono_ok (mono_put q bs)"
  using assms by (auto simp: mono_put_def overwrite_def mono_ok_def mono_room_def mono_data_def drop_take)

lemma mono_data_get: "mono_data (mono_get q n) = drop n (mono_data q)"
  by (simp add: mono_data_def mono_get_def drop_take add.commute)

section \<open>Pumping between linear buffers\<close>

text \<open>
  What \<open>ProcessPipe\<close> leaves behind, from an open destination \<open>d\<close> and a closed source \<open>so\<close> (or none): the
  coder consumed a prefix of the source, its output was appended to the destination, and the error
  says that the source is used up, that the destination is full, or is the coder's.
\<close>

definition mono_pumped ::
  "('z, 'x) liblzma \<Rightarrow> lzma_action \<Rightarrow> ('p \<Rightarrow> lpipe option) \<Rightarrow> lpipe \<Rightarrow> lpipe option \<Rightarrow> ('z, 'p) Stream \<Rightarrow>
   goerr option \<Rightarrow> 'p option \<Rightarrow> 'p option \<Rightarrow> ('z, 'p) Stream \<Rightarrow> bool" where
  "mono_pumped L a lin d so z err dst' src' z' \<longleftrightarrow>
     (\<exists>inp out p'. coder_run L a (st_coder z) inp out (st_coder z') \<and>
        dst' = Some p' \<and> lin p' = Some (mono_put d out) \<and> length out \<le> mono_room d \<and>
        (case so of
           None \<Rightarrow> src' = None \<and> inp = []
         | Some s \<Rightarrow> \<exists>r'. src' = Some r' \<and> lin r' = Some (mono_get s (length inp)) \<and> prefix inp (mono_data s)) \<and>
        (err = Some EOF \<and> (\<exists>s. so = Some s \<and> inp = mono_data s) \<or>
         err = Some ErrShortWrite \<and> length out = mono_room d \<or>
         code_error L a (st_coder z') err))"

text \<open>The ends of a round: what the coder is given.\<close>

definition round_src :: "'p bufpipe \<Rightarrow> 'p option \<Rightarrow> bytes \<times> goerr option" where
  "round_src B src = (case src of None \<Rightarrow> ([], None)
     | Some p \<Rightarrow> (case bp_ReadSlices B p of (lo, _, e) \<Rightarrow> (take chunkSize lo, e)))"

definition round_dst :: "'p bufpipe \<Rightarrow> 'p option \<Rightarrow> nat \<times> goerr option" where
  "round_dst B dst = (case dst of None \<Rightarrow> (0, None)
     | Some p \<Rightarrow> (case bp_WriteSlices B p of (n, _, e) \<Rightarrow> (min n chunkSize, e)))"

definition processPipe_round ::
  "'p bufpipe \<Rightarrow> ('z, 'x) liblzma \<Rightarrow> lzma_action \<Rightarrow> 'p option \<times> 'p option \<times> ('z, 'p) Stream \<times> int \<times> int \<Rightarrow>
   ((int \<times> int \<times> goerr option) \<times> 'p option \<times> 'p option \<times> ('z, 'p) Stream) + ('p option \<times> 'p option \<times> ('z, 'p) Stream \<times> int \<times> int)" where
  "processPipe_round B L a st =
     (case st of (dst, src, z, oc, ic) \<Rightarrow>
      case round_src B src of (inBuf, rdErr) \<Rightarrow>
      if rdErr \<noteq> None then Inl ((oc, ic, rdErr), dst, src, z)
      else case round_dst B dst of (n, wrErr) \<Rightarrow>
        if wrErr \<noteq> None then Inl ((oc, ic, wrErr), dst, src, z)
        else case CodeSlice L a n inBuf z of ((wrCnt, rdCnt, err), out, z) \<Rightarrow>
          let src = map_option (\<lambda>p. bp_ReadMark B p rdCnt) src;
              dst = map_option (\<lambda>p. bp_WriteMark B (bp_Store B p out) wrCnt) dst
          in if err \<noteq> None then Inl ((oc + wrCnt, ic + rdCnt, err), dst, src, z)
             else Inr (dst, src, z, oc + wrCnt, ic + rdCnt))"

text \<open>The loop of \<open>ProcessPipe\<close> repeats the round.\<close>

lemma processPipe_loop_round:
  "processPipe_loop B L a st =
     (case processPipe_round B L a st of Inl r \<Rightarrow> Some r | Inr st \<Rightarrow> processPipe_loop B L a st)"
  by (subst processPipe_loop.simps)
    (simp add: processPipe_round_def round_src_def round_dst_def Let_def split: prod.split)

text \<open>The source of a round; a reader that would wait for the producer is not ready.\<close>

definition src_at :: "('p \<Rightarrow> lpipe option) \<Rightarrow> 'p option \<Rightarrow> lpipe option \<Rightarrow> bool" where
  "src_at lin src so \<longleftrightarrow> (case src of None \<Rightarrow> so = None | Some p \<Rightarrow> so \<noteq> None \<and> lin p = so)"

definition src_ready :: "lpipe option \<Rightarrow> bool" where
  "src_ready so \<longleftrightarrow> (case so of None \<Rightarrow> True | Some s \<Rightarrow> lp_readable s)"

lemma mono_source:
  assumes m: "pipe_mono B lin" and so: "src_at lin src so" "src_ready so"
  shows "round_src B src = (case so of None \<Rightarrow> ([], None) | Some s \<Rightarrow> (take chunkSize (mono_data s), if mono_data s = [] then Some EOF else None))"
  using so pipe_monoD(7) [OF m] by (cases src) (auto simp: src_at_def src_ready_def round_src_def)

lemma mono_sink:
  assumes m: "pipe_mono B lin" and d: "lin p = Some d" "\<not> lp_closed d"
  shows "round_dst B (Some p) = (min (mono_room d) chunkSize, if mono_room d = 0 then Some ErrShortWrite else None)"
  using pipe_monoD(8) [OF m d] by (simp add: round_dst_def)

lemma mono_consume:
  assumes m: "pipe_mono B lin" and so: "src_at lin src so" "src_ready so" and k: "k \<le> length (fst (round_src B src))"
  shows "src_at lin (map_option (\<lambda>p. bp_ReadMark B p (int k)) src) (map_option (\<lambda>s. mono_get s k) so)"
proof (cases src)
  case (Some p)
  with so obtain s where s: "so = Some s" "lin p = Some s" "lp_readable s" by (auto simp: src_at_def src_ready_def)
  with k have "k \<le> length (mono_data s)" using mono_source [OF m so] by auto
  with pipe_monoD(13) [OF m s(2,3)] s Some show ?thesis by (simp add: src_at_def)
qed (use so in \<open>simp add: src_at_def\<close>)

text \<open>
  A round ends the loop, because the source is used up or the destination full, or calls the coder,
  which consumes a prefix of the source and whose output joins the destination.
\<close>

lemma mono_round:
  assumes m: "pipe_mono B lin" and laws: "lzma_code_laws L" and so: "src_at lin src so" "src_ready so"
    and d: "lin p = Some d" "\<not> lp_closed d"
  obtains (stop) err where "processPipe_round B L a (Some p, src, z, oc, ic) = Inl ((oc, ic, err), Some p, src, z)"
      "err = Some EOF \<and> (\<exists>s. so = Some s \<and> mono_data s = []) \<or> err = Some ErrShortWrite \<and> mono_room d = 0"
  | (code) r k out z1 p1 src1 inBuf n where
      "processPipe_round B L a (Some p, src, z, oc, ic) =
        (if r = OK then Inr (Some p1, src1, z1, oc + int (length out), ic + int k)
         else Inl ((oc + int (length out), ic + int k, Some (LibErr r)), Some p1, src1, z1))"
      "c_code L (st_coder z) a inBuf n = (r, k, out, st_coder z1)" "0 < n" "k \<le> length inBuf" "length out \<le> mono_room d"
      "case so of None \<Rightarrow> inBuf = [] | Some s \<Rightarrow> inBuf \<noteq> [] \<and> prefix inBuf (mono_data s)"
      "src_at lin src1 (map_option (\<lambda>s. mono_get s k) so)" "lin p1 = Some (mono_put d out)"
proof -
  obtain inBuf re where s: "round_src B src = (inBuf, re)" by fastforce
  obtain n we where t: "round_dst B (Some p) = (n, we)" by fastforce
  have inBuf: "re = None \<Longrightarrow> case so of None \<Rightarrow> inBuf = [] | Some s \<Rightarrow> inBuf \<noteq> [] \<and> prefix inBuf (mono_data s)"
    and re: "re \<noteq> None \<longleftrightarrow> re = Some EOF \<and> (\<exists>s. so = Some s \<and> mono_data s = [])"
    and n: "n \<le> mono_room d" "we = None \<Longrightarrow> 0 < n" "we \<noteq> None \<longleftrightarrow> we = Some ErrShortWrite \<and> mono_room d = 0"
    using mono_source [OF m so] mono_sink [OF m d] s t
    by (auto simp: take_is_prefix chunkSize_def split: option.splits if_splits)
  show thesis
  proof (cases "re = None \<and> we = None")
    case False
    show thesis
    proof (cases "re = None")
      case True
      with False n(3) show thesis by (intro stop [of we]) (auto simp: processPipe_round_def s t)
    next
      case False
      with re show thesis by (intro stop [of re]) (auto simp: processPipe_round_def s)
    qed
  next
    case True
    obtain r k out c where c: "c_code L (st_coder z) a inBuf n = (r, k, out, c)" by (metis prod.collapse)
    note cs = CodeSlice_spec [OF laws c]
    define z1 where "z1 = z\<lparr>st_next_in := drop k inBuf, st_avail_out := n - length out, st_coder := c,
       st_total_in := st_total_in z + of_nat k, st_total_out := st_total_out z + of_nat (length out)\<rparr>"
    have room: "length out \<le> mono_room d" using cs(3) n(1) by simp
    have run: "processPipe_round B L a (Some p, src, z, oc, ic) =
        (if r = OK then Inr (Some (bp_WriteMark B (bp_Store B p out) (int (length out))),
           map_option (\<lambda>p. bp_ReadMark B p (int k)) src, z1, oc + int (length out), ic + int k)
         else Inl ((oc + int (length out), ic + int k, Some (LibErr r)), Some (bp_WriteMark B (bp_Store B p out) (int (length out))),
           map_option (\<lambda>p. bp_ReadMark B p (int k)) src, z1))"
      using True by (simp add: processPipe_round_def s t cs(1) z1_def NewError_def)
    show thesis
      by (rule code [OF run]) (use True c cs(2) inBuf n room mono_consume [OF m so] s pipe_monoD(15) [OF m d room] in \<open>simp_all add: z1_def\<close>)
  qed
qed

lemma mono_pumped_step:
  assumes c: "c_code L (st_coder z) a inBuf n = (r, k, out, st_coder z1)" and k: "k \<le> length inBuf"
    and i: "case so of None \<Rightarrow> inBuf = [] | Some s \<Rightarrow> prefix inBuf (mono_data s)"
    and d: "mono_ok d" "length out \<le> mono_room d"
    and rest: "mono_pumped L a lin (mono_put d out) (map_option (\<lambda>s. mono_get s k) so) z1 err dst' src' z'"
  shows "mono_pumped L a lin d so z err dst' src' z'"
proof -
  from rest obtain inp out' p' where p: "coder_run L a (st_coder z1) inp out' (st_coder z')"
    "dst' = Some p'" "lin p' = Some (mono_put d (out @ out'))" "length out' \<le> mono_room d - length out"
    "case map_option (\<lambda>s. mono_get s k) so of None \<Rightarrow> src' = None \<and> inp = []
         | Some s \<Rightarrow> \<exists>r'. src' = Some r' \<and> lin r' = Some (mono_get s (length inp)) \<and> prefix inp (mono_data s)"
    "err = Some EOF \<and> (\<exists>s. map_option (\<lambda>s. mono_get s k) so = Some s \<and> inp = mono_data s) \<or>
         err = Some ErrShortWrite \<and> length out' = mono_room d - length out \<or>
         code_error L a (st_coder z') err"
    unfolding mono_pumped_def mono_put_put [OF d] mono_room_put [OF d] by blast
  have run: "coder_run L a (st_coder z) (take k inBuf @ inp) (out @ out') (st_coder z')"
    using coder_run.call [OF c p(1)] .
  have s: "prefix (take k inBuf @ inp) (mono_data s) \<and> length (take k inBuf @ inp) = k + length inp \<and>
      (inp = drop k (mono_data s) \<longrightarrow> take k inBuf @ inp = mono_data s)" if "so = Some s" for s
  proof -
    have "take k inBuf = take k (mono_data s)" using i that k by (auto simp: prefix_def)
    moreover have "prefix inp (drop k (mono_data s))" using p(5) that by (auto simp: mono_data_get)
    moreover have "k \<le> length (mono_data s)" using i that k prefix_length_le by fastforce
    ultimately show ?thesis using k by (auto simp: prefix_def) (metis append_take_drop_id)+
  qed
  have "case so of None \<Rightarrow> src' = None \<and> take k inBuf @ inp = []
     | Some s \<Rightarrow> \<exists>r'. src' = Some r' \<and> lin r' = Some (mono_get s (length (take k inBuf @ inp))) \<and>
         prefix (take k inBuf @ inp) (mono_data s)"
    using p(5) i s by (cases so) (auto simp: mono_get_get)
  moreover have "err = Some EOF \<and> (\<exists>s. so = Some s \<and> take k inBuf @ inp = mono_data s) \<or>
     err = Some ErrShortWrite \<and> length (out @ out') = mono_room d \<or> code_error L a (st_coder z') err"
    using p(6) d(2) s by (cases so) (auto simp: mono_data_get)
  moreover have "length (out @ out') \<le> mono_room d" using p(4) d(2) by simp
  ultimately show ?thesis
    unfolding mono_pumped_def using run p(2,3) by blast
qed

definition src_left :: "lpipe option \<Rightarrow> nat" where
  "src_left so = (case so of None \<Rightarrow> 0 | Some s \<Rightarrow> length (mono_data s))"

lemma mono_pump_loop:
  assumes m: "pipe_mono B lin" and laws: "lzma_code_laws L"
    and prog: "coder_progress L a (so = None) False pend"
    and so: "src_at lin src so" "\<And>s. so = Some s \<Longrightarrow> lp_closed s" and d: "lin p = Some d" "\<not> lp_closed d"
  shows "\<exists>oc' ic' err dst' src' z'. processPipe_loop B L a (Some p, src, z, oc, ic) = Some ((oc', ic', err), dst', src', z') \<and>
    mono_pumped L a lin d so z err dst' src' z'"
  using so d prog
proof (induction "(src_left so, pend (st_coder z))" arbitrary: so src p d z oc ic rule: less_induct)
  case less
  note so = less.prems(1) and closed = less.prems(2) and d = less.prems(3,4)
  have ok: "mono_ok d" by (rule pipe_monoD(1) [OF m d(1)])
  have rdy: "src_ready so" using closed by (auto simp: src_ready_def lp_readable_def split: option.split)
  have idle: "mono_pumped L a lin d so z e (Some p) src z" if "lin p = Some d" "mono_ok d" "src_at lin src so"
    "e = Some EOF \<and> (\<exists>s'. so = Some s' \<and> mono_data s' = []) \<or> e = Some ErrShortWrite \<and> mono_room d = 0 \<or> code_error L a (st_coder z) e"
    for e p d so src z
    unfolding mono_pumped_def using that
    by (intro exI [of _ "[]"] exI [of _ p]) (auto simp: src_at_def intro: coder_run.idle split: option.splits)
  show ?case
  proof (cases rule: mono_round [OF m laws so rdy d, of a z oc ic])
    case (1 err)
    then show ?thesis using idle [OF d(1) ok so, of err] by (subst processPipe_loop_round) auto
  next
    case (2 r k out z1 p1 src1 inBuf n)
    let ?so = "map_option (\<lambda>s. mono_get s k) so"
    have i: "case so of None \<Rightarrow> inBuf = [] | Some s \<Rightarrow> prefix inBuf (mono_data s)" using 2(6) by (auto split: option.splits)
    note step = mono_pumped_step [OF 2(2,4) i ok 2(5)]
    note put = mono_data_put(2) [OF ok 2(5)]
    show ?thesis
    proof (cases "r = OK")
      case False
      have "code_error L a (st_coder z1) (Some (LibErr r))" using 2(2) False unfolding code_error_def by blast
      then have "mono_pumped L a lin (mono_put d out) ?so z1 (Some (LibErr r)) (Some p1) src1 z1"
        by (intro idle 2(7,8) put) simp
      from step [OF this] show ?thesis
        using False by (subst processPipe_loop_round) (simp add: 2(1))
    next
      case r: True
      have "(src_left ?so, pend (st_coder z1)) < (src_left so, pend (st_coder z))"
      proof (cases "k = 0")
        case k: True
        have "(so = None) \<or> inBuf \<noteq> []" using 2(6) by (auto split: option.splits)
        with less.prems(5) 2(2,3) r k have "pend (st_coder z1) < pend (st_coder z)"
          unfolding coder_progress_def by blast
        then show ?thesis using k by (cases so) (simp_all add: src_left_def)
      next
        case False
        with 2(4,6) obtain s' where "so = Some s'" "k \<le> length (mono_data s')"
          using prefix_length_le by (fastforce split: option.splits)
        with False show ?thesis by (auto simp: src_left_def mono_data_get)
      qed
      then have "\<exists>oc' ic' err dst' src' z'. processPipe_loop B L a (Some p1, src1, z1, oc + int (length out), ic + int k) =
          Some ((oc', ic', err), dst', src', z') \<and> mono_pumped L a lin (mono_put d out) ?so z1 err dst' src' z'"
        by (rule less.hyps) (use 2(7,8) less.prems(5) closed d(2) in auto)
      then show ?thesis
        using step r by (subst processPipe_loop_round) (simp add: 2(1), blast)
    qed
  qed
qed

end
