(* ===== verification/Xz_Writer_Props.thy ===== *)
theory Xz_Writer_Props
  imports Xz_Writer Bufpipe_Mono
begin

text \<open>
  What the synchronous writer of \<open>xz/writer.go\<close> produces: every block it writes holds its chunk, the
  chunks are those of the data however it was cut into writes, and the index lists the blocks.
\<close>

section \<open>What liblzma promises here\<close>

text \<open>
  A block header takes at most \<open>BLOCK_HEADER_SIZE_MAX\<close> bytes, encoding it stores as many bytes as its
  size says, a block encoder can be made for a block whose header size was computed, and coding does
  not change the header size of the block.
\<close>

definition lzma_block_laws :: "('z, 'x) liblzma \<Rightarrow> bool" where
  "lzma_block_laws L \<longleftrightarrow>
     (\<forall>b b'. c_block_header_size L b = (OK, b') \<longrightarrow>
        unat (blk_header_size b') \<le> 1024 \<and>
        (\<exists>c. c_block_encoder L b' = (OK, c) \<and>
           (\<forall>inp out c1 out' c2. coder_run L RUN c inp out c1 \<longrightarrow> coder_run L FINISH c1 [] out' c2 \<longrightarrow>
              blk_header_size (c_coder_block L c2) = blk_header_size b'))) \<and>
     (\<forall>b bs. c_block_header_encode L b = (OK, bs) \<longrightarrow> length bs = unat (blk_header_size b))"

text \<open>The contracts of the packages a block encoder calls.\<close>

definition encoder_env ::
  "errs \<Rightarrow> 'p bufpipe \<Rightarrow> ('z, 'x) liblzma \<Rightarrow> ('p \<Rightarrow> lpipe option) \<Rightarrow> ('z \<Rightarrow> nat) \<Rightarrow> ('z \<Rightarrow> nat) \<Rightarrow> bool" where
  "encoder_env E B L lin pr pf \<longleftrightarrow>
     errs_ok E \<and> lzma_header_laws L \<and> lzma_check_laws L \<and> lzma_header_mono L \<and> pipe_mono B lin \<and> lzma_code_laws L \<and>
     coder_progress L RUN False False pr \<and> coder_progress L FINISH True False pf \<and> lzma_block_laws L"

lemma encoder_envD:
  assumes "encoder_env E B L lin pr pf"
  shows "errs_ok E" "lzma_header_laws L" "lzma_check_laws L" "lzma_header_mono L" "pipe_mono B lin" "lzma_code_laws L"
    "coder_progress L RUN False False pr" "coder_progress L FINISH True False pf" "lzma_block_laws L"
  using assms by (simp_all add: encoder_env_def)

text \<open>The configuration of a writer that cuts its data into chunks of \<open>n\<close> bytes.\<close>

definition chunked :: "errs \<Rightarrow> ('z, 'x) liblzma \<Rightarrow> ('z, 'x, 'p, 'w) Writer \<Rightarrow> nat \<Rightarrow> bool" where
  "chunked E L w n \<longleftrightarrow> w_chunkSize w = int n \<and> 65536 \<le> n \<and> n \<le> 2 ^ 30 \<and>
     literalBlockSize L E (Flags_GetCheck (w_flags w)) (int n) = Ret (w_maxSize w)"

lemma sink_sent: "writes_to (Some wr) got \<Longrightarrow> wr w buf = ((k, None), w') \<Longrightarrow> got w' = got w @ buf"
  unfolding writes_to_def option.case by fastforce

text \<open>What an error of the writer goes back to: a call of liblzma or of the underlying writer that fails.\<close>

definition lib_fail :: "('z, 'x) liblzma \<Rightarrow> bool" where
  "lib_fail L \<longleftrightarrow> (\<exists>b. fst (c_block_header_size L b) \<noteq> OK) \<or> (\<exists>b. fst (c_block_header_encode L b) \<noteq> OK) \<or>
     (\<exists>c e. code_error L RUN c e) \<or> (\<exists>c e. code_error L FINISH c (Some e) \<and> e \<noteq> streamEnd) \<or>
     (\<exists>ix u v. fst (c_index_append L ix u v) \<noteq> OK) \<or> (\<exists>ix. fst (c_index_encoder L ix) \<noteq> OK) \<or>
     (\<exists>f. fst (c_stream_footer_encode L f) \<noteq> OK)"

lemma lib_failI:
  "c_block_header_size L b = (r, b') \<Longrightarrow> r \<noteq> OK \<Longrightarrow> lib_fail L" "c_block_header_encode L b = (r, bs) \<Longrightarrow> r \<noteq> OK \<Longrightarrow> lib_fail L"
  "code_error L RUN c e \<Longrightarrow> lib_fail L" "code_error L FINISH c (Some x) \<Longrightarrow> x \<noteq> streamEnd \<Longrightarrow> lib_fail L"
  "Index_Append L ix u v = (Some y, ix') \<Longrightarrow> lib_fail L" "c_index_encoder L ix = (r, c') \<Longrightarrow> r \<noteq> OK \<Longrightarrow> lib_fail L"
  "FooterEncode L f n = ((ftr, Some z), f') \<Longrightarrow> lib_fail L"
proof -
  show "c_block_header_size L b = (r, b') \<Longrightarrow> r \<noteq> OK \<Longrightarrow> lib_fail L" "c_block_header_encode L b = (r, bs) \<Longrightarrow> r \<noteq> OK \<Longrightarrow> lib_fail L"
    "c_index_encoder L ix = (r, c') \<Longrightarrow> r \<noteq> OK \<Longrightarrow> lib_fail L"
    unfolding lib_fail_def by (metis fst_conv)+
  show "code_error L RUN c e \<Longrightarrow> lib_fail L" "code_error L FINISH c (Some x) \<Longrightarrow> x \<noteq> streamEnd \<Longrightarrow> lib_fail L"
    unfolding lib_fail_def by blast+
  show "lib_fail L" if "Index_Append L ix u v = (Some y, ix')"
  proof -
    from that have "fst (c_index_append L ix (of_i64 u) (of_i64 v)) \<noteq> OK" by (auto simp: Index_Append_def split: prod.splits)
    then show ?thesis unfolding lib_fail_def by blast
  qed
  show "lib_fail L" if "FooterEncode L f n = ((ftr, Some z), f')"
  proof -
    from that have "fst (c_stream_footer_encode L (f\<lparr>sf_backward_size := of_i64 n\<rparr>)) \<noteq> OK"
      by (auto simp: FooterEncode_def Let_def split: prod.splits)
    then show ?thesis unfolding lib_fail_def by blast
  qed
qed

section \<open>Blocks\<close>

text \<open>
  A literal block and a compressed block of a chunk, with the unpadded size and the uncompressed size
  that go into the index.
\<close>

definition literal_block ::
  "errs \<Rightarrow> ('z, 'x) liblzma \<Rightarrow> lzma_check \<Rightarrow> bytes \<Rightarrow> bytes \<Rightarrow> int \<times> int \<Rightarrow> bool" where
  "literal_block E L check chunk blk sizes \<longleftrightarrow>
     (\<exists>hdr. literal_header L E check (length chunk) = Ret hdr \<and>
        blk = hdr @ lzma2_literal chunk @ replicate (pad4 (length (lzma2_literal chunk))) 0 @ literal_check L check chunk \<and>
        sizes = (int (length blk) - int (pad4 (length (lzma2_literal chunk))), int (length chunk)))"

definition compressed_block ::
  "('z, 'x) liblzma \<Rightarrow> Block \<Rightarrow> bytes \<Rightarrow> bytes \<Rightarrow> int \<times> int \<Rightarrow> bool" where
  "compressed_block L block chunk blk sizes \<longleftrightarrow>
     (\<exists>b c out1 c1 out2 c2 hdr. c_block_header_size L (b_block block) = (OK, b) \<and> c_block_encoder L b = (OK, c) \<and>
        coder_run L RUN c chunk out1 c1 \<and> coder_run L FINISH c1 [] out2 c2 \<and> code_error L FINISH c2 (Some streamEnd) \<and>
        c_block_header_encode L (c_coder_block L c2) = (OK, hdr) \<and> blk = hdr @ out1 @ out2 \<and>
        sizes = (to_i64 (c_block_unpadded_size L (c_coder_block L c2)), to_i64 (blk_uncompressed_size (c_coder_block L c2))))"

definition block_of ::
  "errs \<Rightarrow> ('z, 'x) liblzma \<Rightarrow> ('z, 'x, 'p, 'w) Writer \<Rightarrow> bytes \<Rightarrow> bytes \<Rightarrow> int \<times> int \<Rightarrow> bool" where
  "block_of E L w chunk blk sizes \<longleftrightarrow>
     literal_block E L (Flags_GetCheck (w_flags w)) chunk blk sizes \<or>
     compressed_block L (blockInit L w (w_chunkSize w) (w_maxSize w)) chunk blk sizes"

section \<open>Encoding a block\<close>

lemma encode_pipes_spec:
  assumes m: "pipe_mono B lin" and laws: "lzma_code_laws L" and prog: "coder_progress L a (\<not> withSrc) False pend"
    and d: "lin p = Some d" "\<not> lp_closed d" and r: "lin r = Some s" "withSrc \<Longrightarrow> lp_closed s"
  obtains err z' p' r' inp out where "encode_pipes B L a withSrc z (p, r) = Some (Ret (err, z'), (p', r'))"
    "coder_run L a (st_coder z) inp out (st_coder z')" "lin p' = Some (mono_put d out)" "length out \<le> mono_room d"
    "lin r' = Some (mono_get s (length inp))" "\<not> withSrc \<Longrightarrow> inp = []"
    "err = Some EOF \<and> inp = mono_data s \<and> withSrc \<or> err = Some ErrShortWrite \<or> code_error L a (st_coder z') err"
proof -
  let ?src = "if withSrc then Some r else None" and ?so = "if withSrc then Some s else None"
  have so: "src_at lin ?src ?so" and cl: "\<And>s'. ?so = Some s' \<Longrightarrow> lp_closed s'" using r by (auto simp: src_at_def split: if_splits)
  have "coder_progress L a (?so = None) False pend" using prog by (cases withSrc) simp_all
  from mono_pump_loop [OF m laws this so cl d, of z 0 0] obtain oc ic err dst' src' z' where
    run: "processPipe_loop B L a (Some p, ?src, z, 0, 0) = Some ((oc, ic, err), dst', src', z')"
      "mono_pumped L a lin d ?so z err dst' src' z'" by blast
  then obtain inp out p' where o: "coder_run L a (st_coder z) inp out (st_coder z')" "dst' = Some p'"
    "lin p' = Some (mono_put d out)" "length out \<le> mono_room d"
    "case ?so of None \<Rightarrow> src' = None \<and> inp = []
       | Some s \<Rightarrow> \<exists>r'. src' = Some r' \<and> lin r' = Some (mono_get s (length inp)) \<and> prefix inp (mono_data s)"
    "err = Some EOF \<and> (\<exists>s. ?so = Some s \<and> inp = mono_data s) \<or>
     err = Some ErrShortWrite \<and> length out = mono_room d \<or> code_error L a (st_coder z') err"
    unfolding mono_pumped_def by blast
  have e: "encode_pipes B L a withSrc z (p, r) = Some (Ret (err, z'), (p', case src' of None \<Rightarrow> r | Some q \<Rightarrow> q))"
    using run(1) o(2) by (simp add: encode_pipes_def ProcessPipe_def)
  show thesis
    by (rule that [OF e o(1,3,4)]) (use o(5,6) r(1) in \<open>auto split: if_splits\<close>)
qed

text \<open>A write pipe that is open and holds \<open>blk\<close>, with room for \<open>m\<close> bytes in all.\<close>

definition holds_block :: "('p \<Rightarrow> lpipe option) \<Rightarrow> nat \<Rightarrow> 'p \<Rightarrow> bytes \<Rightarrow> bool" where
  "holds_block lin m p blk \<longleftrightarrow>
     (\<exists>d. lin p = Some d \<and> lp_mode d = LineMono \<and> \<not> lp_closed d \<and> lp_lo d = 0 \<and> length (lp_buf d) = m \<and> mono_data d = blk)"

text \<open>Pipes an encoder left behind with an error: the write pipe is still open.\<close>

definition pipes_alive :: "('p \<Rightarrow> lpipe option) \<Rightarrow> 'p \<times> 'p \<Rightarrow> bool" where
  "pipes_alive lin s \<longleftrightarrow> (\<exists>q. lin (fst s) = Some q \<and> lp_mode q = LineMono \<and> \<not> lp_closed q) \<and> lin (snd s) \<noteq> None"

text \<open>A read pipe that was filled with a chunk.\<close>

definition holds_chunk :: "('p \<Rightarrow> lpipe option) \<Rightarrow> nat \<Rightarrow> 'p \<Rightarrow> bytes \<Rightarrow> bool" where
  "holds_chunk lin n r chunk \<longleftrightarrow>
     (\<exists>s. lin r = Some s \<and> length (lp_buf s) = n \<and> lp_hi s = length chunk \<and> take (lp_hi s) (lp_buf s) = chunk)"

lemma slice_to_array:
  assumes "pipe_mono B lin" and "lin p = Some q" and "n \<le> length (lp_buf q)"
  shows "slice_to (bp_Array B p) (int n) = Ret (take n (lp_buf q))"
proof -
  have t: "take (length (lp_buf q)) (bp_Array B p) = lp_buf q" by (rule pipe_monoD(5) [OF assms(1,2)])
  then have "length (lp_buf q) \<le> length (bp_Array B p)" by (metis nat_le_linear take_all)
  moreover from t have "take n (lp_buf q) = take n (bp_Array B p)" using assms(3) by (metis min.absorb1 take_take)
  ultimately show ?thesis using assms(3) by (simp add: slice_to_def)
qed

lemma chunked_literal:
  assumes env: "encoder_env E B L lin pr pf" and c: "chunked E L w n" and len: "length chunk \<le> n"
    and out: "length output = nat (w_maxSize w)"
  obtains blk cnt pad rest where "literalBlockEncode L E (Flags_GetCheck (w_flags w)) chunk output = Ret ((length blk, pad), blk @ rest)"
    "length (blk @ rest) = length output"
    "literal_block E L (Flags_GetCheck (w_flags w)) chunk blk (int (length blk) - int pad, int (length chunk))"
proof -
  note e = encoder_envD [OF env]
  let ?check = "Flags_GetCheck (w_flags w)" and ?big = "replicate n 0 :: bytes"
  have n: "n \<le> 2 ^ 62" and max: "literalBlockSize L E ?check (int (length ?big)) = Ret (w_maxSize w)"
    using c by (simp_all add: chunked_def)
  from literalBlockSize_mono [OF e(1-4) _ _ max, of chunk] len n obtain k where
    k: "literalBlockSize L E ?check (int (length chunk)) = Ret k" "k \<le> w_maxSize w" by auto
  have fit: "k \<le> int (length output)" using k(2) out by simp
  have "length chunk \<le> 2 ^ 62" using len n by simp
  from literalBlockEncode_layout [OF e(1-3) this k(1) fit] obtain hdr pad where
    h: "literal_header L E ?check (length chunk) = Ret hdr" "pad = pad4 (length (lzma2_literal chunk))"
      "nat k = length (hdr @ lzma2_literal chunk @ replicate pad 0 @ literal_check L ?check chunk)"
      "literalBlockEncode L E ?check chunk output =
       Ret ((nat k, pad), hdr @ lzma2_literal chunk @ replicate pad 0 @ literal_check L ?check chunk @ drop (nat k) output)"
    by blast
  have "nat k \<le> length output" using fit by simp
  then show thesis
    using h by (intro that [of "hdr @ lzma2_literal chunk @ replicate pad 0 @ literal_check L ?check chunk" pad "drop (nat k) output"])
      (auto simp: literal_block_def)
qed

lemma blockEncode_literal_spec:
  assumes env: "encoder_env E B L lin pr pf" and c: "chunked E L w n"
    and p: "holds_block lin (nat (w_maxSize w)) p old" and r: "holds_chunk lin n r chunk"
  shows "\<exists>p' blk sizes. blockEncode_literal E B L w (p, r) = Some (Ret sizes, (p', r)) \<and>
     holds_block lin (nat (w_maxSize w)) p' blk \<and> block_of E L w chunk blk sizes"
proof -
  note e = encoder_envD [OF env]
  from p obtain d where d: "lin p = Some d" "\<not> lp_closed d" "lp_lo d = 0" "length (lp_buf d) = nat (w_maxSize w)" "lp_mode d = LineMono"
    by (auto simp: holds_block_def)
  from r obtain s where s: "lin r = Some s" "length (lp_buf s) = n" "lp_hi s = length chunk" "take (lp_hi s) (lp_buf s) = chunk"
    by (auto simp: holds_chunk_def)
  have len: "length chunk \<le> n" using pipe_monoD(1) [OF e(5) s(1)] s by (simp add: mono_ok_def)
  obtain blk pad rest where l:
    "literalBlockEncode L E (Flags_GetCheck (w_flags w)) chunk (lp_buf d) = Ret ((length blk, pad), blk @ rest)"
    "length (blk @ rest) = length (lp_buf d)"
    "literal_block E L (Flags_GetCheck (w_flags w)) chunk blk (int (length blk) - int pad, int (length chunk))"
    by (rule chunked_literal [OF env c len d(4)])
  let ?p = "bp_WriteMark B (bp_Rollback B (bp_SetBuffer B p (blk @ rest))) (int (length blk))"
  have 1: "lin (bp_SetBuffer B p (blk @ rest)) = Some (d\<lparr>lp_buf := blk @ rest\<rparr>)"
    by (rule pipe_monoD(12) [OF e(5) d(1) l(2)])
  have 2: "lin (bp_Rollback B (bp_SetBuffer B p (blk @ rest))) = Some (d\<lparr>lp_buf := blk @ rest, lp_hi := 0\<rparr>)"
    using pipe_monoD(11) [OF e(5) 1] d(3,5) by simp
  have "lin ?p = Some (d\<lparr>lp_buf := blk @ rest, lp_hi := length blk\<rparr>)"
    using pipe_monoD(14) [OF e(5) 2, of "length blk"] d(2) by (simp add: mono_room_def)
  then have "holds_block lin (nat (w_maxSize w)) ?p blk"
    using d l(2) by (simp add: holds_block_def mono_data_def)
  moreover have "blockEncode_literal E B L w (p, r) = Some (Ret (int (length blk) - int pad, int (length chunk)), (?p, r))"
    using l(1) d(1) s slice_to_array [OF e(5) s(1), of "length chunk"] len pipe_monoD(4) [OF e(5) d(1)] pipe_monoD(6) [OF e(5) s(1)]
    by (simp add: blockEncode_literal_def)
  ultimately show ?thesis using l(3) by (auto simp: block_of_def)
qed

lemma blockEncode_header_spec:
  assumes env: "encoder_env E B L lin pr pf" and hs: "unat (blk_header_size (b_block block)) = hs"
    and p: "holds_block lin m p (hole @ body)" "length hole = hs" and r: "lin r \<noteq> None"
  shows "outcome (blockEncode_header E B L block (int hs) (p, r))
     (\<lambda>sizes (p', r'). r' = r \<and> (\<exists>hdr. c_block_header_encode L (b_block block) = (OK, hdr) \<and>
        holds_block lin m p' (hdr @ body) \<and> sizes = (UnpaddedSize L block, GetUncompressedSize block))) (\<lambda>s. lib_fail L \<and> pipes_alive lin s)"
proof -
  note e = encoder_envD [OF env]
  from p obtain d where d: "lin p = Some d" "\<not> lp_closed d" "lp_lo d = 0" "length (lp_buf d) = m" "mono_data d = hole @ body" "lp_mode d = LineMono"
    by (auto simp: holds_block_def)
  have ok: "mono_ok d" by (rule pipe_monoD(1) [OF e(5) d(1)])
  then have hi: "lp_hi d = hs + length body" "take (lp_hi d) (lp_buf d) = hole @ body"
    using d(3,5) p(2) length_mono_data [OF ok] by (auto simp: mono_data_def)
  have len: "hs \<le> length (lp_buf d)" "hs + length body \<le> length (lp_buf d)" using ok hi(1) by (simp_all add: mono_ok_def)
  obtain rt bs where enc: "c_block_header_encode L (b_block block) = (rt, bs)" by fastforce
  have data: "slice_to (bp_Array B p) (int hs) = Ret (take hs (lp_buf d))" by (rule slice_to_array [OF e(5) d(1) len(1)])
  have be: "Block_HeaderEncode L block (take hs (lp_buf d)) = Ret (NewError rt, overwrite (take hs (lp_buf d)) 0 bs)"
    using hs len(1) enc by (simp add: Block_HeaderEncode_def uint_of_unat [OF hs])
  let ?buf = "overwrite (lp_buf d) 0 (overwrite (take hs (lp_buf d)) 0 bs)"
  have set: "lin (bp_SetBuffer B p ?buf) = Some (d\<lparr>lp_buf := ?buf\<rparr>)" by (rule pipe_monoD(12) [OF e(5) d(1)]) simp
  have run: "blockEncode_header E B L block (int hs) (p, r) =
      (if rt = OK then Some (Ret (UnpaddedSize L block, GetUncompressedSize block), (bp_SetBuffer B p ?buf, r))
       else Some (Pan (PErr (Some (LibErr rt))), (bp_SetBuffer B p ?buf, r)))"
    using data be pipe_monoD(4) [OF e(5) d(1)] e(1) by (simp add: blockEncode_header_def NewError_def)
  have "holds_block lin m (bp_SetBuffer B p ?buf) (bs @ body)" if "rt = OK"
  proof -
    have "length bs = hs" using e(9) enc that hs unfolding lzma_block_laws_def by blast
    then have "?buf = bs @ drop hs (lp_buf d)" using len by (simp add: overwrite_def)
    moreover have "take (length body) (drop hs (lp_buf d)) = body"
      using hi p(2) by (metis append_eq_conv_conj take_drop add.commute)
    ultimately show ?thesis
      using set d hi(1) \<open>length bs = hs\<close> len by (auto simp: holds_block_def mono_data_def)
  qed
  moreover have "pipes_alive lin (bp_SetBuffer B p ?buf, r)" using set d(2,6) r by (simp add: pipes_alive_def)
  ultimately show ?thesis using run enc by (cases "rt = OK") (auto dest: lib_failI(2))
qed

lemma code_error_lib: "code_error L a c e \<Longrightarrow> code_error L a c e \<and> (\<exists>r. e = Some (LibErr r))"
  by (auto simp: code_error_def)

text \<open>The pipes behind a block encoder that succeeded on \<open>chunk\<close>.\<close>

definition encoded ::
  "errs \<Rightarrow> ('z, 'x) liblzma \<Rightarrow> ('p \<Rightarrow> lpipe option) \<Rightarrow> ('z, 'x, 'p, 'w) Writer \<Rightarrow> nat \<Rightarrow> bytes \<Rightarrow> int \<times> int \<Rightarrow> 'p \<times> 'p \<Rightarrow> bool" where
  "encoded E L lin w n chunk sizes s \<longleftrightarrow> holds_chunk lin n (snd s) chunk \<and>
     (\<exists>blk. holds_block lin (nat (w_maxSize w)) (fst s) blk \<and> block_of E L w chunk blk sizes)"

lemma blockEncode_finish_spec:
  assumes env: "encoder_env E B L lin pr pf"
    and block: "c_block_header_size L (b_block (blockInit L w (w_chunkSize w) (w_maxSize w))) = (OK, b)"
      "c_block_encoder L b = (OK, c0)" "unat (blk_header_size b) = hs"
    and runs: "coder_run L RUN c0 chunk out1 c1" "coder_run L FINISH c1 [] out2 c2" "code_error L FINISH c2 (Some streamEnd)"
    and p: "holds_block lin (nat (w_maxSize w)) p (hole @ out1 @ out2)" "length hole = hs" and r: "holds_chunk lin n r chunk"
  shows "outcome (blockEncode_header E B L (block\<lparr>b_block := c_coder_block L c2\<rparr>) (int hs) (p, r))
     (encoded E L lin w n chunk) (\<lambda>s. lib_fail L \<and> pipes_alive lin s)"
proof -
  let ?b = "block\<lparr>b_block := c_coder_block L c2\<rparr>"
  have "blk_header_size (c_coder_block L c2) = blk_header_size b"
    using encoder_envD(9) [OF env] block(1,2) runs(1,2) unfolding lzma_block_laws_def by force
  then have hs: "unat (blk_header_size (b_block ?b)) = hs" using block(3) by simp
  have "encoded E L lin w n chunk (UnpaddedSize L ?b, GetUncompressedSize ?b) (p', r)"
    if "c_block_header_encode L (c_coder_block L c2) = (OK, hdr)" "holds_block lin (nat (w_maxSize w)) p' (hdr @ out1 @ out2)" for p' hdr
  proof -
    have "compressed_block L (blockInit L w (w_chunkSize w) (w_maxSize w)) chunk (hdr @ out1 @ out2)
        (UnpaddedSize L ?b, GetUncompressedSize ?b)"
    proof -
      have "(UnpaddedSize L ?b, GetUncompressedSize ?b) =
        (to_i64 (c_block_unpadded_size L (c_coder_block L c2)), to_i64 (blk_uncompressed_size (c_coder_block L c2)))"
        by (simp add: UnpaddedSize_def GetUncompressedSize_def)
      then show ?thesis unfolding compressed_block_def using block runs that(1) by blast
    qed
    with that(2) r show ?thesis by (auto simp: encoded_def block_of_def)
  qed
  then show ?thesis
    by (intro outcome_mono [OF blockEncode_header_spec [OF env hs p]]) (use r in \<open>auto simp: holds_chunk_def\<close>)
qed

text \<open>
  The second part of the encoder, after the coder was given \<open>inp\<close> and reported \<open>err\<close>, while the read
  pipe holds \<open>chunk\<close>. It gives a block of \<open>chunk\<close> or an error.
\<close>

definition opened ::
  "('z, 'x) liblzma \<Rightarrow> ('z, 'x, 'p, 'w) Writer \<Rightarrow> Block \<Rightarrow> int \<Rightarrow> 'z \<Rightarrow> nat \<Rightarrow> bool" where
  "opened L w block headerSize c hs \<longleftrightarrow>
     (\<exists>b. c_block_header_size L (b_block (blockInit L w (w_chunkSize w) (w_maxSize w))) = (OK, b) \<and> c_block_encoder L b = (OK, c) \<and>
        unat (blk_header_size b) = hs \<and> headerSize = int hs \<and> block = (blockInit L w (w_chunkSize w) (w_maxSize w))\<lparr>b_block := b\<rparr>)"

lemma blockEncode_rest_spec:
  assumes env: "encoder_env E B L lin pr pf" and c: "chunked E L w n" and block: "opened L w block headerSize c0 hs"
    and run: "coder_run L RUN c0 inp out1 (st_coder z)"
    and p: "holds_block lin (nat (w_maxSize w)) p (hole @ out1)" "length hole = hs" and r: "holds_chunk lin n r chunk"
    and err: "err = Some EOF \<and> inp = chunk \<or> err = Some ErrShortWrite \<or> code_error L RUN (st_coder z) err"
  shows "outcome (blockEncode_rest E B L w block headerSize z err (p, r)) (encoded E L lin w n chunk) (\<lambda>s. lib_fail L \<and> pipes_alive lin s)"
proof -
  note e = encoder_envD [OF env]
  let ?blk = "blockInit L w (w_chunkSize w) (w_maxSize w)"
  from block obtain b where b: "c_block_header_size L (b_block ?blk) = (OK, b)" "c_block_encoder L b = (OK, c0)"
    "unat (blk_header_size b) = hs" "headerSize = int hs" "block = ?blk\<lparr>b_block := b\<rparr>" by (auto simp: opened_def)
  from p obtain d where d: "lin p = Some d" "\<not> lp_closed d" "lp_lo d = 0" "length (lp_buf d) = nat (w_maxSize w)"
    "mono_data d = hole @ out1" "lp_mode d = LineMono" by (auto simp: holds_block_def)
  from r obtain s where s: "lin r = Some s" by (auto simp: holds_chunk_def)
  have ok: "mono_ok d" by (rule pipe_monoD(1) [OF e(5) d(1)])
  have prog: "coder_progress L FINISH (\<not> False) False pf" using e(8) by simp
  obtain err2 z2 p2 r2 inp2 out2 where f: "encode_pipes B L FINISH False z (p, r) = Some (Ret (err2, z2), (p2, r2))"
    "coder_run L FINISH (st_coder z) inp2 out2 (st_coder z2)" "lin p2 = Some (mono_put d out2)" "length out2 \<le> mono_room d"
    "lin r2 = Some (mono_get s (length inp2))" "inp2 = []" "err2 = Some ErrShortWrite \<or> code_error L FINISH (st_coder z2) err2"
    by (rule encode_pipes_spec [OF e(5,6) prog d(1,2) s, where z = z]) auto
  have p2: "holds_block lin (nat (w_maxSize w)) p2 (hole @ out1 @ out2)"
    using f(3) d mono_data_put [OF ok f(4)] ok by (auto simp: holds_block_def)
  have r2: "holds_chunk lin n r2 chunk" using f(5,6) s r by (auto simp: holds_chunk_def)
  have "outcome (blockEncode_literal E B L w (p2, r2)) (encoded E L lin w n chunk) (\<lambda>s. lib_fail L \<and> pipes_alive lin s)"
    using blockEncode_literal_spec [OF env c p2 r2] r2 by (auto simp: encoded_def)
  moreover have "outcome (blockEncode_header E B L (?blk\<lparr>b_block := c_coder_block L (st_coder z2)\<rparr>) (int hs) (p2, r2))
      (encoded E L lin w n chunk) (\<lambda>s. lib_fail L \<and> pipes_alive lin s)" if "inp = chunk" "code_error L FINISH (st_coder z2) (Some streamEnd)"
    using blockEncode_finish_spec [OF env b(1-3) _ _ that(2) p2 p(2) r2, of "st_coder z" ?blk] run f(2,6) that(1) by simp
  moreover have "blockEncode_rest E B L w block headerSize z err (p, r) =
     (if errs_Ignore E err [ErrShortWrite, EOF] \<noteq> None then Some (Pan (PErr (errs_Ignore E err [ErrShortWrite, EOF])), (p, r))
      else if errs_Ignore E err2 [ErrShortWrite, streamEnd] \<noteq> None then Some (Pan (PErr (errs_Ignore E err2 [ErrShortWrite, streamEnd])), (p2, r2))
      else if errs_Match E err [ErrShortWrite] \<or> errs_Match E err2 [ErrShortWrite] then blockEncode_literal E B L w (p2, r2)
      else blockEncode_header E B L (?blk\<lparr>b_block := c_coder_block L (st_coder z2)\<rparr>) (int hs) (p2, r2))"
    using f(1) e(1) by (simp add: blockEncode_rest_def abind_eval b(4,5))
  moreover have "err = Some EOF \<and> inp = chunk \<or> err = Some ErrShortWrite \<or> (\<exists>x. err = Some (LibErr x) \<and> lib_fail L)"
    using err lib_failI(3) by (metis code_error_lib)
  moreover have "err2 = Some ErrShortWrite \<or> (\<exists>x. err2 = Some (LibErr x) \<and> code_error L FINISH (st_coder z2) (Some (LibErr x)))"
    using f(7) by (metis code_error_lib)
  moreover have "pipes_alive lin (p, r)" using d(1,2,6) s by (simp add: pipes_alive_def)
  moreover have "pipes_alive lin (p2, r2)" using f(3,5) d(2,6) by (simp add: pipes_alive_def)
  ultimately show ?thesis
    using e(1) by (auto simp: streamEnd_def golib_laws dest: lib_failI(4) split: if_splits)
qed

lemma chunked_max:
  assumes env: "encoder_env E B L lin pr pf" and c: "chunked E L w n"
  shows "int n \<le> w_maxSize w"
proof -
  note e = encoder_envD [OF env]
  let ?big = "replicate n 0 :: bytes"
  have len: "length ?big \<le> 2 ^ 62"
    and sz: "literalBlockSize L E (Flags_GetCheck (w_flags w)) (int (length ?big)) = Ret (w_maxSize w)"
    using c by (simp_all add: chunked_def)
  have "length ?big \<le> length (lzma2_literal ?big)"
    by (simp add: lzma2_literal_def length_literal_body literalChunkSize_def)
  then show ?thesis
    by (rule_tac literalBlockSize_parts [OF e(1-3) len sz]) simp
qed

text \<open>The first part leaves a hole for the header, unless liblzma refuses the block.\<close>

lemma blockEncode_open_spec:
  assumes env: "encoder_env E B L lin pr pf" and c: "chunked E L w n" and p: "holds_block lin (nat (w_maxSize w)) p []"
    and r: "lin r \<noteq> None"
  shows "outcome (blockEncode_open E B L w (p, r))
    (\<lambda>(block, headerSize, z) (p', r'). r' = r \<and> (\<exists>hs hole. opened L w block headerSize (st_coder z) hs \<and>
       holds_block lin (nat (w_maxSize w)) p' hole \<and> length hole = hs)) (\<lambda>s. lib_fail L \<and> pipes_alive lin s)"
proof -
  note e = encoder_envD [OF env]
  from p obtain d where d: "lin p = Some d" "\<not> lp_closed d" "lp_lo d = 0" "length (lp_buf d) = nat (w_maxSize w)" "mono_data d = []" "lp_mode d = LineMono"
    by (auto simp: holds_block_def)
  have hi: "lp_hi d = 0" using d(3,5) length_mono_data [OF pipe_monoD(1) [OF e(5) d(1)]] by simp
  let ?blk = "blockInit L w (w_chunkSize w) (w_maxSize w)"
  obtain rt b where hsz: "c_block_header_size L (b_block ?blk) = (rt, b)" by fastforce
  have mode: "bp_Mode B p = LineMono" using pipe_monoD(2) [OF e(5) d(1)] d(6) by simp
  show ?thesis
  proof (cases "rt = OK")
    case False
    then show ?thesis using mode hsz e(1) lib_failI(1) [OF hsz] d(1,2,6) r
      by (simp add: blockEncode_open_def HeaderSize_def NewError_def pipes_alive_def)
  next
    case True
    define hs where "hs = unat (blk_header_size b)"
    from e(9) hsz True obtain co where co: "hs \<le> 1024" "c_block_encoder L b = (OK, co)"
      unfolding lzma_block_laws_def hs_def by blast
    have room: "hs \<le> mono_room d" using co(1) chunked_max [OF env c] c d(4) hi by (auto simp: mono_room_def chunked_def)
    let ?p = "bp_WriteMark B p (int hs)" and ?z = "(NewStream L B)\<lparr>st_coder := co\<rparr>"
    have "lin ?p = Some (d\<lparr>lp_hi := hs\<rparr>)" using pipe_monoD(14) [OF e(5) d(1,2) room] hi by simp
    then have "holds_block lin (nat (w_maxSize w)) ?p (take hs (lp_buf d))" "length (take hs (lp_buf d)) = hs"
      using d room hi by (simp_all add: holds_block_def mono_data_def mono_room_def)
    moreover have "blockEncode_open E B L w (p, r) = Some (Ret (?blk\<lparr>b_block := b\<rparr>, int hs, ?z), (?p, r))"
      using mode hsz True co(2) e(1) uint_of_unat [of "blk_header_size b" hs]
      by (simp add: blockEncode_open_def HeaderSize_def Block_NewStreamEncoder_def new_coder_def hs_def adefer_def split: option.split)
    moreover have "opened L w (?blk\<lparr>b_block := b\<rparr>) (int hs) (st_coder ?z) hs"
      using hsz True co(2) by (simp add: opened_def hs_def)
    ultimately show ?thesis by (simp, blast)
  qed
qed

text \<open>
  Encoding a chunk returns: with a block that holds it and the pipes as the caller needs them, or
  with an error. It does not panic otherwise, since the literal block always fits.
\<close>

lemma blockEncode_spec:
  assumes env: "encoder_env E B L lin pr pf" and c: "chunked E L w n"
    and p: "holds_block lin (nat (w_maxSize w)) p []"
    and r: "holds_chunk lin n r chunk" "lin r = Some s" "lp_closed s" "lp_lo s = 0"
  shows "outcome (blockEncode E B L w (p, r)) (encoded E L lin w n chunk) (\<lambda>_. lib_fail L)"
proof -
  note e = encoder_envD [OF env]
  have data: "mono_data s = chunk" using r by (auto simp: holds_chunk_def mono_data_def)
  have prog: "coder_progress L RUN (\<not> True) False pr" using e(7) by simp
  have "outcome (abind (encode_pipes B L RUN True z) (\<lambda>(err, z). blockEncode_rest E B L w block headerSize z err) (p', r))
      (encoded E L lin w n chunk) (\<lambda>_. lib_fail L)"
    if o: "opened L w block headerSize (st_coder z) hs" "holds_block lin (nat (w_maxSize w)) p' hole" "length hole = hs"
    for block headerSize z hs hole p'
  proof -
    from o(2) obtain d where d: "lin p' = Some d" "\<not> lp_closed d" "lp_lo d = 0" "length (lp_buf d) = nat (w_maxSize w)" "mono_data d = hole"
      "lp_mode d = LineMono" by (auto simp: holds_block_def)
    have ok: "mono_ok d" by (rule pipe_monoD(1) [OF e(5) d(1)])
    obtain err z1 p1 r1 inp out where a: "encode_pipes B L RUN True z (p', r) = Some (Ret (err, z1), (p1, r1))"
      "coder_run L RUN (st_coder z) inp out (st_coder z1)" "lin p1 = Some (mono_put d out)" "length out \<le> mono_room d"
      "lin r1 = Some (mono_get s (length inp))"
      "err = Some EOF \<and> inp = chunk \<or> err = Some ErrShortWrite \<or> code_error L RUN (st_coder z1) err"
      by (rule encode_pipes_spec [OF e(5,6) prog d(1,2) r(2), where z = z]) (use r(3) data in auto)
    have "holds_block lin (nat (w_maxSize w)) p1 (hole @ out)"
      using a(3) d ok mono_data_put [OF ok a(4)] by (auto simp: holds_block_def)
    moreover have "holds_chunk lin n r1 chunk" using a(5) r(1,2) by (auto simp: holds_chunk_def)
    ultimately show ?thesis
      using outcome_mono [OF blockEncode_rest_spec [OF env c o(1) a(2) _ o(3) _ a(6)]] a(1) by (simp add: abind_eval)
  qed
  note rest = this
  show ?thesis
    unfolding blockEncode_def by (rule outcome_abind, rule outcome_mono [OF blockEncode_open_spec [OF env c p]])
      (use r(2) in \<open>auto intro: rest\<close>)
qed

section \<open>Encoding synchronously\<close>

text \<open>A write leaves the configuration of a writer alone.\<close>

definition same_conf :: "('z, 'x, 'p, 'w) Writer \<Rightarrow> ('z, 'x, 'p, 'w) Writer \<Rightarrow> bool" where
  "same_conf w w' \<longleftrightarrow> w_closed w' = w_closed w \<and> w_flags w' = w_flags w \<and> w_filters w' = w_filters w \<and>
     w_chunkSize w' = w_chunkSize w \<and> w_maxSize w' = w_maxSize w \<and> w_maxWorkers w' = w_maxWorkers w"

lemma same_conf_refl [simp]: "same_conf w w"
  by (simp add: same_conf_def)

lemma same_conf_trans: "same_conf w w' \<Longrightarrow> same_conf w' w'' \<Longrightarrow> same_conf w w''"
  by (simp add: same_conf_def)

lemma same_confD:
  assumes "same_conf w w'"
  shows "w_closed w' = w_closed w" "w_flags w' = w_flags w" "w_chunkSize w' = w_chunkSize w" "w_maxSize w' = w_maxSize w"
    "w_maxWorkers w' = w_maxWorkers w" "chunked E L w' n = chunked E L w n"
    "block_of E L w' = block_of E L w"
  using assms by (simp_all add: same_conf_def blockInit_def chunked_def block_of_def fun_eq_iff)

text \<open>A read pipe that collects a chunk.\<close>

definition collects :: "('p \<Rightarrow> lpipe option) \<Rightarrow> nat \<Rightarrow> 'p \<Rightarrow> bytes \<Rightarrow> bool" where
  "collects lin n r rest \<longleftrightarrow>
     (\<exists>s. lin r = Some s \<and> \<not> lp_closed s \<and> lp_lo s = 0 \<and> length (lp_buf s) = n \<and> mono_data s = rest)"

lemma blockEncodeSync_spec:
  assumes env: "encoder_env E B L lin pr pf" and c: "chunked E L w n" and wr: "writes_to (Some wr) got"
    and p: "holds_block lin (nat (w_maxSize w)) (w_wrBuf w) []" and r: "collects lin n (w_rdBuf w) chunk"
  shows "outcome (blockEncodeSync E B L wr w)
    (\<lambda>_ w'. same_conf w w' \<and> holds_block lin (nat (w_maxSize w)) (w_wrBuf w') [] \<and> collects lin n (w_rdBuf w') [] \<and>
       (\<exists>blk u v. block_of E L w chunk blk (u, v) \<and> Index_Append L (w_index w) u v = (None, w_index w') \<and>
          got (w_wr w') = got (w_wr w) @ blk)) (\<lambda>_. lib_fail L \<or> sink_fail wr)"
proof -
  note e = encoder_envD [OF env]
  from r obtain s where s: "lin (w_rdBuf w) = Some s" "\<not> lp_closed s" "lp_lo s = 0" "length (lp_buf s) = n" "mono_data s = chunk"
    by (auto simp: collects_def)
  let ?w = "w\<lparr>w_rdBuf := bp_Close B (w_rdBuf w)\<rparr>" and ?r = "bp_Close B (w_rdBuf w)"
  have s1: "lin ?r = Some (s\<lparr>lp_closed := True\<rparr>)" by (rule pipe_monoD(9) [OF e(5) s(1)])
  have hc: "holds_chunk lin n ?r chunk"
    using s1 s length_mono_data [OF pipe_monoD(1) [OF e(5) s(1)]] by (auto simp: holds_chunk_def mono_data_def)
  have c': "chunked E L ?w n" using c by (simp add: chunked_def)
  have p': "holds_block lin (nat (w_maxSize ?w)) (w_wrBuf w) []" using p by simp
  from blockEncode_spec [OF env c' p' hc s1] s(3)
  have enc: "outcome (blockEncode E B L ?w (w_wrBuf w, ?r)) (encoded E L lin ?w n chunk) (\<lambda>_. lib_fail L)" by simp
  then show ?thesis
  proof (cases rule: outcome_cases)
    case (err x t)
    then show ?thesis by (simp add: blockEncodeSync_def adefer_def azoom_def abind_def)
  next
    case (ret sizes t)
    obtain u v p2 r2 where t: "sizes = (u, v)" "t = (p2, r2)" by (metis prod.collapse)
    from ret(2) t obtain blk where k: "holds_chunk lin n r2 chunk" "holds_block lin (nat (w_maxSize w)) p2 blk"
      "block_of E L ?w chunk blk (u, v)" by (auto simp: encoded_def)
    from k(2) obtain d where d: "lin p2 = Some d" "lp_lo d = 0" "length (lp_buf d) = nat (w_maxSize w)" "mono_data d = blk" "lp_mode d = LineMono"
      by (auto simp: holds_block_def)
    from k(1) obtain s2 where s2: "lin r2 = Some s2" "length (lp_buf s2) = n" by (auto simp: holds_chunk_def)
    have d1: "lin (bp_Close B p2) = Some (d\<lparr>lp_closed := True\<rparr>)" by (rule pipe_monoD(9) [OF e(5) d(1)])
    then have data: "fst (bp_ReadSlices B (bp_Close B p2)) = blk"
      using pipe_monoD(7) [OF e(5) d1] d(4) by (simp add: mono_data_def lp_readable_def)
    have fin: "holds_block lin (nat (w_maxSize w)) (bp_Reset B (bp_Close B p2)) []" "collects lin n (bp_Reset B r2) []"
      using pipe_monoD(10) [OF e(5) d1] pipe_monoD(10) [OF e(5) s2(1)] d(3,5) s2(2)
      by (simp_all add: holds_block_def collects_def mono_data_def)
    obtain ie ix where ia: "Index_Append L (w_index w) u v = (ie, ix)" by fastforce
    obtain j we v' where wv: "wr (w_wr w) blk = ((j, we), v')" by (metis prod.collapse)
    have sent: "got v' = got (w_wr w) @ blk" if "we = None"
      using sink_sent [OF wr] wv that by simp
    note run = ret(1) [unfolded t] data ia wv e(1)
    show ?thesis
    proof (cases "ie = None \<and> we = None")
      case True
      then have "blockEncodeSync E B L wr w = Some (Ret (), w\<lparr>w_index := ix, w_wr := v',
          w_wrBuf := bp_Reset B (bp_Close B p2), w_rdBuf := bp_Reset B r2\<rparr>)"
        using run by (simp add: blockEncodeSync_def adefer_def azoom_def abind_def writer_Append_def sink_Write_def set_bufs_def set_wr_def)
      with fin sent ia True k(3) show ?thesis by (auto simp: same_conf_def block_of_def blockInit_def)
    next
      case False
      then show ?thesis
        using run lib_failI(5) [of L "w_index w" u v] unfolding sink_fail_def by (cases ie; cases we)
          (auto simp: blockEncodeSync_def adefer_def azoom_def abind_def writer_Append_def sink_Write_def set_bufs_def set_wr_def)
    qed
  qed
qed

section \<open>Writing\<close>

text \<open>A sequence of chunks, the blocks that hold them, and the index before and after.\<close>

inductive blocks_of ::
  "errs \<Rightarrow> ('z, 'x) liblzma \<Rightarrow> ('z, 'x, 'p, 'w) Writer \<Rightarrow> 'x option \<Rightarrow> bytes list \<Rightarrow> bytes list \<Rightarrow> 'x option \<Rightarrow> bool"
  for E :: errs and L :: "('z, 'x) liblzma" and w :: "('z, 'x, 'p, 'w) Writer" and ix0 :: "'x option" where
  none: "blocks_of E L w ix0 [] [] ix0"
| more: "blocks_of E L w ix0 cs bs ix \<Longrightarrow> block_of E L w c b (u, v) \<Longrightarrow> Index_Append L ix u v = (None, ix') \<Longrightarrow>
     blocks_of E L w ix0 (cs @ [c]) (bs @ [b]) ix'"

text \<open>
  The writer \<open>w\<close> after \<open>data\<close> was written to \<open>w0\<close>: full chunks have gone out as blocks and are in the
  index, the rest is collected in the read pipe.
\<close>

definition sync_inv ::
  "errs \<Rightarrow> ('z, 'x) liblzma \<Rightarrow> ('p \<Rightarrow> lpipe option) \<Rightarrow> ('w \<Rightarrow> bytes) \<Rightarrow> nat \<Rightarrow> ('z, 'x, 'p, 'w) Writer \<Rightarrow> bytes \<Rightarrow>
   ('z, 'x, 'p, 'w) Writer \<Rightarrow> bool" where
  "sync_inv E L lin got n w0 data w \<longleftrightarrow>
     same_conf w0 w \<and> holds_block lin (nat (w_maxSize w0)) (w_wrBuf w) [] \<and>
     (\<exists>full rest blks. data = concat full @ rest \<and> (\<forall>c \<in> set full. length c = n) \<and> collects lin n (w_rdBuf w) rest \<and>
        blocks_of E L w0 (w_index w0) full blks (w_index w) \<and> got (w_wr w) = got (w_wr w0) @ concat blks)"

definition buf_full :: "('p \<Rightarrow> lpipe option) \<Rightarrow> ('z, 'x, 'p, 'w) Writer \<Rightarrow> nat" where
  "buf_full lin w = (case lin (w_rdBuf w) of Some s \<Rightarrow> (if mono_room s = 0 then 1 else 0) | None \<Rightarrow> 0)"

lemma collects_room:
  assumes "pipe_mono B lin" and "lin r = Some s" and "lp_lo s = 0" and "length (lp_buf s) = n"
  shows "mono_room s = n - length (mono_data s)" "length (mono_data s) \<le> n"
  using pipe_monoD(1) [OF assms(1,2)] assms(3,4) length_mono_data [of s] by (auto simp: mono_room_def mono_ok_def)

lemma Write_block_step_spec:
  assumes env: "encoder_env E B L lin pr pf" and c: "chunked E L w0 n" and wr: "writes_to (Some wr) got"
    and inv: "sync_inv E L lin got n w0 (d0 @ take (nat cnt) data) w" and cnt: "0 \<le> cnt" "cnt < int (length data)"
  shows "outcome (Write_block_step E B L wr data (cnt, w))
    (\<lambda>_ (cnt', w'). 0 \<le> cnt' \<and> cnt' \<le> int (length data) \<and> sync_inv E L lin got n w0 (d0 @ take (nat cnt') data) w' \<and>
       2 * (length data - nat cnt') + buf_full lin w' < 2 * (length data - nat cnt) + buf_full lin w)
    (\<lambda>(cnt', w'). 0 \<le> cnt' \<and> cnt' \<le> int (length data) \<and> (lib_fail L \<or> sink_fail wr))"
proof -
  note e = encoder_envD [OF env]
  from inv obtain full rest blks s where
    i: "same_conf w0 w" "holds_block lin (nat (w_maxSize w0)) (w_wrBuf w) []" "d0 @ take (nat cnt) data = concat full @ rest"
      "\<forall>c \<in> set full. length c = n" "blocks_of E L w0 (w_index w0) full blks (w_index w)" "got (w_wr w) = got (w_wr w0) @ concat blks"
    and s: "lin (w_rdBuf w) = Some s" "\<not> lp_closed s" "lp_lo s = 0" "length (lp_buf s) = n" "mono_data s = rest"
    by (auto simp: sync_inv_def collects_def)
  note room = collects_room [OF e(5) s(1,3,4)]
  let ?more = "drop (nat cnt) data"
  define k where "k = min (length ?more) (mono_room s)"
  define more where "more = take (mono_room s) ?more"
  from pipe_monoD(16) [OF e(5) s(1,2), of ?more] obtain r' where
    w1: "bp_Write B (w_rdBuf w) ?more = ((int k, if mono_room s < length ?more then Some ErrShortWrite else None), r')"
      "lin r' = Some (mono_put s more)" unfolding k_def more_def by blast
  define cnt' where "cnt' = cnt + int k"
  let ?w = "w\<lparr>w_rdBuf := r'\<rparr>"
  have ok: "mono_ok s" by (rule pipe_monoD(1) [OF e(5) s(1)])
  have r': "collects lin n r' (rest @ more)"
    using w1(2) s mono_data_put(1) [OF ok, of more] ok by (simp add: collects_def more_def)
  have k: "k \<le> length ?more" "nat cnt' = nat cnt + k" using cnt by (auto simp: k_def cnt'_def)
  have cnt': "0 \<le> cnt'" "cnt' \<le> int (length data)" using cnt by (auto simp: cnt'_def k_def)
  have taken: "d0 @ take (nat cnt') data = concat full @ rest @ more"
  proof -
    have "take k ?more = more" by (simp add: k_def more_def min_def)
    then have "d0 @ take (nat cnt') data = (d0 @ take (nat cnt) data) @ more" by (simp add: k(2) take_add)
    with i(3) show ?thesis by simp
  qed
  have bf: "buf_full lin x \<le> 1" for x by (simp add: buf_full_def split: option.split)
  have less: "2 * (length data - nat cnt') + b < 2 * (length data - nat cnt) + b'" if "b \<le> 1" "0 < k \<or> b < b'" for b b' :: nat
    using that k by (auto simp: k(2)) 
  show ?thesis
  proof (cases "mono_room s < length ?more")
    case False
    have "Write_block_step E B L wr data (cnt, w) = Some (Ret (), (cnt', ?w))"
      using w1(1) False cnt e(1) by (simp add: Write_block_step_def slice_from_def golib_laws cnt'_def)
    moreover have "sync_inv E L lin got n w0 (d0 @ take (nat cnt') data) ?w"
      unfolding sync_inv_def taken using i r'
      by (intro conjI exI [of _ full] exI [of _ "rest @ more"] exI [of _ blks]) (simp_all add: same_conf_def)
    moreover have "0 < k" using False cnt by (auto simp: k_def)
    ultimately show ?thesis using cnt' less [OF bf, of ?w "buf_full lin w"] by simp
  next
    case True
    have full: "length (rest @ more) = n" using True room s(5) by (auto simp: more_def)
    have c': "chunked E L ?w n" and p': "holds_block lin (nat (w_maxSize ?w)) (w_wrBuf ?w) []"
      using c i(1,2) by (simp_all add: same_conf_def chunked_def)
    have r1: "collects lin n (w_rdBuf ?w) (rest @ more)" using r' by simp
    have step: "Write_block_step E B L wr data (cnt, w) = azoom snd (\<lambda>w s. (fst s, w)) (blockEncodeSync E B L wr) (cnt', ?w)"
      using w1(1) True cnt e(1)
      by (simp add: Write_block_step_def slice_from_def golib_laws abind_def azoom_def aPanic_def cnt'_def split: option.split go.split)
    from blockEncodeSync_spec [OF env c' wr p' r1] show ?thesis
    proof (cases rule: outcome_cases)
      case (err x t)
      then show ?thesis using cnt' by (simp add: step azoom_def)
    next
      case (ret x w')
      then obtain blk u v where b: "same_conf ?w w'" "holds_block lin (nat (w_maxSize w)) (w_wrBuf w') []" "collects lin n (w_rdBuf w') []"
        "block_of E L ?w (rest @ more) blk (u, v)" "Index_Append L (w_index w) u v = (None, w_index w')" "got (w_wr w') = got (w_wr w) @ blk"
        by auto
      have sc: "same_conf w0 w'" "w_maxSize w = w_maxSize w0" using i(1) b(1) by (simp_all add: same_conf_def)
      have "block_of E L w0 (rest @ more) blk (u, v)"
        using b(4) i(1) by (simp add: same_conf_def block_of_def blockInit_def)
      with b(5) have "blocks_of E L w0 (w_index w0) (full @ [rest @ more]) (blks @ [blk]) (w_index w')"
        using blocks_of.more [OF i(5)] by blast
      then have "sync_inv E L lin got n w0 (d0 @ take (nat cnt') data) w'"
        unfolding sync_inv_def taken using i(4,6) b(2,3,6) sc full
        by (intro conjI exI [of _ "full @ [rest @ more]"] exI [of _ "[]"] exI [of _ "blks @ [blk]"]) auto
      moreover have "buf_full lin w' < buf_full lin w" if "k = 0"
      proof -
        from b(3) obtain s' where "lin (w_rdBuf w') = Some s'" "lp_lo s' = 0" "length (lp_buf s') = n" "mono_data s' = []"
          by (auto simp: collects_def)
        with collects_room [OF e(5) this(1-3)] c have "buf_full lin w' = 0" by (auto simp: buf_full_def chunked_def)
        moreover have "mono_room s = 0" using that cnt True by (auto simp: k_def)
        ultimately show ?thesis by (simp add: buf_full_def s(1))
      qed
      ultimately show ?thesis using ret(1) cnt' less [OF bf, of w' "buf_full lin w"] by (auto simp: step azoom_def)
    qed
  qed
qed

lemma Write_blocks_spec:
  assumes env: "encoder_env E B L lin pr pf" and c: "chunked E L w0 n" and wr: "writes_to (Some wr) got"
  shows "sync_inv E L lin got n w0 (d0 @ take (nat cnt) data) w \<Longrightarrow> 0 \<le> cnt \<Longrightarrow> cnt \<le> int (length data) \<Longrightarrow>
    outcome (Write_blocks E B L wr data (cnt, w))
      (\<lambda>_ (cnt', w'). cnt' = int (length data) \<and> sync_inv E L lin got n w0 (d0 @ data) w')
      (\<lambda>(cnt', w'). 0 \<le> cnt' \<and> cnt' \<le> int (length data) \<and> (lib_fail L \<or> sink_fail wr))"
proof (induction "2 * (length data - nat cnt) + buf_full lin w" arbitrary: cnt w rule: less_induct)
  case less
  show ?case
  proof (cases "cnt < int (length data)")
    case False
    with less.prems show ?thesis by (subst Write_blocks.simps) simp
  next
    case True
    from Write_block_step_spec [OF env c wr less.prems(1,2) True] show ?thesis
    proof (cases rule: outcome_cases)
      case (err x t)
      with True show ?thesis by (subst Write_blocks.simps) auto
    next
      case (ret x t)
      then obtain cnt' w' where t: "t = (cnt', w')" "0 \<le> cnt'" "cnt' \<le> int (length data)"
        "sync_inv E L lin got n w0 (d0 @ take (nat cnt') data) w'"
        "2 * (length data - nat cnt') + buf_full lin w' < 2 * (length data - nat cnt) + buf_full lin w" by auto
      have "Write_blocks E B L wr data (cnt, w) = Write_blocks E B L wr data (cnt', w')"
        using ret(1) True t(1) by (subst Write_blocks.simps) simp
      with less.hyps [OF t(5,4,2,3)] show ?thesis by simp
    qed
  qed
qed

text \<open>
  A write in the synchronous block mode returns: with all of the data taken and no error, or with an
  error and the number of bytes taken before it. It does not panic.
\<close>

lemma Writer_Write_sync:
  assumes env: "encoder_env E B L lin pr pf" and c: "chunked E L w0 n" and wr: "writes_to (Some wr) got"
    and inv: "sync_inv E L lin got n w0 d0 w" and w: "\<not> w_closed w0" "w_maxWorkers w0 = WorkersSync"
  shows "\<exists>cnt err w'. Writer_Write E U B L wr async data w = Some (Ret (cnt, err), w') \<and> 0 \<le> cnt \<and> cnt \<le> int (length data) \<and>
    (err = None \<longrightarrow> cnt = int (length data) \<and> sync_inv E L lin got n w0 (d0 @ data) w') \<and>
    (err \<noteq> None \<longrightarrow> lib_fail L \<or> sink_fail wr)"
proof -
  note e = encoder_envD [OF env]
  have conf: "\<not> w_closed w" "w_maxWorkers w = WorkersSync" "w_chunkSize w \<noteq> ChunkStream"
    using inv w c by (auto simp: sync_inv_def same_conf_def chunked_def ChunkStream_def)
  have "sync_inv E L lin got n w0 (d0 @ take (nat 0) data) w" using inv by simp
  from Write_blocks_spec [OF env c wr this] have "outcome (Write_blocks E B L wr data (0, w))
      (\<lambda>_ (cnt', w'). cnt' = int (length data) \<and> sync_inv E L lin got n w0 (d0 @ data) w')
      (\<lambda>(cnt', w'). 0 \<le> cnt' \<and> cnt' \<le> int (length data) \<and> (lib_fail L \<or> sink_fail wr))" by simp
  then show ?thesis
    by (rule outcome_cases) (use conf e(1) in \<open>auto simp: Writer_Write_def arecover_def abind_def golib_laws\<close>)
qed

text \<open>A sequence of successful writes.\<close>

fun Writer_writes ::
  "errs \<Rightarrow> ('v, 'u) ioutil \<Rightarrow> 'p bufpipe \<Rightarrow> ('z, 'x) liblzma \<Rightarrow> 'w io_write \<Rightarrow> (bytes \<Rightarrow> ('z, 'x, 'p, 'w) async_branch) \<Rightarrow>
   bytes list \<Rightarrow> ('z, 'x, 'p, 'w) Writer \<Rightarrow> ('z, 'x, 'p, 'w) Writer option" where
  "Writer_writes E U B L wr async [] w = Some w"
| "Writer_writes E U B L wr async (d # ds) w =
     (case Writer_Write E U B L wr async d w of
        Some (Ret (_, None), w) \<Rightarrow> Writer_writes E U B L wr async ds w
      | _ \<Rightarrow> None)"

lemma Writer_writes_sync:
  assumes env: "encoder_env E B L lin pr pf" and c: "chunked E L w0 n" and wr: "writes_to (Some wr) got"
    and w: "\<not> w_closed w0" "w_maxWorkers w0 = WorkersSync"
  shows "sync_inv E L lin got n w0 d0 w1 \<Longrightarrow> Writer_writes E U B L wr async ds w1 = Some w2 \<Longrightarrow>
    sync_inv E L lin got n w0 (d0 @ concat ds) w2"
proof (induction ds arbitrary: d0 w1)
  case (Cons d ds)
  from Writer_Write_sync [OF env c wr Cons.prems(1) w, of U async d] obtain cnt err w' where
    k: "Writer_Write E U B L wr async d w1 = Some (Ret (cnt, err), w')"
      "err = None \<longrightarrow> sync_inv E L lin got n w0 (d0 @ d) w'" by blast
  with Cons.prems(2) have "err = None" "Writer_writes E U B L wr async ds w' = Some w2" by (cases err; simp)+
  with Cons.IH [of "d0 @ d" w'] k(2) show ?case by simp
qed simp

section \<open>Closing\<close>

text \<open>The full chunks and the rest are the chunks of the data.\<close>

lemma chunks_concat:
  "\<forall>c \<in> set full. length c = n \<Longrightarrow> 0 < n \<Longrightarrow> length rest \<le> n \<Longrightarrow>
   chunks n (concat full @ rest) = full @ (if rest = [] then [] else [rest])"
  by (induction full) (simp_all add: chunks_full_append chunks_short)

lemma finish_stream_spec:
  assumes q: "pipe_queue B good view" "pipe_ring B good view" "pipe_new_laws B" and laws: "lzma_code_laws L"
    and prog: "coder_progress L FINISH True False pf" and wr: "writes_to (Some wr) got"
    and z: "z = (NewStream L B)\<lparr>st_coder := c\<rparr>"
  shows "\<exists>err z' v'. finish_stream B L wr z v = Some (Ret (err, z'), v') \<and> err \<noteq> None \<and>
    (err = Some streamEnd \<longrightarrow> (\<forall>w buf k w'. wr w buf \<noteq> ((k, Some streamEnd), w')) \<longrightarrow>
       (\<exists>out. coder_run L FINISH c [] out (st_coder z') \<and> code_error L FINISH (st_coder z') (Some streamEnd) \<and> got v' = got v @ out)) \<and>
    (err \<noteq> Some streamEnd \<longrightarrow> lib_fail L \<or> sink_fail wr)"
proof -
  have prog': "coder_progress L FINISH ((None :: unit io_read option) = None) (Some wr = None) pf" using prog by simp
  have rd: "reads_from (None :: unit io_read option) (\<lambda>_. [])" "reader_live (None :: unit io_read option)"
    by (simp_all add: reads_from_def reader_live_def)
  have buf: "st_inBuf z = bp_nil B" "st_outBuf z = bp_nil B" "st_coder z = c" by (simp_all add: z NewStream_def)
  have g: "good (st_inBuf z)" "good (st_outBuf z)" "view (st_inBuf z) = []" "view (st_outBuf z) = []"
    by (simp_all add: buf pipe_queueD(1,2) [OF q(1)])
  from Process_returns_aux [OF q laws rd wr prog' g(1,2,4), of "()" v] buf obtain oc ic err z' s v' where
    run: "Process B L FINISH (Some wr) (None :: unit io_read option) z () v = Some ((oc, ic, err), z', s, v')" by fastforce
  from Process_post [OF run _ q(1) laws rd(1) wr g(1,2)]
  have post: "process_post B L FINISH good view (\<lambda>_. []) got (Some wr) (None :: unit io_read option) z () v 0 0 ic oc err z' s v'" by simp
  have "\<exists>out. coder_run L FINISH c [] out (st_coder z') \<and> code_error L FINISH (st_coder z') (Some streamEnd) \<and> got v' = got v @ out"
    if "err = Some streamEnd" "\<forall>w buf k w'. wr w buf \<noteq> ((k, Some streamEnd), w')"
  proof -
    from post that have v: "view (st_outBuf z') = []" "code_error L FINISH (st_coder z') (Some streamEnd)"
      by (auto simp: process_post_def write_error_def read_error_def)
    from post obtain out where "coder_run L FINISH c [] out (st_coder z')" "got v' = got v @ out"
      using v g buf(3) unfolding process_post_def pumped_def prod.case by auto
    with v show ?thesis by blast
  qed
  moreover have "lib_fail L \<or> sink_fail wr" if "err \<noteq> Some streamEnd"
  proof -
    obtain x where x: "err = Some x" "write_error (Some wr) v' err \<or> code_error L FINISH (st_coder z') err"
      using post by (auto simp: process_post_def read_error_def)
    then show ?thesis
      using that lib_failI(4) [of L "st_coder z'" x] by (auto simp: sink_fail_def write_error_def)
  qed
  ultimately show ?thesis using run post by (auto simp: finish_stream_def process_post_def)
qed

text \<open>The index of a stream and its footer, as they follow the blocks.\<close>

definition index_and_footer :: "('z, 'x) liblzma \<Rightarrow> StreamFlags \<Rightarrow> 'x option \<Rightarrow> bytes \<Rightarrow> bool" where
  "index_and_footer L flags ix bs \<longleftrightarrow>
     (\<exists>c out c' ftr flags'. c_index_encoder L ix = (OK, c) \<and> coder_run L FINISH c [] out c' \<and>
        code_error L FINISH c' (Some streamEnd) \<and> FooterEncode L flags (Index_Size L ix) = ((ftr, None), flags') \<and> bs = out @ ftr)"

text \<open>Errors of liblzma do not come from the caller's writer.\<close>

definition foreign_errors :: "'w io_write \<Rightarrow> bool" where
  "foreign_errors wr \<longleftrightarrow> (\<forall>w buf k r w'. wr w buf \<noteq> ((k, Some (LibErr r)), w'))"

lemma Close_tail_spec:
  assumes E: "errs_ok E" and q: "pipe_queue B good view" "pipe_ring B good view" "pipe_new_laws B" and laws: "lzma_code_laws L"
    and prog: "coder_progress L FINISH True False pf" and wr: "writes_to (Some wr) got" "foreign_errors wr"
  shows "outcome (Close_tail E B L wr w)
    (\<lambda>_ w'. w_closed w' = w_closed w \<and> (\<exists>bs. index_and_footer L (w_flags w) (w_index w) bs \<and> got (w_wr w') = got (w_wr w) @ bs)) (\<lambda>_. lib_fail L \<or> sink_fail wr)"
proof -
  obtain r c where enc: "c_index_encoder L (w_index w) = (r, c)" by fastforce
  show ?thesis
  proof (cases "r = OK")
    case False
    then show ?thesis using enc E lib_failI(6) [OF enc] by (simp add: Close_tail_def Index_NewStreamEncoder_def new_coder_def NewError_def)
  next
    case True
    from finish_stream_spec [OF q laws prog wr(1) refl, of c "w_wr w"] obtain err z' v' where
      f: "finish_stream B L wr ((NewStream L B)\<lparr>st_coder := c\<rparr>) (w_wr w) = Some (Ret (err, z'), v')" "err \<noteq> None"
        "err = Some streamEnd \<longrightarrow> (\<exists>out. coder_run L FINISH c [] out (st_coder z') \<and> code_error L FINISH (st_coder z') (Some streamEnd) \<and> got v' = got (w_wr w) @ out)" "err \<noteq> Some streamEnd \<longrightarrow> lib_fail L \<or> sink_fail wr"
      using wr(2) unfolding foreign_errors_def streamEnd_def by blast
    obtain ftr fe fl where ft: "FooterEncode L (w_flags w) (Index_Size L (w_index w)) = ((ftr, fe), fl)" by (metis prod.collapse)
    obtain k we v'' where wv: "wr v' ftr = ((k, we), v'')" by (metis prod.collapse)
    have sent: "got v'' = got v' @ ftr" if "we = None" using sink_sent [OF wr(1)] wv that by simp
    have run: "Close_tail E B L wr w = (if err \<noteq> Some streamEnd then Some (Pan (PErr err), w\<lparr>w_wr := v'\<rparr>)
        else if fe \<noteq> None then Some (Pan (PErr fe), w\<lparr>w_wr := v', w_flags := fl\<rparr>)
        else Some (if we = None then Ret () else Pan (PErr we), w\<lparr>w_wr := v'', w_flags := fl\<rparr>))"
      using enc True E f(1,2) ft wv
      by (auto simp: Close_tail_def Index_NewStreamEncoder_def new_coder_def azoom_def abind_def sink_Write_def set_wr_def golib_laws split: if_splits)
    show ?thesis
    proof (cases "err = Some streamEnd \<and> fe = None \<and> we = None")
      case False
      moreover have "fe = Some x \<Longrightarrow> lib_fail L" for x using lib_failI(7) ft by blast
      moreover have "we = Some x \<Longrightarrow> sink_fail wr" for x using wv unfolding sink_fail_def by blast
      ultimately show ?thesis using f(2,4) unfolding run by (cases err; cases fe; cases we) auto
    next
      case ok: True
      with f(3) obtain out where "coder_run L FINISH c [] out (st_coder z')" "code_error L FINISH (st_coder z') (Some streamEnd)"
        "got v' = got (w_wr w) @ out" by blast
      with enc True ft ok sent have "index_and_footer L (w_flags w) (w_index w) (out @ ftr)" "got v'' = got (w_wr w) @ out @ ftr"
        unfolding index_and_footer_def by auto
      then show ?thesis using ok unfolding run by auto
    qed
  qed
qed

lemma Close_blocks_spec:
  assumes env: "encoder_env E B L lin pr pf" and c: "chunked E L w0 n" and wr: "writes_to (Some wr) got"
    and inv: "sync_inv E L lin got n w0 data w"
  shows "outcome ((if bp_Length B (w_rdBuf w) > 0 then blockEncodeSync E B L wr else aret ()) (w\<lparr>w_closed := True\<rparr>))
     (\<lambda>_ w'. w_closed w' \<and> w_flags w' = w_flags w0 \<and>
        (\<exists>blks. blocks_of E L w0 (w_index w0) (chunks n data) blks (w_index w') \<and> got (w_wr w') = got (w_wr w0) @ concat blks))
     (\<lambda>_. lib_fail L \<or> sink_fail wr)"
proof -
  note e = encoder_envD [OF env]
  from inv obtain full rest blks s where
    i: "same_conf w0 w" "holds_block lin (nat (w_maxSize w0)) (w_wrBuf w) []" "data = concat full @ rest"
      "\<forall>c \<in> set full. length c = n" "blocks_of E L w0 (w_index w0) full blks (w_index w)" "got (w_wr w) = got (w_wr w0) @ concat blks"
      "collects lin n (w_rdBuf w) rest"
    and s: "lin (w_rdBuf w) = Some s" "\<not> lp_closed s" "lp_lo s = 0" "length (lp_buf s) = n" "mono_data s = rest"
    by (auto simp: sync_inv_def collects_def)
  have "0 < n" using c by (simp add: chunked_def)
  with i(3,4) collects_room [OF e(5) s(1,3,4)] s(5)
  have ch: "chunks n data = full @ (if rest = [] then [] else [rest])" by (simp add: chunks_concat)
  have len: "bp_Length B (w_rdBuf w) = int (length rest)" using pipe_monoD(3) [OF e(5) s(1)] s(5) by simp
  show ?thesis
  proof (cases "rest = []")
    case True
    with len i ch show ?thesis by (auto simp: same_conf_def)
  next
    case False
    let ?w = "w\<lparr>w_closed := True\<rparr>"
    have c': "chunked E L ?w n" and p': "holds_block lin (nat (w_maxSize ?w)) (w_wrBuf ?w) []"
      and r': "collects lin n (w_rdBuf ?w) rest"
      using c i(1,2,7) by (simp_all add: same_conf_def chunked_def)
    have bo: "block_of E L ?w = block_of E L w0" using i(1) by (simp add: same_conf_def block_of_def blockInit_def fun_eq_iff)
    have "w_closed w' \<and> w_flags w' = w_flags w0 \<and>
        (\<exists>blks. blocks_of E L w0 (w_index w0) (chunks n data) blks (w_index w') \<and> got (w_wr w') = got (w_wr w0) @ concat blks)"
      if "same_conf ?w w'" "block_of E L ?w rest blk (u, v)" "Index_Append L (w_index w) u v = (None, w_index w')"
        "got (w_wr w') = got (w_wr w) @ blk" for w' blk u v
      using that i(1,6) blocks_of.more [OF i(5), of rest blk u v "w_index w'"] False
      by (auto simp: ch bo same_conf_def intro!: exI [of _ "blks @ [blk]"])
    then have "outcome (blockEncodeSync E B L wr ?w) (\<lambda>_ w'. w_closed w' \<and> w_flags w' = w_flags w0 \<and>
        (\<exists>blks. blocks_of E L w0 (w_index w0) (chunks n data) blks (w_index w') \<and> got (w_wr w') = got (w_wr w0) @ concat blks)) (\<lambda>_. lib_fail L \<or> sink_fail wr)"
      by (intro outcome_mono [OF blockEncodeSync_spec [OF env c' wr p' r']]) auto
    with False len show ?thesis by simp
  qed
qed

text \<open>Closing after \<open>data\<close> was written.\<close>

lemma Writer_Close_sync:
  assumes env: "encoder_env E B L lin pr pf" and q: "pipe_queue B good view" "pipe_ring B good view" "pipe_new_laws B"
    and c: "chunked E L w0 n" and wr: "writes_to (Some wr) got" "foreign_errors wr"
    and inv: "sync_inv E L lin got n w0 data w" and w: "\<not> w_closed w0" "w_maxWorkers w0 = WorkersSync"
  shows "\<exists>err w'. Writer_Close E B L wr async w = Some (Ret err, w') \<and>
    (err = None \<longrightarrow> (\<exists>blks ix bs. blocks_of E L w0 (w_index w0) (chunks n data) blks ix \<and>
       index_and_footer L (w_flags w0) ix bs \<and> got (w_wr w') = got (w_wr w0) @ concat blks @ bs)) \<and>
    (err \<noteq> None \<longrightarrow> lib_fail L \<or> sink_fail wr)"
proof -
  note e = encoder_envD [OF env]
  have conf: "\<not> w_closed w" "w_maxWorkers w = WorkersSync" "w_chunkSize w \<noteq> ChunkStream"
    using inv w c by (auto simp: sync_inv_def same_conf_def chunked_def ChunkStream_def)
  define Q where "Q v \<longleftrightarrow> (\<exists>blks ix bs. blocks_of E L w0 (w_index w0) (chunks n data) blks ix \<and>
       index_and_footer L (w_flags w0) ix bs \<and> got v = got (w_wr w0) @ concat blks @ bs)" for v
  let ?fin = "if bp_Length B (w_rdBuf w) > 0 then blockEncodeSync E B L wr else aret ()"
  have tail: "outcome (Close_tail E B L wr v) (\<lambda>_ w'. Q (w_wr w')) (\<lambda>_. lib_fail L \<or> sink_fail wr)"
    if "w_flags v = w_flags w0" "blocks_of E L w0 (w_index w0) (chunks n data) blks (w_index v)" "got (w_wr v) = got (w_wr w0) @ concat blks" for v blks
    by (rule outcome_mono [OF Close_tail_spec [OF e(1) q e(6,8) wr]]) (use that in \<open>auto simp: Q_def\<close>)
  let ?m = "abind ?fin (\<lambda>_. abind (Close_tail E B L wr) (\<lambda>_. aret (None :: goerr option)))" and ?w = "w\<lparr>w_closed := True\<rparr>"
  let ?free = "\<lambda>w. w\<lparr>w_index := Index_End (w_index w)\<rparr>"
  have "outcome (?m ?w) (\<lambda>x w'. x = None \<and> Q (w_wr w')) (\<lambda>_. lib_fail L \<or> sink_fail wr)"
    by (rule outcome_abind, rule Close_blocks_spec [OF env c wr(1) inv], rule outcome_abind) (auto intro: tail)
  then have "outcome (adefer (amod ?free) ?m ?w) (\<lambda>x w'. x = None \<and> Q (w_wr w')) (\<lambda>_. lib_fail L \<or> sink_fail wr)"
    by (rule outcome_mono [OF outcome_adefer [where m = ?m and s = ?w and g = ?free]]) auto
  moreover define res where "res = adefer (amod ?free) ?m ?w"
  ultimately have "outcome res (\<lambda>x w'. x = None \<and> Q (w_wr w')) (\<lambda>_. lib_fail L \<or> sink_fail wr)" by simp
  moreover have "Writer_Close E B L wr async w = (case res of None \<Rightarrow> None | Some (r, s) \<Rightarrow>
      Some (case r of Ret x \<Rightarrow> Ret x | Pan p \<Rightarrow> (case errs_Recover E p of Inl e \<Rightarrow> Ret e | Inr p' \<Rightarrow> Pan p'), s))"
    using conf by (simp add: Writer_Close_def arecover_def athen_def res_def)
  ultimately show ?thesis
    by (elim outcome_cases) (auto simp: Q_def errs_okD(5) [OF e(1)])
qed

section \<open>A new writer\<close>

lemma clamp_chunk_range: "clamp_chunk k = ChunkStream \<or> ChunkLowest \<le> clamp_chunk k \<and> clamp_chunk k \<le> ChunkHighest"
  by (auto simp: clamp_chunk_def xz_sizes)

lemma writer_filters_state: "errs_ok E \<Longrightarrow> writer_filters E L k s = Some (r, s') \<Longrightarrow> s' = s"
  by (auto simp: writer_filters_def abind_Some split: prod.splits if_splits)

lemma NewWriterCustom_cases:
  assumes E: "errs_ok E" and new: "NewWriterCustom E B L wr level check k workers s = Some (Ret (Some w, None), s')"
  obtains maxSize buf flags index filters s1 w1 where
    "literalBlockSize L E check (clamp_chunk k) = Ret maxSize" "HeaderEncode L NewStreamFlags check = ((buf, None), flags)"
    "NewIndex L = (index, None)" "sink_Write wr buf s = Some (Ret None, s1)"
    "new_Writer B flags index filters (clamp_workers workers) (clamp_chunk k) maxSize s1 = Ret w1"
    "clamp_chunk k = ChunkStream \<or> s' = s1 \<and> w = set_wr s1 w1"
proof -
  obtain buf err flags where h: "HeaderEncode L NewStreamFlags check = ((buf, err), flags)" by (metis prod.collapse)
  obtain index err' where ix: "NewIndex L = (index, err')" by fastforce
  define os where "os w = (if clamp_chunk k = ChunkStream then open_streamed E B L wr w else aret w)" for w
  have "abind (alift (literalBlockSize L E check (clamp_chunk k))) (\<lambda>maxSize. abind (aPanic E err) (\<lambda>_. abind (aPanic E err') (\<lambda>_.
      abind (writer_filters E L (clamp_chunk k)) (\<lambda>filters. abind (sink_Write wr buf) (\<lambda>err. abind (aPanic E err) (\<lambda>_.
      abind (aget (\<lambda>s. s)) (\<lambda>s. abind (alift (new_Writer B flags index filters (clamp_workers workers) (clamp_chunk k) maxSize s)) (\<lambda>w.
      abind (os w) (\<lambda>w. aget (\<lambda>s. (Some (set_wr s w), None :: goerr option)))))))))) ) s = Some (Ret (Some w, None), s')"
    using new unfolding NewWriterCustom_def Let_def h ix prod.case athen_def arecover_Ret os_def by blast
  then obtain maxSize filters s1 w1 w2 where "literalBlockSize L E check (clamp_chunk k) = Ret maxSize" "err = None" "err' = None"
    "sink_Write wr buf s = Some (Ret None, s1)"
    "new_Writer B flags index filters (clamp_workers workers) (clamp_chunk k) maxSize s1 = Ret w1"
    "os w1 s1 = Some (Ret w2, s')" "w = set_wr s' w2"
    using E by (auto simp: abind_Ret dest: writer_filters_state [OF E] split: if_splits)
  with h ix show thesis by (intro that [of maxSize buf flags index s1 filters w1]) (auto simp: os_def)
qed

lemma NewWriterCustom_sync:
  assumes env: "encoder_env E B L lin pr pf" and wr: "writes_to (Some wr) got"
    and new: "NewWriterCustom E B L wr level check k WorkersSync s = Some (Ret (Some w, None), s')" and k: "0 \<le> k"
  shows "chunked E L w (nat (clamp_chunk k))" "sync_inv E L lin got (nat (clamp_chunk k)) w [] w" "\<not> w_closed w"
    "w_maxWorkers w = WorkersSync" "\<exists>hdr. HeaderEncode L NewStreamFlags check = ((hdr, None), w_flags w) \<and> got (w_wr w) = got s @ hdr"
    "NewIndex L = (w_index w, None)"
proof -
  note e = encoder_envD [OF env]
  let ?k = "clamp_chunk k"
  have ck: "?k \<noteq> ChunkStream" "ChunkLowest \<le> ?k" "?k \<le> ChunkHighest" using k by (auto simp: clamp_chunk_def xz_sizes)
  from NewWriterCustom_cases [OF e(1) new] obtain maxSize buf flags index filters s1 w1 where
    n: "literalBlockSize L E check ?k = Ret maxSize" "HeaderEncode L NewStreamFlags check = ((buf, None), flags)"
      "NewIndex L = (index, None)" "sink_Write wr buf s = Some (Ret None, s1)"
      "new_Writer B flags index filters (clamp_workers WorkersSync) ?k maxSize s1 = Ret w1" "w = set_wr s1 w1"
    using ck(1) by metis
  have sent: "got s1 = got s @ buf" using n(4) sink_sent [OF wr, of s buf] by (auto simp: sink_Write_def split: prod.splits)
  have max: "0 \<le> maxSize" "0 \<le> ?k"
    using n(5) ck by (auto simp: new_Writer_def clamp_workers_def WorkersSync_def make_bytes_def xz_sizes split: if_splits)
  with n(5) ck(1) have w1: "w_rdBuf w1 = bp_New B (replicate (nat ?k) 0) LineMono" "w_wrBuf w1 = bp_New B (replicate (nat maxSize) 0) LineMono"
    "w_flags w1 = flags" "w_index w1 = index" "w_maxWorkers w1 = WorkersSync" "w_chunkSize w1 = ?k" "w_maxSize w1 = maxSize" "\<not> w_closed w1"
    by (auto simp: new_Writer_def clamp_workers_def WorkersSync_def make_bytes_def Let_def)
  have fc: "Flags_GetCheck flags = check" using HeaderEncode_check [of L NewStreamFlags check] n(2) by (simp add: Flags_GetCheck_def)
  show "chunked E L w (nat ?k)" using w1 n(1,6) fc ck max by (auto simp: chunked_def set_wr_def xz_sizes)
  have "holds_block lin (nat maxSize) (w_wrBuf w) []" "collects lin (nat ?k) (w_rdBuf w) []"
    using pipe_mono_new [OF e(5)] w1(1,2) n(6) by (simp_all add: holds_block_def collects_def new_line_def mono_data_def set_wr_def)
  then show "sync_inv E L lin got (nat ?k) w [] w"
    unfolding sync_inv_def using w1(7) n(6)
    by (intro conjI exI [of _ "[]"]) (auto simp: set_wr_def intro: blocks_of.none)
  show "\<not> w_closed w" "w_maxWorkers w = WorkersSync" using w1 n(6) by (simp_all add: set_wr_def)
  show "\<exists>hdr. HeaderEncode L NewStreamFlags check = ((hdr, None), w_flags w) \<and> got (w_wr w) = got s @ hdr"
    using n(2,6) w1(3) sent by (simp add: set_wr_def)
  show "NewIndex L = (w_index w, None)" using n(3,6) w1(4) by (simp add: set_wr_def)
qed

section \<open>Properties\<close>



subsection \<open>A run\<close>

text \<open>
  The storing coder with an index that is never refused: its block headers always have a size and
  its only message is the end of the stream.
\<close>

definition easy_lzma :: "(store_coder, (64 word \<times> 64 word) list) liblzma" where
  "easy_lzma = store_lzma\<lparr>c_block_header_size := (\<lambda>b. (OK, b\<lparr>blk_header_size := 12\<rparr>)),
     c_index_append := (\<lambda>x u v. (OK, x))\<rparr>"

lemma easy_simps [simp]:
  "c_block_header_size easy_lzma = (\<lambda>b. (OK, b\<lparr>blk_header_size := 12\<rparr>))" "c_index_append easy_lzma = (\<lambda>x u v. (OK, x))"
  "c_code easy_lzma = store_code" "c_coder_block easy_lzma = sc_block"
  "c_block_header_encode easy_lzma = (\<lambda>b. (OK, replicate (unat (blk_header_size b)) 3))"
  "c_check_size easy_lzma = (\<lambda>c. case c of CHECK_NONE \<Rightarrow> 0 | CHECK_CRC32 \<Rightarrow> 4 | CHECK_CRC64 \<Rightarrow> 8 | CHECK_SHA256 \<Rightarrow> 32 | _ \<Rightarrow> - 1)"
  "c_block_encoder easy_lzma = (\<lambda>b. (OK, store_init\<lparr>sc_block := b\<lparr>blk_compressed_size := 0, blk_uncompressed_size := 0\<rparr>\<rparr>))"
  "c_index_encoder easy_lzma = (\<lambda>x. (OK, store_init\<lparr>sc_pending := replicate 8 4\<rparr>))"
  "c_stream_footer_encode easy_lzma = (\<lambda>f. (OK, replicate 12 2))" "c_stream_header_encode easy_lzma = (\<lambda>f. (OK, replicate 12 1))"
  "c_index_init easy_lzma = Some []" "STREAM_HEADER_SIZE easy_lzma = 12" "FILTERS_MAX easy_lzma = 4" "PRESET_DEFAULT easy_lzma = 6"
  "c_lzma_preset easy_lzma = (\<lambda>p. (p > 9, \<lparr>opt_dict_size = 8388608, opt_rest = []\<rparr>))"
  by (simp_all add: easy_lzma_def store_lzma_def)

lemma store_run_header:
  "coder_run easy_lzma a c inp out c' \<Longrightarrow> blk_header_size (sc_block c') = blk_header_size (sc_block c)"
  by (induction rule: coder_run.induct) (auto simp: store_code_def Let_def)

lemma store_pending_less:
  assumes "store_code z FINISH src n = (OK, 0, out, z')" and "0 < n"
  shows "length (sc_pending z') < length (sc_pending z)"
proof -
  from assms(1) have z': "sc_pending z' = drop n (sc_pending z)" by (auto simp: store_code_def Let_def split: if_splits)
  moreover have "sc_pending z \<noteq> []"
    using assms by (auto simp: store_code_def Let_def min_def split: if_splits)
  ultimately show ?thesis using assms(2) by simp
qed

lemma easy_env: "encoder_env errs_std line_pipe easy_lzma line_lin (\<lambda>z. length (sc_pending z)) (\<lambda>z. length (sc_pending z))"
proof -
  have "lzma_header_laws easy_lzma" "lzma_check_laws easy_lzma" "lzma_header_mono easy_lzma" "lzma_code_laws easy_lzma"
    using store_code_laws by (simp_all add: lzma_header_laws_def lzma_check_laws_def lzma_header_mono_def lzma_code_laws_def)
  moreover have "coder_progress easy_lzma RUN False False (\<lambda>z. length (sc_pending z))"
    using store_progress [of RUN] by (simp add: coder_progress_def)
  moreover have "coder_progress easy_lzma FINISH True False (\<lambda>z. length (sc_pending z))"
    by (auto simp: coder_progress_def intro: store_pending_less) (auto simp: store_code_def Let_def split: if_splits)
  moreover have "lzma_block_laws easy_lzma"
    by (auto simp: lzma_block_laws_def dest!: store_run_header)
  ultimately show ?thesis using errs_ok_std line_pipe_mono by (simp add: encoder_env_def)
qed

lemma easy_never_fails: "\<not> lib_fail easy_lzma" "\<not> sink_fail list_write" "foreign_errors list_write"
proof -
  have "\<not> code_error easy_lzma RUN c e" for c e by (auto simp: code_error_def store_code_def Let_def)
  moreover have "code_error easy_lzma FINISH c (Some e) \<Longrightarrow> e = streamEnd" for c e
    by (auto simp: code_error_def store_code_def Let_def streamEnd_def split: if_splits)
  ultimately show "\<not> lib_fail easy_lzma" by (auto simp: lib_fail_def)
  show "\<not> sink_fail list_write" "foreign_errors list_write" by (simp_all add: sink_fail_def foreign_errors_def list_write_def)
qed

lemma easy_literal_size: "literalBlockSize easy_lzma errs_std CHECK_CRC32 65536 = Ret 65556"
proof -
  obtain f where f: "literalFilters easy_lzma = Ret f"
    by (simp add: literalFilters_def NewOptionsLZMA_def Filters_Append_def NewFilters_def Let_def)
  have c: "literalCompSize 65536 = 65540" by (simp add: literalCompSize_exact)
  have w: "wrap64 (wrap64 (wrap64 65552 + go_rem (4 - go_rem 65540 4) 4) + 4) = 65556" by (simp add: wrap64_def go_rem_def)
  show ?thesis
    using w by (simp add: literalBlockSize_def literalCheckSupport_def CheckSize_def f c HeaderSize_def errs_okD(1) [OF errs_ok_std])
qed

lemma easy_new:
  "\<exists>w s. NewWriterCustom errs_std line_pipe easy_lzma list_write 6 CHECK_CRC32 0 WorkersSync [] = Some (Ret (Some w, None), s)"
proof -
  have k: "clamp_chunk 0 = 65536" "clamp_workers WorkersSync = WorkersSync" "(65536::int) \<noteq> ChunkStream"
    by (simp_all add: clamp_chunk_def clamp_workers_def WorkersSync_def xz_sizes)
  obtain f where f: "writer_filters errs_std easy_lzma 65536 s = Some (Ret f, s)" for s :: bytes
    by (simp add: writer_filters_def NewOptionsLZMA_def Filters_Append_def NewFilters_def Let_def abind_aPanic [OF errs_ok_std])
  show ?thesis
    by (simp add: NewWriterCustom_def k easy_literal_size HeaderEncode_def NewIndex_def abind_aPanic [OF errs_ok_std] arecover_def
        sink_Write_def list_write_def abind_eval(1) [OF f] new_Writer_def make_bytes_def k)
qed

lemma easy_writes:
  assumes "NewWriterCustom errs_std line_pipe easy_lzma list_write 6 CHECK_CRC32 0 WorkersSync [] = Some (Ret (Some w0, None), s)"
  shows "\<exists>w1. Writer_writes errs_std U line_pipe easy_lzma list_write asyncw ds w0 = Some w1"
proof -
  note n = NewWriterCustom_sync [OF easy_env list_io(3) assms]
  have "sync_inv errs_std easy_lzma line_lin id (nat (clamp_chunk 0)) w0 d0 w \<Longrightarrow>
      \<exists>w1. Writer_writes errs_std U line_pipe easy_lzma list_write asyncw ds w = Some w1" for d0 w
  proof (induction ds arbitrary: d0 w)
    case (Cons d ds)
    from Writer_Write_sync [OF easy_env n(1) list_io(3) Cons.prems n(3,4), of U asyncw d] obtain cnt err w' where
      k: "Writer_Write errs_std U line_pipe easy_lzma list_write asyncw d w = Some (Ret (cnt, err), w')"
      "err = None \<longrightarrow> sync_inv errs_std easy_lzma line_lin id (nat (clamp_chunk 0)) w0 (d0 @ d) w'"
      "err \<noteq> None \<longrightarrow> lib_fail easy_lzma \<or> sink_fail list_write" by blast
    then have e: "err = None" using easy_never_fails by blast
    from Cons.IH [OF k(2) [rule_format, OF e]] show ?case using k(1) e by simp
  qed simp
  with n(2) show ?thesis by blast
qed



section \<open>A closed writer\<close>

abbreviation mode_of :: "('z, 'x, 'p, 'w) Writer \<Rightarrow> bool \<times> int" where
  "mode_of w \<equiv> (w_closed w, w_maxWorkers w)"

lemma mode_kept:
  "akeeps mode_of (blockEncodeSync E B L wr :: (('z, 'x, 'p, 'w) Writer, unit) act)"
  "akeeps mode_of (Close_streamed E B L wr :: (('z, 'x, 'p, 'w) Writer, unit) act)"
  "akeeps mode_of (Close_tail E B L wr :: (('z, 'x, 'p, 'w) Writer, unit) act)"
  by (auto simp: blockEncodeSync_def Close_streamed_def Close_tail_def writer_Append_def set_bufs_def set_wr_def
      intro!: akeeps_intros split: prod.split option.split)

lemma Writer_Close_mode:
  assumes c: "Writer_Close E B L wr async w = Some (Ret e, w')" and w: "w_maxWorkers w = WorkersSync"
  shows "w_closed w' \<and> w_maxWorkers w' = WorkersSync"
proof (cases "w_closed w")
  case True
  with c w show ?thesis by (auto simp: Writer_Close_def arecover_Ret)
next
  case False
  define m where "m = (adefer (amod (\<lambda>w. w\<lparr>w_index := Index_End (w_index w)\<rparr>))
     (athen (if w_chunkSize w \<noteq> ChunkStream \<and> bp_Length B (w_rdBuf w) > 0 then blockEncodeSync E B L wr else aret ())
       (athen (if w_chunkSize w = ChunkStream
          then adefer (amod (\<lambda>w. w\<lparr>w_stream := map_option (End L) (w_stream w)\<rparr>))
            (athen (Close_streamed E B L wr) (Close_tail E B L wr))
          else Close_tail E B L wr) (aret (None :: goerr option)))))"
  have "akeeps mode_of m"
    unfolding m_def by (auto intro!: akeeps_intros mode_kept)
  moreover obtain r where "m (w\<lparr>w_closed := True\<rparr>) = Some (r, w')"
    using c w False unfolding Writer_Close_def arecover_Ret by (auto simp: m_def)
  ultimately have "mode_of w' = mode_of (w\<lparr>w_closed := True\<rparr>)" by (rule akeepsD)
  with w show ?thesis by simp
qed

lemma Writer_closed:
  "w_closed w \<Longrightarrow> Writer_Close E B L wr asyncc w = Some (Ret None, w)"
  "w_closed w \<Longrightarrow> Writer_Write E U B L wr asyncw data w = Some (Ret (0, Some ErrClosedPipe), w)"
  by (simp_all add: Writer_Close_def Writer_Write_def arecover_def)

interpretation xz_wr: closable "\<lambda>w. w_closed w \<and> w_maxWorkers w = WorkersSync"
  "\<lambda>w e w'. w_maxWorkers w = WorkersSync \<and> Writer_Close E B L wr asyncc w = Some (Ret e, w')"
  "\<lambda>data w res w'. w_maxWorkers w = WorkersSync \<and> Writer_Write E U B L wr asyncw data w = Some (Ret res, w')"
  None "\<lambda>_. (0, Some ErrClosedPipe)" for E B L wr asyncc U asyncw
  by unfold_locales (auto simp: Writer_closed dest: Writer_Close_mode)



section \<open>The streamed mode\<close>

text \<open>
  C7: The streamed mode (a negative chunk size, documented as \<open>ChunkStream\<close>) cannot be used: the
  constructor first computes the literal block size of a chunk of \<open>-1\<close> bytes, whose compressed size
  comes out as zero, which liblzma refuses. \<open>NewWriterCustom\<close> returns an error and writes nothing,
  whatever the number of workers.
\<close>

theorem streamed_mode_refused:
  assumes "errs_ok E" and "literalCheckSupport check = Ret ()" and "literalFilters L = Ret f"
    and "\<And>b. blk_compressed_size b = 0 \<Longrightarrow> fst (c_block_header_size L b) \<noteq> OK" and "k < 0"
  shows "\<exists>e. NewWriterCustom E B L wr level check k workers s = Some (Ret (None, Some (LibErr e)), s)"
proof -
  have k: "clamp_chunk k = - 1" using assms(5) by (simp add: clamp_chunk_def ChunkStream_def)
  have c: "literalCompSize (- 1) = 0" by (simp add: literalCompSize_def literalChunkSize_def wrap64_def go_quot_def)
  let ?b = "NewBlockCustom L check f 0 (- 1)"
  obtain r b' where h: "c_block_header_size L (b_block ?b) = (r, b')" by fastforce
  have "blk_compressed_size (b_block ?b) = 0" by (simp add: NewBlockCustom_fields of_i64_def)
  from assms(4) [OF this] h have "r \<noteq> OK" by simp
  then have "literalBlockSize L E check (- 1) = Pan (PErr (Some (LibErr r)))"
    using assms(1-3) h c by (simp add: literalBlockSize_def HeaderSize_def golib_laws NewError_def)
  then show ?thesis using assms(1) by (simp add: NewWriterCustom_def k arecover_def golib_laws Let_def)
qed

theorem streamed_mode_refused_witness:
  "\<exists>e. NewWriterCustom errs_std line_pipe store_lzma list_write 6 CHECK_CRC64 ChunkStream WorkersSync [] =
     Some (Ret (None, Some (LibErr e)), [])"
proof -
  obtain f where f: "literalFilters store_lzma = Ret f" using store_literal_filters by blast
  show ?thesis
    by (rule streamed_mode_refused [OF errs_ok_std _ f]) (simp_all add: literalCheckSupport_def ChunkStream_def)
qed

text \<open>
  C8: When liblzma cannot make an encoder for a block, \<open>blockEncode\<close> does not report liblzma's error:
  the deferred call of \<open>End\<close> on the nil stream is a run-time panic, which replaces it.
\<close>

theorem blockEncode_nil_stream:
  assumes "errs_ok E" and "bp_Mode B p = LineMono"
    and "c_block_header_size L (b_block (blockInit L w (w_chunkSize w) (w_maxSize w))) = (OK, b)"
    and "c_block_encoder L b = (r, c)" and "r \<noteq> OK"
  shows "\<exists>p'. blockEncode E B L w (p, q) = Some (Pan PRuntime, (p', q))"
proof -
  have "\<exists>p'. blockEncode_open E B L w (p, q) = Some (Pan PRuntime, (p', q))"
    using assms by (simp add: blockEncode_open_def HeaderSize_def Block_NewStreamEncoder_def new_coder_def adefer_def NewError_def)
  then show ?thesis by (auto simp: blockEncode_def abind_eval)
qed

definition poor_lzma :: "(store_coder, (64 word \<times> 64 word) list) liblzma" where
  "poor_lzma = easy_lzma\<lparr>c_block_encoder := (\<lambda>b. (MEM_ERROR, store_init))\<rparr>"

theorem blockEncode_nil_stream_witness:
  "\<exists>(w :: (store_coder, (64 word \<times> 64 word) list, lpipe option, bytes) Writer) p'. blockEncode errs_std line_pipe poor_lzma w (wit_dst, wit_src) = Some (Pan PRuntime, (p', wit_src))"
proof -
  obtain w0 s where "NewWriterCustom errs_std line_pipe easy_lzma list_write 6 CHECK_CRC32 0 WorkersSync [] =
      Some (Ret (Some w0, None), s)" using easy_new by blast
  have m: "bp_Mode line_pipe wit_dst = LineMono" by (simp add: line_pipe_def wit_dst_def)
  have p: "c_block_header_size poor_lzma b = (OK, b\<lparr>blk_header_size := 12\<rparr>)" "c_block_encoder poor_lzma b = (MEM_ERROR, store_init)" for b
    by (simp_all add: poor_lzma_def)
  from blockEncode_nil_stream [OF errs_ok_std m p, of w0 wit_src] show ?thesis by auto
qed

end
