(* ===== verification/Xz_Reader.thy ===== *)
theory Xz_Reader
  imports Xz_Index
begin

text \<open>
  \<open>xz/reader.go\<close>: the XZ reader. Its asynchronous mode is not implemented in the source: the
  constructor prepares nothing for it and \<open>Read\<close> returns nothing. The synchronous mode is a state
  machine that reads a stream piece by piece from a buffered source.

  The source is the function \<open>rd\<close> with its state \<open>r_rd\<close>; \<open>rf\<close> is the method \<open>ReadFrom\<close> of
  \<open>golib/bufpipe\<close>, which is not part of the repository: \<open>rf p s\<close> fills the pipe \<open>p\<close> from the source.
  The fields of the source's record that no code of the synchronous mode assigns are left out.
\<close>

section \<open>Readers\<close>

datatype read_state = readInit | readHeader | readBlock | readIndex | readFooter | readPadding

record ('z, 'p, 's) Reader =
  r_rd :: 's
  r_closed :: bool
  r_maxWorkers :: int
  r_maxBuffer :: int
  r_state :: read_state
  r_flags :: "StreamFlags option"
  r_block :: "Block option"
  r_stream :: "('z, 'p) Stream option"
  r_rdBuf :: 'p
  r_wrBuf :: 'p

type_synonym ('p, 's) read_from = "'p \<Rightarrow> 's \<Rightarrow> goerr option \<times> 'p \<times> 's"

definition NewReaderCustom :: "'p bufpipe \<Rightarrow> 's \<Rightarrow> int \<Rightarrow> int \<Rightarrow> ('z, 'p, 's) Reader option \<times> goerr option" where
  "NewReaderCustom B s maxBuffer maxWorkers =
     (let maxBuffer = (if maxBuffer < BufferMin then BufferMin else if maxBuffer > BufferMax then BufferMax else maxBuffer);
          maxWorkers = (if maxWorkers < 0 then WorkersMax else maxWorkers);
          r = \<lparr>r_rd = s, r_closed = False, r_maxWorkers = maxWorkers, r_maxBuffer = maxBuffer, r_state = readInit,
               r_flags = None, r_block = None, r_stream = None, r_rdBuf = bp_nil B, r_wrBuf = bp_nil B\<rparr>
      in (Some (if r_maxWorkers r \<noteq> WorkersSync then r
                else r\<lparr>r_rdBuf := bp_New B (replicate (2 ^ 16) 0) RingPoll, r_wrBuf := bp_New B (replicate (2 ^ 16) 0) RingPoll\<rparr>),
          None))"

definition NewReader :: "'p bufpipe \<Rightarrow> 's \<Rightarrow> ('z, 'p, 's) Reader option \<times> goerr option" where
  "NewReader B s = NewReaderCustom B s BufferDefault WorkersDefault"

section \<open>Reading from the buffer\<close>

definition readFull ::
  "errs \<Rightarrow> 'p bufpipe \<Rightarrow> ('p, 's) read_from \<Rightarrow> int \<Rightarrow> bool \<Rightarrow> bool \<Rightarrow> (('z, 'p, 's) Reader, bytes) act" where
  "readFull E B rf sz doMark canEOF =
     abind (aget (\<lambda>r. bp_Length B (r_rdBuf r))) (\<lambda>n.
     athen
       (if n < sz then
          abind (astep (\<lambda>r. case rf (r_rdBuf r) (r_rd r) of (e, p, s) \<Rightarrow> (e, r\<lparr>r_rdBuf := p, r_rd := s\<rparr>)))
            (\<lambda>err. aPanic E (errs_Ignore E err [ErrShortWrite]))
        else aret ())
     (abind (aget (\<lambda>r. bp_ReadSlices B (r_rdBuf r))) (\<lambda>(bufLo, bufHi, _).
      let rdyCnt = int (length bufLo) + int (length bufHi) in
      athen (aAssert E (rdyCnt \<noteq> 0 \<or> \<not> canEOF) (Some EOF))
      (athen (aAssert E (rdyCnt \<ge> sz) (Some formatError))
       (athen (if doMark then amod (\<lambda>r. r\<lparr>r_rdBuf := bp_ReadMark B (r_rdBuf r) sz\<rparr>) else aret ())
        (if int (length bufLo) \<ge> sz then alift (slice_to bufLo sz) else aret (bufLo @ bufHi)))))))"

section \<open>The states\<close>

definition read_header ::
  "errs \<Rightarrow> 'p bufpipe \<Rightarrow> ('z, 'x) liblzma \<Rightarrow> ('p, 's) read_from \<Rightarrow> (('z, 'p, 's) Reader, unit) act" where
  "read_header E B L rf =
     abind (aget r_state) (\<lambda>state.
     abind (readFull E B rf (int (STREAM_HEADER_SIZE L)) True (state \<noteq> readInit)) (\<lambda>header.
     case HeaderDecode L NewStreamFlags header of (err, flags) \<Rightarrow>
     athen (amod (\<lambda>r. r\<lparr>r_flags := Some flags\<rparr>))
     (athen (aPanic E err) (amod (\<lambda>r. r\<lparr>r_state := readBlock\<rparr>)))))"

text \<open>The header of a block, or the zero byte that starts the index.\<close>

definition read_block_header ::
  "errs \<Rightarrow> 'p bufpipe \<Rightarrow> ('z, 'x) liblzma \<Rightarrow> ('p, 's) read_from \<Rightarrow> (('z, 'p, 's) Reader, unit) act" where
  "read_block_header E B L rf =
     abind (readFull E B rf 1 False False) (\<lambda>buf.
     case buf of
       [] \<Rightarrow> alift (Pan PRuntime)
     | val # _ \<Rightarrow>
         if val = 0 then amod (\<lambda>r. r\<lparr>r_state := readIndex\<rparr>)
         else
           abind (aget r_flags) (\<lambda>flags.
           case flags of
             None \<Rightarrow> alift (Pan PRuntime)
           | Some flags \<Rightarrow>
               (case HeaderSizeDecode L (NewBlock L (Flags_GetCheck flags)) val of ((headerSize, err), block) \<Rightarrow>
                athen (amod (\<lambda>r. r\<lparr>r_block := Some block\<rparr>))
                (athen (aPanic E err)
                 (abind (readFull E B rf headerSize True False) (\<lambda>header.
                  abind (alift (Block_HeaderDecode L block header)) (\<lambda>(err, block).
                  athen (amod (\<lambda>r. r\<lparr>r_block := Some block\<rparr>))
                  (athen (aPanic E err)
                   (case Block_NewStreamDecoder L B block of (stream, err) \<Rightarrow>
                    athen (amod (\<lambda>r. r\<lparr>r_stream := stream\<rparr>)) (aPanic E err))))))))))"

text \<open>
  Decoding a block into the caller's slice, behind which stands the pipe \<open>wr\<close>. The stream works on
  the reader's own buffers; the reader sees what it leaves in them. What the decoder stores into
  the block is not read again. A full slice raises a nil error, which ends the call without error.
\<close>

definition read_block_data ::
  "errs \<Rightarrow> 'p bufpipe \<Rightarrow> ('z, 'x) liblzma \<Rightarrow> 's io_read \<Rightarrow> (int \<times> 'p \<times> ('z, 'p, 's) Reader, unit) act" where
  "read_block_data E B L rd st =
     (case st of (cnt, wr, r) \<Rightarrow>
      case r_stream r of
        None \<Rightarrow> aret () st
      | Some z \<Rightarrow>
          (case SetBuffers B (r_wrBuf r) (r_rdBuf r) z of
             Pan p \<Rightarrow> Some (Pan p, st)
           | Ret z \<Rightarrow>
               (case Process B L RUN (Some (bp_Write B)) (Some rd) z (r_rd r) wr of
                  None \<Rightarrow> None
                | Some ((rdCnt, _, err), z, s, wr) \<Rightarrow>
                    let r = r\<lparr>r_stream := Some z, r_rdBuf := st_inBuf z, r_wrBuf := st_outBuf z, r_rd := s\<rparr> in
                    athen (aAssert E (err \<noteq> Some ErrShortWrite) None)
                    (athen (aPanic E (errs_Ignore E err [ErrShortWrite, streamEnd]))
                     (if err = Some streamEnd then amod (\<lambda>(cnt, wr, r). (cnt, wr, r\<lparr>r_stream := None\<rparr>)) else aret ()))
                    (cnt + rdCnt, wr, r))))"

definition read_index ::
  "errs \<Rightarrow> 'p bufpipe \<Rightarrow> ('z, 'x) liblzma \<Rightarrow> 's io_read \<Rightarrow> (('z, 'p, 's) Reader, unit) act" where
  "read_index E B L rd =
     (case Index_NewStreamDecoder L B None maxMemory of ((stream, err), _) \<Rightarrow>
      athen (aPanic E err)
      (case stream of
         None \<Rightarrow> alift (Pan PRuntime)
       | Some z \<Rightarrow>
           (\<lambda>r. case SetBuffers B (r_wrBuf r) (r_rdBuf r) z of
              Pan p \<Rightarrow> Some (Pan p, r)
            | Ret z \<Rightarrow>
                (case Process B L FINISH (None :: unit io_write option) (Some rd) z (r_rd r) () of
                   None \<Rightarrow> None
                 | Some ((_, _, err), z, s, _) \<Rightarrow>
                     athen (aPanic E (errs_Ignore E err [streamEnd]))
                     (abind (aget r_flags) (\<lambda>flags.
                      case flags of
                        None \<Rightarrow> alift (Pan PRuntime)
                      | Some flags \<Rightarrow>
                          amod (\<lambda>r. r\<lparr>r_flags := Some (SetBackwardSize flags (Index_Size L (decoded_index L z))),
                                      r_state := readFooter\<rparr>)))
                     (r\<lparr>r_rdBuf := st_inBuf z, r_wrBuf := st_outBuf z, r_rd := s\<rparr>)))))"

definition read_footer ::
  "errs \<Rightarrow> 'p bufpipe \<Rightarrow> ('z, 'x) liblzma \<Rightarrow> ('p, 's) read_from \<Rightarrow> (('z, 'p, 's) Reader, unit) act" where
  "read_footer E B L rf =
     abind (readFull E B rf (int (STREAM_FOOTER_SIZE L)) True False) (\<lambda>footer.
     case FooterDecode L NewStreamFlags footer of (err, flags) \<Rightarrow>
     athen (aPanic E err)
     (abind (aget r_flags) (\<lambda>rflags.
      case rflags of
        None \<Rightarrow> alift (Pan PRuntime)
      | Some rflags \<Rightarrow>
          athen (aPanic E (Flags_Compare L flags rflags)) (amod (\<lambda>r. r\<lparr>r_state := readPadding\<rparr>)))))"

partial_function (option) read_padding_loop ::
  "errs \<Rightarrow> 'p bufpipe \<Rightarrow> ('p, 's) read_from \<Rightarrow> ('z, 'p, 's) Reader \<Rightarrow> (unit go \<times> ('z, 'p, 's) Reader) option" where
  "read_padding_loop E B rf r =
     (case readFull E B rf 4 False True r of
        None \<Rightarrow> None
      | Some (q, r) \<Rightarrow>
          (case q of
             Pan p \<Rightarrow> Some (Pan p, r)
           | Ret padding \<Rightarrow>
               if padding = padZeros then read_padding_loop E B rf (r\<lparr>r_rdBuf := bp_ReadMark B (r_rdBuf r) 4\<rparr>)
               else Some (Ret (), r)))"

definition read_padding ::
  "errs \<Rightarrow> 'p bufpipe \<Rightarrow> ('p, 's) read_from \<Rightarrow> (('z, 'p, 's) Reader, unit) act" where
  "read_padding E B rf = athen (read_padding_loop E B rf) (amod (\<lambda>r. r\<lparr>r_state := readHeader\<rparr>))"

section \<open>Read and Close\<close>

text \<open>One round of the endless loop; every way out of the loop is an error that is recovered.\<close>

definition on_reader :: "(('z, 'p, 's) Reader, 'a) act \<Rightarrow> (int \<times> 'p \<times> ('z, 'p, 's) Reader, 'a) act" where
  "on_reader = azoom (\<lambda>(_, _, r). r) (\<lambda>r (cnt, wr, _). (cnt, wr, r))"

definition Read_step ::
  "errs \<Rightarrow> 'p bufpipe \<Rightarrow> ('z, 'x) liblzma \<Rightarrow> ('p, 's) read_from \<Rightarrow> 's io_read \<Rightarrow>
   (int \<times> 'p \<times> ('z, 'p, 's) Reader, unit) act" where
  "Read_step E B L rf rd =
     abind (aget (\<lambda>(_, _, r). r)) (\<lambda>r.
     case r_state r of
       readInit \<Rightarrow> on_reader (read_header E B L rf)
     | readHeader \<Rightarrow> on_reader (read_header E B L rf)
     | readBlock \<Rightarrow>
         athen (if r_stream r = None then on_reader (read_block_header E B L rf) else aret ())
           (read_block_data E B L rd)
     | readIndex \<Rightarrow> on_reader (read_index E B L rd)
     | readFooter \<Rightarrow> on_reader (read_footer E B L rf)
     | readPadding \<Rightarrow> on_reader (read_padding E B rf))"

partial_function (option) Read_loop ::
  "errs \<Rightarrow> 'p bufpipe \<Rightarrow> ('z, 'x) liblzma \<Rightarrow> ('p, 's) read_from \<Rightarrow> 's io_read \<Rightarrow>
   int \<times> 'p \<times> ('z, 'p, 's) Reader \<Rightarrow> ((int \<times> goerr option) go \<times> int \<times> 'p \<times> ('z, 'p, 's) Reader) option" where
  "Read_loop E B L rf rd st =
     (case Read_step E B L rf rd st of
        None \<Rightarrow> None
      | Some (q, st) \<Rightarrow> (case q of Pan p \<Rightarrow> Some (Pan p, st) | Ret _ \<Rightarrow> Read_loop E B L rf rd st))"

definition Reader_Read ::
  "errs \<Rightarrow> 'p bufpipe \<Rightarrow> ('z, 'x) liblzma \<Rightarrow> ('p, 's) read_from \<Rightarrow> 's io_read \<Rightarrow> bytes \<Rightarrow> ('z, 'p, 's) Reader \<Rightarrow>
   ((int \<times> goerr option) go \<times> int \<times> 'p \<times> ('z, 'p, 's) Reader) option" where
  "Reader_Read E B L rf rd data r =
     arecover E (\<lambda>err (cnt, _, _). (cnt, err))
       (if r_closed r then aret (0, Some ErrClosedPipe)
        else if r_maxWorkers r \<noteq> WorkersSync then aret (0, None)
        else Read_loop E B L rf rd) (0, bp_New B data LineMono, r)"

definition Reader_Close :: "('z, 'p, 's) Reader \<Rightarrow> goerr option \<times> ('z, 'p, 's) Reader" where
  "Reader_Close r = (if r_closed r then (None, r) else (None, r\<lparr>r_closed := True\<rparr>))"

interpretation xz_rd: closable r_closed "\<lambda>r e r'. Reader_Close r = (e, r')"
  "\<lambda>data r res r'. \<exists>wr cnt. Reader_Read E B L rf rd data r = Some (Ret res, cnt, wr, r')" None "\<lambda>_. (0, Some ErrClosedPipe)"
  for E B L rf rd
  by unfold_locales (auto simp: Reader_Close_def Reader_Read_def arecover_def split: if_splits)

end
