(* ===== verification/Xz_Reader_Steps.thy ===== *)
theory Xz_Reader_Steps
  imports Xz_Reader Lib_Stream_Props
begin

text \<open>
  Steps of the synchronous reader of \<open>xz/reader.go\<close>: the grammar of XZ streams as a relation, the
  contracts of what the reader calls, what each state of the reader does, and the loop of \<open>Read\<close>,
  which ends.
\<close>

section \<open>Total correctness of a computation\<close>

text \<open>A run ends, with a result and a state related by \<open>Q\<close> or with a panic and a state related by \<open>R\<close>.\<close>

definition ends :: "('a go \<times> 's) option \<Rightarrow> ('a \<Rightarrow> 's \<Rightarrow> bool) \<Rightarrow> (panicval \<Rightarrow> 's \<Rightarrow> bool) \<Rightarrow> bool" where
  "ends m Q R \<longleftrightarrow> (\<exists>r s. m = Some (r, s) \<and> (case r of Ret x \<Rightarrow> Q x s | Pan p \<Rightarrow> R p s))"

lemma ends_simps [simp]:
  "\<not> ends None Q R" "ends (Some (Ret x, s)) Q R \<longleftrightarrow> Q x s" "ends (Some (Pan p, s)) Q R \<longleftrightarrow> R p s"
  by (auto simp: ends_def)

lemma ends_cases:
  assumes "ends m Q R"
  obtains (ret) x s where "m = Some (Ret x, s)" "Q x s" | (pan) p s where "m = Some (Pan p, s)" "R p s"
  using assms unfolding ends_def by (metis go.exhaust go.simps(5,6))

lemma ends_mono:
  assumes "ends m Q R" and "\<And>x s. Q x s \<Longrightarrow> Q' x s" and "\<And>p s. R p s \<Longrightarrow> R' p s"
  shows "ends m Q' R'"
  using assms(1) by (rule ends_cases) (simp_all add: assms)

lemma ends_abind:
  assumes "ends (m s) Q R" and "\<And>x t. Q x t \<Longrightarrow> ends (f x t) Q' R'" and "\<And>p t. R p t \<Longrightarrow> R' p t"
  shows "ends (abind m f s) Q' R'"
  using assms(1) by (rule ends_cases) (simp_all add: abind_eval assms)

lemma ends_azoom:
  assumes "ends (m (g s)) (\<lambda>x t. Q x (p t s)) (\<lambda>e t. R e (p t s))"
  shows "ends (azoom g p m s) Q R"
  using assms by (rule ends_cases) (simp_all add: azoom_def)

section \<open>The grammar\<close>

text \<open>
  The reader as a machine: the state, the stream flags and the decoder of the block being read. A
  move consumes and produces bytes. The slice that is decoded may extend behind the bytes that are
  consumed.
\<close>

type_synonym 'z machine = "read_state \<times> StreamFlags option \<times> 'z option"

inductive read_move :: "('z, 'x) liblzma \<Rightarrow> 'z machine \<Rightarrow> bytes \<Rightarrow> bytes \<Rightarrow> 'z machine \<Rightarrow> bool"
  for L :: "('z, 'x) liblzma" where
  header: "st = readInit \<or> st = readHeader \<Longrightarrow> length h = STREAM_HEADER_SIZE L \<Longrightarrow> prefix h h' \<Longrightarrow>
     HeaderDecode L NewStreamFlags h' = (None, fl) \<Longrightarrow> read_move L (st, f, None) h [] (readBlock, Some fl, None)"
| block: "val \<noteq> 0 \<Longrightarrow> HeaderSizeDecode L (NewBlock L (Flags_GetCheck fl)) val = ((hs, None), b) \<Longrightarrow> int (length h) = hs \<Longrightarrow>
     prefix [val] h \<Longrightarrow> prefix h h' \<Longrightarrow> Block_HeaderDecode L b h' = Ret (None, b') \<Longrightarrow> c_block_decoder L (b_block b') = (OK, c) \<Longrightarrow>
     read_move L (readBlock, Some fl, None) h [] (readBlock, Some fl, Some c)"
| data: "coder_run L RUN c inp out c' \<Longrightarrow> read_move L (readBlock, f, Some c) inp out (readBlock, f, Some c')"
| block_end: "code_error L RUN c (Some streamEnd) \<Longrightarrow> read_move L (readBlock, f, Some c) [] [] (readBlock, f, None)"
| blocks_end: "read_move L (readBlock, f, None) [] [] (readIndex, f, None)"
| index: "c_index_decoder L maxMemory = (OK, c) \<Longrightarrow> coder_run L FINISH c inp [] c' \<Longrightarrow> code_error L FINISH c' (Some streamEnd) \<Longrightarrow>
     read_move L (readIndex, Some fl, None) inp []
       (readFooter, Some (SetBackwardSize fl (Index_Size L (c_coder_index L c'))), None)"
| footer: "length h = STREAM_FOOTER_SIZE L \<Longrightarrow> prefix h h' \<Longrightarrow> FooterDecode L NewStreamFlags h' = (None, fl') \<Longrightarrow>
     Flags_Compare L fl' fl = None \<Longrightarrow> read_move L (readFooter, Some fl, None) h [] (readPadding, Some fl, None)"
| padding: "read_move L (readPadding, f, None) padZeros [] (readPadding, f, None)"
| padding_end: "read_move L (readPadding, f, None) [] [] (readHeader, f, None)"

inductive read_run :: "('z, 'x) liblzma \<Rightarrow> 'z machine \<Rightarrow> bytes \<Rightarrow> bytes \<Rightarrow> 'z machine \<Rightarrow> bool"
  for L :: "('z, 'x) liblzma" where
  rest: "read_run L m [] [] m"
| move: "read_move L m inp out m' \<Longrightarrow> read_run L m' inp' out' m'' \<Longrightarrow> read_run L m (inp @ inp') (out @ out') m''"

lemma read_run_trans:
  "read_run L m i1 o1 m' \<Longrightarrow> read_run L m' i2 o2 m'' \<Longrightarrow> read_run L m (i1 @ i2) (o1 @ o2) m''"
  by (induction rule: read_run.induct) (auto intro: read_run.move)

lemma read_run_one: "read_move L m inp out m' \<Longrightarrow> read_run L m inp out m'"
  using read_run.move [OF _ read_run.rest] by fastforce

section \<open>Contracts\<close>

text \<open>
  \<open>ReadFrom\<close> appends what it takes from the source to the pipe. It reads to the end of the source,
  which is no error, or until the pipe is full, which it reports as \<open>ErrShortWrite\<close>, or to an error of
  the source.
\<close>

definition read_from_laws ::
  "'p bufpipe \<Rightarrow> ('p \<Rightarrow> bool) \<Rightarrow> ('p \<Rightarrow> bytes) \<Rightarrow> ('s \<Rightarrow> bytes) \<Rightarrow> ('p, 's) read_from \<Rightarrow> bool" where
  "read_from_laws B good view left rf \<longleftrightarrow>
     (\<forall>p s e p' s'. good p \<longrightarrow> ring_buf B p \<longrightarrow> rf p s = (e, p', s') \<longrightarrow>
        good p' \<and> ring_buf B p' \<and> (\<exists>bs. view p' = view p @ bs \<and> left s = bs @ left s') \<and> e \<noteq> Some EOF \<and>
        (e = None \<longrightarrow> left s' = []) \<and> (e = Some ErrShortWrite \<longrightarrow> view p' \<noteq> []))"

text \<open>A source ends for good, and reports no error that is not its own.\<close>

definition source_errors :: "'s io_read \<Rightarrow> ('s \<Rightarrow> bytes) \<Rightarrow> bool" where
  "source_errors rd left \<longleftrightarrow> (\<forall>s n bs e s'. rd s n = ((bs, Some e), s') \<longrightarrow>
     e \<noteq> ErrShortWrite \<and> (\<forall>r. e \<noteq> LibErr r) \<and> (e = EOF \<longrightarrow> left s' = []))"

text \<open>
  A pipe over the caller's slice. \<open>stored\<close> is what was written to it: it fits into the slice, and a
  write that takes less than it was given has filled the slice.
\<close>

definition slice_pipe :: "'p bufpipe \<Rightarrow> ('p \<Rightarrow> bytes) \<Rightarrow> bool" where
  "slice_pipe B stored \<longleftrightarrow> writes_to (Some (bp_Write B)) stored \<and> (\<forall>data. stored (bp_New B data LineMono) = []) \<and>
     (\<forall>w. int (length (stored w)) \<le> bp_Capacity B w) \<and>
     (\<forall>w buf k e w'. bp_Write B w buf = ((k, e), w') \<longrightarrow> bp_Capacity B w' = bp_Capacity B w \<and>
        (\<forall>x. e = Some x \<longrightarrow> x = ErrShortWrite \<and> int (length (stored w')) = bp_Capacity B w'))"

text \<open>
  The decoders of blocks and of indexes: \<open>CB\<close> and \<open>CI\<close> hold them in all their states. They make
  progress, and a decoder of an index produces no output.
\<close>

definition lzma_decoders ::
  "('z, 'x) liblzma \<Rightarrow> 'z set \<Rightarrow> 'z set \<Rightarrow> ('z \<Rightarrow> nat) \<Rightarrow> ('z \<Rightarrow> nat) \<Rightarrow> bool" where
  "lzma_decoders L CB CI pb pi \<longleftrightarrow>
     coder_progress_on CB L RUN False False pb \<and> coder_progress_on CI L FINISH False True pi \<and>
     (\<forall>b c. c_block_decoder L b = (OK, c) \<longrightarrow> c \<in> CB) \<and> (\<forall>m c. c_index_decoder L m = (OK, c) \<longrightarrow> c \<in> CI) \<and>
     0 < STREAM_HEADER_SIZE L \<and> 0 < BLOCK_HEADER_SIZE_MIN L"

definition reader_env ::
  "errs \<Rightarrow> 'p bufpipe \<Rightarrow> ('z, 'x) liblzma \<Rightarrow> ('p, 's) read_from \<Rightarrow> 's io_read \<Rightarrow> ('p \<Rightarrow> bool) \<Rightarrow> ('p \<Rightarrow> bytes) \<Rightarrow> ('p \<Rightarrow> bytes) \<Rightarrow>
   ('s \<Rightarrow> bytes) \<Rightarrow> 'z set \<Rightarrow> 'z set \<Rightarrow> bool" where
  "reader_env E B L rf rd good view stored left CB CI \<longleftrightarrow>
     errs_ok E \<and> pipe_queue B good view \<and> pipe_ring B good view \<and> pipe_new_laws B \<and>
     read_from_laws B good view left rf \<and> reads_from (Some rd) left \<and> reader_live (Some rd) \<and> source_errors rd left \<and>
     slice_pipe B stored \<and> lzma_code_laws L \<and> (\<exists>pb pi. lzma_decoders L CB CI pb pi)"

lemma reader_envD:
  assumes "reader_env E B L rf rd good view stored left CB CI"
  shows "errs_ok E" "pipe_queue B good view" "pipe_ring B good view" "pipe_new_laws B"
    "read_from_laws B good view left rf" "reads_from (Some rd) left" "reader_live (Some rd)" "source_errors rd left"
    "slice_pipe B stored" "lzma_code_laws L" "\<exists>pb pi. lzma_decoders L CB CI pb pi"
    "0 < STREAM_HEADER_SIZE L" "0 < BLOCK_HEADER_SIZE_MIN L" "writes_to (Some (bp_Write B)) stored"
  using assms unfolding reader_env_def lzma_decoders_def slice_pipe_def by blast+

lemma source_errorsD:
  assumes "source_errors rd left" and "read_error (Some rd) s (Some e)"
  shows "e \<noteq> ErrShortWrite" and "e \<noteq> LibErr r" and "e = EOF \<Longrightarrow> left s = []"
  using assms unfolding source_errors_def read_error_def by (metis option.distinct(1) option.inject)+

lemma coder_run_on:
  assumes "coder_run L a c inp out c'" and "coder_progress_on C L a ns nd pend" and "c \<in> C"
  shows "c' \<in> C \<and> (nd \<longrightarrow> out = [])"
  using assms
proof (induction rule: coder_run.induct)
  case (call z src n r k out z' inp out' z'')
  then have "z' \<in> C \<and> (nd \<longrightarrow> out = [])" unfolding coder_progress_on_def by blast
  with call show ?case by simp
qed simp

section \<open>The state of a reader\<close>

definition read_inv :: "'p bufpipe \<Rightarrow> ('p \<Rightarrow> bool) \<Rightarrow> ('p \<Rightarrow> bytes) \<Rightarrow> 'z set \<Rightarrow> ('z, 'p, 's) Reader \<Rightarrow> bool" where
  "read_inv B good view CB r \<longleftrightarrow>
     \<not> r_closed r \<and> r_maxWorkers r = WorkersSync \<and>
     good (r_rdBuf r) \<and> good (r_wrBuf r) \<and> ring_buf B (r_rdBuf r) \<and> ring_buf B (r_wrBuf r) \<and>
     (case r_stream r of None \<Rightarrow> view (r_wrBuf r) = [] | Some z \<Rightarrow> st_coder z \<in> CB \<and> r_state r = readBlock) \<and>
     (r_state r \<in> {readBlock, readIndex, readFooter} \<longrightarrow> r_flags r \<noteq> None)"

lemma read_inv_r_block [simp]: "read_inv B good view CB (r\<lparr>r_block := b\<rparr>) = read_inv B good view CB r"
  by (simp add: read_inv_def cong: option.case_cong)

definition machine_of :: "('z, 'p, 's) Reader \<Rightarrow> 'z machine" where
  "machine_of r = (r_state r, r_flags r, map_option st_coder (r_stream r))"

text \<open>The bytes ahead of the reader: those in its buffer and those still in the source.\<close>

definition ahead :: "('p \<Rightarrow> bytes) \<Rightarrow> ('s \<Rightarrow> bytes) \<Rightarrow> ('z, 'p, 's) Reader \<Rightarrow> bytes" where
  "ahead view left r = view (r_rdBuf r) @ left (r_rd r)"

section \<open>Reading from the buffer\<close>

text \<open>What \<open>readFull\<close> changes: the buffer and the source.\<close>

definition refilled :: "'p bufpipe \<Rightarrow> ('p \<Rightarrow> bool) \<Rightarrow> ('z, 'p, 's) Reader \<Rightarrow> ('z, 'p, 's) Reader \<Rightarrow> bool" where
  "refilled B good r r' \<longleftrightarrow> r' = r\<lparr>r_rdBuf := r_rdBuf r', r_rd := r_rd r'\<rparr> \<and> good (r_rdBuf r') \<and> ring_buf B (r_rdBuf r')"

lemma refilledD:
  assumes "refilled B good r r'"
  shows "r_closed r' = r_closed r" "r_maxWorkers r' = r_maxWorkers r" "r_state r' = r_state r" "r_flags r' = r_flags r"
    "r_stream r' = r_stream r" "r_wrBuf r' = r_wrBuf r" "machine_of r' = machine_of r"
    "good (r_rdBuf r')" "ring_buf B (r_rdBuf r')" "read_inv B good view CB r \<Longrightarrow> read_inv B good view CB r'"
proof -
  obtain p s where r': "r' = r\<lparr>r_rdBuf := p, r_rd := s\<rparr>" "good p" "ring_buf B p"
    using assms unfolding refilled_def by (metis Reader.select_convs(9) Reader.surjective Reader.update_convs(9))
  then show "r_closed r' = r_closed r" "r_maxWorkers r' = r_maxWorkers r" "r_state r' = r_state r" "r_flags r' = r_flags r"
    "r_stream r' = r_stream r" "r_wrBuf r' = r_wrBuf r" "machine_of r' = machine_of r"
    "good (r_rdBuf r')" "ring_buf B (r_rdBuf r')" "read_inv B good view CB r \<Longrightarrow> read_inv B good view CB r'"
    by (simp_all add: machine_of_def read_inv_def cong: option.case_cong)
qed

text \<open>An error other than the end of the data, or the end of the data when nothing is ahead.\<close>

definition read_fails ::
  "'p bufpipe \<Rightarrow> ('p \<Rightarrow> bool) \<Rightarrow> ('p \<Rightarrow> bytes) \<Rightarrow> ('s \<Rightarrow> bytes) \<Rightarrow> bool \<Rightarrow> panicval \<Rightarrow>
   ('z, 'p, 's) Reader \<Rightarrow> ('z, 'p, 's) Reader \<Rightarrow> bool" where
  "read_fails B good view left canEOF p r r' \<longleftrightarrow> refilled B good r r' \<and>
     (\<exists>e. p = PErr (Some e) \<and> (e = EOF \<longrightarrow> canEOF \<and> ahead view left r = [] \<and> ahead view left r' = []))"

definition reads_full ::
  "'p bufpipe \<Rightarrow> ('p \<Rightarrow> bool) \<Rightarrow> ('p \<Rightarrow> bytes) \<Rightarrow> ('s \<Rightarrow> bytes) \<Rightarrow> int \<Rightarrow> bool \<Rightarrow>
   ('z, 'p, 's) Reader \<Rightarrow> bytes \<Rightarrow> ('z, 'p, 's) Reader \<Rightarrow> bool" where
  "reads_full B good view left sz doMark r buf r' \<longleftrightarrow> refilled B good r r' \<and>
     (\<exists>h. int (length h) = sz \<and> prefix h buf \<and> prefix h (ahead view left r) \<and>
        (doMark \<or> prefix h (view (r_rdBuf r'))) \<and>
        ahead view left r = (if doMark then h else []) @ ahead view left r')"

text \<open>The part of \<open>readFull\<close> behind the refill, on a buffer that is empty only at the end of the source.\<close>

definition readFull_take ::
  "errs \<Rightarrow> 'p bufpipe \<Rightarrow> int \<Rightarrow> bool \<Rightarrow> bool \<Rightarrow> (('z, 'p, 's) Reader, bytes) act" where
  "readFull_take E B sz doMark canEOF =
     abind (aget (\<lambda>r. bp_ReadSlices B (r_rdBuf r))) (\<lambda>(bufLo, bufHi, _).
      let rdyCnt = int (length bufLo) + int (length bufHi) in
      athen (aAssert E (rdyCnt \<noteq> 0 \<or> \<not> canEOF) (Some EOF))
      (athen (aAssert E (rdyCnt \<ge> sz) (Some formatError))
       (athen (if doMark then amod (\<lambda>r. r\<lparr>r_rdBuf := bp_ReadMark B (r_rdBuf r) sz\<rparr>) else aret ())
        (if int (length bufLo) \<ge> sz then alift (slice_to bufLo sz) else aret (bufLo @ bufHi)))))"

lemma readFull_take_post:
  assumes env: "reader_env E B L rf rd good view stored left CB CI" and ok: "good (r_rdBuf r)" "ring_buf B (r_rdBuf r)"
    and sz: "0 < sz" and empty: "view (r_rdBuf r) = [] \<Longrightarrow> left (r_rd r) = []"
  shows "ends (readFull_take E B sz doMark canEOF r) (reads_full B good view left sz doMark r)
    (\<lambda>p. read_fails B good view left canEOF p r)"
proof -
  note e = reader_envD [OF env]
  obtain lo hi er where rs: "bp_ReadSlices B (r_rdBuf r) = (lo, hi, er)" by (metis prod.collapse)
  have v: "view (r_rdBuf r) = lo @ hi" using pipe_queueD(7) [OF e(2) ok(1) rs] by simp
  show ?thesis
  proof (cases "int (length lo) + int (length hi) \<ge> sz")
    case False
    have z: "int (length lo) + int (length hi) = 0 \<longleftrightarrow> lo @ hi = []" by (simp flip: of_nat_add)
    show ?thesis
      using rs v ok empty False
      by (simp add: readFull_take_def Let_def read_fails_def refilled_def ahead_def formatError_def abind_aPanic(2,4) [OF e(1)] z)
  next
    case True
    let ?h = "take (nat sz) (lo @ hi)" and ?buf = "if int (length lo) \<ge> sz then take (nat sz) lo else lo @ hi"
    let ?r = "if doMark then r\<lparr>r_rdBuf := bp_ReadMark B (r_rdBuf r) sz\<rparr> else r"
    have run: "readFull_take E B sz doMark canEOF r = Some (Ret ?buf, ?r)"
      using rs True sz by (simp add: readFull_take_def Let_def abind_aPanic(2,4) [OF e(1)] slice_to_def)
    have mark: "good (bp_ReadMark B (r_rdBuf r) sz)" "view (bp_ReadMark B (r_rdBuf r) sz) = drop (nat sz) (lo @ hi)"
      using pipe_queueD(8) [OF e(2) ok(1), of sz] sz True v by auto
    have ref: "refilled B good r ?r" using ok mark(1) pipe_ringD(2) [OF e(3)] by (simp add: refilled_def)
    have len: "int (length ?h) = sz" using True sz by auto
    have pre: "prefix ?h ?buf"
    proof (cases "int (length lo) \<ge> sz")
      case True
      then have "?h = take (nat sz) lo" by simp
      with True show ?thesis by simp
    next
      case False
      then show ?thesis using take_is_prefix by auto
    qed
    have ah: "ahead view left r = ?h @ (drop (nat sz) (lo @ hi) @ left (r_rd r))"
      unfolding ahead_def v by (metis append.assoc append_take_drop_id)
    have "doMark \<or> prefix ?h (view (r_rdBuf ?r))" by (simp add: v take_is_prefix del: take_append)
    moreover have "ahead view left r = (if doMark then ?h else []) @ ahead view left ?r"
    proof (cases doMark)
      case True
      then have "ahead view left ?r = drop (nat sz) (lo @ hi) @ left (r_rd r)" by (simp add: ahead_def mark(2))
      with True ah show ?thesis by simp
    qed simp
    ultimately have h: "int (length ?h) = sz" "prefix ?h ?buf" "prefix ?h (ahead view left r)"
      "doMark \<or> prefix ?h (view (r_rdBuf ?r))" "ahead view left r = (if doMark then ?h else []) @ ahead view left ?r"
      using len pre prefixI [OF ah] by blast+
    show ?thesis unfolding run ends_simps reads_full_def using ref h by blast
  qed
qed

lemma readFull_post:
  assumes env: "reader_env E B L rf rd good view stored left CB CI" and ok: "good (r_rdBuf r)" "ring_buf B (r_rdBuf r)"
    and sz: "0 < sz"
  shows "ends (readFull E B rf sz doMark canEOF r) (reads_full B good view left sz doMark r)
    (\<lambda>p. read_fails B good view left canEOF p r)"
proof (cases "bp_Length B (r_rdBuf r) < sz")
  case False
  note e = reader_envD [OF env]
  have "view (r_rdBuf r) \<noteq> []" using False sz pipe_queueD(6) [OF e(2) ok(1)] by auto
  moreover have "readFull E B rf sz doMark canEOF r = readFull_take E B sz doMark canEOF r"
    using False by (simp add: readFull_def readFull_take_def)
  ultimately show ?thesis using readFull_take_post [OF env ok sz] by simp
next
  case True
  note e = reader_envD [OF env]
  obtain er p s where f: "rf (r_rdBuf r) (r_rd r) = (er, p, s)" by (metis prod.collapse)
  let ?r = "r\<lparr>r_rdBuf := p, r_rd := s\<rparr>"
  have l: "good p" "ring_buf B p" "\<exists>bs. view p = view (r_rdBuf r) @ bs \<and> left (r_rd r) = bs @ left s" "er \<noteq> Some EOF"
    "er = None \<longrightarrow> left s = []" "er = Some ErrShortWrite \<longrightarrow> view p \<noteq> []"
    using e(5) ok f unfolding read_from_laws_def by blast+
  have ah: "ahead view left ?r = ahead view left r" using l(3) by (auto simp: ahead_def)
  have run: "readFull E B rf sz doMark canEOF r = (if errs_Ignore E er [ErrShortWrite] = None then readFull_take E B sz doMark canEOF ?r
      else Some (Pan (PErr (errs_Ignore E er [ErrShortWrite])), ?r))"
    using True f by (simp add: readFull_def readFull_take_def abind_aPanic(1,3) [OF e(1)] abind_def split: option.split)
  have rf: "refilled B good ?r r' \<Longrightarrow> refilled B good r r'" for r' unfolding refilled_def by simp
  show ?thesis
  proof (cases "errs_Ignore E er [ErrShortWrite] = None")
    case False
    then obtain x where "er = Some x" "errs_Ignore E er [ErrShortWrite] = Some x" "x \<noteq> EOF"
      using l(4) e(1) by (cases er) (auto simp: golib_laws split: if_splits)
    then show ?thesis using run l(1,2) by (simp add: read_fails_def refilled_def)
  next
    case ign: True
    then have "view p = [] \<Longrightarrow> left s = []" using l(5,6) e(1) by (cases er) (auto simp: golib_laws split: if_splits)
    then have em: "view (r_rdBuf ?r) = [] \<Longrightarrow> left (r_rd ?r) = []" by simp
    have "good (r_rdBuf ?r)" "ring_buf B (r_rdBuf ?r)" using l(1,2) by simp_all
    from readFull_take_post [OF env this sz em, of doMark canEOF] show ?thesis
      unfolding run using ign rf by (auto elim!: ends_mono simp: read_fails_def reads_full_def ah)
  qed
qed

section \<open>The states\<close>

text \<open>
  From one state to another outside the data of a block: the bytes consumed follow the grammar and
  no output moves. \<open>rest\<close> is what was taken for a move that was not completed.
\<close>

definition moved ::
  "('z, 'x) liblzma \<Rightarrow> ('p \<Rightarrow> bytes) \<Rightarrow> ('s \<Rightarrow> bytes) \<Rightarrow> bytes \<Rightarrow> ('z, 'p, 's) Reader \<Rightarrow> ('z, 'p, 's) Reader \<Rightarrow> bool" where
  "moved L view left rest r r' \<longleftrightarrow> view (r_wrBuf r') = view (r_wrBuf r) \<and>
     (\<exists>inp. read_run L (machine_of r) inp [] (machine_of r') \<and> ahead view left r = inp @ rest @ ahead view left r')"

primrec state_rank :: "read_state \<Rightarrow> nat" where
  "state_rank readInit = 1"
| "state_rank readHeader = 1"
| "state_rank readPadding = 2"
| "state_rank readFooter = 3"
| "state_rank readIndex = 4"
| "state_rank readBlock = 5"

definition read_rank :: "('z, 'p, 's) Reader \<Rightarrow> nat" where
  "read_rank r = state_rank (r_state r) + (if r_stream r = None then 0 else 1)"

definition nearer :: "('p \<Rightarrow> bytes) \<Rightarrow> ('s \<Rightarrow> bytes) \<Rightarrow> ('z, 'p, 's) Reader \<Rightarrow> ('z, 'p, 's) Reader \<Rightarrow> bool" where
  "nearer view left r r' \<longleftrightarrow> length (ahead view left r') < length (ahead view left r) \<or> read_rank r' < read_rank r"

text \<open>Where \<open>io.EOF\<close> can come from.\<close>

definition at_end :: "('p \<Rightarrow> bytes) \<Rightarrow> ('s \<Rightarrow> bytes) \<Rightarrow> bytes \<Rightarrow> ('z, 'p, 's) Reader \<Rightarrow> bool" where
  "at_end view left rest r \<longleftrightarrow> ahead view left r = [] \<and> view (r_wrBuf r) = [] \<and>
     (r_state r \<in> {readHeader, readPadding} \<and> rest = [] \<or> r_state r = readBlock \<and> r_stream r \<noteq> None \<and> rest = [] \<or>
      r_state r = readIndex)"

definition part_ok ::
  "'p bufpipe \<Rightarrow> ('z, 'x) liblzma \<Rightarrow> ('p \<Rightarrow> bool) \<Rightarrow> ('p \<Rightarrow> bytes) \<Rightarrow> ('s \<Rightarrow> bytes) \<Rightarrow> 'z set \<Rightarrow>
   ('z, 'p, 's) Reader \<Rightarrow> ('z, 'p, 's) Reader \<Rightarrow> bool" where
  "part_ok B L good view left CB r r' \<longleftrightarrow> read_inv B good view CB r' \<and> moved L view left [] r r' \<and> nearer view left r r'"

definition part_fails ::
  "'p bufpipe \<Rightarrow> ('z, 'x) liblzma \<Rightarrow> ('p \<Rightarrow> bool) \<Rightarrow> ('p \<Rightarrow> bytes) \<Rightarrow> ('s \<Rightarrow> bytes) \<Rightarrow> 'z set \<Rightarrow>
   ('z, 'p, 's) Reader \<Rightarrow> panicval \<Rightarrow> ('z, 'p, 's) Reader \<Rightarrow> bool" where
  "part_fails B L good view left CB r p r' \<longleftrightarrow> read_inv B good view CB r' \<and> view (r_wrBuf r') = view (r_wrBuf r) \<and>
     (\<exists>e. p = PErr (Some e) \<and> (e = EOF \<longrightarrow> (\<exists>rest. moved L view left rest r r' \<and> at_end view left rest r')))"

lemma moved_refl [simp]: "moved L view left [] r r"
  by (auto simp: moved_def intro: read_run.rest)

lemma moved_trans: "moved L view left [] r r' \<Longrightarrow> moved L view left rest r' r'' \<Longrightarrow> moved L view left rest r r''"
  unfolding moved_def using read_run_trans by (metis append.assoc append_Nil)

lemma moved_length: "moved L view left rest r r' \<Longrightarrow> length (ahead view left r') \<le> length (ahead view left r)"
  by (auto simp: moved_def)

lemma part_ok_trans:
  assumes ok: "part_ok B L good view left CB r r'"
  shows "part_ok B L good view left CB r' r'' \<Longrightarrow> part_ok B L good view left CB r r''"
    and "part_fails B L good view left CB r' p r'' \<Longrightarrow> part_fails B L good view left CB r p r''"
proof -
  have m: "moved L view left [] r r'" and n: "nearer view left r r'" using ok by (simp_all add: part_ok_def)
  show "part_ok B L good view left CB r r''" if "part_ok B L good view left CB r' r''"
  proof -
    have m': "moved L view left [] r' r''" and n': "nearer view left r' r''" using that by (simp_all add: part_ok_def)
    have "nearer view left r r''" using n n' moved_length [OF m] moved_length [OF m'] by (auto simp: nearer_def)
    with that moved_trans [OF m m'] show ?thesis by (simp add: part_ok_def)
  qed
  show "part_fails B L good view left CB r p r''" if "part_fails B L good view left CB r' p r''"
  proof -
    have "view (r_wrBuf r') = view (r_wrBuf r)" using m by (simp add: moved_def)
    with that moved_trans [OF m] show ?thesis unfolding part_fails_def by metis
  qed
qed

text \<open>The failures of \<open>readFull\<close> and of liblzma.\<close>

lemma readFull_fails:
  assumes "read_fails B good view left canEOF p r r'" and "read_inv B good view CB r"
    and "canEOF \<Longrightarrow> r_state r \<in> {readHeader, readPadding}"
  shows "part_fails B L good view left CB r p r'"
proof -
  note f = refilledD [of B good r r']
  have "refilled B good r r'" using assms(1) by (simp add: read_fails_def)
  then have "machine_of r' = machine_of r" "read_inv B good view CB r'" "r_wrBuf r' = r_wrBuf r" "r_state r' = r_state r"
    using f assms(2) by simp_all
  moreover have "canEOF \<Longrightarrow> view (r_wrBuf r) = []" using assms(2,3) by (auto simp: read_inv_def split: option.splits)
  ultimately show ?thesis using assms(1,3) read_run.rest [of L "machine_of r"]
    by (auto simp: read_fails_def part_fails_def moved_def at_end_def)
qed

lemma NewError_eq: "NewError r = (if r = OK then None else Some (LibErr r))"
  by (simp add: NewError_def)

text \<open>A header of a stream.\<close>

lemma read_header_post:
  assumes env: "reader_env E B L rf rd good view stored left CB CI" and inv: "read_inv B good view CB r"
    and st: "r_state r = readInit \<or> r_state r = readHeader"
  shows "ends (read_header E B L rf r) (\<lambda>_. part_ok B L good view left CB r) (part_fails B L good view left CB r)"
proof -
  note e = reader_envD [OF env]
  have g: "good (r_rdBuf r)" "ring_buf B (r_rdBuf r)" and ns: "r_stream r = None"
    using inv st by (auto simp: read_inv_def split: option.splits)
  have "ends (readFull E B rf (int (STREAM_HEADER_SIZE L)) True (r_state r \<noteq> readInit) r)
      (reads_full B good view left (int (STREAM_HEADER_SIZE L)) True r)
      (\<lambda>p. read_fails B good view left (r_state r \<noteq> readInit) p r)"
    using readFull_post [OF env g, of "int (STREAM_HEADER_SIZE L)"] e(12) by simp
  then show ?thesis
    unfolding read_header_def abind_simps
  proof (rule ends_abind, goal_cases)
    case (1 buf r1)
    then obtain h where ref: "refilled B good r r1" and h: "length h = STREAM_HEADER_SIZE L" "prefix h buf"
      "ahead view left r = h @ ahead view left r1" by (auto simp: reads_full_def)
    note f = refilledD [OF ref]
    obtain er fl where dec: "HeaderDecode L NewStreamFlags buf = (er, fl)" by (metis prod.collapse)
    show ?case
    proof (cases er)
      case None
      let ?r = "r1\<lparr>r_flags := Some fl, r_state := readBlock\<rparr>"
      have "read_run L (machine_of r) h [] (machine_of ?r)"
        using read_run_one [OF read_move.header [of "r_state r" h L buf fl "r_flags r"]] st h dec None ns f(5) by (simp add: machine_of_def)
      then have "moved L view left [] r ?r" using h(3) f(6) by (auto simp: moved_def ahead_def)
      moreover have "read_inv B good view CB ?r" using f(10) [OF inv] ns f(5) by (simp add: read_inv_def)
      moreover have "nearer view left r ?r" using h e(12) by (simp add: nearer_def ahead_def)
      ultimately show ?thesis using dec None e(1) by (simp add: part_ok_def)
    next
      case (Some x)
      then have "x \<noteq> EOF" using dec by (auto simp: HeaderDecode_def NewError_eq Let_def split: if_splits prod.splits)
      moreover have "read_inv B good view CB (r1\<lparr>r_flags := Some fl\<rparr>)" using f(10) [OF inv] ns f(5) by (simp add: read_inv_def)
      ultimately show ?thesis using dec Some e(1) f(6) by (simp add: part_fails_def)
    qed
  next
    case (2 p r1)
    show ?case by (rule readFull_fails [OF 2 inv]) (use st in auto)
  qed
qed

lemma moved_fails:
  "moved L view left [] r r' \<Longrightarrow> part_fails B L good view left CB r' p r'' \<Longrightarrow> part_fails B L good view left CB r p r''"
  unfolding part_fails_def using moved_trans [of L view left r r'] by (metis moved_def)

lemma other_fails:
  "read_inv B good view CB r' \<Longrightarrow> view (r_wrBuf r') = view (r_wrBuf r) \<Longrightarrow> e \<noteq> EOF \<Longrightarrow>
   part_fails B L good view left CB r (PErr (Some e)) r'"
  by (simp add: part_fails_def)

lemma refilled_block:
  assumes "refilled B good r r'" and "ahead view left r = ahead view left r'"
  shows "moved L view left [] r (r'\<lparr>r_block := b\<rparr>)" and "moved L view left [] r r'"
  using refilledD [OF assms(1)] assms(2)
  by (auto simp: moved_def ahead_def machine_of_def intro: read_run.rest)

lemma block_header_size:
  assumes "HeaderSizeDecode L b val = ((hs, None), b')" and "0 < BLOCK_HEADER_SIZE_MIN L"
  shows "0 < hs" and "uint (blk_header_size (b_block b')) = hs"
proof -
  have "hs = uint (c_block_header_size_decode L val)" "b' = b\<lparr>b_block := (b_block b)\<lparr>blk_header_size := word_of_int hs\<rparr>\<rparr>"
    "BLOCK_HEADER_SIZE_MIN L \<le> hs"
    using assms(1) by (auto simp: HeaderSizeDecode_def Let_def split: if_splits)
  with assms(2) show "0 < hs" "uint (blk_header_size (b_block b')) = hs" by simp_all
qed

text \<open>The header of a block, behind its first byte.\<close>

definition block_header_rest ::
  "errs \<Rightarrow> 'p bufpipe \<Rightarrow> ('z, 'x) liblzma \<Rightarrow> ('p, 's) read_from \<Rightarrow> int \<Rightarrow> Block \<Rightarrow> (('z, 'p, 's) Reader, unit) act" where
  "block_header_rest E B L rf headerSize block =
     abind (readFull E B rf headerSize True False) (\<lambda>header.
     abind (alift (Block_HeaderDecode L block header)) (\<lambda>(err, block).
     athen (amod (\<lambda>r. r\<lparr>r_block := Some block\<rparr>))
     (athen (aPanic E err)
      (case Block_NewStreamDecoder L B block of (stream, err) \<Rightarrow>
       athen (amod (\<lambda>r. r\<lparr>r_stream := stream\<rparr>)) (aPanic E err)))))"

lemma block_header_rest_post:
  assumes env: "reader_env E B L rf rd good view stored left CB CI" and inv: "read_inv B good view CB r"
    and st: "r_state r = readBlock" "r_stream r = None" "r_flags r = Some fl" and val: "val \<noteq> 0" "prefix [val] (ahead view left r)"
    and dec: "HeaderSizeDecode L (NewBlock L (Flags_GetCheck fl)) val = ((hs, None), b)"
  shows "ends (block_header_rest E B L rf hs b r) (\<lambda>_. part_ok B L good view left CB r) (part_fails B L good view left CB r)"
proof -
  note e = reader_envD [OF env]
  have g: "good (r_rdBuf r)" "ring_buf B (r_rdBuf r)" using inv by (simp_all add: read_inv_def)
  note hs = block_header_size [OF dec e(13)]
  show ?thesis
    unfolding block_header_rest_def
  proof (rule ends_abind, rule readFull_post [OF env g hs(1)], goal_cases)
    case (1 buf r1)
    then obtain h where ref: "refilled B good r r1" and h: "int (length h) = hs" "prefix h buf" "prefix h (ahead view left r)"
      "ahead view left r = h @ ahead view left r1" by (auto simp: reads_full_def)
    note f = refilledD [OF ref]
    have vh: "prefix [val] h"
      using prefix_length_prefix [OF val(2) h(3)] h(1) hs(1) by auto
    have "int (length buf) \<ge> hs" using prefix_length_le [OF h(2)] h(1) by linarith
    then obtain er b' where bd: "Block_HeaderDecode L b buf = Ret (er, b')" "er \<noteq> Some EOF"
      using hs(2) by (cases "c_block_header_decode L (b_block b) buf") (auto simp: Block_HeaderDecode_def NewError_eq)
    let ?r = "r1\<lparr>r_block := Some b'\<rparr>"
    have inv1: "read_inv B good view CB ?r" using f(10) [OF inv] by simp
    show ?case
    proof (cases er)
      case (Some x)
      with bd e(1) f(6) inv1 show ?thesis by (auto intro!: other_fails)
    next
      case None
      show ?thesis
      proof (cases rule: new_coder_cases [of "c_block_decoder L (b_block b')" L B])
        case (ok c)
        let ?r = "r1\<lparr>r_block := Some b', r_stream := Some (NewStream L B\<lparr>st_coder := c\<rparr>)\<rparr>"
        have "c \<in> CB" using e(11) ok(1) by (auto simp: lzma_decoders_def)
        then have "read_inv B good view CB ?r" using f(10) [OF inv] f(3) st by (auto simp: read_inv_def)
        moreover have "read_run L (machine_of r) h [] (machine_of ?r)"
          using read_run_one [OF read_move.block [OF val(1) dec h(1) vh h(2) _ ok(1)]] bd(1) None f(3,4) st by (simp add: machine_of_def)
        then have "moved L view left [] r ?r" using h(4) f(6) by (auto simp: moved_def ahead_def)
        moreover have "h \<noteq> []" using h(1) hs(1) by auto
        then have "nearer view left r ?r" using h(4) by (simp add: nearer_def ahead_def)
        ultimately show ?thesis using None bd(1) e(1) ok(2) by (simp add: Block_NewStreamDecoder_def part_ok_def)
      next
        case (failed x c)
        have "read_inv B good view CB (?r\<lparr>r_stream := None\<rparr>)" using f(5) [symmetric] st(2) inv1 by (simp add: read_inv_def)
        then show ?thesis using None bd(1) e(1) failed(3) f(6) by (simp add: Block_NewStreamDecoder_def other_fails)
      qed
    qed
  next
    case (2 p r1)
    show ?case by (rule readFull_fails [OF 2 inv]) simp
  qed
qed

lemma read_block_header_post:
  assumes env: "reader_env E B L rf rd good view stored left CB CI" and inv: "read_inv B good view CB r"
    and st: "r_state r = readBlock" "r_stream r = None"
  shows "ends (read_block_header E B L rf r) (\<lambda>_. part_ok B L good view left CB r) (part_fails B L good view left CB r)"
proof -
  note e = reader_envD [OF env]
  have g: "good (r_rdBuf r)" "ring_buf B (r_rdBuf r)" using inv by (simp_all add: read_inv_def)
  obtain fl where fl: "r_flags r = Some fl" using inv st by (auto simp: read_inv_def)
  show ?thesis
    unfolding read_block_header_def
  proof (rule ends_abind, rule readFull_post [OF env g zero_less_one], goal_cases)
    case (1 buf r1)
    then obtain h where ref: "refilled B good r r1" and h: "length h = 1" "prefix h buf" "prefix h (ahead view left r)"
      "ahead view left r = ahead view left r1" by (auto simp: reads_full_def)
    then obtain val bs where buf: "buf = val # bs" "h = [val]" by (cases h; cases buf) auto
    note f = refilledD [OF ref]
    show ?case
    proof (cases "val = 0")
      case True
      let ?r = "r1\<lparr>r_state := readIndex\<rparr>"
      have "read_inv B good view CB ?r" using f(10) [OF inv] f(4,5) st fl by (simp add: read_inv_def)
      moreover have "moved L view left [] r ?r"
        using h(4) f(3,4,5,6) st read_run_one [OF read_move.blocks_end [of L "r_flags r"]] by (auto simp: moved_def ahead_def machine_of_def)
      moreover have "nearer view left r ?r" using f(5) st by (simp add: nearer_def read_rank_def)
      ultimately show ?thesis using True by (simp add: buf part_ok_def)
    next
      case False
      obtain hs er b where dec: "HeaderSizeDecode L (NewBlock L (Flags_GetCheck fl)) val = ((hs, er), b)" by (metis prod.collapse)
      let ?r = "r1\<lparr>r_block := Some b\<rparr>"
      have inv1: "read_inv B good view CB ?r" using f(10) [OF inv] by simp
      have m: "moved L view left [] r ?r" by (rule refilled_block(1) [OF ref h(4)])
      show ?thesis
      proof (cases er)
        case (Some x)
        then have "x \<noteq> EOF" using dec by (auto simp: HeaderSizeDecode_def Let_def split: if_splits)
        with Some False show ?thesis using fl f(4,6) dec e(1) inv1 by (simp add: buf other_fails)
      next
        case None
        have st1: "r_state ?r = readBlock" "r_stream ?r = None" "r_flags ?r = Some fl" "prefix [val] (ahead view left ?r)"
          using f(3,4,5) st fl h(3,4) by (simp_all add: ahead_def buf)
        have n: "part_ok B L good view left CB ?r r' \<Longrightarrow> part_ok B L good view left CB r r'" for r'
          using moved_trans [OF m] h(4) f(3,5) by (auto simp: part_ok_def nearer_def read_rank_def ahead_def)
        from block_header_rest_post [OF env inv1 st1(1,2,3) False st1(4) dec [unfolded None]]
        have "ends (block_header_rest E B L rf hs b ?r) (\<lambda>_. part_ok B L good view left CB r) (part_fails B L good view left CB r)"
          by (rule ends_mono) (use n moved_fails [OF m] in blast)+
        then show ?thesis using False None fl f(4) dec e(1) by (simp add: buf block_header_rest_def)
      qed
    qed
  next
    case (2 p r1)
    show ?case by (rule readFull_fails [OF 2 inv]) simp
  qed
qed

text \<open>The footer, and the padding behind it.\<close>

lemma read_footer_post:
  assumes env: "reader_env E B L rf rd good view stored left CB CI" and inv: "read_inv B good view CB r"
    and st: "r_state r = readFooter"
  shows "ends (read_footer E B L rf r) (\<lambda>_. part_ok B L good view left CB r) (part_fails B L good view left CB r)"
proof -
  note e = reader_envD [OF env]
  have g: "good (r_rdBuf r)" "ring_buf B (r_rdBuf r)" using inv by (simp_all add: read_inv_def)
  obtain rfl where fl: "r_flags r = Some rfl" "r_stream r = None"
    using inv st by (auto simp: read_inv_def split: option.splits)
  have sz: "0 < int (STREAM_FOOTER_SIZE L)" using e(12) by simp
  show ?thesis
    unfolding read_footer_def
  proof (rule ends_abind, rule readFull_post [OF env g sz], goal_cases)
    case (1 buf r1)
    then obtain h where ref: "refilled B good r r1" and h: "length h = STREAM_FOOTER_SIZE L" "prefix h buf"
      "ahead view left r = h @ ahead view left r1" by (auto simp: reads_full_def)
    note f = refilledD [OF ref]
    obtain er fl' where dec: "FooterDecode L NewStreamFlags buf = (er, fl')" by (metis prod.collapse)
    have fails: "part_fails B L good view left CB r (PErr (Some (LibErr x))) r1" for x
      using other_fails [of B good view CB r1 r "LibErr x"] f(6,10) inv by simp
    show ?case
    proof (cases er)
      case (Some x)
      then obtain y where "x = LibErr y" using dec by (auto simp: FooterDecode_def NewError_eq Let_def split: if_splits prod.splits)
      then show ?thesis using dec Some e(1) fails by simp
    next
      case None
      show ?thesis
      proof (cases "Flags_Compare L fl' rfl")
        case (Some x)
        then have "x = LibErr (c_stream_flags_compare L fl' rfl)" by (auto simp: Flags_Compare_def NewError_eq split: if_splits)
        then show ?thesis using dec None Some e(1) f(4) fl(1) fails by simp
      next
        case cmp: None
        let ?r = "r1\<lparr>r_state := readPadding\<rparr>"
        have "read_run L (machine_of r) h [] (machine_of ?r)"
          using read_run_one [OF read_move.footer [of h L buf fl' rfl]] h(1,2) dec None cmp f(4,5) fl st by (simp add: machine_of_def)
        then have "moved L view left [] r ?r" using h(3) f(6) by (auto simp: moved_def ahead_def)
        moreover have "read_inv B good view CB ?r" using f(10) [OF inv] fl(2) f(5) by (simp add: read_inv_def)
        moreover have "nearer view left r ?r" using st f(5) by (simp add: nearer_def read_rank_def)
        ultimately show ?thesis using dec None cmp e(1) f(4) fl(1) by (simp add: part_ok_def)
      qed
    qed
  next
    case (2 p r1)
    show ?case by (rule readFull_fails [OF 2 inv]) simp
  qed
qed

lemma read_padding_loop_post:
  assumes env: "reader_env E B L rf rd good view stored left CB CI"
  shows "read_inv B good view CB r \<Longrightarrow> r_state r = readPadding \<Longrightarrow>
    ends (read_padding_loop E B rf r)
      (\<lambda>_ r'. read_inv B good view CB r' \<and> moved L view left [] r r' \<and> r_state r' = readPadding)
      (part_fails B L good view left CB r)"
proof (induction "length (ahead view left r)" arbitrary: r rule: less_induct)
  case less
  note e = reader_envD [OF env]
  have g: "good (r_rdBuf r)" "ring_buf B (r_rdBuf r)" using less.prems by (simp_all add: read_inv_def)
  have "ends (readFull E B rf 4 False True r) (reads_full B good view left 4 False r) (\<lambda>p. read_fails B good view left True p r)"
    by (rule readFull_post [OF env g]) simp
  then show ?case
  proof (cases rule: ends_cases)
    case (pan p r1)
    have "part_fails B L good view left CB r p r1" by (rule readFull_fails [OF pan(2) less.prems(1)]) (use less.prems(2) in simp)
    with pan(1) show ?thesis by (simp add: read_padding_loop.simps)
  next
    case (ret buf r1)
    then obtain h where ref: "refilled B good r r1" and h: "length h = 4" "prefix h buf" "prefix h (view (r_rdBuf r1))"
      "ahead view left r = ahead view left r1" by (auto simp: reads_full_def)
    note f = refilledD [OF ref]
    have m1: "moved L view left [] r r1" by (rule refilled_block(2) [OF ref h(4)])
    show ?thesis
    proof (cases "buf = padZeros")
      case False
      then show ?thesis using ret(1) f(3) f(10) [OF less.prems(1)] m1 less.prems(2) by (simp add: read_padding_loop.simps)
    next
      case True
      then have "prefix h padZeros" "length h = length padZeros" using h(1,2) by (simp_all add: padZeros_def)
      then have hz: "h = padZeros" by (metis append_eq_conv_conj order_refl prefixE take_all)
      then obtain v where v: "view (r_rdBuf r1) = padZeros @ v" using h(3) by (auto simp: prefix_def)
      let ?r = "r1\<lparr>r_rdBuf := bp_ReadMark B (r_rdBuf r1) 4\<rparr>"
      have mark: "good (bp_ReadMark B (r_rdBuf r1) 4)" "view (bp_ReadMark B (r_rdBuf r1) 4) = v"
        using pipe_queueD(8) [OF e(2) f(8), of 4] v by (simp_all add: padZeros_def)
      have ah: "ahead view left r1 = padZeros @ ahead view left ?r" by (simp add: ahead_def v mark(2))
      have inv: "read_inv B good view CB ?r"
        using f(10) [OF less.prems(1)] mark(1) pipe_ringD(2) [OF e(3)] by (simp add: read_inv_def cong: option.case_cong)
      have ns: "r_stream r1 = None" using less.prems f(5) by (auto simp: read_inv_def split: option.splits)
      have st: "r_state ?r = readPadding" using f(3) less.prems(2) by simp
      have "read_run L (machine_of r1) padZeros [] (machine_of ?r)"
        using read_run_one [OF read_move.padding [of L "r_flags r1"]] st ns by (simp add: machine_of_def)
      then have "moved L view left [] r1 ?r" using ah by (auto simp: moved_def)
      then have m: "moved L view left [] r ?r" by (rule moved_trans [OF m1])
      have "length (ahead view left ?r) < length (ahead view left r)" using ah h(4) by (simp add: padZeros_def)
      from less.hyps [OF this inv st]
      have "ends (read_padding_loop E B rf ?r)
          (\<lambda>_ r'. read_inv B good view CB r' \<and> moved L view left [] r r' \<and> r_state r' = readPadding)
          (part_fails B L good view left CB r)"
        by (rule ends_mono) (use moved_trans [OF m] moved_fails [OF m] in blast)+
      then show ?thesis using ret(1) True by (subst read_padding_loop.simps) simp
    qed
  qed
qed

lemma read_padding_post:
  assumes env: "reader_env E B L rf rd good view stored left CB CI" and inv: "read_inv B good view CB r"
    and st: "r_state r = readPadding"
  shows "ends (read_padding E B rf r) (\<lambda>_. part_ok B L good view left CB r) (part_fails B L good view left CB r)"
  unfolding read_padding_def athen_def
proof (rule ends_abind, rule read_padding_loop_post [OF env inv st], goal_cases)
  case (1 x r1)
  have ns: "r_stream r = None" "r_stream r1 = None" using inv st 1 by (auto simp: read_inv_def split: option.splits)
  let ?r = "r1\<lparr>r_state := readHeader\<rparr>"
  have "moved L view left [] r1 ?r"
    using ns 1 read_run_one [OF read_move.padding_end [of L "r_flags r1"]] by (auto simp: moved_def ahead_def machine_of_def)
  then have "moved L view left [] r ?r" using 1 moved_trans by blast
  moreover have "read_inv B good view CB ?r" using 1 ns by (simp add: read_inv_def)
  moreover have "nearer view left r ?r" using st ns by (simp add: nearer_def read_rank_def)
  ultimately show ?case by (simp add: part_ok_def)
qed

text \<open>The index.\<close>

lemma SetBuffers_rings:
  "ring_buf B p \<Longrightarrow> ring_buf B q \<Longrightarrow> SetBuffers B p q z = Ret (z\<lparr>st_outBuf := p, st_inBuf := q\<rparr>)"
  by (simp add: SetBuffers_def ring_buf_def)

lemma read_index_post:
  assumes env: "reader_env E B L rf rd good view stored left CB CI" and inv: "read_inv B good view CB r"
    and st: "r_state r = readIndex"
  shows "ends (read_index E B L rd r) (\<lambda>_. part_ok B L good view left CB r) (part_fails B L good view left CB r)"
proof (cases rule: new_coder_cases [of "c_index_decoder L maxMemory" L B])
  case (failed x c)
  then show ?thesis using reader_envD(1) [OF env] inv
    by (auto simp: read_index_def Index_NewStreamDecoder_def Let_def intro!: other_fails)
next
  case (ok c)
  note e = reader_envD [OF env]
  obtain pb pi where dec: "lzma_decoders L CB CI pb pi" using e(11) by blast
  have ci: "c \<in> CI" "coder_progress_on CI L FINISH (Some rd = None) ((None :: unit io_write option) = None) pi"
    using dec ok(1) by (auto simp: lzma_decoders_def)
  obtain fl where ns: "r_stream r = None" and fl: "r_flags r = Some fl" and wb: "view (r_wrBuf r) = []"
    and g: "good (r_rdBuf r)" "good (r_wrBuf r)" "ring_buf B (r_rdBuf r)" "ring_buf B (r_wrBuf r)"
    using inv st by (auto simp: read_inv_def split: option.splits)
  define z where "z = (NewStream L B)\<lparr>st_coder := c, st_outBuf := r_wrBuf r, st_inBuf := r_rdBuf r\<rparr>"
  have z: "st_coder z = c" "st_outBuf z = r_wrBuf r" "st_inBuf z = r_rdBuf r" by (simp_all add: z_def)
  have wu: "writes_to (None :: unit io_write option) (\<lambda>_. [])" by (simp add: writes_to_def)
  obtain oc ic er z' s' where
    run: "Process B L FINISH (None :: unit io_write option) (Some rd) z (r_rd r) () = Some ((oc, ic, er), z', s', ())"
    and rings: "ring_buf B (st_inBuf z')" "ring_buf B (st_outBuf z')"
    using Process_returns_on [OF e(2,3,4,10,6,7) wu ci(2), of z "r_rd r" "()"] ci(1) g wb z
    by (metis option.distinct(1) prod.collapse unit.exhaust)
  from Process_post [OF run _ e(2,10,6) wu] g z have
    "process_post B L FINISH good view left (\<lambda>_. []) (None :: unit io_write option) (Some rd) z (r_rd r) () 0 0 ic oc er z' s' ()"
    by simp
  then obtain inp out where p: "coder_run L FINISH c inp out (st_coder z')"
      "ahead view left r = inp @ view (st_inBuf z') @ left s'" "view (st_outBuf z') = out" "good (st_inBuf z')" "good (st_outBuf z')"
      "er \<noteq> None" "code_error L FINISH (st_coder z') er \<or> read_error (Some rd) s' er \<and> view (st_inBuf z') = []"
    unfolding process_post_def pumped_def prod.case by (auto simp: z ahead_def wb write_error_def)
  have out: "out = []" using coder_run_on [OF p(1) ci(2) ci(1)] by simp
  let ?r = "r\<lparr>r_rdBuf := st_inBuf z', r_wrBuf := st_outBuf z', r_rd := s'\<rparr>"
  have inv1: "read_inv B good view CB ?r" using inv ns p(3,4,5) out rings by (simp add: read_inv_def)
  have ah: "ahead view left r = inp @ ahead view left ?r" using p(2) by (simp add: ahead_def)
  have step: "read_index E B L rd r = (if errs_Ignore E er [streamEnd] = None then
      Some (Ret (), ?r\<lparr>r_flags := Some (SetBackwardSize fl (Index_Size L (decoded_index L z'))), r_state := readFooter\<rparr>)
      else Some (Pan (PErr (errs_Ignore E er [streamEnd])), ?r))"
    using run fl ok(2) e(1)
    by (simp add: read_index_def Index_NewStreamDecoder_def Let_def z_def SetBuffers_rings [OF g(4,3)])
  show ?thesis
  proof (cases "er = Some streamEnd")
    case True
    let ?r' = "?r\<lparr>r_flags := Some (SetBackwardSize fl (Index_Size L (decoded_index L z'))), r_state := readFooter\<rparr>"
    have ce: "code_error L FINISH (st_coder z') (Some streamEnd)"
      using p(7) True source_errorsD(2) [OF e(8)] by (auto simp: streamEnd_def)
    have "read_run L (machine_of r) inp [] (machine_of ?r')"
      using read_run_one [OF read_move.index [OF ok(1) p(1) [unfolded out] ce, of fl]] ns fl st by (simp add: machine_of_def decoded_index_def)
    then have "moved L view left [] r ?r'" using ah p(3) out wb by (auto simp: moved_def ahead_def)
    moreover have "read_inv B good view CB ?r'" using inv1 ns by (simp add: read_inv_def)
    moreover have "nearer view left r ?r'" using st ns by (simp add: nearer_def read_rank_def)
    ultimately show ?thesis using step True e(1) by (simp add: part_ok_def golib_laws)
  next
    case False
    obtain x where x1: "er = Some x" using p(6) by blast
    then have x: "er = Some x" "errs_Ignore E er [streamEnd] = Some x" using False e(1) by (simp_all add: golib_laws)
    have "part_fails B L good view left CB r (PErr (Some x)) ?r"
    proof (cases "x = EOF")
      case False
      then show ?thesis using inv1 p(3) out wb by (simp add: other_fails)
    next
      case True
      then have "view (st_inBuf z') = []" "left s' = []"
        using p(7) x source_errorsD(3) [OF e(8)] by (auto simp: code_error_def)
      then have "moved L view left inp r ?r" "at_end view left inp ?r"
        using ah p(3) out wb st by (auto simp: moved_def at_end_def ahead_def machine_of_def intro: read_run.rest)
      with inv1 True show ?thesis using p(3) out wb by (auto simp: part_fails_def)
    qed
    then show ?thesis using step x by simp
  qed
qed

section \<open>The loop\<close>

text \<open>
  The loop works on the count, the pipe over the caller's slice and the reader. The count counts
  what is stored in the slice. The output that left the decoders is in the slice or waits in the
  reader's buffer.
\<close>

definition counted ::
  "'p bufpipe \<Rightarrow> ('p \<Rightarrow> bytes) \<Rightarrow> int \<times> 'p \<times> ('z, 'p, 's) Reader \<Rightarrow> int \<times> 'p \<times> ('z, 'p, 's) Reader \<Rightarrow> bool" where
  "counted B stored st st' \<longleftrightarrow> (case (st, st') of ((cnt, wr, _), (cnt', wr', _)) \<Rightarrow>
     cnt' + int (length (stored wr)) = cnt + int (length (stored wr')) \<and> bp_Capacity B wr' = bp_Capacity B wr)"

definition progressed ::
  "('z, 'x) liblzma \<Rightarrow> ('p \<Rightarrow> bytes) \<Rightarrow> ('s \<Rightarrow> bytes) \<Rightarrow> ('p \<Rightarrow> bytes) \<Rightarrow> bytes \<Rightarrow>
   int \<times> 'p \<times> ('z, 'p, 's) Reader \<Rightarrow> int \<times> 'p \<times> ('z, 'p, 's) Reader \<Rightarrow> bool" where
  "progressed L view left stored rest st st' \<longleftrightarrow> (case (st, st') of ((_, wr, r), (_, wr', r')) \<Rightarrow>
     \<exists>inp out. read_run L (machine_of r) inp out (machine_of r') \<and> ahead view left r = inp @ rest @ ahead view left r' \<and>
       stored wr' @ view (r_wrBuf r') = stored wr @ view (r_wrBuf r) @ out)"

lemma counted_trans: "counted B stored st st' \<Longrightarrow> counted B stored st' st'' \<Longrightarrow> counted B stored st st''"
  by (auto simp: counted_def)

lemma progressed_trans:
  assumes "progressed L view left stored [] st1 st2" and "progressed L view left stored rest st2 st3"
  shows "progressed L view left stored rest st1 st3"
proof -
  obtain c1 w1 r1 c2 w2 r2 c3 w3 r3 where st: "st1 = (c1, w1, r1)" "st2 = (c2, w2, r2)" "st3 = (c3, w3, r3)" by (metis prod.collapse)
  obtain i o1 where a: "read_run L (machine_of r1) i o1 (machine_of r2)" "ahead view left r1 = i @ ahead view left r2"
    "stored w2 @ view (r_wrBuf r2) = stored w1 @ view (r_wrBuf r1) @ o1"
    using assms(1) by (auto simp: progressed_def st)
  obtain j o2 where b: "read_run L (machine_of r2) j o2 (machine_of r3)" "ahead view left r2 = j @ rest @ ahead view left r3"
    "stored w3 @ view (r_wrBuf r3) = stored w2 @ view (r_wrBuf r2) @ o2"
    using assms(2) by (auto simp: progressed_def st)
  have "stored w3 @ view (r_wrBuf r3) = stored w1 @ view (r_wrBuf r1) @ o1 @ o2" using a(3) b(3) by (metis append.assoc)
  then show ?thesis using read_run_trans [OF a(1) b(1)] a(2) b(2)
    by (auto simp: progressed_def st intro!: exI [of _ "i @ j"] exI [of _ "o1 @ o2"])
qed

definition goes_on ::
  "'p bufpipe \<Rightarrow> ('z, 'x) liblzma \<Rightarrow> ('p \<Rightarrow> bool) \<Rightarrow> ('p \<Rightarrow> bytes) \<Rightarrow> ('s \<Rightarrow> bytes) \<Rightarrow> ('p \<Rightarrow> bytes) \<Rightarrow> 'z set \<Rightarrow>
   int \<times> 'p \<times> ('z, 'p, 's) Reader \<Rightarrow> int \<times> 'p \<times> ('z, 'p, 's) Reader \<Rightarrow> bool" where
  "goes_on B L good view left stored CB st st' \<longleftrightarrow> read_inv B good view CB (snd (snd st')) \<and> counted B stored st st' \<and>
     progressed L view left stored [] st st' \<and> nearer view left (snd (snd st)) (snd (snd st'))"

text \<open>The ways out of the loop: the slice is full, the end of the data, another error.\<close>

definition stops ::
  "'p bufpipe \<Rightarrow> ('z, 'x) liblzma \<Rightarrow> ('p \<Rightarrow> bool) \<Rightarrow> ('p \<Rightarrow> bytes) \<Rightarrow> ('s \<Rightarrow> bytes) \<Rightarrow> ('p \<Rightarrow> bytes) \<Rightarrow> 'z set \<Rightarrow>
   int \<times> 'p \<times> ('z, 'p, 's) Reader \<Rightarrow> panicval \<Rightarrow> int \<times> 'p \<times> ('z, 'p, 's) Reader \<Rightarrow> bool" where
  "stops B L good view left stored CB st p st' \<longleftrightarrow> read_inv B good view CB (snd (snd st')) \<and> counted B stored st st' \<and>
     (\<exists>e. p = PErr e \<and>
       (e = None \<longrightarrow> progressed L view left stored [] st st' \<and> int (length (stored (fst (snd st')))) = bp_Capacity B (fst (snd st'))) \<and>
       (e = Some EOF \<longrightarrow> (\<exists>rest. progressed L view left stored rest st st' \<and> at_end view left rest (snd (snd st')))))"

lemma progressed_length:
  "progressed L view left stored rest st st' \<Longrightarrow>
   length (ahead view left (snd (snd st'))) \<le> length (ahead view left (snd (snd st)))"
  by (auto simp: progressed_def split: prod.splits)

lemma goes_on_trans:
  assumes go: "goes_on B L good view left stored CB st st'"
  shows "stops B L good view left stored CB st' p st'' \<Longrightarrow> stops B L good view left stored CB st p st''"
    and "goes_on B L good view left stored CB st' st'' \<Longrightarrow> goes_on B L good view left stored CB st st''"
proof -
  have c: "counted B stored st st'" and pr: "progressed L view left stored [] st st'"
    and n: "nearer view left (snd (snd st)) (snd (snd st'))" using go by (simp_all add: goes_on_def)
  show "stops B L good view left stored CB st p st''" if "stops B L good view left stored CB st' p st''"
    using that counted_trans [OF c] progressed_trans [OF pr] unfolding stops_def by metis
  show "goes_on B L good view left stored CB st st''" if g: "goes_on B L good view left stored CB st' st''"
  proof -
    have pr': "progressed L view left stored [] st' st''" and n': "nearer view left (snd (snd st')) (snd (snd st''))"
      using g by (simp_all add: goes_on_def)
    have "nearer view left (snd (snd st)) (snd (snd st''))"
      using n n' progressed_length [OF pr] progressed_length [OF pr'] by (auto simp: nearer_def)
    with g counted_trans [OF c] progressed_trans [OF pr pr'] show ?thesis by (simp add: goes_on_def)
  qed
qed

lemma on_reader_post:
  assumes "ends (m r) (\<lambda>_. part_ok B L good view left CB r) (part_fails B L good view left CB r)"
  shows "ends (on_reader m (cnt, wr, r)) (\<lambda>_ st'. goes_on B L good view left stored CB (cnt, wr, r) st' \<and> fst (snd st') = wr \<and> fst st' = cnt \<and>
      part_ok B L good view left CB r (snd (snd st')))
    (stops B L good view left stored CB (cnt, wr, r))"
proof -
  have ok: "goes_on B L good view left stored CB (cnt, wr, r) (cnt, wr, r')" if "part_ok B L good view left CB r r'" for r'
    using that by (fastforce simp: goes_on_def part_ok_def moved_def counted_def progressed_def)
  have fails: "stops B L good view left stored CB (cnt, wr, r) p (cnt, wr, r')" if "part_fails B L good view left CB r p r'" for p r'
    using that by (fastforce simp: stops_def part_fails_def moved_def counted_def progressed_def)
  show ?thesis unfolding on_reader_def
    by (rule ends_azoom) (use assms in \<open>auto elim!: ends_mono simp: ok fails\<close>)
qed

lemma on_reader_part:
  assumes "ends (m r) (\<lambda>_. part_ok B L good view left CB r) (part_fails B L good view left CB r)"
  shows "ends (on_reader m (cnt, wr, r)) (\<lambda>_. goes_on B L good view left stored CB (cnt, wr, r))
    (stops B L good view left stored CB (cnt, wr, r))"
  by (rule ends_mono, rule on_reader_post, rule assms) simp_all

lemma read_block_data_post:
  assumes env: "reader_env E B L rf rd good view stored left CB CI" and inv: "read_inv B good view CB r"
    and st: "r_stream r = Some z0"
  shows "ends (read_block_data E B L rd (cnt, wr, r)) (\<lambda>_. goes_on B L good view left stored CB (cnt, wr, r))
    (stops B L good view left stored CB (cnt, wr, r))"
proof -
  note e = reader_envD [OF env]
  obtain pb pi where dec: "lzma_decoders L CB CI pb pi" using e(11) by blast
  have cb: "st_coder z0 \<in> CB" "coder_progress_on CB L RUN (Some rd = None) (Some (bp_Write B) = None) pb"
    using dec inv st by (auto simp: lzma_decoders_def read_inv_def)
  have g: "good (r_rdBuf r)" "good (r_wrBuf r)" "ring_buf B (r_rdBuf r)" "ring_buf B (r_wrBuf r)"
    and state: "r_state r = readBlock" and fl: "r_flags r \<noteq> None" using inv st by (auto simp: read_inv_def)
  define z where "z = z0\<lparr>st_outBuf := r_wrBuf r, st_inBuf := r_rdBuf r\<rparr>"
  have z: "st_coder z = st_coder z0" "st_outBuf z = r_wrBuf r" "st_inBuf z = r_rdBuf r" by (simp_all add: z_def)
  obtain oc ic er z' s' wr' where
    run: "Process B L RUN (Some (bp_Write B)) (Some rd) z (r_rd r) wr = Some ((oc, ic, er), z', s', wr')"
    and rings: "ring_buf B (st_inBuf z')" "ring_buf B (st_outBuf z')"
    using Process_returns_on [OF e(2,3,4,10,6,7,14) cb(2), of z "r_rd r" wr] cb(1) g z
    by (metis option.distinct(1) prod.collapse)
  from Process_post [OF run _ e(2,10,6,14)] g z have
    post: "process_post B L RUN good view left stored (Some (bp_Write B)) (Some rd) z (r_rd r) wr 0 0 ic oc er z' s' wr'"
    by simp
  then obtain inp out where p: "coder_run L RUN (st_coder z0) inp out (st_coder z')"
      "ahead view left r = inp @ view (st_inBuf z') @ left s'"
      "stored wr' @ view (st_outBuf z') = stored wr @ view (r_wrBuf r) @ out"
    unfolding process_post_def pumped_def prod.case by (auto simp: z ahead_def)
  from post have q: "good (st_inBuf z')" "good (st_outBuf z')" "oc = int (length (stored wr')) - int (length (stored wr))" "er \<noteq> None"
      "write_error (Some (bp_Write B)) wr' er \<or> code_error L RUN (st_coder z') er \<and> view (st_outBuf z') = [] \<or>
       read_error (Some rd) s' er \<and> view (st_outBuf z') = [] \<and> view (st_inBuf z') = []"
    unfolding process_post_def by simp_all
  have cap: "bp_Capacity B wr' = bp_Capacity B wr"
    using Process_keeps [OF run, of "bp_Capacity B"] e(9) by (auto simp: sink_keeps_def slice_pipe_def)
  define st' where "st' = (cnt + oc, wr', r\<lparr>r_stream := Some z', r_rdBuf := st_inBuf z', r_wrBuf := st_outBuf z', r_rd := s'\<rparr>)"
  define st'' where "st'' = (cnt + oc, wr', (snd (snd st'))\<lparr>r_stream := None\<rparr>)"
  have cn: "counted B stored (cnt, wr, r) st'" "counted B stored (cnt, wr, r) st''"
    using q(3) cap by (simp_all add: counted_def st'_def st''_def)
  have "st_coder z' \<in> CB" using coder_run_on [OF p(1) cb(2) cb(1)] by simp
  then have inv': "read_inv B good view CB (snd (snd st'))" using inv state q(1,2) rings by (simp add: read_inv_def st'_def)
  have rr: "read_run L (machine_of r) inp out (machine_of (snd (snd st')))"
    using read_run_one [OF read_move.data [OF p(1), of "r_flags r"]] state st by (simp add: machine_of_def st'_def)
  then have pr: "progressed L view left stored [] (cnt, wr, r) st'"
    unfolding progressed_def st'_def using p(2,3) by (auto simp: ahead_def intro!: exI [of _ inp] exI [of _ out])
  have step: "read_block_data E B L rd (cnt, wr, r) =
      (if er = Some ErrShortWrite then Some (Pan (PErr None), st')
       else if er = Some streamEnd then Some (Ret (), st'') else Some (Pan (PErr er), st'))"
    using run st e(1) q(4)
    by (cases er) (auto simp: read_block_data_def Let_def z_def st'_def st''_def SetBuffers_rings [OF g(4,3)] golib_laws)
  have wrE: "write_error (Some (bp_Write B)) wr' (Some x) \<Longrightarrow> x = ErrShortWrite \<and> int (length (stored wr')) = bp_Capacity B wr'" for x
    using e(9) unfolding write_error_def slice_pipe_def by (metis option.inject)
  note rdE = source_errorsD [OF e(8)]
  obtain x where x: "er = Some x" using q(4) by blast
  consider (full) "x = ErrShortWrite" | (ended) "x = streamEnd" | (eof) "x = EOF" | (other) "x \<notin> {ErrShortWrite, streamEnd, EOF}"
    by blast
  then show ?thesis
  proof cases
    case full
    then have "int (length (stored wr')) = bp_Capacity B wr'"
      using q(5) wrE rdE(1) unfolding x code_error_def by blast
    with full show ?thesis using step x inv' cn(1) pr by (simp add: stops_def) (simp add: st'_def)
  next
    case ended
    then have ce: "code_error L RUN (st_coder z') (Some streamEnd)" "view (st_outBuf z') = []"
      using q(5) wrE rdE(2) unfolding x streamEnd_def by blast+
    have "read_run L (machine_of r) (inp @ []) (out @ []) (machine_of (snd (snd st'')))"
      by (rule read_run_trans [OF rr]) (use read_run_one [OF read_move.block_end [OF ce(1), of "r_flags r"]] state in
        \<open>simp add: machine_of_def st'_def st''_def\<close>)
    then have "progressed L view left stored [] (cnt, wr, r) st''"
      unfolding progressed_def st''_def st'_def using p(2,3) by (auto simp: ahead_def intro!: exI [of _ inp] exI [of _ out])
    moreover have "read_inv B good view CB (snd (snd st''))" using inv' ce(2) fl by (simp add: read_inv_def st'_def st''_def)
    moreover have "nearer view left r (snd (snd st''))" using st state by (simp add: nearer_def read_rank_def st'_def st''_def)
    ultimately show ?thesis using ended step x cn(2) by (simp add: goes_on_def streamEnd_def)
  next
    case eof
    then have "view (st_inBuf z') = []" "view (st_outBuf z') = []" "left s' = []"
      using q(5) wrE rdE(3) unfolding x code_error_def by blast+
    then have "at_end view left [] (snd (snd st'))" using state by (simp add: at_end_def st'_def ahead_def)
    with eof show ?thesis using step x inv' cn(1) pr by (auto simp: stops_def streamEnd_def)
  next
    case other
    then show ?thesis using step x inv' cn(1) by (simp add: stops_def)
  qed
qed

lemma Read_step_post:
  assumes env: "reader_env E B L rf rd good view stored left CB CI" and inv: "read_inv B good view CB r"
  shows "ends (Read_step E B L rf rd (cnt, wr, r)) (\<lambda>_. goes_on B L good view left stored CB (cnt, wr, r))
    (stops B L good view left stored CB (cnt, wr, r))"
proof -
  note part = on_reader_part [of _ r B L good view left CB cnt wr stored]
  show ?thesis
  proof (cases "r_state r")
    case readInit
    then show ?thesis using part [of "read_header E B L rf", OF read_header_post [OF env inv]] by (simp add: Read_step_def)
  next
    case readHeader
    then show ?thesis using part [of "read_header E B L rf", OF read_header_post [OF env inv]] by (simp add: Read_step_def)
  next
    case readIndex
    then show ?thesis using part [of "read_index E B L rd", OF read_index_post [OF env inv]] by (simp add: Read_step_def)
  next
    case readFooter
    then show ?thesis using part [of "read_footer E B L rf", OF read_footer_post [OF env inv]] by (simp add: Read_step_def)
  next
    case readPadding
    then show ?thesis using part [of "read_padding E B rf", OF read_padding_post [OF env inv]] by (simp add: Read_step_def)
  next
    case readBlock
    show ?thesis
    proof (cases "r_stream r")
      case (Some z)
      then show ?thesis using readBlock read_block_data_post [OF env inv Some] by (simp add: Read_step_def)
    next
      case None
      have "ends (abind (on_reader (read_block_header E B L rf)) (\<lambda>_. read_block_data E B L rd) (cnt, wr, r))
          (\<lambda>_. goes_on B L good view left stored CB (cnt, wr, r)) (stops B L good view left stored CB (cnt, wr, r))"
      proof (rule ends_abind, rule on_reader_post [where stored = stored], rule read_block_header_post [OF env inv readBlock None], goal_cases)
        case (1 u t)
        then obtain r' where t: "t = (cnt, wr, r')" "part_ok B L good view left CB r r'"
          and go: "goes_on B L good view left stored CB (cnt, wr, r) (cnt, wr, r')" by (metis prod.collapse)
        show ?case
        proof (cases "r_stream r'")
          case None
          then show ?thesis using go t(1) by (simp add: read_block_data_def)
        next
          case (Some z)
          have "read_inv B good view CB r'" using t(2) by (simp add: part_ok_def)
          from read_block_data_post [OF env this Some, of cnt wr] show ?thesis unfolding t(1)
            by (rule ends_mono) (rule goes_on_trans [OF go], assumption)+
        qed
      qed
      then show ?thesis using readBlock None by (simp add: Read_step_def)
    qed
  qed
qed

lemma Read_loop_post:
  assumes env: "reader_env E B L rf rd good view stored left CB CI"
  shows "read_inv B good view CB r \<Longrightarrow>
    ends (Read_loop E B L rf rd (cnt, wr, r)) (\<lambda>_ _. False) (stops B L good view left stored CB (cnt, wr, r))"
proof (induction "(length (ahead view left r), read_rank r)" arbitrary: r cnt wr
    rule: wf_induct_rule [OF wf_lex_prod [OF wf_less_than wf_less_than]])
  case (1 r cnt wr)
  from Read_step_post [OF env 1(2), where cnt = cnt and wr = wr] show ?case
  proof (cases rule: ends_cases)
    case (pan p st')
    then show ?thesis by (subst Read_loop.simps) simp
  next
    case (ret u st')
    obtain cnt' wr' r' where st': "st' = (cnt', wr', r')" by (metis prod.collapse)
    have go: "goes_on B L good view left stored CB (cnt, wr, r) (cnt', wr', r')" using ret(2) st' by simp
    then have "progressed L view left stored [] (cnt, wr, r) (cnt', wr', r')" "nearer view left r r'" "read_inv B good view CB r'"
      by (simp_all add: goes_on_def)
    moreover from this(1) have "length (ahead view left r') \<le> length (ahead view left r)" using progressed_length by fastforce
    ultimately have "((length (ahead view left r'), read_rank r'), length (ahead view left r), read_rank r)
        \<in> less_than <*lex*> less_than" "read_inv B good view CB r'" by (auto simp: nearer_def)
    from 1(1) [OF this] have "ends (Read_loop E B L rf rd (cnt', wr', r')) (\<lambda>_ _. False)
        (stops B L good view left stored CB (cnt, wr, r))"
      by (rule ends_mono) (simp_all add: goes_on_trans(1) [OF go])
    then show ?thesis using ret(1) by (subst Read_loop.simps) (simp add: st')
  qed
qed

text \<open>What one call delivers.\<close>

definition delivers ::
  "('z, 'x) liblzma \<Rightarrow> ('p \<Rightarrow> bytes) \<Rightarrow> ('s \<Rightarrow> bytes) \<Rightarrow> bytes \<Rightarrow> ('z, 'p, 's) Reader \<Rightarrow> bytes \<Rightarrow> ('z, 'p, 's) Reader \<Rightarrow> bool" where
  "delivers L view left rest r bs r' \<longleftrightarrow>
     (\<exists>inp out. read_run L (machine_of r) inp out (machine_of r') \<and> ahead view left r = inp @ rest @ ahead view left r' \<and>
       bs @ view (r_wrBuf r') = view (r_wrBuf r) @ out)"

lemma delivers_trans:
  assumes "delivers L view left [] r bs r'" and "delivers L view left rest r' bs' r''"
  shows "delivers L view left rest r (bs @ bs') r''"
proof -
  obtain i o1 where a: "read_run L (machine_of r) i o1 (machine_of r')" "ahead view left r = i @ ahead view left r'"
    "bs @ view (r_wrBuf r') = view (r_wrBuf r) @ o1" using assms(1) by (auto simp: delivers_def)
  obtain j o2 where b: "read_run L (machine_of r') j o2 (machine_of r'')" "ahead view left r' = j @ rest @ ahead view left r''"
    "bs' @ view (r_wrBuf r'') = view (r_wrBuf r') @ o2" using assms(2) by (auto simp: delivers_def)
  have "(bs @ bs') @ view (r_wrBuf r'') = view (r_wrBuf r) @ o1 @ o2" using a(3) b(3) by (metis append.assoc)
  then show ?thesis using read_run_trans [OF a(1) b(1)] a(2) b(2)
    by (auto simp: delivers_def intro!: exI [of _ "i @ j"] exI [of _ "o1 @ o2"])
qed

lemma Reader_Read_sync:
  assumes env: "reader_env E B L rf rd good view stored left CB CI" and inv: "read_inv B good view CB r"
  obtains cnt err wr r' where "Reader_Read E B L rf rd data r = Some (Ret (cnt, err), cnt, wr, r')" "read_inv B good view CB r'"
    "cnt = int (length (stored wr))" "cnt \<le> int (length data)"
    "err = None \<Longrightarrow> cnt = int (length data) \<and> delivers L view left [] r (stored wr) r'"
    "err = Some EOF \<Longrightarrow> \<exists>rest. delivers L view left rest r (stored wr) r' \<and> at_end view left rest r'"
proof -
  note e = reader_envD [OF env]
  let ?wr = "bp_New B data LineMono"
  have new: "stored ?wr = []" "bp_Capacity B ?wr = int (length data)"
    using e(9) pipe_new_lawsD(1) [OF e(4)] by (simp_all add: slice_pipe_def)
  from Read_loop_post [OF env inv, of "0" ?wr] obtain p cnt wr r' where
    run: "Read_loop E B L rf rd (0, ?wr, r) = Some (Pan p, cnt, wr, r')"
    and st: "stops B L good view left stored CB (0, ?wr, r) p (cnt, wr, r')" by (auto elim!: ends_cases)
  from st obtain err where p: "p = PErr err" and i: "read_inv B good view CB r'" and c: "counted B stored (0, ?wr, r) (cnt, wr, r')"
    and ok: "err = None \<Longrightarrow> progressed L view left stored [] (0, ?wr, r) (cnt, wr, r') \<and> int (length (stored wr)) = bp_Capacity B wr"
    and eof: "err = Some EOF \<Longrightarrow> \<exists>rest. progressed L view left stored rest (0, ?wr, r) (cnt, wr, r') \<and> at_end view left rest r'"
    by (auto simp: stops_def)
  have dl: "progressed L view left stored rest (0, ?wr, r) (cnt, wr, r') \<Longrightarrow> delivers L view left rest r (stored wr) r'" for rest
    by (simp add: progressed_def delivers_def new)
  have cnt: "cnt = int (length (stored wr))" "bp_Capacity B wr = int (length data)" using c new by (simp_all add: counted_def)
  moreover have "cnt \<le> int (length data)" using cnt e(9) unfolding slice_pipe_def by metis
  moreover have "Reader_Read E B L rf rd data r = Some (Ret (cnt, err), cnt, wr, r')"
    using inv run p e(1) by (simp add: Reader_Read_def arecover_def golib_laws read_inv_def)
  ultimately show thesis using i ok eof dl by (intro that) auto
qed

text \<open>A sequence of reads into slices, up to the first error; the bytes delivered into all of them.\<close>

fun Reader_reads ::
  "errs \<Rightarrow> 'p bufpipe \<Rightarrow> ('z, 'x) liblzma \<Rightarrow> ('p, 's) read_from \<Rightarrow> 's io_read \<Rightarrow> ('p \<Rightarrow> bytes) \<Rightarrow> bytes list \<Rightarrow>
   ('z, 'p, 's) Reader \<Rightarrow> (bytes \<times> goerr option \<times> ('z, 'p, 's) Reader) option" where
  "Reader_reads E B L rf rd stored [] r = Some ([], None, r)"
| "Reader_reads E B L rf rd stored (data # datas) r =
     (case Reader_Read E B L rf rd data r of
        Some (Ret (cnt, None), _, wr, r) \<Rightarrow>
          map_option (\<lambda>(bs, err, r). (stored wr @ bs, err, r)) (Reader_reads E B L rf rd stored datas r)
      | Some (Ret (cnt, Some e), _, wr, r) \<Rightarrow> Some (stored wr, Some e, r)
      | _ \<Rightarrow> None)"

lemma Reader_reads_sync:
  assumes env: "reader_env E B L rf rd good view stored left CB CI"
  shows "read_inv B good view CB r \<Longrightarrow> \<exists>bs err r'. Reader_reads E B L rf rd stored datas r = Some (bs, err, r') \<and>
    read_inv B good view CB r' \<and> (err = None \<longrightarrow> length bs = sum_list (map length datas) \<and> delivers L view left [] r bs r') \<and>
    (err = Some EOF \<longrightarrow> (\<exists>rest. delivers L view left rest r bs r' \<and> at_end view left rest r'))"
proof (induction datas arbitrary: r)
  case Nil
  then show ?case by (auto simp: delivers_def intro: read_run.rest)
next
  case (Cons data datas)
  show ?case
  proof (rule Reader_Read_sync [OF env Cons.prems, of data])
    fix cnt err wr r'
    assume run: "Reader_Read E B L rf rd data r = Some (Ret (cnt, err), cnt, wr, r')" and i: "read_inv B good view CB r'"
      and cnt: "cnt = int (length (stored wr))"
      and ok: "err = None \<Longrightarrow> cnt = int (length data) \<and> delivers L view left [] r (stored wr) r'"
      and eof: "err = Some EOF \<Longrightarrow> \<exists>rest. delivers L view left rest r (stored wr) r' \<and> at_end view left rest r'"
    show ?thesis
    proof (cases err)
      case (Some e)
      with run i eof show ?thesis by simp
    next
      case None
      then have d: "delivers L view left [] r (stored wr) r'" using ok by simp
      from Cons.IH [OF i] obtain bs err' r'' where ih: "Reader_reads E B L rf rd stored datas r' = Some (bs, err', r'')"
        "read_inv B good view CB r''" "err' = None \<longrightarrow> length bs = sum_list (map length datas) \<and> delivers L view left [] r' bs r''"
        "err' = Some EOF \<longrightarrow> (\<exists>rest. delivers L view left rest r' bs r'' \<and> at_end view left rest r'')" by blast
      have "Reader_reads E B L rf rd stored (data # datas) r = Some (stored wr @ bs, err', r'')" using run None ih(1) by simp
      then show ?thesis using ih(2,3,4) delivers_trans [OF d] ok [OF None] cnt by auto
    qed
  qed
qed

lemma NewReaderCustom_sync:
  assumes env: "reader_env E B L rf rd good view stored left CB CI"
    and new: "NewReaderCustom B s maxBuffer WorkersSync = (Some r, err)"
  shows "err = None" and "read_inv B good view CB r" and "machine_of r = (readInit, None, None)"
    and "ahead view left r = left s" and "view (r_wrBuf r) = []"
proof -
  note e = reader_envD [OF env]
  note q = pipe_queueD(4,5) [OF e(2)] pipe_new_lawsD(1,2) [OF e(4)]
  show "err = None" "read_inv B good view CB r" "machine_of r = (readInit, None, None)"
    "ahead view left r = left s" "view (r_wrBuf r) = []"
    using new by (auto simp: NewReaderCustom_def Let_def WorkersSync_def read_inv_def machine_of_def ahead_def q ring_buf_def)
qed

end
