(* ===== verification/Xz_Reader_Props.thy ===== *)
theory Xz_Reader_Props
  imports Xz_Reader_Steps
begin

text \<open>
  What the synchronous reader of \<open>xz/reader.go\<close> accepts and delivers: every \<open>Read\<close> returns, a sequence of
  reads delivers the decoders' output of a run of the grammar that consumes the source without a gap;
  what a nil error and \<open>io.EOF\<close> mean; and where the reader does not do what it means to.
\<close>

section \<open>An executable instance\<close>

text \<open>
  The decoder of a block passes four bytes through, the decoder of an index takes eight bytes; both
  keep the bytes they still wait for as pending.
\<close>

definition copy_code :: "store_coder \<Rightarrow> lzma_action \<Rightarrow> bytes \<Rightarrow> nat \<Rightarrow> lzma_ret \<times> nat \<times> bytes \<times> store_coder" where
  "copy_code z a src n =
     (let m = length (sc_pending z); k = min m (min (length src) (if sc_index z = None then n else length src))
      in (if k = m then STREAM_END else OK, k, if sc_index z = None then take k src else [],
          z\<lparr>sc_pending := drop k (sc_pending z)\<rparr>))"

definition copy_lzma :: "(store_coder, (64 word \<times> 64 word) list) liblzma" where
  "copy_lzma = store_lzma\<lparr>c_code := copy_code,
     c_block_decoder := (\<lambda>b. (OK, store_init\<lparr>sc_block := b, sc_pending := replicate 4 0\<rparr>)),
     c_index_decoder := (\<lambda>m. (OK, store_init\<lparr>sc_index := Some [], sc_pending := replicate 8 0\<rparr>))\<rparr>"

definition index_coders :: "store_coder set" where
  "index_coders = {z. sc_index z \<noteq> None}"

text \<open>Filling a pipe from a list, and what was written to a pipe since it was made.\<close>

definition line_from :: "(lpipe option, bytes) read_from" where
  "line_from p s = (case p of None \<Rightarrow> (None, None, s) | Some q \<Rightarrow>
     let n = length (lp_buf q) - lp_hi q in
     (if length s \<le> n then None else Some ErrShortWrite,
      bp_WriteMark line_pipe (bp_Store line_pipe p (take n s)) (int (length (take n s))), drop n s))"

definition lp_stored :: "lpipe option \<Rightarrow> bytes" where
  "lp_stored p = (case p of None \<Rightarrow> [] | Some q \<Rightarrow> take (lp_hi q) (lp_buf q))"

lemma copy_lzma_ops:
  "c_code copy_lzma = copy_code" "STREAM_HEADER_SIZE copy_lzma = 12" "BLOCK_HEADER_SIZE_MIN copy_lzma = 8"
  "c_block_decoder copy_lzma = (\<lambda>b. (OK, store_init\<lparr>sc_block := b, sc_pending := replicate 4 0\<rparr>))"
  "c_index_decoder copy_lzma = (\<lambda>m. (OK, store_init\<lparr>sc_index := Some [], sc_pending := replicate 8 0\<rparr>))"
  by (simp_all add: copy_lzma_def store_lzma_def)

lemma copy_decoders: "lzma_decoders copy_lzma UNIV index_coders (\<lambda>_. 0) (\<lambda>_. 0)"
  by (auto simp: lzma_decoders_def copy_lzma_ops coder_progress_on_def copy_code_def Let_def index_coders_def store_init_def)

lemma line_from_step:
  assumes g: "lp_good p" "ring_buf line_pipe p" and f: "line_from p s = (e, p', s')"
  shows "lp_good p' \<and> ring_buf line_pipe p' \<and> (\<exists>bs. lp_view p' = lp_view p @ bs \<and> s = bs @ s') \<and> e \<noteq> Some EOF \<and>
    (e = None \<longrightarrow> s' = []) \<and> (e = Some ErrShortWrite \<longrightarrow> lp_view p' \<noteq> [])"
proof -
  obtain q where p: "p = Some q" using g(2) by (cases p) (simp_all add: ring_buf_def line_pipe_def)
  define n where "n = fst (bp_WriteSlices line_pipe p)"
  have n: "n = length (lp_buf q) - lp_hi q" by (simp add: n_def p line_pipe_ops)
  have f': "e = (if length s \<le> n then None else Some ErrShortWrite)"
    "p' = bp_WriteMark line_pipe (bp_Store line_pipe p (take n s)) (int (length (take n s)))" "s' = drop n s"
    using f by (simp_all add: line_from_def p Let_def n)
  have le: "length (take n s) \<le> fst (bp_WriteSlices line_pipe p)" by (simp add: n_def)
  have p': "lp_good p'" "lp_view p' = lp_view p @ take n s" "ring_buf line_pipe p'"
    using pipe_queueD(9) [OF line_pipe_queue g(1) le] pipe_ringD(3) [OF line_pipe_ring g(1) le] g(2) by (simp_all add: f'(2))
  have "lp_view p = [] \<Longrightarrow> 0 < n" using pipe_ringD(1) [OF line_pipe_ring g] by (simp add: n_def)
  then show ?thesis using p' f'(1,3) by auto
qed

lemma line_from_laws: "read_from_laws line_pipe lp_good lp_view (\<lambda>s. s) line_from"
  unfolding read_from_laws_def using line_from_step by blast

lemma lp_slice: "slice_pipe line_pipe lp_stored"
  by (auto simp: slice_pipe_def writes_to_def lp_stored_def line_pipe_def overwrite_def Let_def min_def split: option.splits if_splits)

lemma copy_env: "reader_env errs_std line_pipe copy_lzma line_from list_read lp_good lp_view lp_stored (\<lambda>s. s) UNIV index_coders"
  unfolding reader_env_def
proof (intro conjI)
  show "lzma_code_laws copy_lzma" by (auto simp: lzma_code_laws_def copy_lzma_ops copy_code_def Let_def)
  show "source_errors list_read (\<lambda>s. s)" by (auto simp: source_errors_def list_read_def split: if_splits)
  show "reads_from (Some list_read) (\<lambda>s. s)" by (auto simp: reads_from_def list_read_def)
qed (use errs_ok_std line_pipe_queue line_pipe_ring line_pipe_new_laws line_from_laws list_io(2) lp_slice copy_decoders in blast)+

section \<open>Properties\<close>

text \<open>
  C9: However the data is cut into reads, the synchronous reader delivers the output of a run of the
  XZ grammar from its start: stream header, blocks (each a header accepted by liblzma and the data
  its decoder takes), index, footer that agrees with the header, padding, further streams. The
  bytes consumed and those still ahead make up the source without a gap, and what is delivered is a
  prefix of what the decoders produced, all of it at the end of the data. Reads without an error
  fill their slices. \<open>io.EOF\<close> means that the whole source was consumed: between streams, or (which the
  code does not tell apart) in the middle of a block or of an index.
\<close>

theorem sync_reader_output:
  assumes env: "reader_env E B L rf rd good view stored left CB CI"
    and new: "NewReaderCustom B s maxBuffer WorkersSync = (Some r, err)"
  shows "\<exists>bs e r'. Reader_reads E B L rf rd stored datas r = Some (bs, e, r') \<and>
    (e = None \<longrightarrow> length bs = sum_list (map length datas) \<and>
       (\<exists>inp out. read_run L (readInit, None, None) inp out (machine_of r') \<and> left s = inp @ ahead view left r' \<and> prefix bs out)) \<and>
    (e = Some EOF \<longrightarrow>
       (\<exists>inp rest. read_run L (readInit, None, None) inp bs (machine_of r') \<and> left s = inp @ rest \<and>
          (r_state r' \<in> {readHeader, readPadding} \<and> rest = [] \<or> r_state r' = readBlock \<and> r_stream r' \<noteq> None \<and> rest = [] \<or>
           r_state r' = readIndex)))"
proof -
  note n = NewReaderCustom_sync [OF env new]
  from Reader_reads_sync [OF env n(2), of datas] obtain bs e r' where
    run: "Reader_reads E B L rf rd stored datas r = Some (bs, e, r')"
    and ok: "e = None \<longrightarrow> length bs = sum_list (map length datas) \<and> delivers L view left [] r bs r'"
    and eof: "e = Some EOF \<longrightarrow> (\<exists>rest. delivers L view left rest r bs r' \<and> at_end view left rest r')" by blast
  have "\<exists>inp out. read_run L (readInit, None, None) inp out (machine_of r') \<and> left s = inp @ ahead view left r' \<and> prefix bs out"
    if "e = None" using ok that n(3,4,5) by (auto simp: delivers_def prefix_def)
  moreover have "\<exists>inp rest. read_run L (readInit, None, None) inp bs (machine_of r') \<and> left s = inp @ rest \<and>
      (r_state r' \<in> {readHeader, readPadding} \<and> rest = [] \<or> r_state r' = readBlock \<and> r_stream r' \<noteq> None \<and> rest = [] \<or>
       r_state r' = readIndex)" if eo: "e = Some EOF"
  proof -
    obtain rest where d: "delivers L view left rest r bs r'" and ae: "at_end view left rest r'" using eof eo by blast
    from d obtain inp out where o: "read_run L (readInit, None, None) inp out (machine_of r')"
      "left s = inp @ rest @ ahead view left r'" "bs @ view (r_wrBuf r') = out" using n(3,4,5) by (auto simp: delivers_def)
    have "out = bs" "left s = inp @ rest" using ae o(2,3) by (auto simp: at_end_def)
    with o(1) ae show ?thesis unfolding at_end_def by blast
  qed
  ultimately show ?thesis using run ok by blast
qed

theorem sync_reader_output_witness:
  "\<exists>(r :: (store_coder, lpipe option, bytes) Reader) bs e r'.
     fst (NewReaderCustom line_pipe [1, 2, 3] 0 WorkersSync) = Some r \<and>
     Reader_reads errs_std line_pipe copy_lzma line_from list_read lp_stored [[0, 0], [0]] r = Some (bs, e, r') \<and>
     (e = None \<longrightarrow> length bs = 3)"
proof -
  obtain r :: "(store_coder, lpipe option, bytes) Reader" and err where
    n: "NewReaderCustom line_pipe [1, 2, 3] 0 WorkersSync = (Some r, err)" by (simp add: NewReaderCustom_def Let_def)
  from sync_reader_output [OF copy_env n, of "[[0, 0], [0]]"] n show ?thesis by fastforce
qed

text \<open>
  C10: Every read of the synchronous reader returns, without a panic, if the decoders make progress: it
  reports the number of bytes it stored, which fit into the slice and fill it when the error is nil,
  and leaves the reader in a state from which the next read can go on, whatever the error.
\<close>

theorem sync_Read_returns:
  assumes "reader_env E B L rf rd good view stored left CB CI" and "read_inv B good view CB r"
  shows "\<exists>cnt err wr r'. Reader_Read E B L rf rd data r = Some (Ret (cnt, err), cnt, wr, r') \<and> read_inv B good view CB r' \<and>
    cnt = int (length (stored wr)) \<and> cnt \<le> int (length data) \<and> (err = None \<longrightarrow> cnt = int (length data))"
  by (rule Reader_Read_sync [OF assms, of data]) blast

theorem sync_Read_returns_witness:
  "\<exists>(r :: (store_coder, lpipe option, bytes) Reader) cnt err wr r'.
     fst (NewReaderCustom line_pipe [1, 2, 3] 0 WorkersSync) = Some r \<and>
     Reader_Read errs_std line_pipe copy_lzma line_from list_read [0, 0] r = Some (Ret (cnt, err), cnt, wr, r') \<and> cnt \<le> 2"
proof -
  obtain r :: "(store_coder, lpipe option, bytes) Reader" and err where
    n: "NewReaderCustom line_pipe [1, 2, 3] 0 WorkersSync = (Some r, err)" by (simp add: NewReaderCustom_def Let_def)
  from sync_Read_returns [OF copy_env NewReaderCustom_sync(2) [OF copy_env n], of "[0, 0]"] n show ?thesis by fastforce
qed

text \<open>
  C11: Closing a reader is final: every later read is refused with \<open>ErrClosedPipe\<close> and changes nothing,
  and every later \<open>Close\<close> returns nil and changes nothing.
\<close>

theorem reader_closed_final:
  assumes "Reader_Close r = (e, r')"
  shows "Reader_Close r' = (None, r') \<and>
    (\<exists>wr cnt. Reader_Read E B L rf rd data r' = Some (Ret (0, Some ErrClosedPipe), cnt, wr, r'))"
  using xz_rd.close_twice [OF assms] xz_rd.operate_after_close [OF assms, of E B L rf rd data] by blast

theorem reader_closed_final_witness:
  "\<exists>(r :: (store_coder, lpipe option, bytes) Reader) r'. Reader_Close r = (None, r') \<and> Reader_Close r' = (None, r')"
proof -
  obtain r :: "(store_coder, lpipe option, bytes) Reader" and err where
    n: "NewReaderCustom line_pipe [] 0 WorkersSync = (Some r, err)" by (simp add: NewReaderCustom_def Let_def)
  obtain r' where c: "Reader_Close r = (None, r')" by (cases "r_closed r") (simp_all add: Reader_Close_def)
  from reader_closed_final [OF c, of errs_std line_pipe copy_lzma line_from list_read "[]"] c show ?thesis by blast
qed


section \<open>Truncated input\<close>

text \<open>A call of \<open>Process\<close> on an empty buffer at the end of the source, with a decoder that waits for more.\<close>

lemma process_loop_truncated:
  assumes q: "pipe_queue B good view" and g: "good (st_inBuf z)" "good (st_outBuf z)"
    and em: "view (st_inBuf z) = []" "view (st_outBuf z) = []"
    and rd: "\<And>n. rd s n = (([], Some EOF), s')" and c: "\<And>n. c_code L (st_coder z) a [] n = (OK, 0, [], c')"
  shows "\<exists>z'. process_loop B L a (Some wrf) (Some rd) (z, s, w, 0, 0, None) = Some ((0, 0, Some EOF), z', s', w)"
proof -
  note len = pipe_queueD(6) [OF q]
  let ?p = "bp_WriteMark B (bp_Store B (st_inBuf z) []) (int (length ([] :: bytes)))"
  have p: "good ?p" "view ?p = []" using pipe_queueD(9) [OF q g(1), of "[]"] em(1) by simp_all
  have fill: "process_fill B rd (st_inBuf z, s, None, 0) = Some (?p, s', Some EOF, 0)"
    using len [OF g(1)] em(1) rd by (subst process_fill.simps, simp, subst process_fill.simps, simp)
  have rs: "fst (bp_ReadSlices B ?p) = []" using pipe_queueD(7) [OF q p(1), of "fst (bp_ReadSlices B ?p)"] p(2) by (metis append_is_Nil_conv prod.collapse)
  obtain xe z1 where code: "process_code B L a (Some rd = None) (Some wrf = None) (z\<lparr>st_inBuf := ?p\<rparr>) = (xe, z1)"
    by (metis prod.collapse)
  let ?o = "bp_WriteMark B (bp_Store B (st_outBuf z) []) 0"
  have o: "good ?o" "view ?o = []" using pipe_queueD(9) [OF q g(2), of "[]"] em(2) by simp_all
  have i: "good (bp_ReadMark B ?p 0)" "view (bp_ReadMark B ?p 0) = []" using pipe_queueD(8) [OF q p(1), of 0] p(2) by simp_all
  have z1: "xe = None" "st_outBuf z1 = ?o" "st_inBuf z1 = bp_ReadMark B ?p 0"
    using code rs c by (auto simp: process_code_def CodeSlice_def Code_def SetInput_def SetOutput_def NewError_def Let_def)
  have drain: "process_drain B wrf (st_outBuf z1, w, None, 0) = Some (?o, w, None, 0)"
    using len [OF o(1)] o(2) z1(2) by (subst process_drain.simps) simp
  show ?thesis
    using len [OF o(1)] len [OF i(1)] o(2) i(2) z1
    by (subst process_loop.simps) (simp add: fill [simplified] code [simplified] drain [unfolded z1(2)] Let_def)
qed

text \<open>
  C13: Truncated input is reported as \<open>io.EOF\<close>: when the source ends in the middle of a block, and the
  decoder asks for more, \<open>Read\<close> returns the error of the source as it is, which the caller takes for
  the proper end of the data (the LZMA reader turns it into \<open>io.ErrUnexpectedEOF\<close>).
\<close>

theorem truncated_block_reads_as_EOF:
  assumes "errs_ok E" and q: "pipe_queue B good view" and inv: "read_inv B good view CB r"
    and st: "r_state r = readBlock" "r_stream r = Some z" and em: "view (r_rdBuf r) = []" "view (r_wrBuf r) = []"
    and rd: "\<And>n. rd (r_rd r) n = (([], Some EOF), s')"
    and c: "\<And>n. c_code L (st_coder z) RUN [] n = (OK, 0, [], c')"
  shows "\<exists>st r'. Reader_Read E B L rf rd data r = Some (Ret (0, Some EOF), st) \<and> st = (0, bp_New B data LineMono, r') \<and>
    r_state r' = readBlock \<and> r_stream r' \<noteq> None"
proof -
  let ?z = "z\<lparr>st_outBuf := r_wrBuf r, st_inBuf := r_rdBuf r\<rparr>" and ?wr = "bp_New B data LineMono"
  have i: "good (r_rdBuf r)" "good (r_wrBuf r)" "ring_buf B (r_rdBuf r)" "ring_buf B (r_wrBuf r)" "\<not> r_closed r"
    "r_maxWorkers r = WorkersSync" using inv by (simp_all add: read_inv_def)
  have "good (st_inBuf ?z)" "good (st_outBuf ?z)" using i by simp_all
  note al = process_alloc_fields [OF q this, of False False]
  obtain z' where run: "Process B L RUN (Some (bp_Write B)) (Some rd) ?z (r_rd r) ?wr = Some ((0, 0, Some EOF), z', s', ?wr)"
    using process_loop_truncated [OF q al(1,2), of rd "r_rd r" s' L RUN c'] al em rd c by (fastforce simp: Process_def)
  let ?r = "r\<lparr>r_stream := Some z', r_rdBuf := st_inBuf z', r_wrBuf := st_outBuf z', r_rd := s'\<rparr>"
  have "read_block_data E B L rd (0, ?wr, r) = Some (Pan (PErr (Some EOF)), (0, ?wr, ?r))"
    using run st assms(1) by (simp add: read_block_data_def SetBuffers_rings [OF i(4,3)] Let_def golib_laws streamEnd_def)
  then have "Read_loop E B L rf rd (0, ?wr, r) = Some (Pan (PErr (Some EOF)), (0, ?wr, ?r))"
    using st by (subst Read_loop.simps) (simp add: Read_step_def)
  then show ?thesis using i(5,6) st assms(1) by (simp add: Reader_Read_def arecover_def golib_laws)
qed

text \<open>A reader in the middle of a block, with a small buffer and a source at its end.\<close>

definition mid_block :: "(store_coder, lpipe option, bytes) Reader" where
  "mid_block = \<lparr>r_rd = [], r_closed = False, r_maxWorkers = WorkersSync, r_maxBuffer = 0, r_state = readBlock,
     r_flags = Some NewStreamFlags, r_block = None,
     r_stream = Some ((NewStream copy_lzma line_pipe)\<lparr>st_coder := store_init\<lparr>sc_pending := replicate 4 0\<rparr>\<rparr>),
     r_rdBuf = bp_New line_pipe [0, 0] RingPoll, r_wrBuf = bp_New line_pipe [0, 0] RingPoll\<rparr>"

theorem truncated_block_reads_as_EOF_witness:
  "\<exists>st. Reader_Read errs_std line_pipe copy_lzma line_from list_read [7, 7] mid_block = Some (Ret (0, Some EOF), st)"
proof -
  note new = pipe_new_lawsD(1,2) [OF line_pipe_new_laws] pipe_queueD(4,5) [OF line_pipe_queue]
  have inv: "read_inv line_pipe lp_good lp_view UNIV mid_block"
    by (simp add: read_inv_def mid_block_def ring_buf_def new)
  have "\<exists>st r'. Reader_Read errs_std line_pipe copy_lzma line_from list_read [7, 7] mid_block = Some (Ret (0, Some EOF), st) \<and>
      st = (0, bp_New line_pipe [7, 7] LineMono, r') \<and> r_state r' = readBlock \<and> r_stream r' \<noteq> None"
    by (rule truncated_block_reads_as_EOF [OF errs_ok_std line_pipe_queue inv, where z = "(NewStream copy_lzma line_pipe)\<lparr>st_coder := store_init\<lparr>sc_pending := replicate 4 0\<rparr>\<rparr>" and s' = "[]" and c' = "store_init\<lparr>sc_pending := replicate 4 0\<rparr>"])
      (simp_all add: mid_block_def new list_read_def copy_lzma_ops copy_code_def store_init_def)
  then show ?thesis by blast
qed



end
