(* ===== verification/Xz_Seek.thy ===== *)
theory Xz_Seek
  imports Xz_Index
begin

text \<open>
  \<open>xz/seek_reader.go\<close>: the seekable reader, of which the constructor and \<open>Close\<close> are implemented; the
  other methods return zero values.

  A \<open>ReaderAt\<close> that is also a \<open>ReadSeeker\<close> is given by the value \<open>k\<close> of that interface. The sizes come
  from \<open>golib/ioutil\<close> and are arguments; the section reader over a plain \<open>ReaderAt\<close> is its bounds.
  \<open>sr_Index\<close> is a possibly nil pointer to an \<open>Index\<close>, which holds a possibly nil C pointer.
\<close>

section \<open>Seekable readers\<close>

datatype 'k read_seeker = Native 'k | Section int int

record ('k, 'x) SeekReader =
  sr_rda :: reader_at
  sr_rds :: "'k read_seeker"
  sr_Index :: "'x option option"
  sr_closed :: bool

definition NewSeekReaderCustom ::
  "errs \<Rightarrow> 'p bufpipe \<Rightarrow> ('z, 'x) liblzma \<Rightarrow> ('k \<Rightarrow> int \<times> goerr option) \<Rightarrow> (reader_at \<Rightarrow> int \<times> goerr option) \<Rightarrow>
   reader_at \<Rightarrow> 'k option \<Rightarrow> int \<Rightarrow> int \<Rightarrow> (('k, 'x) SeekReader option \<times> goerr option) go option" where
  "NewSeekReaderCustom E B L seekerSize readerAtSize rd k maxBuffer maxWorkers =
     map_option fst
       (arecover E (\<lambda>err _. (None, err))
         (case (case k of
              Some k \<Rightarrow> (case seekerSize k of (n, err) \<Rightarrow> (Native k, n, err))
            | None \<Rightarrow> (case readerAtSize rd of (n, err) \<Rightarrow> (Section 0 n, n, err)))
          of (rds, n, err) \<Rightarrow>
          athen (aPanic E err)
          (abind (acall (decodeIndex E B L rd n)) (\<lambda>(index, err).
           athen (aPanic E err)
             (aret (Some \<lparr>sr_rda = rd, sr_rds = rds, sr_Index = index, sr_closed = False\<rparr>, None))))) ())"

definition NewSeekReader ::
  "errs \<Rightarrow> 'p bufpipe \<Rightarrow> ('z, 'x) liblzma \<Rightarrow> ('k \<Rightarrow> int \<times> goerr option) \<Rightarrow> (reader_at \<Rightarrow> int \<times> goerr option) \<Rightarrow>
   reader_at \<Rightarrow> 'k option \<Rightarrow> (('k, 'x) SeekReader option \<times> goerr option) go option" where
  "NewSeekReader E B L seekerSize readerAtSize rd k =
     NewSeekReaderCustom E B L seekerSize readerAtSize rd k BufferDefault WorkersDefault"

definition SeekReader_Read :: "('k, 'x) SeekReader \<Rightarrow> bytes \<Rightarrow> int \<times> goerr option" where
  "SeekReader_Read r data = (if sr_closed r then (0, Some ErrClosedPipe) else (0, None))"

definition SeekReader_ReadAt :: "('k, 'x) SeekReader \<Rightarrow> bytes \<Rightarrow> int \<Rightarrow> int \<times> goerr option" where
  "SeekReader_ReadAt r data off = (if sr_closed r then (0, Some ErrClosedPipe) else (0, None))"

definition SeekReader_Seek :: "('k, 'x) SeekReader \<Rightarrow> int \<Rightarrow> int \<Rightarrow> int \<times> goerr option" where
  "SeekReader_Seek r offset whence = (if sr_closed r then (0, Some ErrClosedPipe) else (0, None))"

definition SeekPoints :: "('k, 'x) SeekReader \<Rightarrow> int list option" where
  "SeekPoints r = None"

text \<open>The deferred \<open>Index.End()\<close> dereferences the pointer to the \<open>Index\<close>, which panics when it is nil.\<close>

definition SeekReader_Close :: "('k, 'x) SeekReader \<Rightarrow> goerr option go \<times> ('k, 'x) SeekReader" where
  "SeekReader_Close r =
     (if sr_closed r then (Ret None, r)
      else let r = r\<lparr>sr_closed := True\<rparr> in
        case sr_Index r of
          None \<Rightarrow> (Pan PRuntime, r)
        | Some index \<Rightarrow> (Ret None, r\<lparr>sr_Index := Some (Index_End index)\<rparr>))"

interpretation seek_rd: closable sr_closed "\<lambda>r e r'. SeekReader_Close r = (e, r')"
  "\<lambda>(data, off) r res r'. res = SeekReader_ReadAt r data off \<and> r' = r" "Ret None" "\<lambda>_. (0, Some ErrClosedPipe)"
  by unfold_locales (auto simp: SeekReader_Close_def SeekReader_ReadAt_def Let_def split: if_splits option.splits)

section \<open>Properties\<close>

text \<open>
  C34: A seekable reader can be made of an empty file only. For every other size, file, and behaviour of
  liblzma the constructor, if it returns, returns an error and no reader, because the index of the
  file is never decoded successfully. The reader of an empty file has no index.
\<close>

theorem seek_reader_only_empty:
  assumes "errs_ok E" and "NewSeekReader E B L seekerSize readerAtSize rd k = Some (Ret (Some r, err))"
    and "n = fst (case k of Some x \<Rightarrow> seekerSize x | None \<Rightarrow> readerAtSize rd)"
  shows "n \<le> 0 \<and> err = None \<and> sr_Index r = None \<and> \<not> sr_closed r"
proof -
  obtain err0 where e0: "(case k of Some x \<Rightarrow> seekerSize x | None \<Rightarrow> readerAtSize rd) = (n, err0)"
    using assms(3) by (metis prod.collapse)
  define rds where "rds = (case k of Some x \<Rightarrow> Native x | None \<Rightarrow> Section 0 n)"
  have sz: "(case k of
              Some k \<Rightarrow> (case seekerSize k of (n, err) \<Rightarrow> (Native k, n, err))
            | None \<Rightarrow> (case readerAtSize rd of (n, err) \<Rightarrow> (Section 0 n, n, err))) = (rds, n, err0)"
    using e0 by (cases k) (simp_all add: rds_def)
  have run: "arecover E (\<lambda>err _. (None, err)) (athen (aPanic E err0)
      (abind (acall (decodeIndex E B L rd n)) (\<lambda>(index, err).
       athen (aPanic E err) (aret (Some \<lparr>sr_rda = rd, sr_rds = rds, sr_Index = index, sr_closed = False\<rparr>, None))))) ()
      = Some (Ret (Some r, err), ())"
    using assms(2) unfolding NewSeekReader_def NewSeekReaderCustom_def sz prod.case by auto
  then have "err0 = None" using assms(1) by (cases err0) (auto simp: arecover_def golib_laws)
  with run obtain g where g: "decodeIndex E B L rd n = Some g"
    using assms(1) by (cases "decodeIndex E B L rd n") (auto simp: arecover_def acall_def abind_eval(3))
  obtain index where d: "decodeIndex E B L rd n = Some (Ret (index, None))"
    and r: "r = \<lparr>sr_rda = rd, sr_rds = rds, sr_Index = index, sr_closed = False\<rparr>" "err = None"
    using run \<open>err0 = None\<close> g assms(1)
    by (cases g) (auto simp: arecover_def acall_def abind_eval(1,2) golib_laws split: prod.splits if_splits sum.splits)
  have "\<not> 0 < n"
  proof
    assume "0 < n"
    from d obtain q s where l: "decodeIndex_loop E B L rd n None = Some (q, s)"
      by (auto simp: decodeIndex_def arecover_def abind_def split: option.splits)
    from decodeIndex_loop_fails [OF assms(1) \<open>0 < n\<close> l] obtain e where "q = Pan (PErr (Some e))" by blast
    with d l assms(1) show False by (auto simp: decodeIndex_def arecover_def abind_def golib_laws)
  qed
  moreover from this have "index = None" using d
    by (simp add: decodeIndex_def arecover_def abind_def decodeIndex_loop.simps)
  ultimately show ?thesis using r by simp
qed

theorem seek_reader_only_empty_witness:
  "\<exists>r :: (unit, (64 word \<times> 64 word) list) SeekReader.
     NewSeekReader errs_std line_pipe store_lzma (\<lambda>_. (0, None)) (\<lambda>_. (0, None)) (file_at []) None = Some (Ret (Some r, None)) \<and>
     sr_Index r = None"
proof -
  obtain r :: "(unit, (64 word \<times> 64 word) list) SeekReader" where
    n: "NewSeekReader errs_std line_pipe store_lzma (\<lambda>_. (0, None)) (\<lambda>_. (0, None)) (file_at []) None = Some (Ret (Some r, None))"
    by (simp add: NewSeekReader_def NewSeekReaderCustom_def arecover_def acall_def decodeIndex_def decodeIndex_loop.simps abind_def
        abind_aPanic [OF errs_ok_std])
  from seek_reader_only_empty [OF errs_ok_std n refl] n show ?thesis by blast
qed

text \<open>
  C35: Closing a seekable reader. The first \<open>Close\<close> closes it, but panics with a nil dereference when the
  reader has no index, as the reader of an empty file; behind it every method refuses with
  \<open>ErrClosedPipe\<close> and every further \<open>Close\<close> returns nil and changes nothing, so that the C index is
  freed once.
\<close>

theorem seek_reader_close:
  assumes "\<not> sr_closed r" and "SeekReader_Close r = (e, r')"
  shows "e = (if sr_Index r = None then Pan PRuntime else Ret None) \<and> sr_Index r' = map_option Index_End (sr_Index r) \<and>
    SeekReader_Close r' = (Ret None, r') \<and> SeekReader_ReadAt r' data off = (0, Some ErrClosedPipe)"
proof -
  have "SeekReader_Close r' = (Ret None, r')" using seek_rd.close_twice [OF assms(2)] by blast
  moreover have "SeekReader_ReadAt r' data off = (0, Some ErrClosedPipe)"
    using seek_rd.operate_after_close [OF assms(2), of "(data, off)" "SeekReader_ReadAt r' data off" r'] by simp
  ultimately show ?thesis
    using assms by (auto simp: SeekReader_Close_def Let_def split: option.splits)
qed

theorem seek_reader_close_witness:
  "let r = \<lparr>sr_rda = file_at [], sr_rds = Section 0 0, sr_Index = None, sr_closed = False\<rparr>
        :: (unit, (64 word \<times> 64 word) list) SeekReader
   in fst (SeekReader_Close r) = Pan PRuntime"
  using seek_reader_close [of "\<lparr>sr_rda = file_at [], sr_rds = Section 0 0, sr_Index = None, sr_closed = False\<rparr>
      :: (unit, (64 word \<times> 64 word) list) SeekReader"]
  by (metis SeekReader.select_convs(3,4) prod.collapse)

end
