(* ===== verification/Xz_Cmd.thy ===== *)
theory Xz_Cmd
  imports Xz_Writer_Props Xz_Reader
begin

text \<open>
  \<open>cmd/xzpipe.go\<close>: the command that compresses or decompresses a pipe. Parsing the command line is
  done by the standard library; its result is the argument \<open>dec\<close>. Standard input and output are a
  reader and a writer with their states. The asynchronous branches of the writer are arguments, as
  in \<open>Writer_Write\<close> and \<open>Writer_Close\<close>.
\<close>

section \<open>Copying\<close>

text \<open>
  \<open>io.Copy\<close> of the standard library: read into a buffer of 32 KiB, write what was read, until the
  reader reports \<open>EOF\<close> or something fails. A read of no bytes without an error is simply repeated.
\<close>

definition copy_size :: nat where
  "copy_size = 2 ^ 15"

partial_function (option) io_Copy ::
  "('s, bytes \<times> goerr option) act \<Rightarrow> (bytes \<Rightarrow> ('s, int \<times> goerr option) act) \<Rightarrow> int \<Rightarrow> 's \<Rightarrow>
   ((int \<times> goerr option) go \<times> 's) option" where
  "io_Copy rd wr written s =
     (case rd s of
        None \<Rightarrow> None
      | Some (Pan p, s) \<Rightarrow> Some (Pan p, s)
      | Some (Ret (bs, er), s) \<Rightarrow>
          (case (if bs = [] then Some (Ret (0, None), s) else wr bs s) of
             None \<Rightarrow> None
           | Some (Pan p, s) \<Rightarrow> Some (Pan p, s)
           | Some (Ret (nw, ew), s) \<Rightarrow>
               let written = (if nw > 0 then written + nw else written) in
               if ew \<noteq> None then Some (Ret (written, ew), s)
               else if int (length bs) \<noteq> nw then Some (Ret (written, Some ErrShortWrite), s)
               else if er = Some EOF then Some (Ret (written, None), s)
               else if er \<noteq> None then Some (Ret (written, er), s)
               else io_Copy rd wr written s))"

section \<open>The command\<close>

definition errPanic :: "goerr option \<Rightarrow> ('s, unit) act" where
  "errPanic err = (case err of None \<Rightarrow> aret () | Some e \<Rightarrow> alift (Pan (PVal e)))"

text \<open>Reading from standard input, writing to the XZ writer, reading from the XZ reader, writing to standard output.\<close>

definition stdin_read :: "'s io_read \<Rightarrow> ('s \<times> 'y, bytes \<times> goerr option) act" where
  "stdin_read stdin st = (case st of (s, w) \<Rightarrow> (case stdin s copy_size of (r, s) \<Rightarrow> Some (Ret r, (s, w))))"

definition on_snd :: "('y, 'a) act \<Rightarrow> ('s \<times> 'y, 'a) act" where
  "on_snd = azoom snd (\<lambda>w (s, _). (s, w))"

definition xz_read ::
  "errs \<Rightarrow> 'p bufpipe \<Rightarrow> ('z, 'x) liblzma \<Rightarrow> ('p, 's) read_from \<Rightarrow> 's io_read \<Rightarrow>
   (('z, 'p, 's) Reader \<times> 'w, bytes \<times> goerr option) act" where
  "xz_read E B L rf stdin st =
     (case st of (r, out) \<Rightarrow>
      case Reader_Read E B L rf stdin (replicate copy_size 0) r of
        None \<Rightarrow> None
      | Some (Pan p, (_, _, r)) \<Rightarrow> Some (Pan p, (r, out))
      | Some (Ret (n, e), (_, wr, r)) \<Rightarrow> Some (Ret (take (nat n) (bp_Buffer B wr), e), (r, out)))"

definition stdout_write :: "'w io_write \<Rightarrow> bytes \<Rightarrow> ('y \<times> 'w, int \<times> goerr option) act" where
  "stdout_write stdout bs = on_snd (astep (\<lambda>w. stdout w bs))"

text \<open>The state of compressing: standard input and the writer. The error of the deferred \<open>Close\<close> is dropped.\<close>

definition main_compress ::
  "errs \<Rightarrow> ('v, 'u) ioutil \<Rightarrow> 'p bufpipe \<Rightarrow> ('z, 'x) liblzma \<Rightarrow> 's io_read \<Rightarrow> 'w io_write \<Rightarrow>
   (bytes \<Rightarrow> ('z, 'x, 'p, 'w) async_branch) \<Rightarrow> (('z, 'x, 'p, 'w) Writer, unit) act \<Rightarrow> ('s \<times> 'w, unit) act" where
  "main_compress E U B L stdin stdout asyncw asyncc =
     (\<lambda>(s, out).
       case NewWriter E B L stdout out of
         None \<Rightarrow> None
       | Some (Pan p, out) \<Rightarrow> Some (Pan p, (s, out))
       | Some (Ret (xz, err), out) \<Rightarrow>
           abind (errPanic err) (\<lambda>_ st.
             case xz of
               None \<Rightarrow> Some (Pan PRuntime, st)
             | Some w \<Rightarrow>
                 map_option (\<lambda>(r, (s, w)). (r, (s, w_wr w)))
                   (adefer (on_snd (abind (Writer_Close E B L stdout asyncc) (\<lambda>_. aret ())))
                     (abind (io_Copy (stdin_read stdin) (\<lambda>bs. on_snd (Writer_Write E U B L stdout asyncw bs)) 0)
                      (\<lambda>(_, err). errPanic err)) (fst st, set_wr (snd st) w))) (s, out))"

text \<open>The state of decompressing: the reader, with standard input as its source, and standard output.\<close>

definition main_decompress ::
  "errs \<Rightarrow> 'p bufpipe \<Rightarrow> ('z, 'x) liblzma \<Rightarrow> ('p, 's) read_from \<Rightarrow> 's io_read \<Rightarrow> 'w io_write \<Rightarrow> ('s \<times> 'w, unit) act" where
  "main_decompress E B L rf stdin stdout =
     (\<lambda>(s, out).
       case NewReader B s of
         (xz, err) \<Rightarrow>
           abind (errPanic err) (\<lambda>_ st.
             case xz of
               None \<Rightarrow> Some (Pan PRuntime, st)
             | Some (r :: ('z, 'p, 's) Reader) \<Rightarrow>
                 map_option (\<lambda>(q, (r, out)). (q, (r_rd r, out)))
                   (adefer (astep (\<lambda>(r, out). ((), (snd (Reader_Close r), out))))
                     (abind (io_Copy (xz_read E B L rf stdin) (stdout_write stdout) 0)
                      (\<lambda>(_, err). errPanic err)) (r, snd st))) (s, out))"

definition xzpipe_main ::
  "errs \<Rightarrow> ('v, 'u) ioutil \<Rightarrow> 'p bufpipe \<Rightarrow> ('z, 'x) liblzma \<Rightarrow> ('p, 's) read_from \<Rightarrow> 's io_read \<Rightarrow> 'w io_write \<Rightarrow>
   (bytes \<Rightarrow> ('z, 'x, 'p, 'w) async_branch) \<Rightarrow> (('z, 'x, 'p, 'w) Writer, unit) act \<Rightarrow> bool \<Rightarrow> ('s \<times> 'w, unit) act" where
  "xzpipe_main E U B L rf stdin stdout asyncw asyncc dec =
     (if \<not> dec then main_compress E U B L stdin stdout asyncw asyncc
      else main_decompress E B L rf stdin stdout)"

section \<open>Properties\<close>

text \<open>A reader that returns no bytes and no error stops \<open>io.Copy\<close> from returning.\<close>

lemma io_Copy_stuck:
  assumes "rd s = Some (Ret ([], None), s)"
  shows "io_Copy rd wr n s = None"
proof (cases "io_Copy rd wr n s")
  case (Some y)
  have "rd s = Some (Ret ([], None), s) \<longrightarrow> False"
    by (rule io_Copy.raw_induct [OF _ Some]) auto
  with assms show ?thesis by blast
qed simp

text \<open>
  C36: \<open>xzpipe -d\<close> never ends and never writes: whatever its input, decompressing does not return,
  because the reader it creates delivers neither bytes nor an error.
\<close>

theorem xzpipe_decompress_hangs:
  fixes L :: "('z, 'x) liblzma" and stdin :: "'s io_read" and B :: "'p bufpipe"
  shows "xzpipe_main E U B L rf stdin stdout asyncw asyncc True st = None"
proof -
  obtain s out where st: "st = (s, out)" by (metis prod.collapse)
  obtain r :: "('z, 'p, 's) Reader" where r: "NewReader B s = (Some r, None)" "r_closed r = False" "r_maxWorkers r \<noteq> WorkersSync"
    by (simp add: NewReader_def NewReaderCustom_def WorkersDefault_def WorkersSync_def Let_def)
  have "Reader_Read E B L rf stdin (replicate copy_size 0) r = Some (Ret (0, None), (0, bp_New B (replicate copy_size 0) LineMono, r))"
    using r(2,3) by (simp add: Reader_Read_def arecover_def)
  then have "io_Copy (xz_read E B L rf stdin) (stdout_write stdout) 0 (r, out) = None"
    by (intro io_Copy_stuck) (simp add: xz_read_def)
  then show ?thesis by (simp add: xzpipe_main_def main_decompress_def st r(1) errPanic_def adefer_def abind_def)
qed


lemma easy_default_writer:
  "\<exists>w s. NewWriter errs_std line_pipe easy_lzma list_write [] = Some (Ret (Some w, None), s) \<and> \<not> w_closed w \<and>
     w_maxWorkers w \<noteq> WorkersSync"
proof -
  have k: "clamp_chunk ChunkDefault = 8388608" "clamp_workers WorkersDefault = 8" "(8388608::int) \<noteq> ChunkStream" "(8::int) \<noteq> WorkersSync"
    by (simp_all add: clamp_chunk_def clamp_workers_def xz_workers xz_sizes)
  obtain f where f: "writer_filters errs_std easy_lzma 8388608 s = Some (Ret f, s)" for s :: bytes
    by (simp add: writer_filters_def NewOptionsLZMA_def Filters_Append_def NewFilters_def Let_def abind_aPanic [OF errs_ok_std])
  obtain g where g: "literalFilters easy_lzma = Ret g"
    by (simp add: literalFilters_def NewOptionsLZMA_def Filters_Append_def NewFilters_def Let_def)
  obtain n where n: "literalBlockSize easy_lzma errs_std CHECK_CRC64 8388608 = Ret n"
    by (simp add: literalBlockSize_def literalCheckSupport_def g HeaderSize_def errs_okD(1) [OF errs_ok_std] Let_def)
  show ?thesis
    by (simp add: NewWriter_def NewWriterLevel_def CheckDefault_def NewWriterCustom_def k n HeaderEncode_def NewIndex_def
        abind_aPanic [OF errs_ok_std] arecover_def sink_Write_def list_write_def abind_eval(1) [OF f] new_Writer_def set_wr_def)
qed


end
