(* ===== verification/Xz_Pool_Data.thy ===== *)
theory Xz_Pool_Data
  imports Xz_Pool_Sys Bufpipe_Mono
begin

text \<open>
  What is in the pipes of a pool: the operations of \<open>xz/pool.go\<close> touch only the pipe they hand out or
  take back.
\<close>

section \<open>Cells and sets\<close>

abbreviation free_set :: "('p, 'd) pipePool \<Rightarrow> (int \<times> nat) set" where
  "free_set pp \<equiv> set (entries_of (pp_free pp))"

abbreviation ready_set :: "('p, 'd) pipePool \<Rightarrow> (int \<times> nat) set" where
  "ready_set pp \<equiv> set (entries_of (pp_ready pp))"

abbreviation active_set :: "('p, 'd) pipePool \<Rightarrow> (int \<times> nat) set" where
  "active_set pp \<equiv> set (entries_of (pp_active pp))"

text \<open>A pipe is filed in one set, under its own index.\<close>

lemma pool_cells:
  assumes "pool_ok pp"
  shows "(i, a) \<in> free_set pp \<union> ready_set pp \<union> active_set pp \<Longrightarrow> a < length (pp_heap pp) \<and> pi_idx (pp_heap pp ! a) = i \<and> i \<in> indexes pp"
    and "(i, a) \<in> ready_set pp \<union> active_set pp \<Longrightarrow> (j, b) \<in> ready_set pp \<union> active_set pp \<Longrightarrow> i = j \<longleftrightarrow> a = b"
    and "(i, a) \<in> ready_set pp \<Longrightarrow> (j, b) \<in> active_set pp \<Longrightarrow> i \<noteq> j \<and> a \<noteq> b"
    and "(i, a) \<in> free_set pp \<Longrightarrow> (j, b) \<in> ready_set pp \<union> active_set pp \<Longrightarrow> i \<noteq> j \<and> a \<noteq> b"
proof -
  have d: "distinct (map fst (entries pp))" "distinct (map snd (entries pp))" using assms by (simp_all add: pool_ok_def)
  have e: "set (entries pp) = free_set pp \<union> ready_set pp \<union> active_set pp" by (auto simp: entries_def)
  show "(i, a) \<in> free_set pp \<union> ready_set pp \<union> active_set pp \<Longrightarrow> a < length (pp_heap pp) \<and> pi_idx (pp_heap pp ! a) = i \<and> i \<in> indexes pp"
    using pool_okD(4) [OF assms, of "(i, a)"] unfolding e [symmetric] by (force simp: indexes_def)
  show "(i, a) \<in> ready_set pp \<union> active_set pp \<Longrightarrow> (j, b) \<in> ready_set pp \<union> active_set pp \<Longrightarrow> i = j \<longleftrightarrow> a = b"
  proof -
    assume "(i, a) \<in> ready_set pp \<union> active_set pp" "(j, b) \<in> ready_set pp \<union> active_set pp"
    then have "(i, a) \<in> set (entries pp)" "(j, b) \<in> set (entries pp)" by (auto simp: e)
    then show "i = j \<longleftrightarrow> a = b"
      using d inj_onD [of fst "set (entries pp)" "(i, a)" "(j, b)"] inj_onD [of snd "set (entries pp)" "(i, a)" "(j, b)"]
      by (auto simp: distinct_map)
  qed
  have dis: "fst ` ready_set pp \<inter> fst ` active_set pp = {}" "snd ` ready_set pp \<inter> snd ` active_set pp = {}"
    "fst ` free_set pp \<inter> fst ` (ready_set pp \<union> active_set pp) = {}" "snd ` free_set pp \<inter> snd ` (ready_set pp \<union> active_set pp) = {}"
    using d by (simp_all add: entries_def image_Un Int_Un_distrib)
  have apart: "x \<noteq> y" if "(x :: 'c) \<in> X" "y \<in> Y" "X \<inter> Y = {}" for x y X Y using that by blast
  show "i \<noteq> j \<and> a \<noteq> b" if "(i, a) \<in> ready_set pp" "(j, b) \<in> active_set pp"
    using apart [OF _ _ dis(1)] apart [OF _ _ dis(2)] that by (metis fst_conv snd_conv imageI)
  show "i \<noteq> j \<and> a \<noteq> b" if "(i, a) \<in> free_set pp" "(j, b) \<in> ready_set pp \<union> active_set pp"
    using apart [OF _ _ dis(3)] apart [OF _ _ dis(4)] that by (metis fst_conv snd_conv imageI)
qed

text \<open>Storing a changed pipe or changed data into a cell.\<close>

definition put_pipe :: "nat \<Rightarrow> 'p \<Rightarrow> ('p, 'd) pipePool \<Rightarrow> ('p, 'd) pipePool" where
  "put_pipe a p pp = pp\<lparr>pp_heap := (pp_heap pp)[a := (pp_heap pp ! a)\<lparr>pi_pipe := p\<rparr>]\<rparr>"

definition put_data :: "nat \<Rightarrow> 'd option \<Rightarrow> ('p, 'd) pipePool \<Rightarrow> ('p, 'd) pipePool" where
  "put_data a d pp = pp\<lparr>pp_heap := (pp_heap pp)[a := (pp_heap pp ! a)\<lparr>pi_data := d\<rparr>]\<rparr>"

lemma put_fields [simp]:
  "pp_free (put_pipe a p pp) = pp_free pp" "pp_ready (put_pipe a p pp) = pp_ready pp" "pp_active (put_pipe a p pp) = pp_active pp"
  "pp_closed (put_pipe a p pp) = pp_closed pp" "pp_waitIdx (put_pipe a p pp) = pp_waitIdx pp"
  "length (pp_heap (put_pipe a p pp)) = length (pp_heap pp)" "indexes (put_pipe a p pp) = indexes pp"
  "pp_free (put_data a d pp) = pp_free pp" "pp_ready (put_data a d pp) = pp_ready pp" "pp_active (put_data a d pp) = pp_active pp"
  "pp_closed (put_data a d pp) = pp_closed pp" "pp_waitIdx (put_data a d pp) = pp_waitIdx pp"
  "length (pp_heap (put_data a d pp)) = length (pp_heap pp)" "indexes (put_data a d pp) = indexes pp"
  by (simp_all add: put_pipe_def put_data_def indexes_def entries_def)

lemma put_cells [simp]:
  "pi_idx (pp_heap (put_pipe a p pp) ! b) = pi_idx (pp_heap pp ! b)" "pi_data (pp_heap (put_pipe a p pp) ! b) = pi_data (pp_heap pp ! b)"
  "pi_idx (pp_heap (put_data a d pp) ! b) = pi_idx (pp_heap pp ! b)" "pi_pipe (pp_heap (put_data a d pp) ! b) = pi_pipe (pp_heap pp ! b)"
  "b \<noteq> a \<Longrightarrow> pp_heap (put_pipe a p pp) ! b = pp_heap pp ! b" "b \<noteq> a \<Longrightarrow> pp_heap (put_data a d pp) ! b = pp_heap pp ! b"
  "a < length (pp_heap pp) \<Longrightarrow> pi_pipe (pp_heap (put_pipe a p pp) ! a) = p"
  "a < length (pp_heap pp) \<Longrightarrow> pi_data (pp_heap (put_data a d pp) ! a) = d"
  unfolding put_pipe_def put_data_def
  by (cases "a < length (pp_heap pp)"; auto simp: nth_list_update list_update_beyond)+

lemma put_ok [simp]: "pool_ok (put_pipe a p pp) = pool_ok pp" "pool_ok (put_data a d pp) = pool_ok pp"
proof -
  have len: "pp_len (put_pipe a p pp) = pp_len pp" "pp_len (put_data a d pp) = pp_len pp" by (simp_all add: put_pipe_def put_data_def)
  show "pool_ok (put_pipe a p pp) = pool_ok pp" "pool_ok (put_data a d pp) = pool_ok pp"
    by (simp_all add: pool_ok_def entries_def len)
qed

text \<open>The pipes nobody uses can be reset.\<close>

definition free_lin :: "('p \<Rightarrow> lpipe option) \<Rightarrow> ('p, 'd) pipePool \<Rightarrow> bool" where
  "free_lin lin pp \<longleftrightarrow> (\<forall>(i, a) \<in> free_set pp. lin (pi_pipe (pp_heap pp ! a)) \<noteq> None)"

lemma free_lin_put: "(i, a) \<in> ready_set pp \<union> active_set pp \<Longrightarrow> pool_ok pp \<Longrightarrow> free_lin lin (put_pipe a p pp) = free_lin lin pp"
  unfolding free_lin_def by (fastforce dest: pool_cells(4))

lemma free_lin_data [simp]: "free_lin lin (put_data a d pp) = free_lin lin pp"
  by (simp add: free_lin_def)

section \<open>Taking a pipe for writing\<close>

text \<open>The pipe that is handed out is empty and open, with the size and the mode that were asked for.\<close>

lemma getWriter_pipe_data:
  assumes ok: "pool_ok pp" and B: "pipe_mono B lin" and sz: "0 \<le> sz" and mode: "mode \<in> {LineMono, LineDual}"
    and free: "free_lin lin pp" and run: "getWriter_pipe B i sz mode pp = Ret (a, p1)"
  shows "(\<exists>buf. lin (pi_pipe (pp_heap p1 ! a)) = Some (new_line buf mode) \<and> length buf = nat sz) \<and>
    (\<forall>b < length (pp_heap pp). b \<noteq> a \<longrightarrow> pp_heap p1 ! b = pp_heap pp ! b) \<and>
    free_set p1 \<subseteq> free_set pp \<and> length (pp_heap pp) \<le> length (pp_heap p1)"
proof (cases "pipeSet_pop i (pp_heap pp) (pp_free pp)")
  case (Pair p free')
  note new = pipe_mono_new [OF B mode]
  show ?thesis
  proof (cases p)
    case None
    with Pair have pop: "pipeSet_pop i (pp_heap pp) (pp_free pp) = (None, free')" by simp
    from run new show ?thesis
      unfolding getWriter_pipe_new(1) [OF pop sz] by (auto simp: nth_append intro: exI [of _ "replicate (nat sz) 0"])
  next
    case (Some b)
    with Pair have pop: "pipeSet_pop i (pp_heap pp) (pp_free pp) = (Some b, free')" by simp
    have own: "e \<in> free_set pp \<Longrightarrow> pi_idx (pp_heap pp ! snd e) = fst e" for e
      using pool_okD(4) [OF ok] by (simp add: entries_def)
    obtain k xs ys where sp: "entries_of (pp_free pp) = xs @ (k, b) # ys" "entries_of free' = xs @ ys"
      using pop pool_okD(1) [OF ok] own by (rule pipeSet_pop_split)
    have b: "b < length (pp_heap pp)" using pool_cells(1) [OF ok, of k b] sp by simp
    define q where "q = pi_pipe (pp_heap pp ! b)"
    obtain l where l: "lin q = Some l" using free sp(1) unfolding free_lin_def q_def by auto
    note D = pipe_monoD [OF B l]
    define q' where "q' = (if bp_Capacity B q \<noteq> sz \<or> bp_Mode B q \<noteq> mode then
      (if int (length (bp_Array B q)) \<ge> sz then bp_New B (take (nat sz) (bp_Array B q)) mode
       else bp_New B (replicate (nat sz) 0) mode) else bp_Reset B q)"
    have eq: "getWriter_pipe B i sz mode pp = Ret (b, pp\<lparr>pp_free := free', pp_heap := (pp_heap pp)[b := (pp_heap pp ! b)\<lparr>pi_pipe := q'\<rparr>]\<rparr>)"
      using sz by (simp add: getWriter_pipe_def pop make_bytes_def Let_def q_def q'_def)
    have "\<exists>buf. lin q' = Some (new_line buf mode) \<and> length buf = nat sz"
    proof (cases "bp_Capacity B q \<noteq> sz \<or> bp_Mode B q \<noteq> mode")
      case True
      then have q': "q' = bp_New B (if int (length (bp_Array B q)) \<ge> sz then take (nat sz) (bp_Array B q) else replicate (nat sz) 0) mode"
        by (simp add: q'_def)
      show ?thesis unfolding q' new by (intro exI conjI, rule refl) (auto simp: nat_le_iff)
    next
      case False
      then have "l\<lparr>lp_lo := 0, lp_hi := 0, lp_closed := False\<rparr> = new_line (lp_buf l) mode" "length (lp_buf l) = nat sz"
        using D(1,2,17) by (auto simp: new_line_def mono_ok_def)
      with False D(10) show ?thesis by (auto simp: q'_def)
    qed
    with run show ?thesis unfolding eq using b sp by auto
  qed
qed

lemma getWriter_loop_data:
  assumes ok: "pool_ok pp" and B: "pipe_new_laws B" "pipe_mono B lin" and sz: "0 \<le> sz" and mode: "mode \<in> {LineMono, LineDual}"
    and fresh: "idx \<notin> indexes pp"
  obtains (wait) "getWriter_loop B i idx sz mode data pp = Ret (Wait, [], pp\<lparr>pp_wrWaitCnt := pp_wrWaitCnt pp + 1\<rparr>)"
  | (refused) "pp_closed pp" "getWriter_loop B i idx sz mode data pp = Ret (Done None, [], pp)"
  | (taken) a pp' where "\<not> pp_closed pp" "getWriter_loop B i idx sz mode data pp = Ret (Done (Some a), [SignalRd], pp')"
      "pool_ok pp'" "indexes pp' \<subseteq> insert idx (indexes pp)" "ready_set pp' = insert (idx, a) (ready_set pp)"
      "active_set pp' = active_set pp" "pp_closed pp' = pp_closed pp" "pp_waitIdx pp' = pp_waitIdx pp"
      "pi_data (pp_heap pp' ! a) = data"
      "\<And>j b. (j, b) \<in> ready_set pp \<union> active_set pp \<Longrightarrow> b \<noteq> a \<and> pp_heap pp' ! b = pp_heap pp ! b"
      "free_lin lin pp \<Longrightarrow> free_lin lin pp'"
      "free_lin lin pp \<Longrightarrow> \<exists>buf. lin (pi_pipe (pp_heap pp' ! a)) = Some (new_line buf mode) \<and> length buf = nat sz"
proof (cases rule: getWriter_loop_cases [OF ok B(1) sz fresh, of i mode data])
  case 1
  then show thesis by (intro wait) simp
next
  case 2
  then show thesis by (intro refused) simp_all
next
  case (3 a pp')
  then have take: "getWriter_take B i idx sz mode data pp = Ret (Some a, [SignalRd], pp')"
    by (auto simp: getWriter_loop_def split: if_splits go.splits)
       (cases "getWriter_take B i idx sz mode data pp"; auto)
  from getWriter_take_spec [OF ok B(1) sz 3(1) fresh, of i mode data] take have act: "pp_active pp' = pp_active pp" "pi_data (pp_heap pp' ! a) = data"
    by auto
  from take 3(1) obtain p1 where p1: "getWriter_pipe B i sz mode pp = Ret (a, p1)"
    "pp_heap pp' = (pp_heap p1)[a := (pp_heap p1 ! a)\<lparr>pi_idx := idx, pi_data := data\<rparr>]" "pp_free pp' = pp_free p1"
    by (cases "getWriter_pipe B i sz mode pp")
      (auto simp: getWriter_take_def Let_def pipeSet_push_def ps_insert_def split: if_splits option.splits)
  have rdy: "ready_set pp' = insert (idx, a) (ready_set pp)" using 3(4) by simp
  have old: "b \<noteq> a" if "(j, b) \<in> ready_set pp \<union> active_set pp" for j b
  proof
    assume "b = a"
    moreover have "(idx, a) \<in> ready_set pp' \<union> active_set pp'" "(j, b) \<in> ready_set pp' \<union> active_set pp'" using rdy act that by auto
    ultimately have "idx = j" using pool_cells(2) [OF 3(3)] by metis
    moreover have "j \<in> indexes pp" using pool_cells(1) [OF ok, of j b] that by blast
    ultimately show False using fresh by simp
  qed
  have a: "a < length (pp_heap p1)" using pool_cells(1) [OF 3(3), of idx a] rdy p1(2) by simp
  have data: "free_lin lin pp \<Longrightarrow> (\<exists>buf. lin (pi_pipe (pp_heap p1 ! a)) = Some (new_line buf mode) \<and> length buf = nat sz) \<and>
      (\<forall>b < length (pp_heap pp). b \<noteq> a \<longrightarrow> pp_heap p1 ! b = pp_heap pp ! b) \<and> free_set p1 \<subseteq> free_set pp"
    using getWriter_pipe_data [OF ok B(2) sz mode _ p1(1)] by blast
  have keep: "pp_heap p1 ! b = pp_heap pp ! b" if "b < length (pp_heap pp)" "b \<noteq> a" for b
  proof (cases "fst (pipeSet_pop i (pp_heap pp) (pp_free pp))")
    case None
    then have pop: "pipeSet_pop i (pp_heap pp) (pp_free pp) = (None, snd (pipeSet_pop i (pp_heap pp) (pp_free pp)))" by (metis prod.collapse)
    from p1(1) that show ?thesis unfolding getWriter_pipe_new(1) [OF pop sz] by (auto simp: nth_append)
  next
    case (Some c)
    then have pop: "pipeSet_pop i (pp_heap pp) (pp_free pp) = (Some c, snd (pipeSet_pop i (pp_heap pp) (pp_free pp)))" by (metis prod.collapse)
    from getWriter_pipe_free [OF ok B(1) sz pop, of mode] p1(1) that show ?thesis by auto
  qed
  show thesis
  proof (rule taken [OF 3(1,2,3) 3(10) rdy _ 3(6,7) act(2)])
    show "active_set pp' = active_set pp" using act by simp
    show "b \<noteq> a \<and> pp_heap pp' ! b = pp_heap pp ! b" if "(j, b) \<in> ready_set pp \<union> active_set pp" for j b
      using old [OF that] keep [of b] pool_cells(1) [OF ok, of j b] that p1(2) by auto
    show "free_lin lin pp'" if "free_lin lin pp"
    proof -
      have "lin (pi_pipe (pp_heap pp' ! b)) \<noteq> None" if b: "(j, b) \<in> free_set pp'" for j b
      proof -
        have "b \<noteq> a" using pool_cells(4) [OF 3(3) b, of idx a] rdy by auto
        moreover have "(j, b) \<in> free_set pp" using data \<open>free_lin lin pp\<close> b p1(3) by auto
        ultimately show ?thesis
          using \<open>free_lin lin pp\<close> keep [of b] pool_cells(1) [OF ok, of j b] p1(2) by (auto simp: free_lin_def)
      qed
      then show ?thesis by (auto simp: free_lin_def)
    qed
    show "\<exists>buf. lin (pi_pipe (pp_heap pp' ! a)) = Some (new_line buf mode) \<and> length buf = nat sz" if "free_lin lin pp"
      using data [OF that] p1(2) a by auto
  qed
qed

section \<open>Taking a pipe for reading and giving it back\<close>

lemma getReader_loop_data:
  assumes ok: "pool_ok pp"
  obtains (wait) "getReader_loop i idx sg pp = Ret (Wait, sg, pp\<lparr>pp_rdWaitCnt := pp_rdWaitCnt pp + 1\<rparr>)"
  | (ended) "pp_closed pp" "getReader_loop i idx sg pp = Ret (Done None, sg, pp\<lparr>pp_waitIdx := (if idx \<ge> 0 then -1 else pp_waitIdx pp)\<rparr>)"
      "idx \<ge> 0 \<Longrightarrow> idx \<notin> fst ` ready_set pp" "idx < 0 \<Longrightarrow> ready_set pp = {}"
  | (taken) k a pp' where "getReader_loop i idx sg pp = Ret (Done (Some a), sg, pp')" "pool_ok pp'"
      "idx \<ge> 0 \<Longrightarrow> k = idx" "(k, a) \<in> ready_set pp" "ready_set pp' = ready_set pp - {(k, a)}" "active_set pp' = insert (k, a) (active_set pp)"
      "free_set pp' = free_set pp" "indexes pp' = indexes pp" "pp_heap pp' = pp_heap pp" "pp_closed pp' = pp_closed pp"
      "pp_waitIdx pp' = (if idx \<ge> 0 then -1 else pp_waitIdx pp)"
proof (cases rule: getReader_loop_cases [OF ok, of idx i sg])
  case 1
  then show thesis by (intro wait) simp
next
  case 2
  then show thesis by (intro ended) (auto simp: ps_lookup_None split: if_splits)
next
  case (3 k a r act)
  let ?pp = "pp\<lparr>pp_ready := r, pp_active := act, pp_waitIdx := (if idx \<ge> 0 then -1 else pp_waitIdx pp)\<rparr>"
  have "(k, a) \<notin> set (entries_of r)" using pool_cells(3) [OF 3(3), of k a k a] 3(7) by auto
  with 3(8) have "set (entries_of r) = ready_set pp - {(k, a)}" by auto
  moreover have "indexes ?pp = indexes pp" using 3(7,8) by (auto simp: indexes_def entries_def)
  ultimately show thesis using 3 by (intro taken [of a ?pp k]) auto
qed

lemma restore_data:
  assumes ok: "pool_ok pp" and act: "(k, a) \<in> active_set pp"
  obtains sg pp' where "restore B (Some a) pp = Ret (Done (), sg, pp')" "pool_ok pp'" "active_set pp' = active_set pp - {(k, a)}"
    "ready_set pp' = ready_set pp" "free_set pp' \<subseteq> insert (k, a) (free_set pp)" "indexes pp' \<subseteq> indexes pp"
    "pp_closed pp' = pp_closed pp" "pp_waitIdx pp' = pp_waitIdx pp" "pp_heap pp' = close_pipe B a (pp_heap pp)"
proof -
  from restore_spec [OF ok act, of B] obtain sg pp' where t: "restore B (Some a) pp = Ret (Done (), sg, pp') \<and> pool_ok pp' \<and>
    (\<exists>xs ys. entries_of (pp_active pp) = xs @ (k, a) # ys \<and> entries_of (pp_active pp') = xs @ ys) \<and>
    pp_ready pp' = pp_ready pp \<and> pp_closed pp' = pp_closed pp \<and> pp_waitIdx pp' = pp_waitIdx pp \<and> indexes pp' \<subseteq> indexes pp \<and>
    (if pp_cap pp \<ge> pp_len pp
     then sg = [SignalWr] \<and> entries_of (pp_free pp') = (k, a) # entries_of (pp_free pp) \<and> pp_len pp' = pp_len pp
     else sg = [] \<and> pp_free pp' = pp_free pp \<and> pp_len pp' = pp_len pp - 1)"
    by blast
  then have "free_set pp' \<subseteq> insert (k, a) (free_set pp)" by (auto split: if_splits)
  with t obtain xs ys where r: "restore B (Some a) pp = Ret (Done (), sg, pp')" "pool_ok pp'"
    "entries_of (pp_active pp) = xs @ (k, a) # ys" "entries_of (pp_active pp') = xs @ ys" "pp_ready pp' = pp_ready pp"
    "pp_closed pp' = pp_closed pp" "pp_waitIdx pp' = pp_waitIdx pp" "indexes pp' \<subseteq> indexes pp"
    "free_set pp' \<subseteq> insert (k, a) (free_set pp)" by blast
  have "distinct (xs @ (k, a) # ys)" using pool_okD(3) [OF ok] r(3) by (metis distinct_map)
  then have "active_set pp' = active_set pp - {(k, a)}" using r(3,4) by auto
  moreover have "pp_heap pp' = close_pipe B a (pp_heap pp)"
    using r(1) by (auto simp: restore_def pipeSet_push_def Let_def gobind_eq_Ret split: prod.splits if_splits)
  ultimately show thesis using that r by metis
qed

lemma free_lin_restore:
  assumes "pool_ok pp" and "(k, a) \<in> active_set pp" and "free_lin lin pp" and "lin (bp_Close B (pi_pipe (pp_heap pp ! a))) \<noteq> None"
    and "free_set pp' \<subseteq> insert (k, a) (free_set pp)" and "pp_heap pp' = close_pipe B a (pp_heap pp)"
  shows "free_lin lin pp'"
proof -
  have "lin (pi_pipe (pp_heap pp' ! b)) \<noteq> None" if "(j, b) \<in> free_set pp'" for j b
  proof (cases "b = a")
    case True
    then show ?thesis using assms pool_cells(1) [OF assms(1), of k a] by (simp add: close_pipe_def)
  next
    case False
    then have "(j, b) \<in> free_set pp" using that assms(5) by auto
    with False show ?thesis using assms(3,6) by (auto simp: free_lin_def close_pipe_def)
  qed
  then show ?thesis by (auto simp: free_lin_def)
qed

section \<open>Calls of the pool\<close>

text \<open>Changes of a pool that leave its sets and its pipes alone, and its sets and the indexes of its pipes.\<close>

definition pool_like :: "('p, 'd) pipePool \<Rightarrow> ('p, 'd) pipePool \<Rightarrow> bool" where
  "pool_like pp pp' \<longleftrightarrow> pp_free pp' = pp_free pp \<and> pp_ready pp' = pp_ready pp \<and> pp_active pp' = pp_active pp \<and>
     pp_closed pp' = pp_closed pp \<and> pool_ok pp' = pool_ok pp \<and> length (pp_heap pp') = length (pp_heap pp) \<and>
     (\<forall>b. pi_idx (pp_heap pp' ! b) = pi_idx (pp_heap pp ! b))"

definition pool_same :: "('p, 'd) pipePool \<Rightarrow> ('p, 'd) pipePool \<Rightarrow> bool" where
  "pool_same pp pp' \<longleftrightarrow> pool_like pp pp' \<and> pp_heap pp' = pp_heap pp"

lemma pool_like_put [simp]: "pool_like pp (put_pipe a p pp)" "pool_like pp (put_data a d pp)"
  by (simp_all add: pool_like_def)

lemma pool_like_trans: "pool_like pp pp1 \<Longrightarrow> pool_like pp1 pp2 \<Longrightarrow> pool_like pp pp2"
  by (simp add: pool_like_def)

lemma pool_like_indexes: "pool_like pp pp' \<Longrightarrow> indexes pp' = indexes pp"
  by (simp add: pool_like_def indexes_def entries_def)

lemma pool_like_put_in: "pool_like pp pp' \<Longrightarrow> pool_like pp (put_pipe a p pp')" "pool_like pp pp' \<Longrightarrow> pool_like pp (put_data a d pp')"
  by (simp_all add: pool_like_def)

lemma pool_same_counts [simp]:
  "pool_same pp (pp\<lparr>pp_wrWaitCnt := m\<rparr>)" "pool_same pp (pp\<lparr>pp_rdWaitCnt := m\<rparr>)" "pool_same pp (pp\<lparr>pp_cap := c\<rparr>)"
  by (simp_all add: pool_same_def pool_like_def pool_ok_frame)

lemma getWriter_run:
  assumes ok: "pool_ok pp" and B: "pipe_new_laws B" "pipe_mono B lin" and sz: "0 \<le> sz" and mode: "mode \<in> {LineMono, LineDual}"
    and fresh: "idx \<notin> indexes pp"
    and run: "getWriter B i idx sz mode data pp = Ret (r, sg, pp') \<or> getWriter_wake B i idx sz mode data pp = Ret (r, sg, pp')"
  obtains (wait) "r = Wait" "pool_same pp pp'"
  | (refused) "r = Done None" "pp_closed pp" "pool_same pp pp'"
  | (taken) a where "r = Done (Some a)" "\<not> pp_closed pp" "pool_ok pp'" "indexes pp' \<subseteq> insert idx (indexes pp)"
      "ready_set pp' = insert (idx, a) (ready_set pp)" "active_set pp' = active_set pp" "\<not> pp_closed pp'"
      "pi_data (pp_heap pp' ! a) = data"
      "\<And>j b. (j, b) \<in> ready_set pp \<union> active_set pp \<Longrightarrow> b \<noteq> a \<and> pp_heap pp' ! b = pp_heap pp ! b"
      "free_lin lin pp \<Longrightarrow> free_lin lin pp'"
      "free_lin lin pp \<Longrightarrow> \<exists>buf. lin (pi_pipe (pp_heap pp' ! a)) = Some (new_line buf mode) \<and> length buf = nat sz"
proof -
  from run obtain m where loop: "getWriter_loop B i idx sz mode data (pp\<lparr>pp_wrWaitCnt := m\<rparr>) = Ret (r, sg, pp')"
  proof
    assume "getWriter B i idx sz mode data pp = Ret (r, sg, pp')"
    then have "getWriter_loop B i idx sz mode data (pp\<lparr>pp_wrWaitCnt := pp_wrWaitCnt pp\<rparr>) = Ret (r, sg, pp')"
      by (simp add: getWriter_def split: if_splits)
    then show thesis by (rule that)
  next
    assume "getWriter_wake B i idx sz mode data pp = Ret (r, sg, pp')"
    then show thesis unfolding getWriter_wake_def by (rule that)
  qed
  let ?pp = "pp\<lparr>pp_wrWaitCnt := m\<rparr>"
  have ok': "pool_ok ?pp" "idx \<notin> indexes ?pp" using ok fresh by (simp_all add: pool_ok_frame)
  show thesis
  proof (cases rule: getWriter_loop_data [OF ok'(1) B sz mode ok'(2), of i data])
    case 1
    with loop have "r = Wait" "pp' = pp\<lparr>pp_wrWaitCnt := m + 1\<rparr>" by simp_all
    then show thesis by (intro wait) simp_all
  next
    case 2
    with loop have "r = Done None" "pp' = pp\<lparr>pp_wrWaitCnt := m\<rparr>" by simp_all
    moreover have "pp_closed pp" using 2(1) by simp
    ultimately show thesis by (intro refused) simp_all
  next
    case (3 a pp'')
    with loop have "r = Done (Some a)" "pp'' = pp'" by simp_all
    with 3 show thesis by (intro taken [of a]) (auto simp: free_lin_def indexes_def entries_def)
  qed
qed

lemma getReader_run:
  assumes ok: "pool_ok pp"
    and run: "getReader i idx pp = Ret (r, sg, pp') \<or> getReader_wake i idx pp = Ret (r, sg, pp')"
  obtains (wait) "r = Wait" "pool_same pp pp'"
  | (ended) "r = Done None" "pp_closed pp" "pool_same pp pp'"
      "idx \<ge> 0 \<Longrightarrow> idx \<notin> fst ` ready_set pp" "idx < 0 \<Longrightarrow> ready_set pp = {}"
  | (taken) k a where "r = Done (Some a)" "pool_ok pp'" "idx \<ge> 0 \<Longrightarrow> k = idx" "(k, a) \<in> ready_set pp"
      "ready_set pp' = ready_set pp - {(k, a)}" "active_set pp' = insert (k, a) (active_set pp)"
      "free_set pp' = free_set pp" "indexes pp' = indexes pp" "pp_heap pp' = pp_heap pp" "pp_closed pp' = pp_closed pp"
proof -
  from run ok obtain pp1 sg1 where loop: "getReader_loop i idx sg1 pp1 = Ret (r, sg, pp')" and same: "pool_same pp pp1"
  proof (elim disjE)
    assume g: "getReader i idx pp = Ret (r, sg, pp')"
    show thesis
    proof (cases "0 \<le> idx")
      case True
      with g have "getReader_loop i idx [BroadcastWr] (pp\<lparr>pp_waitIdx := idx\<rparr>) = Ret (r, sg, pp')"
        by (simp add: getReader_def split: if_splits)
      then show thesis by (rule that) (use ok True in \<open>simp add: pool_same_def pool_like_def pool_ok_frame\<close>)
    next
      case False
      with g have "getReader_loop i idx [] pp = Ret (r, sg, pp')" by (simp add: getReader_def)
      then show thesis by (rule that) (simp add: pool_same_def pool_like_def)
    qed
  next
    assume "getReader_wake i idx pp = Ret (r, sg, pp')"
    then show thesis unfolding getReader_wake_def by (rule that) simp
  qed
  have ok1: "pool_ok pp1" using same ok by (simp add: pool_same_def pool_like_def)
  show thesis
  proof (cases rule: getReader_loop_data [OF ok1, of i idx sg1])
    case 1
    with loop have "r = Wait" "pp' = pp1\<lparr>pp_rdWaitCnt := pp_rdWaitCnt pp1 + 1\<rparr>" by simp_all
    then show thesis using same by (intro wait) (simp_all add: pool_same_def pool_like_def pool_ok_frame)
  next
    case 2
    with loop have "r = Done None" "pp' = pp1\<lparr>pp_waitIdx := (if idx \<ge> 0 then -1 else pp_waitIdx pp1)\<rparr>" by simp_all
    moreover have "pool_ok (pp1\<lparr>pp_waitIdx := (if idx \<ge> 0 then -1 else pp_waitIdx pp1)\<rparr>)"
      using ok1 by (intro pool_ok_frame(4)) (auto simp: pool_ok_def)
    ultimately show thesis using same ok ok1 2
      by (intro ended) (simp_all add: pool_same_def pool_like_def)
  next
    case (3 k a pp'')
    with loop have "r = Done (Some a)" "pp'' = pp'" by simp_all
    with 3 same show thesis
      by (intro taken [of a k]) (auto simp: pool_same_def pool_like_def indexes_def entries_def)
  qed
qed

end
