(* ===== verification/Xz_Async.thy ===== *)
theory Xz_Async
  imports Xz_Writer Xz_Pool_Data
begin

text \<open>
  The parallel mode of \<open>xz/writer.go\<close>: the caller's \<open>Write\<close> and \<open>Close\<close>, the monitor, the workers and
  the routine that delivers the blocks run concurrently and exchange pipes through two pools.

  Each routine is a function from the state of the whole writer to its next state: one call into a
  pool, one operation on a pipe or a channel, or one round of the coder. \<open>None\<close> is a routine that waits
  or has ended, \<open>Some (Pan p)\<close> a panic that nobody recovers. \<open>async_step\<close> lets any routine take its next
  step. A routine that is parked in a pool may be woken at any time, whether or not it was signalled, so
  that what holds here holds for every policy of waking (the wake-ups themselves are the subject of
  \<open>Xz_Pool_Sys\<close>).
\<close>

section \<open>Routines and their state\<close>

text \<open>The caller: between two calls, in the loop of \<open>Write\<close>, parked in \<open>getWriter\<close>, in \<open>checkErr\<close> of \<open>Write\<close>, in \<open>checkErr\<close> of \<open>Close\<close>.\<close>

datatype client =
    CIdle
  | CWrite bytes int
  | CPark bytes int
  | CFail bytes int
  | CClose

text \<open>
  A worker, with the addresses of its input pipe and its output pipe: about to take an input or parked
  there, about to take an output or parked there, about to open a block, in the rounds of
  \<open>ProcessPipe\<close>, after them, about to close the output, to give the input back, to look at its channels;
  ended.
\<close>

datatype ('z, 'p) worker =
    KGet | KGetP
  | KOut nat | KOutP nat
  | KEnc nat nat
  | KRun nat nat Block int "('z, 'p) Stream"
  | KFin nat nat Block int "('z, 'p) Stream" "goerr option"
  | KClose nat nat "goerr option"
  | KRest nat
  | KSel
  | KEnd

text \<open>
  The routine that delivers the blocks, with its pipe, the next index and the errors so far: about to
  take the next pipe or parked there, about to write it out, to enter its block into the index, to give
  it back, about to make the final check or parked there, about to report, to close the channel, to
  terminate; ended.
\<close>

datatype deliverer =
    TGet int | TGetP int
  | TOut nat int
  | TIdx nat int "goerr option"
  | TRest nat int "goerr option" "goerr option"
  | TLast int | TLastP int
  | TSend "goerr option"
  | TClose | TTerm | TEnd

text \<open>What the monitor has left to do.\<close>

datatype chore = CapIn int | CapOut int | CapWork int | AwaitDone | TermWork | TermOut | TermIn

text \<open>
  The writer with what its pointers refer to: the pools, the channels (the buffered errors, whether
  the channels are closed), \<open>lastErr\<close>, the routines, whether the callback of the worker pool has run.
  \<open>ay_log\<close> are the calls of \<open>Write\<close> that returned, with their results, \<open>ay_result\<close> is what the first
  \<open>Close\<close> returned.
\<close>

record ('z, 'x, 'p, 'w) asys =
  ay_w :: "('z, 'x, 'p, 'w) Writer"
  ay_in :: "('p, sizeStats) pipePool"
  ay_out :: "('p, sizeStats) pipePool"
  ay_work :: workerPool
  ay_errBuf :: "goerr option list"
  ay_errClosed :: bool
  ay_done :: bool
  ay_lastErr :: "goerr option"
  ay_client :: client
  ay_workers :: "('z, 'p) worker list"
  ay_deliverer :: deliverer
  ay_monitor :: "chore list"
  ay_ended :: bool
  ay_log :: "(bytes \<times> int \<times> goerr option) list"
  ay_result :: "goerr option option"

type_synonym ('z, 'x, 'p, 'w) astep = "('z, 'x, 'p, 'w) asys go option"

definition in_pipe :: "('z, 'x, 'p, 'w) asys \<Rightarrow> nat \<Rightarrow> 'p" where
  "in_pipe s a = pi_pipe (pp_heap (ay_in s) ! a)"

definition out_pipe :: "('z, 'x, 'p, 'w) asys \<Rightarrow> nat \<Rightarrow> 'p" where
  "out_pipe s b = pi_pipe (pp_heap (ay_out s) ! b)"

section \<open>The monitor\<close>

definition capacities :: "int \<Rightarrow> chore list" where
  "capacities resCnt = [CapIn resCnt, CapOut resCnt, CapWork resCnt]"

text \<open>\<open>cpus\<close> is \<open>runtime.NumCPU()\<close>. The deferred calls run in reverse order.\<close>

definition monitor_chores :: "int \<Rightarrow> ('z, 'x, 'p, 'w) Writer \<Rightarrow> chore list" where
  "monitor_chores cpus w =
     capacities 1 @
     (if w_chunkSize w \<noteq> ChunkStream
      then capacities (if w_maxWorkers w = WorkersMax then cpus else w_maxWorkers w) else []) @
     [AwaitDone, TermWork, TermOut, TermIn]"

definition monitor_step :: "'p bufpipe \<Rightarrow> ('z, 'x, 'p, 'w) asys \<Rightarrow> ('z, 'x, 'p, 'w) astep" where
  "monitor_step B s =
     (case ay_monitor s of
        [] \<Rightarrow> None
      | c # rest \<Rightarrow>
          let s = s\<lparr>ay_monitor := rest\<rparr> in
          (case c of
             CapIn cnt \<Rightarrow> Some (Ret (s\<lparr>ay_in := snd (setCapacity cnt (ay_in s))\<rparr>))
           | CapOut cnt \<Rightarrow> Some (Ret (s\<lparr>ay_out := snd (setCapacity cnt (ay_out s))\<rparr>))
           | CapWork cnt \<Rightarrow>
               Some (gobind (worker_setCapacity cnt (ay_work s)) (\<lambda>wp.
                 Ret (s\<lparr>ay_work := wp,
                        ay_workers := ay_workers s @ replicate (wk_spawned wp - wk_spawned (ay_work s)) KGet\<rparr>)))
           | AwaitDone \<Rightarrow> if ay_done s then Some (Ret s) else None
           | TermWork \<Rightarrow> Some (gobind (worker_terminate (ay_work s)) (\<lambda>wp. Ret (s\<lparr>ay_work := wp\<rparr>)))
           | TermOut \<Rightarrow> Some (Ret (s\<lparr>ay_out := snd (pool_terminate B (ay_out s))\<rparr>))
           | TermIn \<Rightarrow> Some (Ret (s\<lparr>ay_in := snd (pool_terminate B (ay_in s))\<rparr>))))"

text \<open>The worker pool's own monitor waits for all workers and closes the output pool.\<close>

definition ended_step :: "('z, 'x, 'p, 'w) asys \<Rightarrow> ('z, 'x, 'p, 'w) astep" where
  "ended_step s =
     (if wk_monitor (ay_work s) \<and> \<not> ay_ended s \<and> (\<forall>k \<in> set (ay_workers s). k = KEnd)
      then Some (Ret (s\<lparr>ay_out := snd (pool_close (ay_out s)), ay_ended := True\<rparr>)) else None)"

section \<open>The workers\<close>

definition set_worker :: "nat \<Rightarrow> ('z, 'p) worker \<Rightarrow> ('z, 'x, 'p, 'w) asys \<Rightarrow> ('z, 'x, 'p, 'w) asys" where
  "set_worker t k s = s\<lparr>ay_workers := (ay_workers s)[t := k]\<rparr>"

definition worker_got ::
  "nat \<Rightarrow> nat option attempt \<Rightarrow> ('p, sizeStats) pipePool \<Rightarrow> ('z, 'x, 'p, 'w) asys \<Rightarrow> ('z, 'x, 'p, 'w) asys" where
  "worker_got t r pp s =
     set_worker t (case r of Wait \<Rightarrow> KGetP | Done None \<Rightarrow> KEnd | Done (Some a) \<Rightarrow> KOut a) (s\<lparr>ay_in := pp\<rparr>)"

text \<open>Without an output pipe the input is given back at once.\<close>

definition worker_out ::
  "nat \<Rightarrow> nat \<Rightarrow> nat option attempt \<Rightarrow> ('p, sizeStats) pipePool \<Rightarrow> ('z, 'x, 'p, 'w) asys \<Rightarrow> ('z, 'x, 'p, 'w) asys" where
  "worker_out t a r pp s =
     set_worker t (case r of Wait \<Rightarrow> KOutP a | Done None \<Rightarrow> KRest a | Done (Some b) \<Rightarrow> KEnc a b) (s\<lparr>ay_out := pp\<rparr>)"

text \<open>
  A part of the block encoder on the two pipes of a worker. \<open>errs.Recover\<close> turns a panic into the
  error the output is closed with.
\<close>

definition worker_encode ::
  "errs \<Rightarrow> nat \<Rightarrow> nat \<Rightarrow> nat \<Rightarrow> ('p \<times> 'p, 'a) act \<Rightarrow> ('a \<Rightarrow> ('z, 'x, 'p, 'w) asys \<Rightarrow> ('z, 'x, 'p, 'w) asys) \<Rightarrow>
   ('z, 'x, 'p, 'w) asys \<Rightarrow> ('z, 'x, 'p, 'w) astep" where
  "worker_encode E t a b m f s =
     (case m (out_pipe s b, in_pipe s a) of
        None \<Rightarrow> None
      | Some (r, (wrBuf, rdBuf)) \<Rightarrow>
          let s = s\<lparr>ay_out := put_pipe b wrBuf (ay_out s), ay_in := put_pipe a rdBuf (ay_in s)\<rparr> in
          Some (case r of
                  Ret x \<Rightarrow> Ret (f x s)
                | Pan p \<Rightarrow> (case errs_Recover E p of Inl e \<Rightarrow> Ret (set_worker t (KClose a b e) s) | Inr p \<Rightarrow> Pan p)))"

text \<open>A round of \<open>stream.ProcessPipe(lib.RUN, wrBuf, rdBuf)\<close>.\<close>

definition worker_round ::
  "'p bufpipe \<Rightarrow> ('z, 'x) liblzma \<Rightarrow> nat \<Rightarrow> nat \<Rightarrow> nat \<Rightarrow> Block \<Rightarrow> int \<Rightarrow> ('z, 'p) Stream \<Rightarrow>
   ('z, 'x, 'p, 'w) asys \<Rightarrow> ('z, 'x, 'p, 'w) asys" where
  "worker_round B L t a b block headerSize z s =
     (case (case processPipe_round B L RUN (Some (out_pipe s b), Some (in_pipe s a), z, 0, 0) of
              Inl ((_, _, err), dst, src, z) \<Rightarrow> (dst, src, KFin a b block headerSize z err)
            | Inr (dst, src, z, _, _) \<Rightarrow> (dst, src, KRun a b block headerSize z)) of
        (dst, src, k) \<Rightarrow>
          set_worker t k (s\<lparr>ay_out := put_pipe b (the dst) (ay_out s), ay_in := put_pipe a (the src) (ay_in s)\<rparr>))"

definition worker_step ::
  "errs \<Rightarrow> 'p bufpipe \<Rightarrow> ('p, 'w) asyncpipe \<Rightarrow> ('z, 'x) liblzma \<Rightarrow> nat \<Rightarrow> nat \<Rightarrow>
   ('z, 'x, 'p, 'w) asys \<Rightarrow> ('z, 'x, 'p, 'w) astep" where
  "worker_step E B A L i t s =
     (let w = ay_w s; idx = (\<lambda>a. pi_idx (pp_heap (ay_in s) ! a)); sizes = Some \<lparr>ss_unpadSize = 0, ss_uncompSize = 0\<rparr> in
      case ay_workers s ! t of
        KGet \<Rightarrow> Some (gobind (iterReader i (ay_in s)) (\<lambda>(r, _, pp).
          Ret (worker_got t (case r of Wait \<Rightarrow> Wait | Done (p, _) \<Rightarrow> Done p) pp s)))
      | KGetP \<Rightarrow> Some (gobind (getReader_wake i (-1) (ay_in s)) (\<lambda>(r, _, pp). Ret (worker_got t r pp s)))
      | KOut a \<Rightarrow> Some (gobind (getWriter B i (idx a) (w_outSize w) (the (w_outMode w)) sizes (ay_out s)) (\<lambda>(r, _, pp).
          Ret (worker_out t a r pp s)))
      | KOutP a \<Rightarrow> Some (gobind (getWriter_wake B i (idx a) (w_outSize w) (the (w_outMode w)) sizes (ay_out s)) (\<lambda>(r, _, pp).
          Ret (worker_out t a r pp s)))
      | KEnc a b \<Rightarrow> worker_encode E t a b (blockEncode_open E B L w) (\<lambda>(block, headerSize, z).
          set_worker t (KRun a b block headerSize z)) s
      | KRun a b block headerSize z \<Rightarrow>
          if ap_CanRead A (in_pipe s a) then Some (Ret (worker_round B L t a b block headerSize z s)) else None
      | KFin a b block headerSize z err \<Rightarrow> worker_encode E t a b (blockEncode_rest E B L w block headerSize z err)
          (\<lambda>(unpadSize, uncompSize) s. set_worker t (KClose a b None)
            (s\<lparr>ay_out := put_data b (Some \<lparr>ss_unpadSize = unpadSize, ss_uncompSize = uncompSize\<rparr>) (ay_out s)\<rparr>)) s
      | KClose a b err \<Rightarrow>
          Some (Ret (set_worker t (KRest a) (s\<lparr>ay_out := put_pipe b (ap_CloseWithError A (out_pipe s b) err) (ay_out s)\<rparr>)))
      | KRest a \<Rightarrow> Some (gobind (restore B (Some a) (ay_in s)) (\<lambda>(_, _, pp). Ret (set_worker t KSel (s\<lparr>ay_in := pp\<rparr>))))
      | KSel \<Rightarrow> Some (Ret (set_worker t (if ay_done s \<or> t \<in> wk_killed (ay_work s) then KEnd else KGet) s))
      | KEnd \<Rightarrow> None)"

section \<open>Delivering the blocks\<close>

definition deliver_got ::
  "int \<Rightarrow> nat option attempt \<Rightarrow> ('p, sizeStats) pipePool \<Rightarrow> ('z, 'x, 'p, 'w) asys \<Rightarrow> ('z, 'x, 'p, 'w) asys" where
  "deliver_got k r pp s =
     s\<lparr>ay_out := pp, ay_deliverer := (case r of Wait \<Rightarrow> TGetP k | Done None \<Rightarrow> TLast (k + 1) | Done (Some b) \<Rightarrow> TOut b (k + 1))\<rparr>"

text \<open>The error the routine ends with, after \<open>errs.Recover\<close>.\<close>

definition deliver_recover :: "errs \<Rightarrow> deliverer \<Rightarrow> unit go \<Rightarrow> ('z, 'x, 'p, 'w) asys \<Rightarrow> ('z, 'x, 'p, 'w) asys go" where
  "deliver_recover E d r s =
     (case r of
        Ret _ \<Rightarrow> Ret (s\<lparr>ay_deliverer := d\<rparr>)
      | Pan p \<Rightarrow> (case errs_Recover E p of Inl e \<Rightarrow> Ret (s\<lparr>ay_deliverer := TSend e\<rparr>) | Inr p \<Rightarrow> Pan p))"

text \<open>The check that all pipes were consumed.\<close>

definition deliver_last ::
  "errs \<Rightarrow> int \<Rightarrow> nat option attempt \<Rightarrow> ('p, sizeStats) pipePool \<Rightarrow> ('z, 'x, 'p, 'w) asys \<Rightarrow> ('z, 'x, 'p, 'w) asys go" where
  "deliver_last E k r pp s =
     (case r of
        Wait \<Rightarrow> Ret (s\<lparr>ay_out := pp, ay_deliverer := TLastP k\<rparr>)
      | Done p \<Rightarrow> deliver_recover E (TSend None) (errs_Assert E (p = None) (Some dataError)) (s\<lparr>ay_out := pp\<rparr>))"

definition deliver_step ::
  "errs \<Rightarrow> 'p bufpipe \<Rightarrow> ('p, 'w) asyncpipe \<Rightarrow> ('z, 'x) liblzma \<Rightarrow> 'w io_write \<Rightarrow> nat \<Rightarrow>
   ('z, 'x, 'p, 'w) asys \<Rightarrow> ('z, 'x, 'p, 'w) astep" where
  "deliver_step E B A L wr i s =
     (let w = ay_w s in
      case ay_deliverer s of
        TGet k \<Rightarrow> Some (gobind (iterReaderIdx i k (ay_out s)) (\<lambda>(r, _, pp).
          Ret (deliver_got k (case r of Wait \<Rightarrow> Wait | Done (p, _, _) \<Rightarrow> Done p) pp s)))
      | TGetP k \<Rightarrow> Some (gobind (getReader_wake i k (ay_out s)) (\<lambda>(r, _, pp). Ret (deliver_got k r pp s)))
      | TOut b k \<Rightarrow>
          if ap_CanRead A (out_pipe s b) then
            (case ap_WriteTo A wr (out_pipe s b) (w_wr w) of (wrErr, p, v) \<Rightarrow>
               Some (Ret (s\<lparr>ay_out := put_pipe b p (ay_out s), ay_w := set_wr v w, ay_deliverer := TIdx b k wrErr\<rparr>)))
          else None
      | TIdx b k wrErr \<Rightarrow>
          Some (Ret (case pi_data (pp_heap (ay_out s) ! b) of
             None \<Rightarrow> s\<lparr>ay_deliverer := TRest b k wrErr None\<rparr>
           | Some ss \<Rightarrow>
               if ss_unpadSize ss \<noteq> 0 then
                 (case Index_Append L (w_index w) (ss_unpadSize ss) (ss_uncompSize ss) of (ixErr, ix) \<Rightarrow>
                    s\<lparr>ay_w := w\<lparr>w_index := ix\<rparr>, ay_deliverer := TRest b k wrErr ixErr\<rparr>)
               else s\<lparr>ay_deliverer := TRest b k wrErr None\<rparr>))
      | TRest b k wrErr ixErr \<Rightarrow> Some (gobind (restore B (Some b) (ay_out s)) (\<lambda>(_, _, pp).
          deliver_recover E (TGet k) (errs_Panic E (errs_First E [wrErr, ixErr])) (s\<lparr>ay_out := pp\<rparr>)))
      | TLast k \<Rightarrow> Some (gobind (getReader i (-1) (ay_out s)) (\<lambda>(r, _, pp). deliver_last E k r pp s))
      | TLastP k \<Rightarrow> Some (gobind (getReader_wake i (-1) (ay_out s)) (\<lambda>(r, _, pp). deliver_last E k r pp s))
      | TSend err \<Rightarrow> if ay_errBuf s = [] then Some (Ret (s\<lparr>ay_errBuf := [err], ay_deliverer := TClose\<rparr>)) else None
      | TClose \<Rightarrow> Some (Ret (s\<lparr>ay_errClosed := True, ay_deliverer := TTerm\<rparr>))
      | TTerm \<Rightarrow> Some (Ret (s\<lparr>ay_done := True, ay_deliverer := TEnd\<rparr>))
      | TEnd \<Rightarrow> None)"

section \<open>The caller\<close>

text \<open>Receiving from the error channel: a closed channel gives nil, an open empty one makes the caller wait.\<close>

definition recv_err :: "('z, 'x, 'p, 'w) asys \<Rightarrow> (goerr option \<times> ('z, 'x, 'p, 'w) asys) option" where
  "recv_err s =
     (case ay_errBuf s of
        e # es \<Rightarrow> Some (e, s\<lparr>ay_errBuf := es\<rparr>)
      | [] \<Rightarrow> if ay_errClosed s then Some (None, s) else None)"

text \<open>\<open>checkErr\<close>; here \<open>None\<close> says that the caller waits.\<close>

definition checkErr :: "errs \<Rightarrow> (('z, 'x, 'p, 'w) asys, unit) act" where
  "checkErr E =
     abind (aget ay_lastErr) (\<lambda>err.
     athen (aPanic E err)
       (\<lambda>s. case recv_err s of None \<Rightarrow> None | Some (err, s) \<Rightarrow> aPanic E err (s\<lparr>ay_lastErr := err\<rparr>)))"

definition client_return :: "bytes \<Rightarrow> int \<Rightarrow> goerr option \<Rightarrow> ('z, 'x, 'p, 'w) asys \<Rightarrow> ('z, 'x, 'p, 'w) asys" where
  "client_return data cnt err s = s\<lparr>ay_client := CIdle, ay_log := ay_log s @ [(data, cnt, err)]\<rparr>"

text \<open>The loop of \<open>Write\<close> has been left.\<close>

definition client_leave :: "bytes \<Rightarrow> int \<Rightarrow> ('z, 'x, 'p, 'w) asys \<Rightarrow> ('z, 'x, 'p, 'w) asys" where
  "client_leave data cnt s =
     (if cnt \<noteq> int (length data) then s\<lparr>ay_client := CFail data cnt\<rparr> else client_return data cnt None s)"

definition client_got ::
  "bytes \<Rightarrow> int \<Rightarrow> nat option attempt \<Rightarrow> ('p, sizeStats) pipePool \<Rightarrow> ('z, 'x, 'p, 'w) asys \<Rightarrow> ('z, 'x, 'p, 'w) asys" where
  "client_got data cnt r pp s =
     (let s = s\<lparr>ay_in := pp\<rparr> in
      case r of
        Wait \<Rightarrow> s\<lparr>ay_client := CPark data cnt\<rparr>
      | Done None \<Rightarrow> client_leave data cnt s
      | Done (Some a) \<Rightarrow>
          s\<lparr>ay_w := (ay_w s)\<lparr>w_pipe := Some a, w_idx := w_idx (ay_w s) + 1\<rparr>, ay_client := CWrite data cnt\<rparr>)"

text \<open>Writing to the pipe of the current chunk; a full pipe is closed and left to the workers.\<close>

definition client_put :: "'p bufpipe \<Rightarrow> bytes \<Rightarrow> int \<Rightarrow> nat \<Rightarrow> ('z, 'x, 'p, 'w) asys \<Rightarrow> ('z, 'x, 'p, 'w) asys go" where
  "client_put B data cnt a s =
     gobind (slice_from data cnt) (\<lambda>rest.
     case bp_Write B (in_pipe s a) rest of ((rdCnt, err), p) \<Rightarrow>
     let cnt = cnt + rdCnt in
     Ret (if err = Some ErrShortWrite then
            s\<lparr>ay_in := put_pipe a (bp_Close B p) (ay_in s), ay_w := (ay_w s)\<lparr>w_pipe := None\<rparr>, ay_client := CWrite data cnt\<rparr>
          else if err \<noteq> None then client_leave data cnt (s\<lparr>ay_in := put_pipe a p (ay_in s)\<rparr>)
          else s\<lparr>ay_in := put_pipe a p (ay_in s), ay_client := CWrite data cnt\<rparr>))"

text \<open>What is left of \<open>Close\<close> once the pool is closed; a literal or compressed mode has no other work.\<close>

definition close_rest ::
  "errs \<Rightarrow> 'p bufpipe \<Rightarrow> ('z, 'x) liblzma \<Rightarrow> 'w io_write \<Rightarrow> (('z, 'x, 'p, 'w) asys, goerr option) act" where
  "close_rest E B L wr =
     arecover E (\<lambda>err _. err)
       (adefer (amod (\<lambda>s. s\<lparr>ay_w := (ay_w s)\<lparr>w_index := Index_End (w_index (ay_w s))\<rparr>\<rparr>))
         (athen (checkErr E)
           (athen (azoom ay_w (\<lambda>w s. s\<lparr>ay_w := w\<rparr>) (Close_tail E B L wr)) (aret None))))"

definition client_step ::
  "errs \<Rightarrow> 'p bufpipe \<Rightarrow> ('z, 'x) liblzma \<Rightarrow> 'w io_write \<Rightarrow> nat \<Rightarrow>
   ('z, 'x, 'p, 'w) asys \<Rightarrow> ('z, 'x, 'p, 'w) astep" where
  "client_step E B L wr i s =
     (let w = ay_w s in
      case ay_client s of
        CIdle \<Rightarrow> None
      | CWrite data cnt \<Rightarrow>
          if cnt < int (length data) then
            (case w_pipe w of
               None \<Rightarrow> Some (gobind (getWriter B i (w_idx w) (w_inSize w) (the (w_inMode w)) None (ay_in s)) (\<lambda>(r, _, pp).
                 Ret (client_got data cnt r pp s)))
             | Some a \<Rightarrow> Some (client_put B data cnt a s))
          else Some (Ret (client_leave data cnt s))
      | CPark data cnt \<Rightarrow> Some (gobind (getWriter_wake B i (w_idx w) (w_inSize w) (the (w_inMode w)) None (ay_in s)) (\<lambda>(r, _, pp).
          Ret (client_got data cnt r pp s)))
      | CFail data cnt \<Rightarrow>
          (case arecover E (\<lambda>err _. err) (athen (checkErr E) (athen (aPanic E (Some ErrShortWrite)) (aret None))) s of
             None \<Rightarrow> None
           | Some (r, s) \<Rightarrow> Some (gobind r (\<lambda>err. Ret (client_return data cnt err s))))
      | CClose \<Rightarrow>
          (case close_rest E B L wr s of
             None \<Rightarrow> None
           | Some (r, s) \<Rightarrow> Some (gobind r (\<lambda>err. Ret (s\<lparr>ay_client := CIdle, ay_result := Some err\<rparr>)))))"

text \<open>Calling \<open>Write\<close> and \<open>Close\<close>, up to their loop and their wait.\<close>

definition call_Write :: "bytes \<Rightarrow> ('z, 'x, 'p, 'w) asys \<Rightarrow> ('z, 'x, 'p, 'w) asys" where
  "call_Write data s =
     (if w_closed (ay_w s) then client_return data 0 (Some ErrClosedPipe) s else s\<lparr>ay_client := CWrite data 0\<rparr>)"

definition call_Close :: "'p bufpipe \<Rightarrow> ('z, 'x, 'p, 'w) asys \<Rightarrow> ('z, 'x, 'p, 'w) asys" where
  "call_Close B s =
     (if w_closed (ay_w s) then s
      else
        let s = s\<lparr>ay_w := (ay_w s)\<lparr>w_closed := True\<rparr>\<rparr>;
            s = (case w_pipe (ay_w s) of
                   None \<Rightarrow> s
                 | Some a \<Rightarrow> s\<lparr>ay_in := put_pipe a (bp_Close B (in_pipe s a)) (ay_in s), ay_w := (ay_w s)\<lparr>w_pipe := None\<rparr>\<rparr>)
        in s\<lparr>ay_in := snd (pool_close (ay_in s)), ay_client := CClose\<rparr>)"

section \<open>The whole writer\<close>

definition async_start :: "int \<Rightarrow> ('z, 'x, 'p, 'w) Writer \<Rightarrow> ('z, 'x, 'p, 'w) asys" where
  "async_start cpus w =
     \<lparr>ay_w = w, ay_in = the (w_inPool w), ay_out = the (w_outPool w), ay_work = the (w_workPool w),
      ay_errBuf = [], ay_errClosed = False, ay_done = False, ay_lastErr = None, ay_client = CIdle, ay_workers = [],
      ay_deliverer = TGet 0, ay_monitor = monitor_chores cpus w, ay_ended = False, ay_log = [], ay_result = None\<rparr>"

inductive async_step ::
  "errs \<Rightarrow> 'p bufpipe \<Rightarrow> ('p, 'w) asyncpipe \<Rightarrow> ('z, 'x) liblzma \<Rightarrow> 'w io_write \<Rightarrow>
   ('z, 'x, 'p, 'w) asys \<Rightarrow> ('z, 'x, 'p, 'w) asys \<Rightarrow> bool"
  for E :: errs and B :: "'p bufpipe" and A :: "('p, 'w) asyncpipe" and L :: "('z, 'x) liblzma" and wr :: "'w io_write" where
  client: "client_step E B L wr i s = Some (Ret s') \<Longrightarrow> async_step E B A L wr s s'"
| worker: "t < length (ay_workers s) \<Longrightarrow> worker_step E B A L i t s = Some (Ret s') \<Longrightarrow> async_step E B A L wr s s'"
| deliver: "deliver_step E B A L wr i s = Some (Ret s') \<Longrightarrow> async_step E B A L wr s s'"
| monitor: "monitor_step B s = Some (Ret s') \<Longrightarrow> async_step E B A L wr s s'"
| ended: "ended_step s = Some (Ret s') \<Longrightarrow> async_step E B A L wr s s'"
| call_write: "ay_client s = CIdle \<Longrightarrow> async_step E B A L wr s (call_Write data s)"
| call_close: "ay_client s = CIdle \<Longrightarrow> async_step E B A L wr s (call_Close B s)"

end
