(* ===== verification/Xz_Async_Inv.thy ===== *)
theory Xz_Async_Inv
  imports Xz_Async Xz_Writer_Props
begin

text \<open>
  The shape of the parallel writer: which routine holds which pipe, and where each chunk is, while no
  routine has reported an error and the routines have not been told to stop.
\<close>

section \<open>What the routines hold\<close>

fun kin :: "('z, 'p) worker \<Rightarrow> nat option" where
  "kin (KOut a) = Some a"
| "kin (KOutP a) = Some a"
| "kin (KEnc a b) = Some a"
| "kin (KRun a b block headerSize z) = Some a"
| "kin (KFin a b block headerSize z err) = Some a"
| "kin (KClose a b err) = Some a"
| "kin (KRest a) = Some a"
| "kin _ = None"

fun kout :: "('z, 'p) worker \<Rightarrow> nat option" where
  "kout (KEnc a b) = Some b"
| "kout (KRun a b block headerSize z) = Some b"
| "kout (KFin a b block headerSize z err) = Some b"
| "kout (KClose a b err) = Some b"
| "kout _ = None"

text \<open>The input of a worker that has no output yet.\<close>

fun kpend :: "('z, 'p) worker \<Rightarrow> nat option" where
  "kpend (KOut a) = Some a"
| "kpend (KOutP a) = Some a"
| "kpend _ = None"

fun kidle :: "('z, 'p) worker \<Rightarrow> bool" where
  "kidle KGet = True"
| "kidle KGetP = True"
| "kidle KEnd = True"
| "kidle _ = False"

lemma kinds:
  "kpend k = Some a \<Longrightarrow> kin k = Some a" "kout k = Some b \<Longrightarrow> kin k \<noteq> None" "kout k = Some b \<Longrightarrow> kpend k = None"
  "kidle k \<Longrightarrow> kin k = None"
  by (cases k; simp)+

text \<open>The delivering routine: the index it is at, its pipe, and whether it has seen no error.\<close>

fun dpos :: "deliverer \<Rightarrow> int" where
  "dpos (TGet k) = k"
| "dpos (TGetP k) = k"
| "dpos (TOut b k) = k - 1"
| "dpos (TIdx b k e) = k - 1"
| "dpos (TRest b k e e') = k - 1"
| "dpos (TLast k) = k - 1"
| "dpos (TLastP k) = k - 1"
| "dpos _ = 0"

fun dpipe :: "deliverer \<Rightarrow> nat option" where
  "dpipe (TOut b k) = Some b"
| "dpipe (TIdx b k e) = Some b"
| "dpipe (TRest b k e e') = Some b"
| "dpipe _ = None"

fun healthy :: "deliverer \<Rightarrow> bool" where
  "healthy (TIdx b k e) = (e = None)"
| "healthy (TRest b k e e') = (e = None \<and> e' = None)"
| "healthy (TSend e) = False"
| "healthy TClose = False"
| "healthy TTerm = False"
| "healthy TEnd = False"
| "healthy _ = True"

fun dlast :: "deliverer \<Rightarrow> bool" where
  "dlast (TLast k) = True"
| "dlast (TLastP k) = True"
| "dlast _ = False"

section \<open>The invariant\<close>

text \<open>No routine has reported an error, been told to stop or seen the end of \<open>Close\<close>.\<close>

definition quiet :: "('z, 'x, 'p, 'w) asys \<Rightarrow> bool" where
  "quiet s \<longleftrightarrow> ay_errBuf s = [] \<and> \<not> ay_errClosed s \<and> \<not> ay_done s \<and> ay_lastErr s = None \<and> ay_result s = None"

text \<open>The writer is configured like \<open>w0\<close>, which was created for chunks.\<close>

definition async_conf :: "('z, 'x, 'p, 'w) Writer \<Rightarrow> ('z, 'x, 'p, 'w) Writer \<Rightarrow> bool" where
  "async_conf w0 w \<longleftrightarrow> w_flags w = w_flags w0 \<and> w_filters w = w_filters w0 \<and> w_chunkSize w = w_chunkSize w0 \<and>
     w_maxSize w = w_maxSize w0 \<and> w_inSize w = w_chunkSize w0 \<and> w_outSize w = w_maxSize w0 \<and>
     w_inMode w = Some LineDual \<and> w_outMode w = Some LineMono"

text \<open>The pipes of the workers are the active ones of the input pool, no two workers share one.\<close>

definition held :: "('z, 'p) worker list \<Rightarrow> ('p, 'd) pipePool \<Rightarrow> bool" where
  "held W pin \<longleftrightarrow> (\<forall>(i, a) \<in> active_set pin. \<exists>t < length W. kin (W ! t) = Some a)"

definition workers_hold :: "('z, 'p) worker list \<Rightarrow> ('p, 'd) pipePool \<Rightarrow> bool" where
  "workers_hold W pin \<longleftrightarrow>
     (\<forall>t < length W. \<forall>a. kin (W ! t) = Some a \<longrightarrow> (pi_idx (pp_heap pin ! a), a) \<in> active_set pin) \<and>
     (\<forall>t < length W. \<forall>t' < length W. \<forall>a. kin (W ! t) = Some a \<longrightarrow> kin (W ! t') = Some a \<longrightarrow> t = t') \<and>
     held W pin"

lemma held_update:
  assumes "held W pin" and "t < length W"
    and "\<And>i a. (i, a) \<in> active_set pin' \<Longrightarrow> kin k' = Some a \<or> (i, a) \<in> active_set pin \<and> kin (W ! t) \<noteq> Some a"
  shows "held (W[t := k']) pin'"
proof -
  have "\<exists>u < length W. kin (W[t := k'] ! u) = Some a" if "(i, a) \<in> active_set pin'" for i a
  proof (cases "kin k' = Some a")
    case True
    then show ?thesis using assms(2) by auto
  next
    case False
    with assms(3) [OF that] have a: "(i, a) \<in> active_set pin" "kin (W ! t) \<noteq> Some a" by simp_all
    with assms(1) obtain u where "u < length W" "kin (W ! u) = Some a" by (auto simp: held_def)
    moreover from this a(2) have "u \<noteq> t" by auto
    ultimately show ?thesis by (intro exI [of _ u]) simp
  qed
  then show ?thesis by (auto simp: held_def)
qed

text \<open>The chunks without an output yet.\<close>

definition pends :: "('z, 'p) worker list \<Rightarrow> nat set" where
  "pends W = {a. \<exists>t < length W. kpend (W ! t) = Some a}"

definition unstarted :: "('z, 'p) worker list \<Rightarrow> ('p, 'd) pipePool \<Rightarrow> int set" where
  "unstarted W pin = fst ` ready_set pin \<union> (\<lambda>a. pi_idx (pp_heap pin ! a)) ` pends W"

lemma pends_split:
  assumes "t < length W"
  obtains R where "pends W = set_option (kpend (W ! t)) \<union> R" "\<And>k. pends (W[t := k]) = set_option (kpend k) \<union> R"
    "\<And>a. a \<in> R \<Longrightarrow> \<exists>u < length W. u \<noteq> t \<and> kpend (W ! u) = Some a"
proof -
  let ?R = "{a. \<exists>u < length W. u \<noteq> t \<and> kpend (W ! u) = Some a}"
  have "(\<exists>u < length W. kpend (W ! u) = Some a) \<longleftrightarrow> kpend (W ! t) = Some a \<or> (\<exists>u < length W. u \<noteq> t \<and> kpend (W ! u) = Some a)" for a
    using assms by metis
  then have "pends W = set_option (kpend (W ! t)) \<union> ?R" by (auto simp: pends_def)
  moreover have "pends (W[t := k]) = set_option (kpend k) \<union> ?R" for k
    unfolding pends_def using assms by (auto simp: nth_list_update split: if_splits)
  ultimately show thesis by (rule that) blast
qed

lemma pends_update: "t < length W \<Longrightarrow> kpend k = kpend (W ! t) \<Longrightarrow> pends (W[t := k]) = pends W"
  by (rule pends_split [of t W]) simp_all

text \<open>
  Each chunk so far was delivered, has an output or has none yet; an index without an output is not
  used in the output pool. Only chunks before \<open>k\<close> were delivered.
\<close>

definition placed :: "int \<Rightarrow> int \<Rightarrow> ('z, 'p) worker list \<Rightarrow> ('p, 'd) pipePool \<Rightarrow> ('p, 'd) pipePool \<Rightarrow> bool" where
  "placed N k W pin pout \<longleftrightarrow>
     indexes pin \<subseteq> {0..<N} \<and> indexes pout \<subseteq> {0..<N} - unstarted W pin \<and>
     {0..<N} \<subseteq> {0..<k} \<union> unstarted W pin \<union> fst ` (ready_set pout \<union> active_set pout) \<and>
     (\<forall>i \<in> unstarted W pin \<union> fst ` ready_set pout. k \<le> i)"

definition delivers :: "int \<Rightarrow> deliverer \<Rightarrow> ('p, 'd) pipePool \<Rightarrow> bool" where
  "delivers N d pout \<longleftrightarrow> healthy d \<and> 0 \<le> dpos d \<and> dpos d \<le> N \<and>
     active_set pout = (case dpipe d of None \<Rightarrow> {} | Some b \<Rightarrow> {(dpos d, b)}) \<and>
     (dlast d \<longrightarrow> pp_closed pout \<and> dpos d \<notin> fst ` ready_set pout)"

text \<open>
  The input pool is closed by \<open>Close\<close>; a worker ends, and the output pool is closed, when no input is
  left and none can come.
\<close>

definition closing :: "client \<Rightarrow> ('z, 'x, 'p, 'w) Writer \<Rightarrow> ('z, 'p) worker list \<Rightarrow> ('p, 'd) pipePool \<Rightarrow> ('p, 'd) pipePool \<Rightarrow> bool" where
  "closing c w W pin pout \<longleftrightarrow>
     (pp_closed pin \<longleftrightarrow> w_closed w) \<and> (w_closed w \<longleftrightarrow> c = CClose) \<and> (w_closed w \<longrightarrow> w_pipe w = None) \<and>
     ((\<exists>t < length W. W ! t = KEnd) \<or> pp_closed pout \<longrightarrow> pp_closed pin \<and> ready_set pin = {}) \<and>
     (pp_closed pout \<longrightarrow> (\<forall>t < length W. kidle (W ! t)))"

fun cap_chores :: "chore list \<Rightarrow> int list" where
  "cap_chores [] = []"
| "cap_chores (CapWork c # cs) = c # cap_chores cs"
| "cap_chores (_ # cs) = cap_chores cs"

definition is_cap :: "chore \<Rightarrow> bool" where
  "is_cap c \<longleftrightarrow> (case c of CapIn _ \<Rightarrow> True | CapOut _ \<Rightarrow> True | CapWork _ \<Rightarrow> True | _ \<Rightarrow> False)"

text \<open>The monitor only adds workers.\<close>

definition monitors :: "chore list \<Rightarrow> workerPool \<Rightarrow> nat \<Rightarrow> bool" where
  "monitors cs wp l \<longleftrightarrow>
     (\<exists>caps. cs = caps @ [AwaitDone, TermWork, TermOut, TermIn] \<and> (\<forall>c \<in> set caps. is_cap c) \<and> sorted (int l # cap_chores caps)) \<and>
     workers_ok wp \<and> \<not> wk_closed wp \<and> wk_killed wp = {} \<and> wk_spawned wp = l"

definition shape :: "('z, 'x, 'p, 'w) Writer \<Rightarrow> ('z, 'x, 'p, 'w) asys \<Rightarrow> bool" where
  "shape w0 s \<longleftrightarrow> quiet s \<and> async_conf w0 (ay_w s) \<and> pool_ok (ay_in s) \<and> pool_ok (ay_out s) \<and> 0 \<le> w_idx (ay_w s) \<and>
     workers_hold (ay_workers s) (ay_in s) \<and>
     placed (w_idx (ay_w s)) (dpos (ay_deliverer s)) (ay_workers s) (ay_in s) (ay_out s) \<and>
     delivers (w_idx (ay_w s)) (ay_deliverer s) (ay_out s) \<and>
     closing (ay_client s) (ay_w s) (ay_workers s) (ay_in s) (ay_out s) \<and>
     monitors (ay_monitor s) (ay_work s) (length (ay_workers s))"

lemma shapeD:
  assumes "shape w0 s"
  shows "quiet s" "async_conf w0 (ay_w s)" "pool_ok (ay_in s)" "pool_ok (ay_out s)" "0 \<le> w_idx (ay_w s)"
    "workers_hold (ay_workers s) (ay_in s)"
    "placed (w_idx (ay_w s)) (dpos (ay_deliverer s)) (ay_workers s) (ay_in s) (ay_out s)"
    "delivers (w_idx (ay_w s)) (ay_deliverer s) (ay_out s)"
    "closing (ay_client s) (ay_w s) (ay_workers s) (ay_in s) (ay_out s)"
    "monitors (ay_monitor s) (ay_work s) (length (ay_workers s))"
  using assms by (simp_all add: shape_def)

section \<open>Steps that move no pipe\<close>

lemma workers_hold_like:
  assumes "workers_hold W pin" and "pool_like pin pin'"
  shows "workers_hold W pin'"
  using assms by (simp add: workers_hold_def held_def pool_like_def)

lemma unstarted_like: "pool_like pin pin' \<Longrightarrow> unstarted W pin' = unstarted W pin"
  by (simp add: unstarted_def pool_like_def)

lemma placed_like:
  assumes "placed N k W pin pout" and "pool_like pin pin'" and "pool_like pout pout'"
  shows "placed N k W pin' pout'"
proof -
  have "unstarted W pin' = unstarted W pin" "indexes pin' = indexes pin" "indexes pout' = indexes pout"
    using assms(2,3) by (simp_all add: unstarted_like pool_like_indexes)
  with assms show ?thesis by (simp add: placed_def pool_like_def)
qed

lemma shape_pools:
  assumes "shape w0 s" and "pool_like (ay_in s) pin" and "pool_like (ay_out s) pout"
  shows "shape w0 (s\<lparr>ay_in := pin, ay_out := pout\<rparr>)"
proof -
  have l: "pool_like (ay_in s) pin" "pool_like (ay_out s) pout" using assms by simp_all
  note S = shapeD [OF assms(1)]
  have "delivers (w_idx (ay_w s)) (ay_deliverer s) pout" using S(8) l(2) by (simp add: delivers_def pool_like_def)
  moreover have "closing (ay_client s) (ay_w s) (ay_workers s) pin pout" using S(9) l unfolding closing_def pool_like_def by metis
  moreover have "pool_ok pin" "pool_ok pout" using S(3,4) l by (simp_all add: pool_like_def)
  moreover have "quiet (s\<lparr>ay_in := pin, ay_out := pout\<rparr>)" using S(1) by (simp add: quiet_def)
  ultimately show ?thesis
    using S workers_hold_like [OF S(6) l(1)] placed_like [OF S(7) l] by (simp add: shape_def)
qed

lemma pool_like_refl [simp]: "pool_like pp pp"
  by (simp add: pool_like_def)

lemma pool_same_refl [simp]: "pool_same pp pp"
  by (simp add: pool_same_def)

text \<open>A worker goes on with the same input.\<close>

definition goes_on :: "('z, 'p) worker \<Rightarrow> ('z, 'p) worker \<Rightarrow> bool" where
  "goes_on k k' \<longleftrightarrow> kin k' = kin k \<and> kpend k' = kpend k \<and> (kidle k \<longrightarrow> kidle k')"

lemma workers_hold_update:
  assumes "workers_hold W pin" and "t < length W" and "goes_on (W ! t) k'"
  shows "workers_hold (W[t := k']) pin"
proof -
  have "kin (W[t := k'] ! u) = kin (W ! u)" if "u < length W" for u
    using that assms(2,3) by (cases "u = t"; auto simp: goes_on_def)
  moreover have "held (W[t := k']) pin"
    by (rule held_update [of W pin]) (use assms in \<open>auto simp: workers_hold_def goes_on_def\<close>)
  ultimately show ?thesis using assms(1) by (simp add: workers_hold_def)
qed

lemma unstarted_update:
  assumes "t < length W" and "kpend k' = kpend (W ! t)"
  shows "unstarted (W[t := k']) pin = unstarted W pin"
proof -
  show ?thesis using assms by (simp add: unstarted_def pends_update)
qed

lemma shape_goes_on:
  assumes "shape w0 s" and "t < length (ay_workers s)" and "goes_on (ay_workers s ! t) k'"
    and "k' = KEnd \<Longrightarrow> pp_closed (ay_in s) \<and> ready_set (ay_in s) = {}"
  shows "shape w0 (set_worker t k' s)"
proof -
  note S = shapeD [OF assms(1)]
  let ?W = "(ay_workers s)[t := k']"
  have p: "kpend k' = kpend (ay_workers s ! t)" using assms(3) by (simp add: goes_on_def)
  have "placed (w_idx (ay_w s)) (dpos (ay_deliverer s)) ?W (ay_in s) (ay_out s)"
    using S(7) unfolding placed_def unstarted_update [OF assms(2) p] .
  moreover have "closing (ay_client s) (ay_w s) ?W (ay_in s) (ay_out s)"
    using S(9) assms(2-4) by (auto simp: closing_def nth_list_update goes_on_def)
  moreover have "quiet (set_worker t k' s)" using S(1) by (simp add: quiet_def set_worker_def)
  ultimately show ?thesis
    using S workers_hold_update [OF S(6) assms(2,3)] by (simp add: shape_def set_worker_def)
qed

text \<open>The caller goes on, with the same pools.\<close>

lemma shape_client:
  assumes "shape w0 s" and "c = CClose \<longleftrightarrow> ay_client s = CClose"
  shows "shape w0 (s\<lparr>ay_client := c\<rparr>)" "shape w0 (s\<lparr>ay_client := c, ay_log := l\<rparr>)"
proof -
  note S = shapeD [OF assms(1)]
  have "closing c (ay_w s) (ay_workers s) (ay_in s) (ay_out s)" using S(9) assms(2) unfolding closing_def by metis
  with S show "shape w0 (s\<lparr>ay_client := c\<rparr>)" "shape w0 (s\<lparr>ay_client := c, ay_log := l\<rparr>)" by (simp_all add: shape_def quiet_def)
qed

lemma shape_writer:
  assumes "shape w0 s" and "async_conf w0 w" and "w_idx w = w_idx (ay_w s)" and "w_closed w = w_closed (ay_w s)"
    and "w_closed w \<Longrightarrow> w_pipe w = None"
  shows "shape w0 (s\<lparr>ay_w := w\<rparr>)"
proof -
  note S = shapeD [OF assms(1)]
  have "closing (ay_client s) w (ay_workers s) (ay_in s) (ay_out s)" using S(9) assms(3-5) unfolding closing_def by metis
  with S assms(2,3) show ?thesis by (simp add: shape_def quiet_def)
qed

text \<open>The delivering routine goes on at the same place.\<close>

lemma shape_deliverer:
  assumes "shape w0 s" and "healthy d" and "dpos d = dpos (ay_deliverer s)" and "dpipe d = dpipe (ay_deliverer s)"
    and "dlast d \<Longrightarrow> pp_closed (ay_out s) \<and> dpos d \<notin> fst ` ready_set (ay_out s)"
  shows "shape w0 (s\<lparr>ay_deliverer := d\<rparr>)"
proof -
  note S = shapeD [OF assms(1)]
  have "delivers (w_idx (ay_w s)) d (ay_out s)" using S(8) assms(2-5) unfolding delivers_def by metis
  with S assms(3) show ?thesis by (simp add: shape_def quiet_def)
qed

section \<open>Steps that move pipes\<close>

lemma workers_holdD:
  assumes "workers_hold W pin"
  shows "t < length W \<Longrightarrow> kin (W ! t) = Some a \<Longrightarrow> (pi_idx (pp_heap pin ! a), a) \<in> active_set pin"
    and "t < length W \<Longrightarrow> t' < length W \<Longrightarrow> kin (W ! t) = Some a \<Longrightarrow> kin (W ! t') = Some a \<Longrightarrow> t = t'"
    and "held W pin" and "(i, a) \<in> active_set pin \<Longrightarrow> \<exists>t < length W. kin (W ! t) = Some a"
  using assms unfolding workers_hold_def held_def by blast+

text \<open>A worker takes an input.\<close>

lemma shape_take_in:
  assumes S: "shape w0 s" and t: "t < length (ay_workers s)" "kin (ay_workers s ! t) = None"
    and pp: "pool_ok pp" "(k, a) \<in> ready_set (ay_in s)" "ready_set pp = ready_set (ay_in s) - {(k, a)}"
      "active_set pp = insert (k, a) (active_set (ay_in s))" "indexes pp = indexes (ay_in s)" "pp_heap pp = pp_heap (ay_in s)"
      "pp_closed pp = pp_closed (ay_in s)"
  shows "shape w0 (set_worker t (KOut a) (s\<lparr>ay_in := pp\<rparr>))"
proof -
  note S = shapeD [OF S]
  let ?W = "ay_workers s" let ?W' = "?W[t := KOut a]"
  note cells = pool_cells [OF S(3)]
  have k: "pi_idx (pp_heap (ay_in s) ! a) = k" using cells(1) pp(2) by blast
  have free: "kin (?W ! u) \<noteq> Some a" if "u < length ?W" for u
    using workers_holdD(1) [OF S(6) that] cells(3) [OF pp(2)] by blast
  have "held ?W' pp" by (rule held_update [OF workers_holdD(3) [OF S(6)] t(1)]) (use pp(4) t(2) in auto)
  then have "workers_hold ?W' pp"
    using S(6) t pp(4,6) k free unfolding workers_hold_def by (auto simp: nth_list_update)
  moreover have un: "unstarted ?W' pp = unstarted ?W (ay_in s)"
  proof -
    have "kpend (?W ! t) = None" using t(2) kinds(1) by (metis option.exhaust)
    then have p: "pends ?W' = insert a (pends ?W)" by (rule_tac pends_split [OF t(1)]) simp
    have "fst ` ready_set (ay_in s) = insert k (fst ` ready_set pp)" using pp(2,3) by force
    then show ?thesis unfolding unstarted_def p pp(6) using k by auto
  qed
  moreover have "placed (w_idx (ay_w s)) (dpos (ay_deliverer s)) ?W' pp (ay_out s)"
    using S(7) unfolding placed_def un pp(5) .
  moreover have "closing (ay_client s) (ay_w s) ?W' pp (ay_out s)"
    using S(9) t(1) pp(2,7) unfolding closing_def by (auto simp: nth_list_update)
  ultimately show ?thesis using S pp(1) by (simp add: shape_def set_worker_def quiet_def)
qed

text \<open>A worker takes an output.\<close>

lemma shape_take_out:
  assumes S: "shape w0 s" and t: "t < length (ay_workers s)" "kpend (ay_workers s ! t) = Some a"
    and i: "i = pi_idx (pp_heap (ay_in s) ! a)"
    and pp: "pool_ok pp" "indexes pp \<subseteq> insert i (indexes (ay_out s))" "ready_set pp = insert (i, b) (ready_set (ay_out s))"
      "active_set pp = active_set (ay_out s)" "\<not> pp_closed (ay_out s)" "\<not> pp_closed pp"
  shows "shape w0 (set_worker t (KEnc a b) (s\<lparr>ay_out := pp\<rparr>))"
proof -
  note S = shapeD [OF S]
  let ?W = "ay_workers s" let ?W' = "?W[t := KEnc a b]"
  have a: "kin (?W ! t) = Some a" using t(2) by (rule kinds(1))
  have act: "(i, a) \<in> active_set (ay_in s)" using workers_holdD(1) [OF S(6) t(1) a] i by simp
  have "held ?W' (ay_in s)" by (rule held_update [OF workers_holdD(3) [OF S(6)] t(1)]) (use a in auto)
  then have hold: "workers_hold ?W' (ay_in s)"
    using S(6) t(1) a unfolding workers_hold_def by (auto simp: nth_list_update)
  have un: "unstarted ?W' (ay_in s) = unstarted ?W (ay_in s) - {i}"
  proof -
    have "i \<notin> fst ` ready_set (ay_in s)" using pool_cells(3) [OF S(3) _ act] by fastforce
    moreover have "pi_idx (pp_heap (ay_in s) ! c) \<noteq> i" if u: "u < length ?W" "u \<noteq> t" "kpend (?W ! u) = Some c" for u c
    proof
      assume "pi_idx (pp_heap (ay_in s) ! c) = i"
      moreover have c: "kin (?W ! u) = Some c" using u(3) by (rule kinds(1))
      ultimately have "c = a" using pool_cells(2) [OF S(3), of i c i a] workers_holdD(1) [OF S(6) u(1) c] act by blast
      with workers_holdD(2) [OF S(6) u(1) t(1)] c a u(2) show False by blast
    qed
    moreover obtain R where R: "pends ?W = insert a R" "pends ?W' = R"
      "\<And>c. c \<in> R \<Longrightarrow> \<exists>u < length ?W. u \<noteq> t \<and> kpend (?W ! u) = Some c"
      by (rule pends_split [OF t(1)]) (use t(2) in simp)
    ultimately have "i \<notin> (\<lambda>c. pi_idx (pp_heap (ay_in s) ! c)) ` R" by blast
    with \<open>i \<notin> fst ` ready_set (ay_in s)\<close> show ?thesis unfolding unstarted_def R using i by auto
  qed
  have "i \<in> indexes (ay_in s)" using pool_cells(1) [OF S(3), of i a] act by blast
  moreover have "i \<in> unstarted ?W (ay_in s)" using t i by (auto simp: unstarted_def pends_def)
  ultimately have "placed (w_idx (ay_w s)) (dpos (ay_deliverer s)) ?W' (ay_in s) pp"
    using S(7) pp(2-4) unfolding placed_def un by auto
  moreover have "closing (ay_client s) (ay_w s) ?W' (ay_in s) pp"
    using S(9) t(1) pp(5,6) unfolding closing_def by (auto simp: nth_list_update)
  moreover have "delivers (w_idx (ay_w s)) (ay_deliverer s) pp"
    using S(8) pp(4,5) unfolding delivers_def by auto
  ultimately show ?thesis using S pp(1) hold by (simp add: shape_def set_worker_def quiet_def)
qed

text \<open>A worker gives its input back.\<close>

lemma shape_restore_in:
  assumes S: "shape w0 s" and t: "t < length (ay_workers s)" "ay_workers s ! t = KRest a"
    and pp: "pool_ok pp" "active_set pp = active_set (ay_in s) - {(pi_idx (pp_heap (ay_in s) ! a), a)}" "ready_set pp = ready_set (ay_in s)"
      "indexes pp \<subseteq> indexes (ay_in s)" "pp_closed pp = pp_closed (ay_in s)" "pp_heap pp = close_pipe B a (pp_heap (ay_in s))"
  shows "shape w0 (set_worker t KSel (s\<lparr>ay_in := pp\<rparr>))"
proof -
  note S = shapeD [OF S]
  let ?W = "ay_workers s" let ?W' = "?W[t := KSel]"
  have a: "kin (?W ! t) = Some a" using t(2) by simp
  have "kin (?W ! u) \<noteq> Some a" if "u < length ?W" "u \<noteq> t" for u
    using workers_holdD(2) [OF S(6) that(1) t(1) _ a] that(2) by blast
  moreover have "held ?W' pp"
    by (rule held_update [OF workers_holdD(3) [OF S(6)] t(1)]) (use a pp(2) pool_cells(1) [OF S(3)] in auto)
  ultimately have hold: "workers_hold ?W' pp"
    using S(6) t(1) pp(2,6) unfolding workers_hold_def by (auto simp: nth_list_update)
  have un: "unstarted ?W' pp = unstarted ?W (ay_in s)"
    using t pp(3,6) by (simp add: unstarted_def pends_update)
  have "placed (w_idx (ay_w s)) (dpos (ay_deliverer s)) ?W' pp (ay_out s)"
    using S(7) pp(4) unfolding placed_def un by auto
  moreover have "closing (ay_client s) (ay_w s) ?W' pp (ay_out s)"
    using S(9) t pp(3,5) unfolding closing_def by (auto simp: nth_list_update)
  ultimately show ?thesis using S pp(1) hold by (simp add: shape_def set_worker_def quiet_def)
qed

text \<open>The delivering routine takes the pipe of its index, or there is none.\<close>

lemma shape_deliver_take:
  assumes S: "shape w0 s" and d: "dpos (ay_deliverer s) = k" "dpipe (ay_deliverer s) = None"
    and pp: "pool_ok pp" "(k, b) \<in> ready_set (ay_out s)" "ready_set pp = ready_set (ay_out s) - {(k, b)}"
      "active_set pp = insert (k, b) (active_set (ay_out s))" "indexes pp = indexes (ay_out s)" "pp_closed pp = pp_closed (ay_out s)"
  shows "shape w0 (s\<lparr>ay_out := pp, ay_deliverer := TOut b (k + 1)\<rparr>)"
proof -
  note S = shapeD [OF S]
  have "ready_set pp \<union> active_set pp = ready_set (ay_out s) \<union> active_set (ay_out s)" using pp(2-4) by auto
  moreover have "fst ` ready_set pp \<subseteq> fst ` ready_set (ay_out s)" using pp(3) by auto
  ultimately have "placed (w_idx (ay_w s)) k (ay_workers s) (ay_in s) pp"
    using S(7) pp(5) d(1) unfolding placed_def by (metis UnE UnI1 UnI2 subsetD)
  moreover have "delivers (w_idx (ay_w s)) (TOut b (k + 1)) pp" using S(8) d pp(4) by (simp add: delivers_def)
  moreover have "closing (ay_client s) (ay_w s) (ay_workers s) (ay_in s) pp" using S(9) pp(6) unfolding closing_def by metis
  ultimately show ?thesis using S pp(1) by (simp add: shape_def quiet_def)
qed

lemma shape_deliver_end:
  assumes S: "shape w0 s" and d: "dpos (ay_deliverer s) = k" "dpipe (ay_deliverer s) = None"
    and pp: "pool_same (ay_out s) pp" "pp_closed (ay_out s)" "k \<notin> fst ` ready_set (ay_out s)"
  shows "shape w0 (s\<lparr>ay_out := pp, ay_deliverer := TLast (k + 1)\<rparr>)"
proof -
  have S1: "shape w0 (s\<lparr>ay_out := pp\<rparr>)" using shape_pools [OF S pool_like_refl, of pp] pp(1) by (simp add: pool_same_def)
  have "pp_closed pp" "k \<notin> fst ` ready_set pp" using pp by (simp_all add: pool_same_def pool_like_def)
  then show ?thesis using shape_deliverer [OF S1, of "TLast (k + 1)"] d by simp
qed

text \<open>It gives its pipe back and goes on to the next index.\<close>

lemma shape_deliver_restore:
  assumes S: "shape w0 s" and d: "ay_deliverer s = TRest b k None None"
    and pp: "pool_ok pp" "active_set pp = active_set (ay_out s) - {(k - 1, b)}" "ready_set pp = ready_set (ay_out s)"
      "indexes pp \<subseteq> indexes (ay_out s)" "pp_closed pp = pp_closed (ay_out s)"
  shows "shape w0 (s\<lparr>ay_out := pp, ay_deliverer := TGet k\<rparr>)"
proof -
  note S = shapeD [OF S]
  have act: "active_set (ay_out s) = {(k - 1, b)}" "1 \<le> k" using S(8) d by (simp_all add: delivers_def)
  then have "k - 1 \<in> indexes (ay_out s)" using pool_cells(1) [OF S(4), of "k - 1" b] by blast
  then have k: "k \<le> w_idx (ay_w s)" using S(7) by (force simp: placed_def)
  have "placed (w_idx (ay_w s)) k (ay_workers s) (ay_in s) pp"
  proof -
    have "{0..<k - 1} \<union> fst ` (ready_set (ay_out s) \<union> active_set (ay_out s)) \<subseteq> {0..<k} \<union> fst ` (ready_set pp \<union> active_set pp)"
      using pp(3) act by auto
    moreover have P: "{0..<w_idx (ay_w s)} \<subseteq> {0..<k - 1} \<union> unstarted (ay_workers s) (ay_in s) \<union> fst ` (ready_set (ay_out s) \<union> active_set (ay_out s))"
      "indexes (ay_in s) \<subseteq> {0..<w_idx (ay_w s)}" "indexes (ay_out s) \<subseteq> {0..<w_idx (ay_w s)} - unstarted (ay_workers s) (ay_in s)"
      using S(7) d by (simp_all add: placed_def)
    moreover have cover: "X \<subseteq> B \<union> U \<union> G" if "A \<union> F \<subseteq> B \<union> G" "X \<subseteq> A \<union> U \<union> F" for X A B F G U :: "int set"
      using that by blast
    ultimately have "{0..<w_idx (ay_w s)} \<subseteq> {0..<k} \<union> unstarted (ay_workers s) (ay_in s) \<union> fst ` (ready_set pp \<union> active_set pp)"
      by (intro cover [OF _ P(1)])
    moreover have "k \<le> i" if mem: "i \<in> unstarted (ay_workers s) (ay_in s) \<union> fst ` ready_set pp" for i
    proof -
      have "k - 1 \<le> i" using S(7) d pp(3) mem by (simp add: placed_def)
      moreover have "i \<noteq> k - 1"
      proof
        assume i: "i = k - 1"
        have "k - 1 \<in> indexes (ay_out s)" using pool_cells(1) [OF S(4), of "k - 1" b] act by blast
        then have "i \<notin> unstarted (ay_workers s) (ay_in s)" using P(3) i by blast
        then obtain c where "(k - 1, c) \<in> ready_set (ay_out s)" using mem i pp(3) by auto
        then show False using pool_cells(3) [OF S(4), of "k - 1" c "k - 1" b] act by simp
      qed
      ultimately show ?thesis by simp
    qed
    ultimately show ?thesis using P(2,3) pp(4) unfolding placed_def by (meson subset_trans)
  qed
  moreover have "delivers (w_idx (ay_w s)) (TGet k) pp" using act k pp(2) by (simp add: delivers_def)
  moreover have "closing (ay_client s) (ay_w s) (ay_workers s) (ay_in s) pp" using S(9) pp(5) unfolding closing_def by metis
  ultimately show ?thesis using S pp(1) by (simp add: shape_def quiet_def)
qed

text \<open>The caller takes a pipe for the next chunk.\<close>

lemma shape_client_take:
  assumes S: "shape w0 s" and c: "ay_client s \<noteq> CClose" "c \<noteq> CClose"
    and pp: "pool_ok pp" "indexes pp \<subseteq> insert (w_idx (ay_w s)) (indexes (ay_in s))" "ready_set pp = insert (w_idx (ay_w s), a) (ready_set (ay_in s))"
      "active_set pp = active_set (ay_in s)" "\<not> pp_closed (ay_in s)" "\<not> pp_closed pp"
      "\<And>j b. (j, b) \<in> ready_set (ay_in s) \<union> active_set (ay_in s) \<Longrightarrow> pp_heap pp ! b = pp_heap (ay_in s) ! b"
  shows "shape w0 (s\<lparr>ay_in := pp, ay_w := (ay_w s)\<lparr>w_pipe := Some a, w_idx := w_idx (ay_w s) + 1\<rparr>, ay_client := c\<rparr>)"
proof -
  note S = shapeD [OF S]
  let ?W = "ay_workers s"
  have same: "pi_idx (pp_heap pp ! b) = pi_idx (pp_heap (ay_in s) ! b)" if "t < length ?W" "kin (?W ! t) = Some b" for t b
    using pp(7) workers_holdD(1) [OF S(6) that] by (metis UnCI)
  have "held ?W pp" using workers_holdD(3) [OF S(6)] pp(4) by (simp add: held_def)
  then have hold: "workers_hold ?W pp" using S(6) same pp(4) unfolding workers_hold_def by metis
  have "(\<lambda>a. pi_idx (pp_heap pp ! a)) ` pends ?W = (\<lambda>a. pi_idx (pp_heap (ay_in s) ! a)) ` pends ?W"
    by (rule image_cong) (auto simp: pends_def dest: kinds(1) same)
  then have un: "unstarted ?W pp = insert (w_idx (ay_w s)) (unstarted ?W (ay_in s))" using pp(3) by (simp add: unstarted_def)
  have "{0..<w_idx (ay_w s) + 1} = insert (w_idx (ay_w s)) {0..<w_idx (ay_w s)}" using S(5) by auto
  then have "placed (w_idx (ay_w s) + 1) (dpos (ay_deliverer s)) ?W pp (ay_out s)"
    using S(7,8) pp(2) unfolding placed_def un delivers_def by auto
  moreover have "closing c ((ay_w s)\<lparr>w_pipe := Some a, w_idx := w_idx (ay_w s) + 1\<rparr>) ?W pp (ay_out s)"
    using S(9) c pp(5,6) unfolding closing_def by auto
  moreover have "delivers (w_idx (ay_w s) + 1) (ay_deliverer s) (ay_out s)" using S(8) by (simp add: delivers_def)
  moreover have "async_conf w0 ((ay_w s)\<lparr>w_pipe := Some a, w_idx := w_idx (ay_w s) + 1\<rparr>)" using S(2) by (simp add: async_conf_def)
  ultimately show ?thesis using S pp(1) hold by (simp add: shape_def quiet_def)
qed

text \<open>\<open>Close\<close>.\<close>

lemma shape_close:
  assumes S: "shape w0 s" and c: "\<not> w_closed (ay_w s)" and pp: "pool_like (ay_in s) pp"
  shows "shape w0 (s\<lparr>ay_in := pp\<lparr>pp_closed := True\<rparr>, ay_w := (ay_w s)\<lparr>w_closed := True, w_pipe := None\<rparr>, ay_client := CClose\<rparr>)"
proof -
  note S = shapeD [OF S]
  let ?in = "pp\<lparr>pp_closed := True\<rparr>"
  have ok: "pool_ok ?in" using S(3) pp by (intro pool_ok_frame(5)) (simp add: pool_like_def)
  have hold: "workers_hold (ay_workers s) ?in" using workers_hold_like [OF S(6) pp] by (simp add: workers_hold_def held_def)
  have pl: "placed (w_idx (ay_w s)) (dpos (ay_deliverer s)) (ay_workers s) ?in (ay_out s)"
    using placed_like [OF S(7) pp pool_like_refl] by (simp add: placed_def unstarted_def indexes_def entries_def)
  have "\<not> pp_closed (ay_in s)" using S(9) c by (simp add: closing_def)
  then have "closing CClose ((ay_w s)\<lparr>w_closed := True, w_pipe := None\<rparr>) (ay_workers s) ?in (ay_out s)"
    using S(9) by (auto simp: closing_def)
  moreover have "async_conf w0 ((ay_w s)\<lparr>w_closed := True, w_pipe := None\<rparr>)" using S(2) by (simp add: async_conf_def)
  ultimately show ?thesis using S ok hold pl by (simp add: shape_def quiet_def)
qed

section \<open>The monitors\<close>

lemma shape_ended:
  assumes S: "shape w0 s" and run: "ended_step s = Some (Ret s')"
  shows "shape w0 s'"
proof -
  note S = shapeD [OF S]
  from run have all: "wk_monitor (ay_work s)" "\<And>t. t < length (ay_workers s) \<Longrightarrow> ay_workers s ! t = KEnd"
    and s': "s' = s\<lparr>ay_out := (ay_out s)\<lparr>pp_closed := True\<rparr>, ay_ended := True\<rparr>"
    by (auto simp: ended_step_def pool_close_def split: if_splits)
  have "length (ay_workers s) \<noteq> 0" using S(10) all(1) by (auto simp: monitors_def workers_ok_def)
  then have "\<exists>t < length (ay_workers s). ay_workers s ! t = KEnd" using all(2) by blast
  then have "pp_closed (ay_in s) \<and> ready_set (ay_in s) = {}" using S(9) unfolding closing_def by blast
  then have "closing (ay_client s) (ay_w s) (ay_workers s) (ay_in s) ((ay_out s)\<lparr>pp_closed := True\<rparr>)"
    using S(9) all(2) unfolding closing_def by auto
  moreover have "placed (w_idx (ay_w s)) (dpos (ay_deliverer s)) (ay_workers s) (ay_in s) ((ay_out s)\<lparr>pp_closed := True\<rparr>)"
    using S(7) by (simp add: placed_def indexes_def entries_def)
  ultimately show ?thesis
    using S pool_ok_frame(5) [OF S(4)] by (simp add: s' shape_def quiet_def delivers_def)
qed

text \<open>Setting a capacity that is not below the number of workers starts the missing ones.\<close>

lemma worker_grow:
  assumes "workers_ok wp" and "\<not> wk_closed wp" and "wk_killed wp = {}" and "int (wk_spawned wp) \<le> cnt"
    and "worker_setCapacity cnt wp = Ret wp'"
  shows "workers_ok wp'" "\<not> wk_closed wp'" "wk_killed wp' = {}" "int (wk_spawned wp') = cnt"
proof -
  have len: "length (wk_workers v) = wk_spawned v" if "workers_ok v" "wk_killed v = {}" for v
    using that distinct_card [of "wk_workers v"] by (simp add: workers_ok_def)
  let ?wp = "worker_spawn cnt wp"
  from worker_spawn_spec [OF assms(1), of cnt] assms(2,3,4) len [OF assms(1,3)]
  have sp: "workers_ok ?wp" "wk_killed ?wp = {}" "\<not> wk_closed ?wp" "int (length (wk_workers ?wp)) = cnt" by auto
  have "worker_kill cnt ?wp = Ret ?wp" by (subst worker_kill.simps) (simp add: sp(4))
  with assms(2,5) have "wp' = ?wp" by (simp add: worker_setCapacity_def)
  with sp len [OF sp(1,2)] show "workers_ok wp'" "\<not> wk_closed wp'" "wk_killed wp' = {}" "int (wk_spawned wp') = cnt" by simp_all
qed

lemma shape_monitor:
  assumes S: "shape w0 s" and run: "monitor_step B s = Some (Ret s')"
  shows "shape w0 s' \<and> (\<exists>pin pout l. pool_same (ay_in s) pin \<and> pool_same (ay_out s) pout \<and>
    s' = s\<lparr>ay_in := pin, ay_out := pout, ay_work := ay_work s', ay_workers := ay_workers s @ replicate l KGet, ay_monitor := ay_monitor s'\<rparr>)"
proof -
  note Sd = shapeD [OF S]
  from Sd(10) obtain caps where caps: "ay_monitor s = caps @ [AwaitDone, TermWork, TermOut, TermIn]" "\<forall>c \<in> set caps. is_cap c"
    "sorted (int (length (ay_workers s)) # cap_chores caps)"
    and wk: "workers_ok (ay_work s)" "\<not> wk_closed (ay_work s)" "wk_killed (ay_work s) = {}" "wk_spawned (ay_work s) = length (ay_workers s)"
    by (auto simp: monitors_def)
  have "caps \<noteq> []" using run caps(1) Sd(1) by (auto simp: monitor_step_def quiet_def)
  then obtain c rest where c: "caps = c # rest" by (cases caps) auto
  have mon: "monitors (rest @ [AwaitDone, TermWork, TermOut, TermIn]) (ay_work s) (length (ay_workers s))"
    if "sorted (int (length (ay_workers s)) # cap_chores rest)"
    using that wk caps(2) c unfolding monitors_def by auto
  show ?thesis
  proof (cases c)
    case (CapIn n)
    let ?in = "(ay_in s)\<lparr>pp_cap := n\<rparr>"
    have s': "s' = s\<lparr>ay_monitor := rest @ [AwaitDone, TermWork, TermOut, TermIn], ay_in := ?in\<rparr>"
      using run caps(1) c CapIn by (auto simp: monitor_step_def setCapacity_def)
    have "shape w0 (s\<lparr>ay_in := ?in\<rparr>)" using shape_pools [OF S _ pool_like_refl, of ?in] by (simp add: pool_same_def [symmetric] pool_like_def pool_ok_frame)
    moreover have "sorted (int (length (ay_workers s)) # cap_chores rest)" using caps(3) c CapIn by simp
    ultimately have "shape w0 s'" using mon by (simp add: s' shape_def quiet_def)
    then show ?thesis using s' by - (rule conjI, assumption, rule exI [of _ ?in], rule exI [of _ "ay_out s"], rule exI [of _ 0], simp)
  next
    case (CapOut n)
    let ?out = "(ay_out s)\<lparr>pp_cap := n\<rparr>"
    have s': "s' = s\<lparr>ay_monitor := rest @ [AwaitDone, TermWork, TermOut, TermIn], ay_out := ?out\<rparr>"
      using run caps(1) c CapOut by (auto simp: monitor_step_def setCapacity_def)
    have "shape w0 (s\<lparr>ay_out := ?out\<rparr>)" using shape_pools [OF S pool_like_refl, of ?out] by (simp add: pool_like_def pool_ok_frame)
    moreover have "sorted (int (length (ay_workers s)) # cap_chores rest)" using caps(3) c CapOut by simp
    ultimately have "shape w0 s'" using mon by (simp add: s' shape_def quiet_def)
    then show ?thesis using s' by - (rule conjI, assumption, rule exI [of _ "ay_in s"], rule exI [of _ ?out], rule exI [of _ 0], simp)
  next
    case (CapWork n)
    from run caps(1) c CapWork obtain wp where wp: "worker_setCapacity n (ay_work s) = Ret wp"
      and s': "s' = s\<lparr>ay_monitor := rest @ [AwaitDone, TermWork, TermOut, TermIn], ay_work := wp,
        ay_workers := ay_workers s @ replicate (wk_spawned wp - wk_spawned (ay_work s)) KGet\<rparr>"
      by (auto simp: monitor_step_def gobind_eq_Ret)
    have n: "int (length (ay_workers s)) \<le> n" "sorted (n # cap_chores rest)" using caps(3) c CapWork by simp_all
    from worker_grow [OF wk(1-3) _ wp] wk(4) n(1)
    have g: "workers_ok wp" "\<not> wk_closed wp" "wk_killed wp = {}" "int (wk_spawned wp) = n" by simp_all
    define l where "l = wk_spawned wp - wk_spawned (ay_work s)"
    let ?W = "ay_workers s @ replicate l KGet"
    have W: "length ?W = wk_spawned wp" using g(4) n(1) wk(4) by (simp add: l_def)
    have new: "?W ! t = (if t < length (ay_workers s) then ay_workers s ! t else KGet)" if "t < length ?W" for t
      using that by (auto simp: nth_append)
    have "held ?W (ay_in s)" using workers_holdD(3) [OF Sd(6)] unfolding held_def by (fastforce simp: nth_append)
    then have "workers_hold ?W (ay_in s)" using Sd(6) unfolding workers_hold_def by (auto simp: new split: if_splits)
    moreover have "kpend (?W ! t) = Some a \<and> t < length ?W \<longleftrightarrow> kpend (ay_workers s ! t) = Some a \<and> t < length (ay_workers s)" for t a
      using new [of t] by (cases "t < length (ay_workers s)") auto
    then have "pends ?W = pends (ay_workers s)" unfolding pends_def by blast
    then have "placed (w_idx (ay_w s)) (dpos (ay_deliverer s)) ?W (ay_in s) (ay_out s)"
      using Sd(7) by (simp add: placed_def unstarted_def)
    moreover have "closing (ay_client s) (ay_w s) ?W (ay_in s) (ay_out s)"
      using Sd(9) unfolding closing_def by (auto simp: new split: if_splits)
    moreover have "monitors (rest @ [AwaitDone, TermWork, TermOut, TermIn]) wp (length ?W)"
      using g caps(2) c n(2) W unfolding monitors_def by auto
    ultimately have "shape w0 s'" using Sd by (simp add: s' shape_def quiet_def l_def)
    then show ?thesis using s' by - (rule conjI, assumption, rule exI [of _ "ay_in s"], rule exI [of _ "ay_out s"], rule exI [of _ l], simp add: l_def)
  qed (use caps(2) c in \<open>simp_all add: is_cap_def\<close>)
qed

end
