(* ===== verification/Xz_Async_Data.thy ===== *)
theory Xz_Async_Data
  imports Xz_Async_Inv
begin

text \<open>
  What the pipes of the parallel writer hold: each input its chunk, each output the block of its chunk,
  while the underlying writer has received the blocks of the chunks delivered so far, in order.
\<close>

section \<open>The data taken from the caller\<close>

definition writing :: "client \<Rightarrow> bytes" where
  "writing c = (case c of CWrite d k \<Rightarrow> take (nat k) d | CPark d k \<Rightarrow> take (nat k) d | CFail d k \<Rightarrow> take (nat k) d | _ \<Rightarrow> [])"

text \<open>The bytes that calls of \<open>Write\<close> have taken so far, the running call included.\<close>

definition taken :: "('z, 'x, 'p, 'w) asys \<Rightarrow> bytes" where
  "taken s = concat (map (\<lambda>(d, k, _). take (nat k) d) (ay_log s)) @ writing (ay_client s)"

section \<open>The content of the pipes\<close>

text \<open>An input pipe with the chunk \<open>c\<close>, of which \<open>l\<close> bytes are consumed; it is open while the caller fills it.\<close>

definition chunk_pipe :: "('p \<Rightarrow> lpipe option) \<Rightarrow> nat \<Rightarrow> bytes \<Rightarrow> bool \<Rightarrow> nat \<Rightarrow> 'p \<Rightarrow> bool" where
  "chunk_pipe lin n c opn l p \<longleftrightarrow>
     (\<exists>q. lin p = Some q \<and> lp_mode q = LineDual \<and> length (lp_buf q) = n \<and> lp_hi q = length c \<and> take (lp_hi q) (lp_buf q) = c \<and>
        (lp_closed q \<longleftrightarrow> \<not> opn) \<and> lp_lo q = l)"

definition widx :: "('z, 'x, 'p, 'w) asys \<Rightarrow> nat \<Rightarrow> nat" where
  "widx s a = nat (pi_idx (pp_heap (ay_in s) ! a))"

definition in_chunk :: "('p \<Rightarrow> lpipe option) \<Rightarrow> nat \<Rightarrow> bytes list \<Rightarrow> ('z, 'x, 'p, 'w) asys \<Rightarrow> nat \<Rightarrow> nat \<Rightarrow> bool" where
  "in_chunk lin n cs s a l \<longleftrightarrow> chunk_pipe lin n (cs ! widx s a) (w_pipe (ay_w s) = Some a) l (in_pipe s a)"

text \<open>An output pipe with what the coder made of \<open>inp\<close>, after the hole for the header.\<close>

definition encoding ::
  "('z, 'x) liblzma \<Rightarrow> ('p \<Rightarrow> lpipe option) \<Rightarrow> ('z, 'x, 'p, 'w) Writer \<Rightarrow> 'p \<Rightarrow> Block \<Rightarrow> int \<Rightarrow> 'z \<Rightarrow> bytes \<Rightarrow> bool" where
  "encoding L lin w0 p block headerSize c inp \<longleftrightarrow>
     (\<exists>c0 hs hole out. opened L w0 block headerSize c0 hs \<and> coder_run L RUN c0 inp out c \<and> length hole = hs \<and>
        holds_block lin (nat (w_maxSize w0)) p (hole @ out))"

text \<open>The sizes and the bytes of a finished block.\<close>

definition block_data ::
  "errs \<Rightarrow> ('z, 'x) liblzma \<Rightarrow> ('z, 'x, 'p, 'w) Writer \<Rightarrow> bytes \<Rightarrow> bytes \<Rightarrow> sizeStats option \<Rightarrow> bool" where
  "block_data E L w0 c blk d \<longleftrightarrow>
     (\<exists>u v. d = Some \<lparr>ss_unpadSize = u, ss_uncompSize = v\<rparr> \<and> u \<noteq> 0 \<and> block_of E L w0 c blk (u, v))"

fun worker_data ::
  "errs \<Rightarrow> ('z, 'x) liblzma \<Rightarrow> ('p \<Rightarrow> lpipe option) \<Rightarrow> nat \<Rightarrow> ('z, 'x, 'p, 'w) Writer \<Rightarrow> bytes list \<Rightarrow>
   ('z, 'x, 'p, 'w) asys \<Rightarrow> ('z, 'p) worker \<Rightarrow> bool" where
  "worker_data E L lin n w0 cs s (KOut a) = in_chunk lin n cs s a 0"
| "worker_data E L lin n w0 cs s (KOutP a) = in_chunk lin n cs s a 0"
| "worker_data E L lin n w0 cs s (KEnc a b) = (in_chunk lin n cs s a 0 \<and> holds_block lin (nat (w_maxSize w0)) (out_pipe s b) [])"
| "worker_data E L lin n w0 cs s (KRun a b block headerSize z) =
     (\<exists>inp. encoding L lin w0 (out_pipe s b) block headerSize (st_coder z) inp \<and> in_chunk lin n cs s a (length inp) \<and>
        prefix inp (cs ! widx s a))"
| "worker_data E L lin n w0 cs s (KFin a b block headerSize z err) =
     (\<exists>inp l. encoding L lin w0 (out_pipe s b) block headerSize (st_coder z) inp \<and> in_chunk lin n cs s a l \<and>
        (err = Some EOF \<and> inp = cs ! widx s a \<and> w_pipe (ay_w s) \<noteq> Some a \<or> code_error L RUN (st_coder z) err))"
| "worker_data E L lin n w0 cs s (KClose a b err) =
     (err = None \<and> lin (in_pipe s a) \<noteq> None \<and> w_pipe (ay_w s) \<noteq> Some a \<and>
      (\<exists>blk. holds_block lin (nat (w_maxSize w0)) (out_pipe s b) blk \<and>
         block_data E L w0 (cs ! widx s a) blk (pi_data (pp_heap (ay_out s) ! b))))"
| "worker_data E L lin n w0 cs s (KRest a) = (lin (in_pipe s a) \<noteq> None \<and> w_pipe (ay_w s) \<noteq> Some a)"
| "worker_data E L lin n w0 cs s KGet = True"
| "worker_data E L lin n w0 cs s KGetP = True"
| "worker_data E L lin n w0 cs s KSel = True"
| "worker_data E L lin n w0 cs s KEnd = True"

lemma worker_data_cong:
  assumes "\<And>a. kin k = Some a \<Longrightarrow> pp_heap (ay_in s') ! a = pp_heap (ay_in s) ! a"
    and "\<And>b. kout k = Some b \<Longrightarrow> pp_heap (ay_out s') ! b = pp_heap (ay_out s) ! b"
    and "w_pipe (ay_w s') = w_pipe (ay_w s)"
  shows "worker_data E L lin n w0 cs s' k = worker_data E L lin n w0 cs s k"
  using assms by (cases k) (simp_all add: in_chunk_def widx_def in_pipe_def out_pipe_def)

definition done_data :: "errs \<Rightarrow> ('z, 'x) liblzma \<Rightarrow> ('p \<Rightarrow> lpipe option) \<Rightarrow> ('z, 'x, 'p, 'w) Writer \<Rightarrow> bytes \<Rightarrow> ('p, sizeStats) pipe \<Rightarrow> bool" where
  "done_data E L lin w0 c cell \<longleftrightarrow>
     (\<exists>q. lin (pi_pipe cell) = Some q \<and> lp_closed q \<and> block_data E L w0 c (mono_data q) (pi_data cell))"

text \<open>The pipe the delivering routine has read.\<close>

fun dread :: "deliverer \<Rightarrow> nat option" where
  "dread (TIdx b k e) = Some b"
| "dread (TRest b k e e') = Some b"
| "dread _ = None"

fun deliver_data ::
  "errs \<Rightarrow> ('z, 'x) liblzma \<Rightarrow> ('p \<Rightarrow> lpipe option) \<Rightarrow> ('w \<Rightarrow> bytes) \<Rightarrow> ('z, 'x, 'p, 'w) Writer \<Rightarrow> bytes list \<Rightarrow>
   ('z, 'x, 'p, 'w) Writer \<Rightarrow> ('p, sizeStats) pipePool \<Rightarrow> deliverer \<Rightarrow> bool" where
  "deliver_data E L lin got w0 cs w pout (TIdx b k e) =
     (lin (pi_pipe (pp_heap pout ! b)) \<noteq> None \<and>
      (\<exists>blks blk. blocks_of E L w0 (w_index w0) (take (nat (k - 1)) cs) blks (w_index w) \<and>
         block_data E L w0 (cs ! nat (k - 1)) blk (pi_data (pp_heap pout ! b)) \<and> got (w_wr w) = got (w_wr w0) @ concat blks @ blk))"
| "deliver_data E L lin got w0 cs w pout (TRest b k e e') =
     (lin (pi_pipe (pp_heap pout ! b)) \<noteq> None \<and>
      (\<exists>blks. blocks_of E L w0 (w_index w0) (take (nat k) cs) blks (w_index w) \<and> got (w_wr w) = got (w_wr w0) @ concat blks))"
| "deliver_data E L lin got w0 cs w pout d =
     (\<exists>blks. blocks_of E L w0 (w_index w0) (take (nat (dpos d)) cs) blks (w_index w) \<and> got (w_wr w) = got (w_wr w0) @ concat blks)"

section \<open>The invariant\<close>

definition client_chunks :: "nat \<Rightarrow> bytes list \<Rightarrow> client \<Rightarrow> ('z, 'x, 'p, 'w) Writer \<Rightarrow> bool" where
  "client_chunks n cs c w \<longleftrightarrow>
     int (length cs) = w_idx w \<and>
     (if w_closed w then chunks n (concat cs) = cs
      else case w_pipe w of
        None \<Rightarrow> (\<forall>x \<in> set cs. length x = n)
      | Some a \<Rightarrow> \<exists>full x. cs = full @ [x] \<and> (\<forall>y \<in> set full. length y = n) \<and> length x \<le> n \<and>
          (x = [] \<longrightarrow> (\<exists>d k. c = CWrite d k \<and> k < int (length d)))) \<and>
     (case c of CWrite d k \<Rightarrow> 0 \<le> k \<and> k \<le> int (length d)
      | CPark d k \<Rightarrow> 0 \<le> k \<and> k < int (length d) \<and> w_pipe w = None | CFail d k \<Rightarrow> False | _ \<Rightarrow> True)"

definition content ::
  "errs \<Rightarrow> ('z, 'x) liblzma \<Rightarrow> ('p \<Rightarrow> lpipe option) \<Rightarrow> ('w \<Rightarrow> bytes) \<Rightarrow> nat \<Rightarrow> ('z, 'x, 'p, 'w) Writer \<Rightarrow> bytes list \<Rightarrow>
   ('z, 'x, 'p, 'w) asys \<Rightarrow> bool" where
  "content E L lin got n w0 cs s \<longleftrightarrow>
     concat cs = taken s \<and> client_chunks n cs (ay_client s) (ay_w s) \<and>
     (\<forall>a. w_pipe (ay_w s) = Some a \<longrightarrow> (w_idx (ay_w s) - 1, a) \<in> ready_set (ay_in s) \<union> active_set (ay_in s) \<and>
        (\<exists>l. chunk_pipe lin n (last cs) True l (in_pipe s a))) \<and>
     (\<forall>i a. (i, a) \<in> ready_set (ay_in s) \<longrightarrow> in_chunk lin n cs s a 0) \<and>
     (\<forall>t < length (ay_workers s). worker_data E L lin n w0 cs s (ay_workers s ! t) \<and>
        (\<forall>a b. kin (ay_workers s ! t) = Some a \<longrightarrow> kout (ay_workers s ! t) = Some b \<longrightarrow>
           (pi_idx (pp_heap (ay_in s) ! a), b) \<in> ready_set (ay_out s) \<union> active_set (ay_out s) \<and> dread (ay_deliverer s) \<noteq> Some b)) \<and>
     (\<forall>i b. (i, b) \<in> ready_set (ay_out s) \<union> active_set (ay_out s) \<longrightarrow>
        (\<forall>t < length (ay_workers s). kout (ay_workers s ! t) \<noteq> Some b) \<longrightarrow> dread (ay_deliverer s) \<noteq> Some b \<longrightarrow>
        done_data E L lin w0 (cs ! nat i) (pp_heap (ay_out s) ! b)) \<and>
     deliver_data E L lin got w0 cs (ay_w s) (ay_out s) (ay_deliverer s) \<and>
     free_lin lin (ay_in s) \<and> free_lin lin (ay_out s)"

lemma contentD:
  assumes "content E L lin got n w0 cs s"
  shows "concat cs = taken s" "client_chunks n cs (ay_client s) (ay_w s)"
    "\<And>a. w_pipe (ay_w s) = Some a \<Longrightarrow> (w_idx (ay_w s) - 1, a) \<in> ready_set (ay_in s) \<union> active_set (ay_in s) \<and>
        (\<exists>l. chunk_pipe lin n (last cs) True l (in_pipe s a))"
    "\<And>i a. (i, a) \<in> ready_set (ay_in s) \<Longrightarrow> in_chunk lin n cs s a 0"
    "\<And>t. t < length (ay_workers s) \<Longrightarrow> worker_data E L lin n w0 cs s (ay_workers s ! t)"
    "\<And>t a b. t < length (ay_workers s) \<Longrightarrow> kin (ay_workers s ! t) = Some a \<Longrightarrow> kout (ay_workers s ! t) = Some b \<Longrightarrow>
       (pi_idx (pp_heap (ay_in s) ! a), b) \<in> ready_set (ay_out s) \<union> active_set (ay_out s) \<and> dread (ay_deliverer s) \<noteq> Some b"
    "\<And>i b. (i, b) \<in> ready_set (ay_out s) \<union> active_set (ay_out s) \<Longrightarrow>
        \<forall>t < length (ay_workers s). kout (ay_workers s ! t) \<noteq> Some b \<Longrightarrow> dread (ay_deliverer s) \<noteq> Some b \<Longrightarrow>
        done_data E L lin w0 (cs ! nat i) (pp_heap (ay_out s) ! b)"
    "deliver_data E L lin got w0 cs (ay_w s) (ay_out s) (ay_deliverer s)" "free_lin lin (ay_in s)" "free_lin lin (ay_out s)"
  using assms unfolding content_def by (simp_all, (blast | metis)+)

text \<open>Two workers never have the same output.\<close>

lemma kout_unique:
  assumes S: "shape w0 s" and C: "content E L lin got n w0 cs s"
    and t: "t < length (ay_workers s)" "kout (ay_workers s ! t) = Some b"
    and u: "u < length (ay_workers s)" "kout (ay_workers s ! u) = Some b"
  shows "u = t"
proof -
  note S = shapeD [OF S] and C = contentD [OF C]
  obtain a c where k: "kin (ay_workers s ! t) = Some a" "kin (ay_workers s ! u) = Some c"
    using kinds(2) [OF t(2)] kinds(2) [OF u(2)] by auto
  let ?i = "\<lambda>a. pi_idx (pp_heap (ay_in s) ! a)"
  from C(6) [OF t(1) k(1) t(2)] C(6) [OF u(1) k(2) u(2)] have "?i a = ?i c"
    using pool_cells(2) [OF S(4), of "?i a" b "?i c" b] by blast
  moreover have "(?i a, a) \<in> active_set (ay_in s)" "(?i c, c) \<in> active_set (ay_in s)"
    using workers_holdD(1) [OF S(6)] t(1) u(1) k by blast+
  ultimately have "a = c" using pool_cells(2) [OF S(3), of "?i a" a "?i c" c] by blast
  with workers_holdD(2) [OF S(6) u(1) t(1)] k show ?thesis by blast
qed

end
