(* ===== verification/Xz_Async_Work.thy ===== *)
theory Xz_Async_Work
  imports Xz_Async_Data
begin

text \<open>The steps of the workers keep the shape of the writer and the content of the pipes.\<close>

section \<open>A worker changes its own pipes\<close>

text \<open>The pools after a worker with the input \<open>a\<close> and the output \<open>kout k\<close> worked on its pipes.\<close>

definition own_cells :: "('z, 'p) worker \<Rightarrow> ('z, 'x, 'p, 'w) asys \<Rightarrow> ('p, sizeStats) pipePool \<Rightarrow> ('p, sizeStats) pipePool \<Rightarrow> bool" where
  "own_cells k s pin pout \<longleftrightarrow> pool_like (ay_in s) pin \<and> pool_like (ay_out s) pout \<and>
     (\<forall>c. kin k \<noteq> Some c \<longrightarrow> pp_heap pin ! c = pp_heap (ay_in s) ! c) \<and>
     (\<forall>c. kout k \<noteq> Some c \<longrightarrow> pp_heap pout ! c = pp_heap (ay_out s) ! c)"

lemma content_worker:
  assumes S: "shape w0 s" and C: "content E L lin got n w0 cs s" and t: "t < length (ay_workers s)"
    and own: "own_cells (ay_workers s ! t) s pin pout"
    and k: "kin k' = kin (ay_workers s ! t)" "kpend k' = kpend (ay_workers s ! t)" "\<And>b. kout k' = Some b \<Longrightarrow> kout (ay_workers s ! t) = Some b"
      "kidle (ay_workers s ! t) \<Longrightarrow> kidle k'"
      "k' = KEnd \<Longrightarrow> pp_closed (ay_in s) \<and> ready_set (ay_in s) = {}"
    and data: "worker_data E L lin n w0 cs (s\<lparr>ay_in := pin, ay_out := pout\<rparr>) k'"
    and client: "\<And>a. kin k' = Some a \<Longrightarrow> w_pipe (ay_w s) = Some a \<Longrightarrow> \<exists>l. chunk_pipe lin n (last cs) True l (pi_pipe (pp_heap pin ! a))"
    and left: "\<And>i b. kout (ay_workers s ! t) = Some b \<Longrightarrow> kout k' = None \<Longrightarrow> (i, b) \<in> ready_set (ay_out s) \<union> active_set (ay_out s) \<Longrightarrow>
       done_data E L lin w0 (cs ! nat i) (pp_heap pout ! b)"
  shows "shape w0 (set_worker t k' (s\<lparr>ay_in := pin, ay_out := pout\<rparr>)) \<and>
    content E L lin got n w0 cs (set_worker t k' (s\<lparr>ay_in := pin, ay_out := pout\<rparr>))"
proof -
  note Sd = shapeD [OF S] and Cd = contentD [OF C]
  let ?W = "ay_workers s" let ?k = "?W ! t" let ?s = "s\<lparr>ay_in := pin, ay_out := pout\<rparr>" let ?s' = "set_worker t k' ?s"
  have like: "pool_like (ay_in s) pin" "pool_like (ay_out s) pout" using own by (simp_all add: own_cells_def)
  have sets: "ready_set pin = ready_set (ay_in s)" "active_set pin = active_set (ay_in s)" "free_set pin = free_set (ay_in s)"
    "ready_set pout = ready_set (ay_out s)" "active_set pout = active_set (ay_out s)" "free_set pout = free_set (ay_out s)"
    "\<And>a. pi_idx (pp_heap pin ! a) = pi_idx (pp_heap (ay_in s) ! a)" "pp_closed pin = pp_closed (ay_in s)"
    using like by (simp_all add: pool_like_def)
  have cin: "pp_heap pin ! c = pp_heap (ay_in s) ! c" if "kin ?k \<noteq> Some c" for c using own that by (simp add: own_cells_def)
  have cout: "pp_heap pout ! c = pp_heap (ay_out s) ! c" if "kout ?k \<noteq> Some c" for c using own that by (simp add: own_cells_def)
  have idle: "kin ?k \<noteq> Some a" if "(i, a) \<in> ready_set (ay_in s) \<union> free_set (ay_in s)" for i a
    using workers_holdD(1) [OF Sd(6) t] pool_cells(3,4) [OF Sd(3)] that by blast
  have own_out: "\<exists>i. (i, b) \<in> ready_set (ay_out s) \<union> active_set (ay_out s) \<and> dread (ay_deliverer s) \<noteq> Some b" if "kout ?k = Some b" for b
    using Cd(6) [OF t _ that] kinds(2) [OF that] by blast
  have S1: "shape w0 ?s" by (rule shape_pools [OF S like])
  have S': "shape w0 ?s'"
    by (rule shape_goes_on [OF S1]) (use t k sets in \<open>auto simp: goes_on_def\<close>)
  have W': "ay_workers ?s' ! u = (if u = t then k' else ?W ! u)" if "u < length ?W" for u
    using that t by (simp add: set_worker_def)
  have fields: "ay_in ?s' = pin" "ay_out ?s' = pout" "ay_w ?s' = ay_w s" "ay_deliverer ?s' = ay_deliverer s" "ay_client ?s' = ay_client s"
    "ay_log ?s' = ay_log s" "length (ay_workers ?s') = length ?W" by (simp_all add: set_worker_def)
  have others: "worker_data E L lin n w0 cs ?s' (?W ! u)" if u: "u < length ?W" "u \<noteq> t" for u
  proof -
    have "kin ?k \<noteq> Some a" if "kin (?W ! u) = Some a" for a using workers_holdD(2) [OF Sd(6) u(1) t that] u(2) by blast
    moreover have "kout ?k \<noteq> Some b" if "kout (?W ! u) = Some b" for b using kout_unique [OF S C t _ u(1) that] u(2) by blast
    ultimately show ?thesis using Cd(5) [OF u(1)] worker_data_cong [of "?W ! u" ?s' s] by (simp add: fields cin cout)
  qed
  have mine: "worker_data E L lin n w0 cs ?s' k'"
    using data worker_data_cong [of k' ?s' ?s] by (simp add: set_worker_def)
  have ready: "in_chunk lin n cs ?s' a 0" if "(i, a) \<in> ready_set (ay_in s)" for i a
    using Cd(4) [OF that] cin [OF idle, of i a] that by (simp add: in_chunk_def widx_def in_pipe_def fields)
  have client': "\<exists>l. chunk_pipe lin n (last cs) True l (in_pipe ?s' a)" if "w_pipe (ay_w s) = Some a" for a
    using client [OF _ that] Cd(3) [OF that] cin [of a] k(1) by (cases "kin ?k = Some a") (simp_all add: in_pipe_def fields)
  have out: "done_data E L lin w0 (cs ! nat i) (pp_heap pout ! b)"
    if b: "(i, b) \<in> ready_set (ay_out s) \<union> active_set (ay_out s)" "\<forall>u < length ?W. kout (ay_workers ?s' ! u) \<noteq> Some b" "dread (ay_deliverer s) \<noteq> Some b" for i b
  proof (cases "kout ?k = Some b")
    case True
    moreover have "kout k' = None" using b(2) t W' [OF t] True k(3) by (metis option.exhaust)
    ultimately show ?thesis using left b(1) by blast
  next
    case False
    then have "\<forall>u < length ?W. kout (?W ! u) \<noteq> Some b" using b(2) W' by metis
    with Cd(7) [OF b(1) _ b(3)] cout [OF False] show ?thesis by simp
  qed
  have deliver: "deliver_data E L lin got w0 cs (ay_w s) pout (ay_deliverer s)"
  proof -
    have "pp_heap pout ! b = pp_heap (ay_out s) ! b" if "dread (ay_deliverer s) = Some b" for b
      using cout [of b] own_out that by blast
    then show ?thesis using Cd(8) by (cases "ay_deliverer s") simp_all
  qed
  have free: "free_lin lin pin" "free_lin lin pout"
  proof -
    have "kout ?k \<noteq> Some b" if "(i, b) \<in> free_set (ay_out s)" for i b
      using own_out pool_cells(4) [OF Sd(4) that] by blast
    then show "free_lin lin pout" using Cd(10) cout unfolding free_lin_def sets by fastforce
    show "free_lin lin pin" using Cd(9) cin idle unfolding free_lin_def sets by fastforce
  qed
  have taken: "taken ?s' = taken s" by (simp add: taken_def fields)
  have "content E L lin got n w0 cs ?s'"
    unfolding content_def fields taken sets(1,2,4,5,7)
    using Cd(1,2,3,6) ready client' others mine out deliver free k(1,3) by (auto simp: W')
  with S' show ?thesis by blast
qed

section \<open>The moves of a worker\<close>

text \<open>Sizes and modes the pools are asked for.\<close>

definition sized :: "('z, 'x, 'p, 'w) Writer \<Rightarrow> bool" where
  "sized w0 \<longleftrightarrow> 0 \<le> w_chunkSize w0 \<and> 0 \<le> w_maxSize w0"

lemma own_same: "pool_same (ay_in s) pin \<Longrightarrow> pool_same (ay_out s) pout \<Longrightarrow> own_cells k s pin pout"
  by (simp add: own_cells_def pool_same_def)

lemma own_put:
  assumes "kin k = Some a" and "kout k = Some b"
  shows "own_cells k s (put_pipe a p (ay_in s)) (put_pipe b q (ay_out s))"
    and "own_cells k s (put_pipe a p (ay_in s)) (put_data b d (put_pipe b q (ay_out s)))"
    and "own_cells k s (ay_in s) (put_pipe b q (ay_out s))"
  using assms by (simp_all add: own_cells_def pool_like_def)

text \<open>
  A step of a worker: it works on its own pipes, takes an input, takes an output, or gives its input
  back. A worker that closes its output passes the error on.
\<close>

lemma worker_moves:
  assumes S: "shape w0 s" and B: "pipe_new_laws B" "pipe_mono B lin" and w0: "sized w0"
    and t: "t < length (ay_workers s)" and run: "worker_step E B A L i t s = Some (Ret s')"
  obtains (own) k' pin pout where "s' = set_worker t k' (s\<lparr>ay_in := pin, ay_out := pout\<rparr>)" "own_cells (ay_workers s ! t) s pin pout"
      "goes_on (ay_workers s ! t) k'" "k' = KEnd \<Longrightarrow> pp_closed (ay_in s) \<and> ready_set (ay_in s) = {}"
      "\<And>b. kout k' = Some b \<Longrightarrow> kout (ay_workers s ! t) = Some b"
      "kout (ay_workers s ! t) = None \<Longrightarrow> pp_heap pin = pp_heap (ay_in s)"
      "\<And>a b e. ay_workers s ! t = KClose a b e \<Longrightarrow> k' = KRest a \<and> pout = put_pipe b (ap_CloseWithError A (out_pipe s b) e) (ay_out s)"
  | (take_in) k a pp where "s' = set_worker t (KOut a) (s\<lparr>ay_in := pp\<rparr>)" "ay_workers s ! t = KGet \<or> ay_workers s ! t = KGetP"
      "pool_ok pp" "(k, a) \<in> ready_set (ay_in s)" "ready_set pp = ready_set (ay_in s) - {(k, a)}"
      "active_set pp = insert (k, a) (active_set (ay_in s))" "free_set pp = free_set (ay_in s)" "indexes pp = indexes (ay_in s)"
      "pp_heap pp = pp_heap (ay_in s)" "pp_closed pp = pp_closed (ay_in s)"
  | (take_out) a b pp where "s' = set_worker t (KEnc a b) (s\<lparr>ay_out := pp\<rparr>)" "ay_workers s ! t = KOut a \<or> ay_workers s ! t = KOutP a"
      "pool_ok pp" "indexes pp \<subseteq> insert (pi_idx (pp_heap (ay_in s) ! a)) (indexes (ay_out s))"
      "ready_set pp = insert (pi_idx (pp_heap (ay_in s) ! a), b) (ready_set (ay_out s))"
      "active_set pp = active_set (ay_out s)" "\<not> pp_closed (ay_out s)" "\<not> pp_closed pp"
      "\<And>j c. (j, c) \<in> ready_set (ay_out s) \<union> active_set (ay_out s) \<Longrightarrow> c \<noteq> b \<and> pp_heap pp ! c = pp_heap (ay_out s) ! c"
      "free_lin lin (ay_out s) \<Longrightarrow> free_lin lin pp"
      "free_lin lin (ay_out s) \<Longrightarrow> \<exists>buf. lin (pi_pipe (pp_heap pp ! b)) = Some (new_line buf LineMono) \<and> length buf = nat (w_maxSize w0)"
  | (restore) a pp where "s' = set_worker t KSel (s\<lparr>ay_in := pp\<rparr>)" "ay_workers s ! t = KRest a"
      "pool_ok pp" "active_set pp = active_set (ay_in s) - {(pi_idx (pp_heap (ay_in s) ! a), a)}" "ready_set pp = ready_set (ay_in s)"
      "free_set pp \<subseteq> insert (pi_idx (pp_heap (ay_in s) ! a), a) (free_set (ay_in s))" "indexes pp \<subseteq> indexes (ay_in s)"
      "pp_closed pp = pp_closed (ay_in s)" "pp_heap pp = close_pipe B a (pp_heap (ay_in s))"
proof -
  note Sd = shapeD [OF S]
  let ?k = "ay_workers s ! t"
  note own' = own [where pin = "ay_in s" and pout = "ay_out s"]
  have got: thesis if k: "?k = KGet \<or> ?k = KGetP" and
    g: "getReader i (-1) (ay_in s) = Ret (r, sg, pp) \<or> getReader_wake i (-1) (ay_in s) = Ret (r, sg, pp)" and s': "s' = worker_got t r pp s" for r sg pp
  proof (cases rule: getReader_run [OF Sd(3) g])
    case 1
    then show thesis
      using k s' by (intro own [where k' = KGetP and pin = pp and pout = "ay_out s"]) (auto simp: worker_got_def goes_on_def own_same pool_same_def [of "ay_in s"])
  next
    case 2
    then show thesis
      using k s' by (intro own [where k' = KEnd and pin = pp and pout = "ay_out s"]) (auto simp: worker_got_def goes_on_def own_same pool_same_def [of "ay_in s"])
  next
    case (3 j a)
    then show thesis using k s' by (intro take_in [of a pp j]) (simp_all add: worker_got_def)
  qed
  have out: thesis if k: "?k = KOut a \<or> ?k = KOutP a" and
    g: "getWriter B i (pi_idx (pp_heap (ay_in s) ! a)) (w_outSize (ay_w s)) (the (w_outMode (ay_w s))) d (ay_out s) = Ret (r, sg, pp) \<or>
        getWriter_wake B i (pi_idx (pp_heap (ay_in s) ! a)) (w_outSize (ay_w s)) (the (w_outMode (ay_w s))) d (ay_out s) = Ret (r, sg, pp)"
    and s': "s' = worker_out t a r pp s" for a d r sg pp
  proof -
    have p: "kpend ?k = Some a" "kin ?k = Some a" "\<not> kidle ?k" using k by auto
    have "pi_idx (pp_heap (ay_in s) ! a) \<in> unstarted (ay_workers s) (ay_in s)"
      using t p(1) by (auto simp: unstarted_def pends_def)
    then have fresh: "pi_idx (pp_heap (ay_in s) ! a) \<notin> indexes (ay_out s)" using Sd(7) unfolding placed_def by blast
    have conf: "w_outSize (ay_w s) = w_maxSize w0" "the (w_outMode (ay_w s)) = LineMono" using Sd(2) by (simp_all add: async_conf_def)
    have m: "0 \<le> w_maxSize w0" "LineMono \<in> {LineMono, LineDual}" using w0 by (simp_all add: sized_def)
    show thesis
    proof (cases rule: getWriter_run [OF Sd(4) B m fresh g [unfolded conf]])
      case 1
      then show thesis
        using k s' by (intro own [where k' = "KOutP a" and pin = "ay_in s" and pout = pp]) (auto simp: worker_out_def goes_on_def own_same)
    next
      case 2
      with Sd(9) t p(3) show thesis by (auto simp: closing_def)
    next
      case (3 b)
      then show thesis using k s' by (intro take_out [of a b pp]) (simp_all add: worker_out_def)
    qed
  qed
  have enc: thesis if k: "kin ?k = Some a" "kout ?k = Some b" "\<not> (\<exists>a b e. ?k = KClose a b e)"
    and e: "worker_encode E t a b m f s = Some (Ret s')"
    and f: "\<And>x p q. \<exists>k' d. f x (s\<lparr>ay_out := put_pipe b q (ay_out s), ay_in := put_pipe a p (ay_in s)\<rparr>) =
        set_worker t k' (s\<lparr>ay_in := put_pipe a p (ay_in s), ay_out := (case d of None \<Rightarrow> put_pipe b q (ay_out s) | Some d \<Rightarrow> put_data b d (put_pipe b q (ay_out s)))\<rparr>) \<and>
        kin k' = Some a \<and> kout k' = Some b" for a b m f
  proof -
    have g: "goes_on ?k k'" if "kin k' = Some a" "kout k' = Some b" for k'
      using that k kinds(3,4) by (metis goes_on_def option.distinct(1))
    from e obtain res q p where r: "m (out_pipe s b, in_pipe s a) = Some (res, (q, p))" by (auto simp: worker_encode_def split: option.splits)
    show thesis
    proof (cases res)
      case (Ret x)
      with e r have s': "s' = f x (s\<lparr>ay_out := put_pipe b q (ay_out s), ay_in := put_pipe a p (ay_in s)\<rparr>)"
        by (simp add: worker_encode_def)
      from f [of x p q] obtain k' d where k': "s' = set_worker t k' (s\<lparr>ay_in := put_pipe a p (ay_in s),
          ay_out := (case d of None \<Rightarrow> put_pipe b q (ay_out s) | Some d \<Rightarrow> put_data b d (put_pipe b q (ay_out s)))\<rparr>)"
          "kin k' = Some a" "kout k' = Some b" unfolding s' by blast
      show thesis
        by (rule own [OF k'(1)]) (use own_put [OF k(1,2)] g [OF k'(2,3)] k k' in \<open>auto split: option.splits\<close>)
    next
      case (Pan x)
      with e r obtain err where "s' = set_worker t (KClose a b err) (s\<lparr>ay_out := put_pipe b q (ay_out s), ay_in := put_pipe a p (ay_in s)\<rparr>)"
        by (auto simp: worker_encode_def split: sum.splits)
      then have "s' = set_worker t (KClose a b err) (s\<lparr>ay_in := put_pipe a p (ay_in s), ay_out := put_pipe b q (ay_out s)\<rparr>)"
        by (simp add: set_worker_def)
      then show thesis
        by (rule own) (use own_put [OF k(1,2)] g [of "KClose a b err"] k in auto)
    qed
  qed
  show thesis
  proof (cases ?k)
    case KGet
    with run obtain r0 sg pp where g: "iterReader i (ay_in s) = Ret (r0, sg, pp)"
      "s' = worker_got t (case r0 of Wait \<Rightarrow> Wait | Done (p, _) \<Rightarrow> Done p) pp s"
      by (auto simp: worker_step_def Let_def gobind_eq_Ret)
    then obtain r where "getReader i (-1) (ay_in s) = Ret (r, sg, pp)" "r0 = (case r of Wait \<Rightarrow> Wait | Done p \<Rightarrow> Done (p, p \<noteq> None))"
      by (auto simp: iterReader_def gobind_eq_Ret)
    with g(2) KGet show thesis by (intro got [of r sg pp]) (auto split: attempt.splits)
  next
    case KGetP
    with run show thesis by (auto simp: worker_step_def Let_def gobind_eq_Ret intro: got)
  next
    case (KOut a)
    with run show thesis by (auto simp: worker_step_def Let_def gobind_eq_Ret intro: out [of a])
  next
    case (KOutP a)
    with run show thesis by (auto simp: worker_step_def Let_def gobind_eq_Ret intro: out [of a])
  next
    case (KEnc a b)
    show thesis
    proof (rule enc [of a b])
      show "worker_encode E t a b (blockEncode_open E B L (ay_w s)) (\<lambda>(block, headerSize, z). set_worker t (KRun a b block headerSize z)) s = Some (Ret s')"
        using run KEnc by (simp add: worker_step_def Let_def)
      show "\<exists>k' d. (case x of (block, headerSize, z) \<Rightarrow> set_worker t (KRun a b block headerSize z)) (s\<lparr>ay_out := put_pipe b q (ay_out s), ay_in := put_pipe a p (ay_in s)\<rparr>) =
          set_worker t k' (s\<lparr>ay_in := put_pipe a p (ay_in s), ay_out := (case d of None \<Rightarrow> put_pipe b q (ay_out s) | Some d \<Rightarrow> put_data b d (put_pipe b q (ay_out s)))\<rparr>) \<and>
          kin k' = Some a \<and> kout k' = Some b" for x p q
        by (cases x, rule exI [of _ "KRun a b (fst x) (fst (snd x)) (snd (snd x))"], rule exI [of _ None]) (simp add: set_worker_def)
    qed (simp_all add: KEnc)
  next
    case (KRun a b block headerSize z)
    with run have s': "s' = worker_round B L t a b block headerSize z s" by (simp add: worker_step_def Let_def split: if_splits)
    obtain p q k' where r: "s' = set_worker t k' (s\<lparr>ay_out := put_pipe b q (ay_out s), ay_in := put_pipe a p (ay_in s)\<rparr>)"
      "kin k' = Some a" "kout k' = Some b" "kpend k' = None" "\<not> kidle k'"
    proof (cases "case processPipe_round B L RUN (Some (out_pipe s b), Some (in_pipe s a), z, 0, 0) of
              Inl ((_, _, err), dst, src, z) \<Rightarrow> (dst, src, KFin a b block headerSize z err)
            | Inr (dst, src, z, _, _) \<Rightarrow> (dst, src, KRun a b block headerSize z)")
      case (fields dst src k')
      show thesis
        by (rule that [of k' "the src" "the dst"]) (use fields s' in \<open>auto simp: worker_round_def split: sum.splits prod.splits\<close>)
    qed
    then have "s' = set_worker t k' (s\<lparr>ay_in := put_pipe a p (ay_in s), ay_out := put_pipe b q (ay_out s)\<rparr>)" by (simp add: set_worker_def)
    with KRun r(2-) show thesis
      by (intro own [where k' = k' and pin = "put_pipe a p (ay_in s)" and pout = "put_pipe b q (ay_out s)"]) (auto simp: goes_on_def intro!: own_put)
  next
    case (KFin a b block headerSize z err)
    let ?d = "\<lambda>x. Some (Some \<lparr>ss_unpadSize = fst x, ss_uncompSize = snd x\<rparr>)"
    show thesis
    proof (rule enc [of a b])
      show "worker_encode E t a b (blockEncode_rest E B L (ay_w s) block headerSize z err)
          (\<lambda>(unpadSize, uncompSize) s. set_worker t (KClose a b None)
            (s\<lparr>ay_out := put_data b (Some \<lparr>ss_unpadSize = unpadSize, ss_uncompSize = uncompSize\<rparr>) (ay_out s)\<rparr>)) s = Some (Ret s')"
        using run KFin by (simp add: worker_step_def Let_def)
      show "\<exists>k' d. (case x of (unpadSize, uncompSize) \<Rightarrow> \<lambda>s. set_worker t (KClose a b None)
            (s\<lparr>ay_out := put_data b (Some \<lparr>ss_unpadSize = unpadSize, ss_uncompSize = uncompSize\<rparr>) (ay_out s)\<rparr>)) (s\<lparr>ay_out := put_pipe b q (ay_out s), ay_in := put_pipe a p (ay_in s)\<rparr>) =
          set_worker t k' (s\<lparr>ay_in := put_pipe a p (ay_in s), ay_out := (case d of None \<Rightarrow> put_pipe b q (ay_out s) | Some d \<Rightarrow> put_data b d (put_pipe b q (ay_out s)))\<rparr>) \<and>
          kin k' = Some a \<and> kout k' = Some b" for x p q
        by (cases x, rule exI [of _ "KClose a b None"], rule exI [of _ "?d x"]) (simp add: set_worker_def)
    qed (simp_all add: KFin)
  next
    case (KClose a b err)
    with run show thesis
      by (intro own [where k' = "KRest a" and pin = "ay_in s" and pout = "put_pipe b (ap_CloseWithError A (out_pipe s b) err) (ay_out s)"])
        (auto simp: worker_step_def Let_def goes_on_def intro!: own_put)
  next
    case (KRest a)
    then have a: "(pi_idx (pp_heap (ay_in s) ! a), a) \<in> active_set (ay_in s)" using workers_holdD(1) [OF Sd(6) t] by simp
    obtain sg pp where r: "restore B (Some a) (ay_in s) = Ret (Done (), sg, pp)" "pool_ok pp"
      "active_set pp = active_set (ay_in s) - {(pi_idx (pp_heap (ay_in s) ! a), a)}" "ready_set pp = ready_set (ay_in s)"
      "free_set pp \<subseteq> insert (pi_idx (pp_heap (ay_in s) ! a), a) (free_set (ay_in s))" "indexes pp \<subseteq> indexes (ay_in s)"
      "pp_closed pp = pp_closed (ay_in s)" "pp_heap pp = close_pipe B a (pp_heap (ay_in s))"
      using restore_data [OF Sd(3) a, of B] by metis
    with run KRest show thesis by (intro restore [of pp a]) (simp_all add: worker_step_def Let_def)
  next
    case KSel
    moreover have "\<not> ay_done s" "wk_killed (ay_work s) = {}" using Sd(1,10) by (simp_all add: quiet_def monitors_def)
    ultimately show thesis using run
      by (intro own' [where k' = KGet]) (auto simp: worker_step_def Let_def goes_on_def own_same)
  next
    case KEnd
    with run show thesis by (simp add: worker_step_def Let_def)
  qed
qed

end
