(* ===== verification/Xz_Async_Code.thy ===== *)
theory Xz_Async_Code
  imports Xz_Async_Work
begin

text \<open>
  What the steps of the workers make of the pipes: inputs move from the pool to the workers and back,
  outputs are filled with the blocks of their chunks.
\<close>

section \<open>Taking pipes and giving them back\<close>

text \<open>A worker without an output goes on.\<close>

lemma content_idle:
  assumes S: "shape w0 s" and C: "content E L lin got n w0 cs s" and t: "t < length (ay_workers s)"
    and own: "own_cells (ay_workers s ! t) s pin pout" "goes_on (ay_workers s ! t) k'"
      "k' = KEnd \<Longrightarrow> pp_closed (ay_in s) \<and> ready_set (ay_in s) = {}"
      "\<And>b. kout k' = Some b \<Longrightarrow> kout (ay_workers s ! t) = Some b" "pp_heap pin = pp_heap (ay_in s)" "kout (ay_workers s ! t) = None"
  shows "content E L lin got n w0 cs (set_worker t k' (s\<lparr>ay_in := pin, ay_out := pout\<rparr>))"
proof -
  have k: "kin k' = kin (ay_workers s ! t)" "kpend k' = kpend (ay_workers s ! t)" "kout k' = None" "kidle (ay_workers s ! t) \<Longrightarrow> kidle k'"
    using own(2,4,6) by (simp_all add: goes_on_def, cases "kout k'", auto)
  have "worker_data E L lin n w0 cs (s\<lparr>ay_in := pin, ay_out := pout\<rparr>) k'"
    using contentD(5) [OF C t] k own(5,6)
    by (cases k'; cases "ay_workers s ! t") (simp_all add: in_chunk_def widx_def in_pipe_def)
  then show ?thesis
    by (intro content_worker [OF S C t own(1), THEN conjunct2])
      (use k own contentD(3) [OF C] in \<open>auto simp: in_pipe_def\<close>)
qed

text \<open>A worker takes an input.\<close>

lemma content_take_in:
  assumes S: "shape w0 s" and C: "content E L lin got n w0 cs s" and t: "t < length (ay_workers s)"
    and k: "ay_workers s ! t = KGet \<or> ay_workers s ! t = KGetP"
    and pp: "(j, a) \<in> ready_set (ay_in s)" "ready_set pp = ready_set (ay_in s) - {(j, a)}"
      "active_set pp = insert (j, a) (active_set (ay_in s))" "free_set pp = free_set (ay_in s)" "pp_heap pp = pp_heap (ay_in s)"
  shows "content E L lin got n w0 cs (set_worker t (KOut a) (s\<lparr>ay_in := pp\<rparr>))"
proof -
  note Cd = contentD [OF C]
  let ?s' = "set_worker t (KOut a) (s\<lparr>ay_in := pp\<rparr>)"
  have same: "in_chunk lin n cs ?s' = in_chunk lin n cs s" "in_pipe ?s' = in_pipe s" "widx ?s' = widx s"
    using pp(5) by (simp_all add: fun_eq_iff in_chunk_def widx_def in_pipe_def set_worker_def)
  have data: "worker_data E L lin n w0 cs ?s' k = worker_data E L lin n w0 cs s k" for k
    by (rule worker_data_cong) (use pp(5) in \<open>simp_all add: set_worker_def\<close>)
  have W': "ay_workers ?s' ! u = (if u = t then KOut a else ay_workers s ! u)" if "u < length (ay_workers s)" for u
    using that by (simp add: set_worker_def)
  have 5: "worker_data E L lin n w0 cs ?s' (ay_workers ?s' ! u)" if "u < length (ay_workers s)" for u
    using Cd(4) [OF pp(1)] Cd(5) [OF that] W' [OF that] data same by simp
  have kout: "kout (ay_workers ?s' ! u) = kout (ay_workers s ! u)" if "u < length (ay_workers s)" for u
    using k W' [OF that] by auto
  have 6: "(pi_idx (pp_heap (ay_in s) ! a'), b') \<in> ready_set (ay_out s) \<union> active_set (ay_out s) \<and> dread (ay_deliverer s) \<noteq> Some b'"
    if "u < length (ay_workers s)" "kin (ay_workers ?s' ! u) = Some a'" "kout (ay_workers ?s' ! u) = Some b'" for u a' b'
    using that Cd(6) [OF that(1)] W' [OF that(1)] by (auto split: if_splits)
  have sets: "ready_set pp \<union> active_set pp = ready_set (ay_in s) \<union> active_set (ay_in s)" using pp(1-3) by auto
  have free: "free_lin lin pp" using Cd(9) pp(4,5) by (simp add: free_lin_def)
  have 4: "in_chunk lin n cs s c 0" if "(i, c) \<in> ready_set pp" for i c using Cd(4) that pp(2) by blast
  have taken: "taken ?s' = taken s" by (simp add: taken_def set_worker_def)
  have f: "ay_in ?s' = pp" "ay_out ?s' = ay_out s" "ay_w ?s' = ay_w s" "ay_deliverer ?s' = ay_deliverer s" "ay_client ?s' = ay_client s"
    "length (ay_workers ?s') = length (ay_workers s)" by (simp_all add: set_worker_def)
  show ?thesis
    unfolding content_def taken f same sets pp(5) using Cd(1,2,3,7,8,10) 4 5 6 kout free by simp
qed

text \<open>A worker takes an output.\<close>

lemma content_take_out:
  assumes S: "shape w0 s" and C: "content E L lin got n w0 cs s" and t: "t < length (ay_workers s)"
    and k: "ay_workers s ! t = KOut a \<or> ay_workers s ! t = KOutP a"
    and pp: "ready_set pp = insert (pi_idx (pp_heap (ay_in s) ! a), b) (ready_set (ay_out s))" "active_set pp = active_set (ay_out s)"
      "\<And>j c. (j, c) \<in> ready_set (ay_out s) \<union> active_set (ay_out s) \<Longrightarrow> c \<noteq> b \<and> pp_heap pp ! c = pp_heap (ay_out s) ! c"
      "free_lin lin (ay_out s) \<Longrightarrow> free_lin lin pp"
      "free_lin lin (ay_out s) \<Longrightarrow> \<exists>buf. lin (pi_pipe (pp_heap pp ! b)) = Some (new_line buf LineMono) \<and> length buf = nat (w_maxSize w0)"
  shows "content E L lin got n w0 cs (set_worker t (KEnc a b) (s\<lparr>ay_out := pp\<rparr>))"
proof -
  note Sd = shapeD [OF S] and Cd = contentD [OF C]
  let ?W = "ay_workers s" let ?s' = "set_worker t (KEnc a b) (s\<lparr>ay_out := pp\<rparr>)"
  have W': "ay_workers ?s' ! u = (if u = t then KEnc a b else ?W ! u)" if "u < length ?W" for u
    using that by (simp add: set_worker_def)
  have same: "in_chunk lin n cs ?s' = in_chunk lin n cs s" "in_pipe ?s' = in_pipe s" "widx ?s' = widx s"
    by (simp_all add: fun_eq_iff in_chunk_def widx_def in_pipe_def set_worker_def)
  have old: "c \<noteq> b \<and> pp_heap pp ! c = pp_heap (ay_out s) ! c" if "u < length ?W" "kout (?W ! u) = Some c" for u c
    using Cd(6) [OF that(1) _ that(2)] kinds(2) [OF that(2)] pp(3) by blast
  have new: "dread (ay_deliverer s) \<noteq> Some b"
  proof
    assume "dread (ay_deliverer s) = Some b"
    then have "dpipe (ay_deliverer s) = Some b" by (cases "ay_deliverer s") simp_all
    then have "(dpos (ay_deliverer s), b) \<in> active_set (ay_out s)" using Sd(8) by (simp add: delivers_def)
    with pp(3) show False by blast
  qed
  have "in_chunk lin n cs s a 0" using Cd(5) [OF t] k by auto
  moreover have "holds_block lin (nat (w_maxSize w0)) (out_pipe ?s' b) []"
    using pp(5) [OF Cd(10)] by (auto simp: holds_block_def out_pipe_def set_worker_def new_line_def mono_data_def)
  ultimately have "worker_data E L lin n w0 cs ?s' (KEnc a b)" by (simp add: same)
  moreover have "worker_data E L lin n w0 cs ?s' (?W ! u)" if "u < length ?W" for u
    using Cd(5) [OF that] worker_data_cong [of "?W ! u" ?s' s] old [OF that] by (simp add: set_worker_def)
  ultimately have 5: "worker_data E L lin n w0 cs ?s' (ay_workers ?s' ! u)" if "u < length ?W" for u
    using that W' by simp
  have 6: "(pi_idx (pp_heap (ay_in s) ! a'), b') \<in> ready_set pp \<union> active_set pp \<and> dread (ay_deliverer s) \<noteq> Some b'"
    if "u < length ?W" "kin (ay_workers ?s' ! u) = Some a'" "kout (ay_workers ?s' ! u) = Some b'" for u a' b'
    using that Cd(6) [OF that(1)] pp(1,2) new W' [OF that(1)] by (auto split: if_splits)
  have 7: "done_data E L lin w0 (cs ! nat i) (pp_heap pp ! c)"
    if c: "(i, c) \<in> ready_set pp \<union> active_set pp" "\<forall>u < length ?W. kout (ay_workers ?s' ! u) \<noteq> Some c" "dread (ay_deliverer s) \<noteq> Some c" for i c
  proof -
    have "c \<noteq> b" using c(2) t W' [OF t] by auto
    then have o: "(i, c) \<in> ready_set (ay_out s) \<union> active_set (ay_out s)" using c(1) pp(1,2) by auto
    have "\<forall>u < length ?W. kout (?W ! u) \<noteq> Some c" using c(2) W' k by (auto split: if_splits)
    with Cd(7) [OF o _ c(3)] pp(3) [OF o] show ?thesis by simp
  qed
  have 8: "deliver_data E L lin got w0 cs (ay_w s) pp (ay_deliverer s)"
  proof -
    have "pp_heap pp ! c = pp_heap (ay_out s) ! c" if "dread (ay_deliverer s) = Some c" for c
    proof -
      have "dpipe (ay_deliverer s) = Some c" using that by (cases "ay_deliverer s") simp_all
      then have "(dpos (ay_deliverer s), c) \<in> active_set (ay_out s)" using Sd(8) by (simp add: delivers_def)
      with pp(3) show ?thesis by blast
    qed
    then show ?thesis using Cd(8) by (cases "ay_deliverer s") simp_all
  qed
  have taken: "taken ?s' = taken s" by (simp add: taken_def set_worker_def)
  have f: "ay_in ?s' = ay_in s" "ay_out ?s' = pp" "ay_w ?s' = ay_w s" "ay_deliverer ?s' = ay_deliverer s" "ay_client ?s' = ay_client s"
    "length (ay_workers ?s') = length ?W" by (simp_all add: set_worker_def)
  show ?thesis
    unfolding content_def taken f same using Cd(1,2,3,4,9) 5 6 7 8 pp(4) [OF Cd(10)] by simp
qed

text \<open>A worker gives its input back.\<close>

lemma content_restore_in:
  assumes S: "shape w0 s" and C: "content E L lin got n w0 cs s" and B: "pipe_mono B lin" and t: "t < length (ay_workers s)"
    and k: "ay_workers s ! t = KRest a"
    and pp: "active_set pp = active_set (ay_in s) - {(pi_idx (pp_heap (ay_in s) ! a), a)}" "ready_set pp = ready_set (ay_in s)"
      "free_set pp \<subseteq> insert (pi_idx (pp_heap (ay_in s) ! a), a) (free_set (ay_in s))" "pp_heap pp = close_pipe B a (pp_heap (ay_in s))"
  shows "content E L lin got n w0 cs (set_worker t KSel (s\<lparr>ay_in := pp\<rparr>))"
proof -
  note Sd = shapeD [OF S] and Cd = contentD [OF C]
  let ?W = "ay_workers s" let ?s' = "set_worker t KSel (s\<lparr>ay_in := pp\<rparr>)"
  have act: "(pi_idx (pp_heap (ay_in s) ! a), a) \<in> active_set (ay_in s)" using workers_holdD(1) [OF Sd(6) t] k by simp
  have a: "lin (in_pipe s a) \<noteq> None" "w_pipe (ay_w s) \<noteq> Some a" using Cd(5) [OF t] k by simp_all
  have cell: "pp_heap pp ! c = pp_heap (ay_in s) ! c" if "c \<noteq> a" for c using that pp(4) by (simp add: close_pipe_def)
  have idx: "pi_idx (pp_heap pp ! c) = pi_idx (pp_heap (ay_in s) ! c)" for c
    using pp(4) by (cases "a < length (pp_heap (ay_in s))"; cases "c = a") (auto simp: close_pipe_def list_update_beyond)
  have others: "kin (?W ! u) \<noteq> Some a" if "u < length ?W" "u \<noteq> t" for u
    using workers_holdD(2) [OF Sd(6) that(1) t] that(2) k by fastforce
  have W': "ay_workers ?s' ! u = (if u = t then KSel else ?W ! u)" if "u < length ?W" for u
    using that by (simp add: set_worker_def)
  have chunk: "in_chunk lin n cs ?s' c l = in_chunk lin n cs s c l" if "c \<noteq> a" for c l
    using cell [OF that] by (simp add: in_chunk_def widx_def in_pipe_def set_worker_def)
  have ready: "c \<noteq> a" if "(i, c) \<in> ready_set (ay_in s)" for i c using pool_cells(3) [OF Sd(3) that act] by blast
  have "worker_data E L lin n w0 cs ?s' (?W ! u)" if "u < length ?W" "u \<noteq> t" for u
  proof -
    have "worker_data E L lin n w0 cs ?s' (?W ! u) = worker_data E L lin n w0 cs s (?W ! u)"
      by (rule worker_data_cong) (use others [OF that] cell in \<open>auto simp: set_worker_def\<close>)
    with Cd(5) [OF that(1)] show ?thesis by simp
  qed
  then have 5: "worker_data E L lin n w0 cs ?s' (ay_workers ?s' ! u)" if "u < length ?W" for u
    using that W' by simp
  have free: "free_lin lin pp"
  proof -
    obtain q where "lin (in_pipe s a) = Some q" using a(1) by blast
    then have "lin (bp_Close B (pi_pipe (pp_heap (ay_in s) ! a))) \<noteq> None" using pipe_monoD(9) [OF B] by (simp add: in_pipe_def)
    then show ?thesis by (rule free_lin_restore [OF Sd(3) act Cd(9) _ pp(3,4)])
  qed
  have taken: "taken ?s' = taken s" by (simp add: taken_def set_worker_def)
  have f: "ay_in ?s' = pp" "ay_out ?s' = ay_out s" "ay_w ?s' = ay_w s" "ay_deliverer ?s' = ay_deliverer s" "ay_client ?s' = ay_client s"
    "length (ay_workers ?s') = length ?W" by (simp_all add: set_worker_def)
  have 3: "(w_idx (ay_w s) - 1, c) \<in> ready_set pp \<union> active_set pp \<and> (\<exists>l. chunk_pipe lin n (last cs) True l (in_pipe ?s' c))"
    if "w_pipe (ay_w s) = Some c" for c
    using Cd(3) [OF that] a(2) that cell [of c] by (auto simp: pp(1,2) in_pipe_def set_worker_def)
  have 4: "in_chunk lin n cs ?s' c 0" if "(i, c) \<in> ready_set (ay_in s)" for i c
    using Cd(4) [OF that] chunk [OF ready [OF that]] by simp
  have kout: "kout (ay_workers ?s' ! u) = kout (?W ! u)" if "u < length ?W" for u using W' [OF that] k by auto
  have 6: "(pi_idx (pp_heap (ay_in s) ! a'), b') \<in> ready_set (ay_out s) \<union> active_set (ay_out s) \<and> dread (ay_deliverer s) \<noteq> Some b'"
    if "u < length ?W" "kin (ay_workers ?s' ! u) = Some a'" "kout (ay_workers ?s' ! u) = Some b'" for u a' b'
    using that Cd(6) [OF that(1)] W' [OF that(1)] by (auto split: if_splits)
  show ?thesis
    unfolding content_def taken f pp(2) idx using Cd(1,2,7,8,10) 3 4 5 6 free kout pp(2) by simp
qed

section \<open>An output with an error\<close>

text \<open>An output that will be closed with an error, or is: no worker but the one that closes it uses it.\<close>

definition spoiled :: "('p \<Rightarrow> goerr option) \<Rightarrow> ('p \<Rightarrow> lpipe option) \<Rightarrow> ('z, 'x, 'p, 'w) asys \<Rightarrow> nat \<Rightarrow> bool" where
  "spoiled er lin s b \<longleftrightarrow>
     (\<exists>t < length (ay_workers s). \<exists>a e. ay_workers s ! t = KClose a b (Some e) \<and>
        (\<exists>q. lin (out_pipe s b) = Some q \<and> lp_mode q = LineMono \<and> \<not> lp_closed q) \<and>
        (\<forall>u < length (ay_workers s). u \<noteq> t \<longrightarrow> kout (ay_workers s ! u) \<noteq> Some b)) \<or>
     (\<forall>u < length (ay_workers s). kout (ay_workers s ! u) \<noteq> Some b) \<and> er (out_pipe s b) \<noteq> None"

definition tainted :: "('p \<Rightarrow> goerr option) \<Rightarrow> ('p \<Rightarrow> lpipe option) \<Rightarrow> ('z, 'x, 'p, 'w) asys \<Rightarrow> bool" where
  "tainted er lin s \<longleftrightarrow> (\<exists>j b. (j, b) \<in> ready_set (ay_out s) \<union> active_set (ay_out s) \<and> dread (ay_deliverer s) \<noteq> Some b \<and> spoiled er lin s b)"

lemma taint_worker:
  assumes S: "shape w0 s" and C: "content E L lin got n w0 cs s" and t: "t < length (ay_workers s)"
    and k: "kin (ay_workers s ! t) = Some a" "kout (ay_workers s ! t) = Some b"
    and q: "\<exists>d. lin q = Some d \<and> lp_mode d = LineMono \<and> \<not> lp_closed d"
  shows "tainted er lin (set_worker t (KClose a b (Some e)) (s\<lparr>ay_out := put_pipe b q (ay_out s), ay_in := pin\<rparr>))"
proof -
  let ?s' = "set_worker t (KClose a b (Some e)) (s\<lparr>ay_out := put_pipe b q (ay_out s), ay_in := pin\<rparr>)"
  note b = contentD(6) [OF C t k]
  have len: "b < length (pp_heap (ay_out s))" using pool_cells(1) [OF shapeD(4) [OF S]] b by blast
  then have "out_pipe ?s' b = q" by (simp add: out_pipe_def set_worker_def)
  moreover have "kout (ay_workers ?s' ! u) \<noteq> Some b" if "u < length (ay_workers s)" "u \<noteq> t" for u
    using kout_unique [OF S C t k(2) that(1)] that by (auto simp: set_worker_def)
  moreover have "ay_workers ?s' ! t = KClose a b (Some e)" "length (ay_workers ?s') = length (ay_workers s)"
    "ay_deliverer ?s' = ay_deliverer s" "ready_set (ay_out ?s') = ready_set (ay_out s)" "active_set (ay_out ?s') = active_set (ay_out s)"
    using t by (simp_all add: set_worker_def)
  ultimately show ?thesis using b t q unfolding tainted_def spoiled_def by metis
qed

section \<open>Encoding\<close>

text \<open>What liblzma promises here: the unpadded size of a finished block is known.\<close>

definition lzma_size_laws :: "('z, 'x) liblzma \<Rightarrow> bool" where
  "lzma_size_laws L \<longleftrightarrow>
     (\<forall>b0 b c0 inp out1 c1 out2 c2. c_block_header_size L b0 = (OK, b) \<longrightarrow> c_block_encoder L b = (OK, c0) \<longrightarrow>
        length inp \<le> 2 ^ 62 \<longrightarrow> coder_run L RUN c0 inp out1 c1 \<longrightarrow>
        coder_run L FINISH c1 [] out2 c2 \<longrightarrow> code_error L FINISH c2 (Some streamEnd) \<longrightarrow>
        to_i64 (c_block_unpadded_size L (c_coder_block L c2)) \<noteq> 0)"

text \<open>
  What the parallel mode relies on: a coder that has not yet seen a whole chunk has not filled the
  buffer of its output.
\<close>

definition run_fits :: "('z, 'x) liblzma \<Rightarrow> ('z, 'x, 'p, 'w) Writer \<Rightarrow> nat \<Rightarrow> bool" where
  "run_fits L w n \<longleftrightarrow>
     (\<forall>block headerSize c0 hs inp out c. opened L w block headerSize c0 hs \<longrightarrow> coder_run L RUN c0 inp out c \<longrightarrow> length inp < n \<longrightarrow>
        int (hs + length out) < w_maxSize w)"

lemma block_sizes:
  assumes "lzma_size_laws L" and "block_of E L w c blk (u, v)" and "length c \<le> 2 ^ 62"
  shows "u \<noteq> 0"
proof (cases "literal_block E L (Flags_GetCheck (w_flags w)) c blk (u, v)")
  case True
  then show ?thesis by (auto simp: literal_block_def lzma2_literal_def)
next
  case False
  with assms show ?thesis by (fastforce simp: block_of_def compressed_block_def lzma_size_laws_def)
qed

text \<open>The encoder only looks at the configuration.\<close>

lemma encode_conf:
  assumes "async_conf w0 w"
  shows "blockEncode_open E B L w = blockEncode_open E B L w0" "blockEncode_rest E B L w = blockEncode_rest E B L w0"
proof -
  have c: "blockInit L w = blockInit L w0" "w_flags w = w_flags w0" "w_chunkSize w = w_chunkSize w0" "w_maxSize w = w_maxSize w0"
    using assms by (simp_all add: async_conf_def blockInit_def fun_eq_iff)
  show "blockEncode_open E B L w = blockEncode_open E B L w0" by (simp only: blockEncode_open_def c)
  have l: "blockEncode_literal E B L w = blockEncode_literal E B L w0" by (simp only: blockEncode_literal_def c)
  show "blockEncode_rest E B L w = blockEncode_rest E B L w0" by (intro ext) (simp only: blockEncode_rest_def l)
qed

text \<open>A chunk the client still fills is the last one.\<close>

lemma client_cell:
  assumes S: "shape w0 s" and C: "content E L lin got n w0 cs s" and a: "w_pipe (ay_w s) = Some a"
  shows "cs ! widx s a = last cs"
proof -
  have "(w_idx (ay_w s) - 1, a) \<in> ready_set (ay_in s) \<union> active_set (ay_in s)" using contentD(3) [OF C a] by blast
  then have "pi_idx (pp_heap (ay_in s) ! a) = w_idx (ay_w s) - 1" using pool_cells(1) [OF shapeD(3) [OF S]] by blast
  moreover have "int (length cs) = w_idx (ay_w s)" using contentD(2) [OF C] by (simp add: client_chunks_def)
  moreover have "0 \<le> pi_idx (pp_heap (ay_in s) ! a)"
    using pool_cells(1) [OF shapeD(3) [OF S]] contentD(3) [OF C a] shapeD(7) [OF S] unfolding placed_def by fastforce
  ultimately have "widx s a = length cs - 1" "cs \<noteq> []" unfolding widx_def by (linarith, auto)
  then show ?thesis by (simp add: last_conv_nth)
qed

lemma chunk_holds: "chunk_pipe lin n c opn l p \<Longrightarrow> holds_chunk lin n p c"
  by (auto simp: chunk_pipe_def holds_chunk_def)

text \<open>What the routines rely on.\<close>

definition async_env ::
  "errs \<Rightarrow> 'p bufpipe \<Rightarrow> ('p, 'w) asyncpipe \<Rightarrow> ('z, 'x) liblzma \<Rightarrow> ('p \<Rightarrow> lpipe option) \<Rightarrow> ('p \<Rightarrow> goerr option) \<Rightarrow> ('z \<Rightarrow> nat) \<Rightarrow> ('z \<Rightarrow> nat) \<Rightarrow>
   ('z, 'x, 'p, 'w) Writer \<Rightarrow> nat \<Rightarrow> bool" where
  "async_env E B A L lin er pr pf w0 n \<longleftrightarrow> encoder_env E B L lin pr pf \<and> pipe_new_laws B \<and> pipe_async A lin er \<and> chunked E L w0 n \<and>
     lzma_size_laws L \<and> run_fits L w0 n"

lemma async_envD:
  assumes "async_env E B A L lin er pr pf w0 n"
  shows "encoder_env E B L lin pr pf" "pipe_new_laws B" "pipe_async A lin er" "chunked E L w0 n" "lzma_size_laws L" "run_fits L w0 n"
    "errs_ok E" "pipe_mono B lin" "lzma_code_laws L"
  using assms by (auto simp: async_env_def dest: encoder_envD)

lemma pipe_asyncD:
  assumes "pipe_async A lin er"
  shows "lin p = Some q \<Longrightarrow> ap_CanRead A p \<Longrightarrow> lp_readable q"
    and "lin p = Some q \<Longrightarrow> er (ap_CloseWithError A p x) = x"
    and "lin p = Some q \<Longrightarrow> lin (ap_CloseWithError A p None) = Some (q\<lparr>lp_closed := True\<rparr>)"
    and "writes_to (Some wr) got \<Longrightarrow> ap_WriteTo A wr p w = (None, p', w') \<Longrightarrow>
       er p = None \<and> (\<forall>q. lin p = Some q \<longrightarrow> lin p' \<noteq> None \<and> got w' = got w @ mono_data q)"
    and "lin p = Some q \<Longrightarrow> ap_WriteTo A wr' p u = (Some y, p', u') \<Longrightarrow> sink_fail wr'"
  using assms unfolding pipe_async_def by metis+

text \<open>A worker with both pipes works on them.\<close>

lemma content_own:
  assumes S: "shape w0 s" and C: "content E L lin got n w0 cs s" and t: "t < length (ay_workers s)"
    and k: "kin (ay_workers s ! t) = Some a" "kout (ay_workers s ! t) = Some b" "kin k' = Some a" "kout k' = Some b"
    and pout: "pout = put_pipe b q (ay_out s) \<or> pout = put_data b d (put_pipe b q (ay_out s))"
    and data: "worker_data E L lin n w0 cs (s\<lparr>ay_in := put_pipe a p (ay_in s), ay_out := pout\<rparr>) k'"
    and client: "w_pipe (ay_w s) = Some a \<Longrightarrow> \<exists>l. chunk_pipe lin n (last cs) True l p"
  shows "content E L lin got n w0 cs (set_worker t k' (s\<lparr>ay_out := pout, ay_in := put_pipe a p (ay_in s)\<rparr>))"
proof -
  have own: "own_cells (ay_workers s ! t) s (put_pipe a p (ay_in s)) pout" using own_put(1,2) [OF k(1,2)] pout by blast
  have g: "kpend k' = None" "kpend (ay_workers s ! t) = None" "\<not> kidle k'" "\<not> kidle (ay_workers s ! t)"
    using k kinds(3,4) by (metis option.distinct(1))+
  have len: "a < length (pp_heap (ay_in s))"
    using pool_cells(1) [OF shapeD(3) [OF S]] workers_holdD(1) [OF shapeD(6) [OF S] t k(1)] by blast
  have "content E L lin got n w0 cs (set_worker t k' (s\<lparr>ay_in := put_pipe a p (ay_in s), ay_out := pout\<rparr>))"
    by (rule content_worker [OF S C t own, THEN conjunct2]) (use k g data client len in auto)
  moreover have eq: "s\<lparr>ay_out := pout, ay_in := put_pipe a p (ay_in s)\<rparr> = s\<lparr>ay_in := put_pipe a p (ay_in s), ay_out := pout\<rparr>" by simp
  ultimately show ?thesis unfolding eq by blast
qed

lemma worker_cells:
  assumes S: "shape w0 s" and C: "content E L lin got n w0 cs s" and t: "t < length (ay_workers s)"
    and k: "kin (ay_workers s ! t) = Some a" "kout (ay_workers s ! t) = Some b"
  shows "a < length (pp_heap (ay_in s))" "b < length (pp_heap (ay_out s))"
    and "in_chunk lin n cs (s\<lparr>ay_in := put_pipe a p (ay_in s), ay_out := po\<rparr>) a l = chunk_pipe lin n (cs ! widx s a) (w_pipe (ay_w s) = Some a) l p"
    and "in_pipe (s\<lparr>ay_in := put_pipe a p (ay_in s), ay_out := po\<rparr>) a = p"
    and "out_pipe (s\<lparr>ay_in := pi, ay_out := put_pipe b q (ay_out s)\<rparr>) b = q"
    and "out_pipe (s\<lparr>ay_in := pi, ay_out := put_data b d (put_pipe b q (ay_out s))\<rparr>) b = q"
    and "pi_data (pp_heap (put_data b d (put_pipe b q (ay_out s))) ! b) = d"
    and "widx (s\<lparr>ay_in := put_pipe a p (ay_in s), ay_out := po\<rparr>) a = widx s a"
proof -
  show a: "a < length (pp_heap (ay_in s))"
    using pool_cells(1) [OF shapeD(3) [OF S]] workers_holdD(1) [OF shapeD(6) [OF S] t k(1)] by blast
  show b: "b < length (pp_heap (ay_out s))" using pool_cells(1) [OF shapeD(4) [OF S]] contentD(6) [OF C t k] by blast
  show "in_chunk lin n cs (s\<lparr>ay_in := put_pipe a p (ay_in s), ay_out := po\<rparr>) a l = chunk_pipe lin n (cs ! widx s a) (w_pipe (ay_w s) = Some a) l p"
    "in_pipe (s\<lparr>ay_in := put_pipe a p (ay_in s), ay_out := po\<rparr>) a = p"
    "widx (s\<lparr>ay_in := put_pipe a p (ay_in s), ay_out := po\<rparr>) a = widx s a"
    using a by (simp_all add: in_chunk_def widx_def in_pipe_def)
  show "out_pipe (s\<lparr>ay_in := pi, ay_out := put_pipe b q (ay_out s)\<rparr>) b = q"
    "out_pipe (s\<lparr>ay_in := pi, ay_out := put_data b d (put_pipe b q (ay_out s))\<rparr>) b = q"
    "pi_data (pp_heap (put_data b d (put_pipe b q (ay_out s))) ! b) = d"
    using b by (simp_all add: out_pipe_def)
qed

text \<open>Opening a block.\<close>

lemma content_open:
  assumes env: "async_env E B A L lin er pr pf w0 n" and S: "shape w0 s" and C: "content E L lin got n w0 cs s"
    and t: "t < length (ay_workers s)" and k: "ay_workers s ! t = KEnc a b" and run: "worker_step E B A L i t s = Some (Ret s')"
  shows "content E L lin got n w0 cs s' \<or> tainted er lin s' \<and> lib_fail L"
proof -
  note e = async_envD [OF env]
  have kk: "kin (ay_workers s ! t) = Some a" "kout (ay_workers s ! t) = Some b" using k by simp_all
  note cells = worker_cells [OF S C t kk]
  have d: "in_chunk lin n cs s a 0" "holds_block lin (nat (w_maxSize w0)) (out_pipe s b) []" using contentD(5) [OF C t] k by simp_all
  then have r: "lin (in_pipe s a) \<noteq> None" by (auto simp: in_chunk_def chunk_pipe_def)
  have enc: "worker_encode E t a b (blockEncode_open E B L w0) (\<lambda>(block, headerSize, z). set_worker t (KRun a b block headerSize z)) s = Some (Ret s')"
    using run k by (simp add: worker_step_def Let_def encode_conf [OF shapeD(2) [OF S]])
  from blockEncode_open_spec [OF e(1,4) d(2) r] show ?thesis
  proof (cases rule: outcome_cases)
    case (ret x st)
    obtain block headerSize z where x: "x = (block, headerSize, z)" by (cases x) auto
    with ret obtain q hs hole where q: "st = (q, in_pipe s a)" "opened L w0 block headerSize (st_coder z) hs"
      "holds_block lin (nat (w_maxSize w0)) q hole" "length hole = hs" by auto
    have s': "s' = set_worker t (KRun a b block headerSize z) (s\<lparr>ay_out := put_pipe b q (ay_out s), ay_in := put_pipe a (in_pipe s a) (ay_in s)\<rparr>)"
      using enc ret(1) x q(1) by (simp add: worker_encode_def)
    have "encoding L lin w0 q block headerSize (st_coder z) []"
      using q unfolding encoding_def by (intro exI [of _ "st_coder z"] exI [of _ hs] exI [of _ hole] exI [of _ "[]"]) (simp add: coder_run.idle)
    moreover have "chunk_pipe lin n (cs ! widx s a) (w_pipe (ay_w s) = Some a) 0 (in_pipe s a)" using d(1) by (simp add: in_chunk_def)
    ultimately have "worker_data E L lin n w0 cs (s\<lparr>ay_in := put_pipe a (in_pipe s a) (ay_in s), ay_out := put_pipe b q (ay_out s)\<rparr>) (KRun a b block headerSize z)"
      by (simp add: cells) (metis list.size(3) prefix_bot.bot_least)
    then have "content E L lin got n w0 cs s'" unfolding s'
      by (intro content_own [OF S C t kk]) (use contentD(3) [OF C] in auto)
    then show ?thesis ..
  next
    case (err x st)
    obtain q r' where st: "st = (q, r')" by (cases st)
    have "s' = set_worker t (KClose a b (Some x)) (s\<lparr>ay_out := put_pipe b q (ay_out s), ay_in := put_pipe a r' (ay_in s)\<rparr>)"
      using enc err(1) st e(7) by (simp add: worker_encode_def golib_laws)
    then show ?thesis using taint_worker [OF S C t kk] err(2) st by (simp add: pipes_alive_def)
  qed
qed

text \<open>A round of the coder.\<close>

lemma chunk_pipeD:
  assumes "pipe_mono B lin" and "chunk_pipe lin n c opn l p"
  obtains q where "lin p = Some q" "lp_mode q = LineDual" "lp_closed q \<longleftrightarrow> \<not> opn" "mono_data q = drop l c" "length c \<le> n" "l \<le> length c"
    "\<And>k p'. lin p' = Some (mono_get q k) \<Longrightarrow> chunk_pipe lin n c opn (l + k) p'"
proof -
  from assms(2) obtain q where q: "lin p = Some q" "lp_mode q = LineDual" "length (lp_buf q) = n" "lp_hi q = length c" "take (lp_hi q) (lp_buf q) = c"
    "lp_closed q \<longleftrightarrow> \<not> opn" "lp_lo q = l" by (auto simp: chunk_pipe_def)
  have ok: "mono_ok q" by (rule pipe_monoD(1) [OF assms(1) q(1)])
  have "mono_data q = drop l c" using q(5,7) by (auto simp: mono_data_def drop_take)
  moreover have "length c \<le> n" "l \<le> length c" using ok q(3,4,7) by (simp_all add: mono_ok_def)
  moreover have "chunk_pipe lin n c opn (l + k) p'" if "lin p' = Some (mono_get q k)" for k p'
    unfolding chunk_pipe_def using q that by (intro exI [of _ "mono_get q k"]) (auto simp: mono_get_def)
  ultimately show thesis using that q by metis
qed

lemma encoding_room:
  assumes "run_fits L w0 n" and "encoding L lin w0 p block headerSize c inp" and "length inp < n" and "lin p = Some d" and "pipe_mono B lin"
  shows "0 < mono_room d"
proof -
  from assms(2,4) obtain c0 hs hole out where o: "opened L w0 block headerSize c0 hs" "coder_run L RUN c0 inp out c" "length hole = hs"
    "lp_lo d = 0" "length (lp_buf d) = nat (w_maxSize w0)" "mono_data d = hole @ out" by (auto simp: encoding_def holds_block_def)
  have "int (hs + length out) < w_maxSize w0" using assms(1,3) o(1,2) unfolding run_fits_def by blast
  moreover have "lp_hi d = hs + length out"
    using length_mono_data [OF pipe_monoD(1) [OF assms(5,4)]] o(3,4,6) by simp
  ultimately show ?thesis using o(5) by (simp add: mono_room_def)
qed

lemma encoding_step:
  assumes "encoding L lin w0 p block headerSize c inp" and "c_code L c RUN inBuf m = (r, k, out, c')" and "pipe_mono B lin"
    and "lin p = Some d" and "length out \<le> mono_room d" and "lin p' = Some (mono_put d out)"
  shows "encoding L lin w0 p' block headerSize c' (inp @ take k inBuf)"
proof -
  from assms(1,4) obtain c0 hs hole out0 where o: "opened L w0 block headerSize c0 hs" "coder_run L RUN c0 inp out0 c" "length hole = hs"
    "lp_lo d = 0" "length (lp_buf d) = nat (w_maxSize w0)" "mono_data d = hole @ out0" "lp_mode d = LineMono" "\<not> lp_closed d"
    by (auto simp: encoding_def holds_block_def)
  have ok: "mono_ok d" by (rule pipe_monoD(1) [OF assms(3,4)])
  have "coder_run L RUN c0 (inp @ take k inBuf) (out0 @ out) c'" using coder_run_trans [OF o(2) coder_call [OF assms(2)]] .
  moreover have "holds_block lin (nat (w_maxSize w0)) p' (hole @ out0 @ out)"
    using assms(6) o mono_data_put(1) [OF ok assms(5)] ok by (simp add: holds_block_def)
  ultimately show ?thesis using o(1,3) unfolding encoding_def by blast
qed

lemma content_round:
  assumes env: "async_env E B A L lin er pr pf w0 n" and S: "shape w0 s" and C: "content E L lin got n w0 cs s"
    and t: "t < length (ay_workers s)" and k: "ay_workers s ! t = KRun a b block headerSize z" and run: "worker_step E B A L i t s = Some (Ret s')"
  shows "content E L lin got n w0 cs s'"
proof -
  note e = async_envD [OF env]
  have kk: "kin (ay_workers s ! t) = Some a" "kout (ay_workers s ! t) = Some b" using k by simp_all
  note cells = worker_cells [OF S C t kk]
  let ?c = "cs ! widx s a" let ?o = "w_pipe (ay_w s) = Some a"
  have can: "ap_CanRead A (in_pipe s a)" and s': "s' = worker_round B L t a b block headerSize z s"
    using run k by (simp_all add: worker_step_def Let_def split: if_splits)
  obtain inp where inp: "encoding L lin w0 (out_pipe s b) block headerSize (st_coder z) inp"
    "chunk_pipe lin n ?c ?o (length inp) (in_pipe s a)" "prefix inp ?c" using contentD(5) [OF C t] k by (auto simp: in_chunk_def)
  obtain q where q: "lin (in_pipe s a) = Some q" "lp_mode q = LineDual" "lp_closed q \<longleftrightarrow> \<not> ?o" "mono_data q = drop (length inp) ?c"
    "length ?c \<le> n" "\<And>k p'. lin p' = Some (mono_get q k) \<Longrightarrow> chunk_pipe lin n ?c ?o (length inp + k) p'"
    using chunk_pipeD [OF e(8) inp(2)] by metis
  obtain d where d: "lin (out_pipe s b) = Some d" "\<not> lp_closed d" using inp(1) by (auto simp: encoding_def holds_block_def)
  have rdy: "lp_readable q" by (rule pipe_asyncD(1) [OF e(3) q(1) can])
  have so: "src_at lin (Some (in_pipe s a)) (Some q)" "src_ready (Some q)" using q(1) rdy by (simp_all add: src_at_def src_ready_def)
  have client: "\<exists>l. chunk_pipe lin n (last cs) True l p" if "chunk_pipe lin n ?c ?o l p" ?o for l p
    using that client_cell [OF S C that(2)] by auto
  show ?thesis
  proof (cases rule: mono_round [OF e(8,9) so d, of RUN z 0 0])
    case (1 err)
    have s2: "s' = set_worker t (KFin a b block headerSize z err)
        (s\<lparr>ay_out := put_pipe b (out_pipe s b) (ay_out s), ay_in := put_pipe a (in_pipe s a) (ay_in s)\<rparr>)"
      using s' 1(1) by (simp add: worker_round_def)
    have eof: "err = Some EOF" if "mono_data q = []"
      using 1(1) mono_source [OF e(8) so] that by (simp add: processPipe_round_def)
    have "mono_data q = []"
    proof (rule ccontr)
      assume "mono_data q \<noteq> []"
      then have "length inp < n" "mono_room d = 0" using 1(2) q(4,5) by auto
      with encoding_room [OF e(6) inp(1) _ d(1) e(8)] show False by simp
    qed
    then have "err = Some EOF" "inp = ?c" "\<not> ?o"
      using eof q(3,4) inp(3) rdy by (auto simp: lp_readable_def prefix_def)
    then have "worker_data E L lin n w0 cs (s\<lparr>ay_in := put_pipe a (in_pipe s a) (ay_in s), ay_out := put_pipe b (out_pipe s b) (ay_out s)\<rparr>)
        (KFin a b block headerSize z err)"
      using inp(1,2) by (simp add: cells) blast
    then show ?thesis unfolding s2
      by - (rule content_own [OF S C t kk _ _ disjI1 [OF refl] _ client [OF inp(2)]]; simp)
  next
    case (2 r j out z1 p1 src1 inBuf m)
    then obtain r' where r': "src1 = Some r'" "lin r' = Some (mono_get q j)" by (auto simp: src_at_def split: option.splits)
    have pre: "prefix inBuf (drop (length inp) ?c)" and j: "j \<le> length inBuf" using 2(4,6) q(4) by simp_all
    let ?inp = "inp @ take j inBuf"
    have len: "length ?inp = length inp + j" using j by simp
    have "prefix (take j inBuf) (drop (length inp) ?c)" using pre take_is_prefix prefix_order.trans by blast
    then have p: "prefix ?inp ?c" using inp(3) by (auto simp: prefix_def)
    have en: "encoding L lin w0 p1 block headerSize (st_coder z1) ?inp"
      by (rule encoding_step [OF inp(1) 2(2) e(8) d(1) 2(5,8)])
    have ch: "chunk_pipe lin n ?c ?o (length ?inp) r'" unfolding len by (rule q(6) [OF r'(2)])
    let ?k = "if r = OK then KRun a b block headerSize z1 else KFin a b block headerSize z1 (Some (LibErr r))"
    have s2: "s' = set_worker t ?k (s\<lparr>ay_out := put_pipe b p1 (ay_out s), ay_in := put_pipe a r' (ay_in s)\<rparr>)"
      using s' 2(1) r'(1) by (simp add: worker_round_def)
    have ce: "code_error L RUN (st_coder z1) (Some (LibErr r))" if "r \<noteq> OK" using 2(2) that unfolding code_error_def by blast
    have "worker_data E L lin n w0 cs (s\<lparr>ay_in := put_pipe a r' (ay_in s), ay_out := put_pipe b p1 (ay_out s)\<rparr>) ?k"
      using en ch p ce by (cases "r = OK") (simp_all add: cells del: length_append, blast+)
    then show ?thesis unfolding s2
      by - (rule content_own [OF S C t kk _ _ disjI1 [OF refl] _ client [OF ch]]; simp)
  qed
qed

text \<open>Finishing a block.\<close>

lemma content_finish:
  assumes env: "async_env E B A L lin er pr pf w0 n" and S: "shape w0 s" and C: "content E L lin got n w0 cs s"
    and t: "t < length (ay_workers s)" and k: "ay_workers s ! t = KFin a b block headerSize z err"
    and run: "worker_step E B A L i t s = Some (Ret s')"
  shows "content E L lin got n w0 cs s' \<or> tainted er lin s' \<and> lib_fail L"
proof -
  note e = async_envD [OF env]
  have kk: "kin (ay_workers s ! t) = Some a" "kout (ay_workers s ! t) = Some b" using k by simp_all
  note cells = worker_cells [OF S C t kk]
  let ?c = "cs ! widx s a"
  obtain inp l where inp: "encoding L lin w0 (out_pipe s b) block headerSize (st_coder z) inp"
    "chunk_pipe lin n ?c (w_pipe (ay_w s) = Some a) l (in_pipe s a)"
    "err = Some EOF \<and> inp = ?c \<and> w_pipe (ay_w s) \<noteq> Some a \<or> code_error L RUN (st_coder z) err"
    using contentD(5) [OF C t] k by (auto simp: in_chunk_def)
  have len: "length ?c \<le> 2 ^ 62" by (rule chunk_pipeD [OF e(8) inp(2)]) (use e(4) in \<open>simp add: chunked_def\<close>)
  obtain c0 hs hole out where o: "opened L w0 block headerSize c0 hs" "coder_run L RUN c0 inp out (st_coder z)" "length hole = hs"
    "holds_block lin (nat (w_maxSize w0)) (out_pipe s b) (hole @ out)" using inp(1) by (auto simp: encoding_def)
  have enc: "worker_encode E t a b (blockEncode_rest E B L w0 block headerSize z err) (\<lambda>(unpadSize, uncompSize) s. set_worker t (KClose a b None)
            (s\<lparr>ay_out := put_data b (Some \<lparr>ss_unpadSize = unpadSize, ss_uncompSize = uncompSize\<rparr>) (ay_out s)\<rparr>)) s = Some (Ret s')"
    using run k by (simp add: worker_step_def Let_def encode_conf [OF shapeD(2) [OF S]])
  have taint: "tainted er lin s'" if "blockEncode_rest E B L w0 block headerSize z err (out_pipe s b, in_pipe s a) = Some (Pan (PErr (Some x)), st)"
    "pipes_alive lin st" for x st
  proof -
    obtain q r' where st: "st = (q, r')" by (cases st)
    have "s' = set_worker t (KClose a b (Some x)) (s\<lparr>ay_out := put_pipe b q (ay_out s), ay_in := put_pipe a r' (ay_in s)\<rparr>)"
      using enc that(1) st e(7) by (simp add: worker_encode_def golib_laws)
    then show ?thesis using taint_worker [OF S C t kk] that(2) st by (simp add: pipes_alive_def)
  qed
  show ?thesis
  proof (cases "code_error L RUN (st_coder z) err")
    case True
    then obtain r where r: "err = Some (LibErr r)" by (auto simp: code_error_def)
    then have "blockEncode_rest E B L w0 block headerSize z err (out_pipe s b, in_pipe s a) =
        Some (Pan (PErr (Some (LibErr r))), (out_pipe s b, in_pipe s a))"
      using e(7) by (simp add: blockEncode_rest_def golib_laws)
    moreover have "pipes_alive lin (out_pipe s b, in_pipe s a)"
      using o(4) inp(2) by (auto simp: pipes_alive_def holds_block_def chunk_pipe_def)
    moreover have "lib_fail L" by (rule lib_failI(3) [OF True])
    ultimately show ?thesis using taint by blast
  next
    case False
    with inp(3) have f: "err = Some EOF" "inp = ?c" "w_pipe (ay_w s) \<noteq> Some a" by auto
    have "outcome (blockEncode_rest E B L w0 block headerSize z err (out_pipe s b, in_pipe s a)) (encoded E L lin w0 n ?c)
        (\<lambda>s. lib_fail L \<and> pipes_alive lin s)"
      by (rule blockEncode_rest_spec [OF e(1,4) o(1,2,4,3) chunk_holds [OF inp(2)]]) (simp add: f)
    then show ?thesis
    proof (cases rule: outcome_cases)
      case (ret x st)
      obtain u v q r' where x: "x = (u, v)" "st = (q, r')" by (cases x, cases st) auto
      with ret(2) obtain blk where blk: "holds_chunk lin n r' ?c" "holds_block lin (nat (w_maxSize w0)) q blk" "block_of E L w0 ?c blk (u, v)"
        by (auto simp: encoded_def)
      let ?d = "Some \<lparr>ss_unpadSize = u, ss_uncompSize = v\<rparr>"
      have eq: "s\<lparr>ay_in := put_pipe a r' (ay_in s), ay_out := put_data b ?d (put_pipe b q (ay_out s))\<rparr> =
          s\<lparr>ay_out := put_data b ?d (put_pipe b q (ay_out s)), ay_in := put_pipe a r' (ay_in s)\<rparr>" by simp
      have "s' = set_worker t (KClose a b None) (s\<lparr>ay_in := put_pipe a r' (ay_in s), ay_out := put_data b ?d (put_pipe b q (ay_out s))\<rparr>)"
        using enc ret(1) x by (simp add: worker_encode_def)
      then have s': "s' = set_worker t (KClose a b None) (s\<lparr>ay_out := put_data b ?d (put_pipe b q (ay_out s)), ay_in := put_pipe a r' (ay_in s)\<rparr>)"
        unfolding eq .
      have "block_data E L w0 ?c blk ?d" using block_sizes [OF e(5) blk(3) len] blk(3) by (auto simp: block_data_def)
      then have "worker_data E L lin n w0 cs (s\<lparr>ay_in := put_pipe a r' (ay_in s), ay_out := put_data b ?d (put_pipe b q (ay_out s))\<rparr>) (KClose a b None)"
        using blk(1,2) f(3) by (auto simp: cells holds_chunk_def)
      then have "content E L lin got n w0 cs s'" unfolding s'
        by - (rule content_own [OF S C t kk _ _ disjI2 [OF refl]]; use f(3) in simp)
      then show ?thesis ..
    next
      case (err x st)
      then show ?thesis using taint by blast
    qed
  qed
qed

text \<open>Closing a finished output.\<close>

lemma content_close:
  assumes env: "async_env E B A L lin er pr pf w0 n" and S: "shape w0 s" and C: "content E L lin got n w0 cs s"
    and t: "t < length (ay_workers s)" and k: "ay_workers s ! t = KClose a b err" and run: "worker_step E B A L i t s = Some (Ret s')"
  shows "content E L lin got n w0 cs s'"
proof -
  note e = async_envD [OF env]
  have kk: "kin (ay_workers s ! t) = Some a" "kout (ay_workers s ! t) = Some b" using k by simp_all
  have len: "b < length (pp_heap (ay_out s))" using pool_cells(1) [OF shapeD(4) [OF S]] contentD(6) [OF C t kk] by blast
  obtain blk where d: "err = None" "lin (in_pipe s a) \<noteq> None" "w_pipe (ay_w s) \<noteq> Some a"
    "holds_block lin (nat (w_maxSize w0)) (out_pipe s b) blk" "block_data E L w0 (cs ! widx s a) blk (pi_data (pp_heap (ay_out s) ! b))"
    using contentD(5) [OF C t] k by auto
  obtain q where q: "lin (out_pipe s b) = Some q" "mono_data q = blk" using d(4) by (auto simp: holds_block_def)
  let ?p = "ap_CloseWithError A (out_pipe s b) None" let ?out = "put_pipe b ?p (ay_out s)"
  have s': "s' = set_worker t (KRest a) (s\<lparr>ay_in := ay_in s, ay_out := ?out\<rparr>)"
    using run k d(1) by (simp add: worker_step_def Let_def)
  have "done_data E L lin w0 (cs ! nat j) (pp_heap ?out ! b)" if "(j, b) \<in> ready_set (ay_out s) \<union> active_set (ay_out s)" for j
  proof -
    have "j = pi_idx (pp_heap (ay_in s) ! a)"
      using contentD(6) [OF C t kk] that pool_cells(2) [OF shapeD(4) [OF S], of j b] by blast
    then have "nat j = widx s a" by (simp add: widx_def)
    moreover have "lin ?p = Some (q\<lparr>lp_closed := True\<rparr>)" by (rule pipe_asyncD(3) [OF e(3) q(1)])
    moreover have "mono_data (q\<lparr>lp_closed := True\<rparr>) = blk" using q(2) by (simp add: mono_data_def)
    ultimately show ?thesis using d(5) len unfolding done_data_def by (intro exI [of _ "q\<lparr>lp_closed := True\<rparr>"]) simp
  qed
  moreover have "worker_data E L lin n w0 cs (s\<lparr>ay_in := ay_in s, ay_out := ?out\<rparr>) (KRest a)" using d(2,3) by (simp add: in_pipe_def)
  ultimately show ?thesis unfolding s'
    by - (rule content_worker [OF S C t own_put(3) [OF kk], THEN conjunct2]; use k d(3) in auto)
qed

end
