(* ===== verification/Xz_Async_Steps.thy ===== *)
theory Xz_Async_Steps
  imports Xz_Async_Code
begin

text \<open>
  Every step of the parallel writer keeps its shape, and keeps what the pipes hold or leaves an output
  with an error behind.
\<close>

section \<open>The workers\<close>

lemma async_sized: "async_env E B A L lin er pr pf w0 n \<Longrightarrow> sized w0"
proof -
  assume "async_env E B A L lin er pr pf w0 n"
  note e = async_envD [OF this]
  have "int n \<le> w_maxSize w0" by (rule chunked_max [OF e(1,4)])
  moreover have "w_chunkSize w0 = int n" using e(4) by (simp add: chunked_def)
  ultimately show "sized w0" by (simp add: sized_def)
qed

lemma worker_shape:
  assumes env: "async_env E B A L lin er pr pf w0 n" and S: "shape w0 s"
    and t: "t < length (ay_workers s)" and run: "worker_step E B A L i t s = Some (Ret s')"
  shows "shape w0 s'"
proof -
  note e = async_envD [OF env]
  show ?thesis
  proof (cases rule: worker_moves [OF S e(2,8) async_sized [OF env] t run])
    case (1 k' pin pout)
    then have "shape w0 (s\<lparr>ay_in := pin, ay_out := pout\<rparr>)" "pool_like (ay_in s) pin"
      using shape_pools [OF S] by (simp_all add: own_cells_def)
    then show ?thesis using 1 t by (auto simp: pool_like_def intro: shape_goes_on)
  next
    case (2 j a pp)
    then have "kin (ay_workers s ! t) = None" by auto
    then show ?thesis using shape_take_in [OF S t _ 2(3-6,8-10)] 2(1) by simp
  next
    case (3 a b pp)
    then have "kpend (ay_workers s ! t) = Some a" by auto
    then show ?thesis using shape_take_out [OF S t _ refl 3(3-8)] 3(1) by simp
  next
    case (4 a pp)
    then show ?thesis using shape_restore_in [OF S t 4(2-5,7-9)] by simp
  qed
qed

lemma worker_content:
  assumes env: "async_env E B A L lin er pr pf w0 n" and S: "shape w0 s" and C: "content E L lin got n w0 cs s"
    and t: "t < length (ay_workers s)" and run: "worker_step E B A L i t s = Some (Ret s')"
  shows "content E L lin got n w0 cs s' \<or> tainted er lin s' \<and> lib_fail L"
proof -
  note e = async_envD [OF env]
  show ?thesis
  proof (cases "kout (ay_workers s ! t)")
    case (Some b)
    then show ?thesis
      using content_open [OF env S C t _ run] content_round [OF env S C t _ run] content_finish [OF env S C t _ run]
        content_close [OF env S C t _ run]
      by (cases "ay_workers s ! t") auto
  next
    case None
    show ?thesis
    proof (cases rule: worker_moves [OF S e(2,8) async_sized [OF env] t run])
      case (1 k' pin pout)
      then show ?thesis using content_idle [OF S C t 1(2-5) _ None] None by simp
    next
      case (2 j a pp)
      then show ?thesis using content_take_in [OF S C t 2(2,4-7,9)] by simp
    next
      case (3 a b pp)
      then show ?thesis using content_take_out [OF S C t 3(2,5,6,9-11)] by simp
    next
      case (4 a pp)
      then show ?thesis using content_restore_in [OF S C e(8) t 4(2,4-6,9)] by simp
    qed
  qed
qed

text \<open>An output with an error stays one.\<close>

lemma tainted_keep:
  assumes "tainted er lin s" and d: "dread (ay_deliverer s') = dread (ay_deliverer s)"
    and sets: "ready_set (ay_out s) \<union> active_set (ay_out s) \<subseteq> ready_set (ay_out s') \<union> active_set (ay_out s')"
    and cells: "\<And>j b. (j, b) \<in> ready_set (ay_out s) \<union> active_set (ay_out s) \<Longrightarrow> pp_heap (ay_out s') ! b = pp_heap (ay_out s) ! b"
    and len: "length (ay_workers s) \<le> length (ay_workers s')"
    and same: "\<And>u a b e. u < length (ay_workers s) \<Longrightarrow> ay_workers s ! u = KClose a b e \<Longrightarrow> ay_workers s' ! u = ay_workers s ! u"
    and kout: "\<And>u j b. u < length (ay_workers s') \<Longrightarrow> kout (ay_workers s' ! u) = Some b \<Longrightarrow> (j, b) \<in> ready_set (ay_out s) \<union> active_set (ay_out s) \<Longrightarrow>
       u < length (ay_workers s) \<and> kout (ay_workers s ! u) = Some b"
  shows "tainted er lin s'"
proof -
  from assms(1) obtain j b where b: "(j, b) \<in> ready_set (ay_out s) \<union> active_set (ay_out s)" "dread (ay_deliverer s) \<noteq> Some b" "spoiled er lin s b"
    unfolding tainted_def by blast
  have o: "out_pipe s' b = out_pipe s b" using cells [OF b(1)] by (simp add: out_pipe_def)
  have k: "kout (ay_workers s' ! u) = Some b \<Longrightarrow> u < length (ay_workers s) \<and> kout (ay_workers s ! u) = Some b" if "u < length (ay_workers s')" for u
    using kout [OF that _ b(1)] .
  from b(3) have "spoiled er lin s' b"
    unfolding spoiled_def o
  proof (elim disjE exE conjE)
    fix t a e q
    assume t: "t < length (ay_workers s)" "ay_workers s ! t = KClose a b (Some e)" "\<forall>u < length (ay_workers s). u \<noteq> t \<longrightarrow> kout (ay_workers s ! u) \<noteq> Some b"
      and q: "lin (out_pipe s b) = Some q" "lp_mode q = LineMono" "\<not> lp_closed q"
    have "ay_workers s' ! t = KClose a b (Some e)" using same [OF t(1,2)] t(2) by simp
    moreover have "\<forall>u < length (ay_workers s'). u \<noteq> t \<longrightarrow> kout (ay_workers s' ! u) \<noteq> Some b" using k t(3) by blast
    moreover have "t < length (ay_workers s')" using t(1) len by simp
    ultimately show "(\<exists>t < length (ay_workers s'). \<exists>a e. ay_workers s' ! t = KClose a b (Some e) \<and>
        (\<exists>q. lin (out_pipe s b) = Some q \<and> lp_mode q = LineMono \<and> \<not> lp_closed q) \<and>
        (\<forall>u < length (ay_workers s'). u \<noteq> t \<longrightarrow> kout (ay_workers s' ! u) \<noteq> Some b)) \<or>
     (\<forall>u < length (ay_workers s'). kout (ay_workers s' ! u) \<noteq> Some b) \<and> er (out_pipe s b) \<noteq> None"
      using q by blast
  qed (use k in blast)
  then show ?thesis using b(1,2) d sets unfolding tainted_def by auto
qed

lemma tainted_set:
  assumes "tainted er lin s" and W: "ay_workers s' = (ay_workers s)[t := k']" "t < length (ay_workers s)" "kout (ay_workers s ! t) = None"
    and "dread (ay_deliverer s') = dread (ay_deliverer s)"
      "ready_set (ay_out s) \<union> active_set (ay_out s) \<subseteq> ready_set (ay_out s') \<union> active_set (ay_out s')"
    and "\<And>j b. (j, b) \<in> ready_set (ay_out s) \<union> active_set (ay_out s) \<Longrightarrow> pp_heap (ay_out s') ! b = pp_heap (ay_out s) ! b \<and> kout k' \<noteq> Some b"
  shows "tainted er lin s'"
proof -
  have W': "ay_workers s' ! u = (if u = t then k' else ay_workers s ! u)" if "u < length (ay_workers s)" for u
    using W(1) that by simp
  show ?thesis
    by (rule tainted_keep [OF assms(1,5,6)]) (use assms(7) W W' in \<open>auto split: if_splits\<close>)
qed

lemma worker_tainted:
  assumes env: "async_env E B A L lin er pr pf w0 n" and S: "shape w0 s" and T: "tainted er lin s"
    and t: "t < length (ay_workers s)" and run: "worker_step E B A L i t s = Some (Ret s')"
  shows "tainted er lin s'"
proof -
  note e = async_envD [OF env]
  show ?thesis
  proof (cases rule: worker_moves [OF S e(2,8) async_sized [OF env] t run])
    case (1 k' pin pout)
    from T obtain j b where b: "(j, b) \<in> ready_set (ay_out s) \<union> active_set (ay_out s)" "dread (ay_deliverer s) \<noteq> Some b" "spoiled er lin s b"
      unfolding tainted_def by blast
    have f: "ay_out s' = pout" "ay_deliverer s' = ay_deliverer s" "length (ay_workers s') = length (ay_workers s)"
      "\<And>u. u < length (ay_workers s) \<Longrightarrow> ay_workers s' ! u = (if u = t then k' else ay_workers s ! u)"
      using 1(1) by (simp_all add: set_worker_def)
    have sets: "ready_set pout = ready_set (ay_out s)" "active_set pout = active_set (ay_out s)"
      using 1(2) by (simp_all add: own_cells_def pool_like_def)
    have len: "b < length (pp_heap (ay_out s))" using pool_cells(1) [OF shapeD(4) [OF S]] b(1) by blast
    have cell: "out_pipe s' b = out_pipe s b" if "kout (ay_workers s ! t) \<noteq> Some b" for b
      using 1(2) that by (simp add: own_cells_def out_pipe_def f)
    have k: "kout (ay_workers s' ! u) = Some b \<Longrightarrow> kout (ay_workers s ! u) = Some b" if "u < length (ay_workers s)" for u b
      using f(4) [OF that] 1(5) by (auto split: if_splits)
    from b(3) consider (a) t0 a x q where "t0 < length (ay_workers s)" "ay_workers s ! t0 = KClose a b (Some x)"
        "lin (out_pipe s b) = Some q" "lp_mode q = LineMono" "\<not> lp_closed q" "\<forall>u < length (ay_workers s). u \<noteq> t0 \<longrightarrow> kout (ay_workers s ! u) \<noteq> Some b"
      | (b) "\<forall>u < length (ay_workers s). kout (ay_workers s ! u) \<noteq> Some b" "er (out_pipe s b) \<noteq> None"
      unfolding spoiled_def by blast
    then have "spoiled er lin s' b"
    proof cases
      case a
      show ?thesis
      proof (cases "t0 = t")
        case True
        with 1(7) a(2) have "k' = KRest a" "pout = put_pipe b (ap_CloseWithError A (out_pipe s b) (Some x)) (ay_out s)" by simp_all
        then have "\<forall>u < length (ay_workers s'). kout (ay_workers s' ! u) \<noteq> Some b" "er (out_pipe s' b) = Some x"
          using a(6) f True pipe_asyncD(2) [OF e(3) a(3)] len by (auto simp: out_pipe_def)
        then show ?thesis by (simp add: spoiled_def)
      next
        case False
        then have "out_pipe s' b = out_pipe s b" using a(6) t cell by metis
        moreover have "ay_workers s' ! t0 = KClose a b (Some x)" using f(4) [OF a(1)] a(2) False by simp
        moreover have "\<forall>u < length (ay_workers s'). u \<noteq> t0 \<longrightarrow> kout (ay_workers s' ! u) \<noteq> Some b" using k a(6) f(3) by metis
        ultimately show ?thesis using a(1,3,4,5) f(3) unfolding spoiled_def by metis
      qed
    next
      case b
      then have "out_pipe s' b = out_pipe s b" using t cell by metis
      then show ?thesis using b k f(3) unfolding spoiled_def by metis
    qed
    then show ?thesis using b(1,2) unfolding tainted_def f sets by blast
  next
    case (2 j a pp)
    then show ?thesis by (intro tainted_set [OF T _ t]) (auto simp: set_worker_def)
  next
    case (3 a b pp)
    show ?thesis
    proof (rule tainted_set [OF T _ t])
      show "pp_heap (ay_out s') ! c = pp_heap (ay_out s) ! c \<and> kout (KEnc a b) \<noteq> Some c"
        if "(j, c) \<in> ready_set (ay_out s) \<union> active_set (ay_out s)" for j c
        using 3(9) [OF that] 3(1) by (simp add: set_worker_def)
    qed (use 3(1,2,5,6) in \<open>auto simp: set_worker_def\<close>)
  next
    case (4 a pp)
    then show ?thesis by (intro tainted_set [OF T _ t]) (auto simp: set_worker_def)
  qed
qed

section \<open>The monitors\<close>

text \<open>A step that only adds idle workers or changes the settings of the pools.\<close>

lemma content_frame:
  assumes C: "content E L lin got n w0 cs s"
    and same: "ay_w s' = ay_w s" "ay_client s' = ay_client s" "ay_log s' = ay_log s" "ay_deliverer s' = ay_deliverer s"
      "pp_heap (ay_in s') = pp_heap (ay_in s)" "ready_set (ay_in s') = ready_set (ay_in s)" "active_set (ay_in s') = active_set (ay_in s)"
      "free_set (ay_in s') = free_set (ay_in s)"
      "pp_heap (ay_out s') = pp_heap (ay_out s)" "ready_set (ay_out s') = ready_set (ay_out s)" "active_set (ay_out s') = active_set (ay_out s)"
      "free_set (ay_out s') = free_set (ay_out s)"
      "ay_workers s' = ay_workers s @ replicate l KGet"
  shows "content E L lin got n w0 cs s'"
proof -
  note Cd = contentD [OF C]
  have W': "ay_workers s' ! u = (if u < length (ay_workers s) then ay_workers s ! u else KGet)" if "u < length (ay_workers s')" for u
    using that by (auto simp: same(13) nth_append)
  have pipes: "in_chunk lin n cs s' = in_chunk lin n cs s" "in_pipe s' = in_pipe s" "taken s' = taken s"
    using same by (simp_all add: fun_eq_iff in_chunk_def widx_def in_pipe_def taken_def)
  have data: "worker_data E L lin n w0 cs s' k = worker_data E L lin n w0 cs s k" for k
    by (rule worker_data_cong) (use same in simp_all)
  have 5: "worker_data E L lin n w0 cs s' (ay_workers s' ! u)" if "u < length (ay_workers s')" for u
    using Cd(5) [of u] W' [OF that] data by simp
  have 6: "(pi_idx (pp_heap (ay_in s) ! a), b) \<in> ready_set (ay_out s) \<union> active_set (ay_out s) \<and> dread (ay_deliverer s) \<noteq> Some b"
    if "u < length (ay_workers s')" "kin (ay_workers s' ! u) = Some a" "kout (ay_workers s' ! u) = Some b" for u a b
    using Cd(6) [of u a b] that W' [OF that(1)] by (simp split: if_splits)
  have 7: "done_data E L lin w0 (cs ! nat i) (pp_heap (ay_out s) ! b)"
    if b: "(i, b) \<in> ready_set (ay_out s) \<union> active_set (ay_out s)" "\<forall>u < length (ay_workers s'). kout (ay_workers s' ! u) \<noteq> Some b" "dread (ay_deliverer s) \<noteq> Some b" for i b
  proof -
    have "length (ay_workers s) \<le> length (ay_workers s')" by (simp add: same(13))
    then have "\<forall>u < length (ay_workers s). kout (ay_workers s ! u) \<noteq> Some b" using b(2) W' by (metis order.strict_trans2)
    then show ?thesis using Cd(7) [OF b(1) _ b(3)] by blast
  qed
  have free: "free_lin lin (ay_in s')" "free_lin lin (ay_out s')" using Cd(9,10) same by (simp_all add: free_lin_def)
  have 8: "deliver_data E L lin got w0 cs (ay_w s) (ay_out s') (ay_deliverer s)"
    using Cd(8) same(9) by (cases "ay_deliverer s") simp_all
  show ?thesis
    unfolding content_def pipes same(1-7,9-11) using Cd(1-4) 5 6 7 8 free by (simp add: same)
qed

lemma tainted_frame:
  assumes T: "tainted er lin s" and same: "dread (ay_deliverer s') = dread (ay_deliverer s)"
      "pp_heap (ay_out s') = pp_heap (ay_out s)" "ready_set (ay_out s') = ready_set (ay_out s)" "active_set (ay_out s') = active_set (ay_out s)"
      "ay_workers s' = ay_workers s @ replicate l KGet"
  shows "tainted er lin s'"
  by (rule tainted_keep [OF T]) (use same in \<open>auto simp: nth_append split: if_splits\<close>)

text \<open>
  The invariant while no error was reported: the pipes hold what they should, or liblzma has failed and
  an output has an error.
\<close>

definition sound ::
  "errs \<Rightarrow> ('z, 'x) liblzma \<Rightarrow> ('p \<Rightarrow> lpipe option) \<Rightarrow> ('p \<Rightarrow> goerr option) \<Rightarrow> ('w \<Rightarrow> bytes) \<Rightarrow> nat \<Rightarrow> ('z, 'x, 'p, 'w) Writer \<Rightarrow>
   ('z, 'x, 'p, 'w) asys \<Rightarrow> bool" where
  "sound E L lin er got n w0 s \<longleftrightarrow> shape w0 s \<and> ((\<exists>cs. content E L lin got n w0 cs s) \<or> tainted er lin s \<and> lib_fail L)"

lemma sound_worker:
  assumes "async_env E B A L lin er pr pf w0 n" and "sound E L lin er got n w0 s"
    and "t < length (ay_workers s)" and "worker_step E B A L i t s = Some (Ret s')"
  shows "sound E L lin er got n w0 s'"
  using assms worker_shape worker_content worker_tainted unfolding sound_def by metis

lemma sound_monitor:
  assumes "sound E L lin er got n w0 s" and run: "monitor_step B s = Some (Ret s')"
  shows "sound E L lin er got n w0 s'"
proof -
  have S: "shape w0 s" using assms(1) by (simp add: sound_def)
  from shape_monitor [OF S run] obtain pin pout l where m: "shape w0 s'" "pool_same (ay_in s) pin" "pool_same (ay_out s) pout"
    "s' = s\<lparr>ay_in := pin, ay_out := pout, ay_work := ay_work s', ay_workers := ay_workers s @ replicate l KGet, ay_monitor := ay_monitor s'\<rparr>"
    by blast
  have f: "ay_w s' = ay_w s" "ay_client s' = ay_client s" "ay_log s' = ay_log s" "ay_deliverer s' = ay_deliverer s"
    "ay_in s' = pin" "ay_out s' = pout" "ay_workers s' = ay_workers s @ replicate l KGet"
    by (subst m(4), simp)+
  have "content E L lin got n w0 cs s'" if "content E L lin got n w0 cs s" for cs
    by (rule content_frame [OF that]) (use f m(2,3) in \<open>simp_all add: pool_same_def pool_like_def\<close>)
  moreover have "tainted er lin s'" if "tainted er lin s"
    by (rule tainted_frame [OF that]) (use f m(2,3) in \<open>simp_all add: pool_same_def pool_like_def\<close>)
  ultimately show ?thesis using m(1) assms(1) unfolding sound_def by blast
qed

lemma sound_ended:
  assumes "sound E L lin er got n w0 s" and run: "ended_step s = Some (Ret s')"
  shows "sound E L lin er got n w0 s'"
proof -
  have s': "s' = s\<lparr>ay_out := (ay_out s)\<lparr>pp_closed := True\<rparr>, ay_ended := True\<rparr>"
    using run by (auto simp: ended_step_def pool_close_def split: if_splits)
  have "content E L lin got n w0 cs s'" if "content E L lin got n w0 cs s" for cs
    by (rule content_frame [OF that, where l = 0]) (simp_all add: s')
  moreover have "tainted er lin s'" if "tainted er lin s"
    by (rule tainted_frame [OF that, where l = 0]) (simp_all add: s')
  moreover have "shape w0 s'" using assms shape_ended unfolding sound_def by blast
  ultimately show ?thesis using assms(1) unfolding sound_def by blast
qed

end
