(* ===== verification/Xz_Async_Deliver.thy ===== *)
theory Xz_Async_Deliver
  imports Xz_Async_Steps
begin

text \<open>
  The routine that delivers the blocks: it writes the blocks in the order of the chunks, and ends
  without an error only when all of them are written.
\<close>

section \<open>The deliveries\<close>

lemma deliver_data_plain:
  "dread d = None \<Longrightarrow> deliver_data E L lin got w0 cs w pout d \<longleftrightarrow>
     (\<exists>blks. blocks_of E L w0 (w_index w0) (take (nat (dpos d)) cs) blks (w_index w) \<and> got (w_wr w) = got (w_wr w0) @ concat blks)"
  by (cases d) simp_all

text \<open>It waits, goes on to the final check, or takes a pipe.\<close>

lemma content_deliverer:
  assumes C: "content E L lin got n w0 cs s"
    and d: "dread (ay_deliverer s) = None" "dread d = None" "dpos d = dpos (ay_deliverer s)"
    and pp: "pp_heap pp = pp_heap (ay_out s)" "ready_set pp \<union> active_set pp = ready_set (ay_out s) \<union> active_set (ay_out s)"
      "free_set pp = free_set (ay_out s)"
  shows "content E L lin got n w0 cs (s\<lparr>ay_out := pp, ay_deliverer := d\<rparr>)"
proof -
  note Cd = contentD [OF C]
  let ?s' = "s\<lparr>ay_out := pp, ay_deliverer := d\<rparr>"
  have pipes: "in_chunk lin n cs ?s' = in_chunk lin n cs s" "in_pipe ?s' = in_pipe s" "taken ?s' = taken s"
    by (simp_all add: fun_eq_iff in_chunk_def widx_def in_pipe_def taken_def)
  have data: "worker_data E L lin n w0 cs ?s' k = worker_data E L lin n w0 cs s k" for k
    by (rule worker_data_cong) (use pp in simp_all)
  have "deliver_data E L lin got w0 cs (ay_w s) pp d" using Cd(8) d by (simp add: deliver_data_plain)
  moreover have "free_lin lin pp" using Cd(10) pp by (simp add: free_lin_def)
  moreover have "dread d \<noteq> Some b" "dread (ay_deliverer s) \<noteq> Some b" for b using d by simp_all
  moreover have "ay_w ?s' = ay_w s" "ay_client ?s' = ay_client s" "ay_in ?s' = ay_in s" "ay_out ?s' = pp" "ay_workers ?s' = ay_workers s"
    "ay_deliverer ?s' = d" by simp_all
  ultimately show ?thesis
    unfolding content_def pipes data using Cd(1-7,9) by (simp only: pp simp_thms) blast
qed

lemma tainted_deliverer:
  assumes T: "tainted er lin s" and d: "dread d = None"
    and pp: "pp_heap pp = pp_heap (ay_out s)" "ready_set pp \<union> active_set pp = ready_set (ay_out s) \<union> active_set (ay_out s)"
  shows "tainted er lin (s\<lparr>ay_out := pp, ay_deliverer := d\<rparr>)"
proof -
  have "spoiled er lin (s\<lparr>ay_out := pp, ay_deliverer := d\<rparr>) = spoiled er lin s"
    using pp(1) by (simp add: fun_eq_iff spoiled_def out_pipe_def)
  then show ?thesis using T d pp unfolding tainted_def by (auto simp: pp)
qed

text \<open>An output that can be read is not used by a worker.\<close>

lemma worker_output:
  assumes C: "content E L lin got n w0 cs s" and t: "t < length (ay_workers s)" "kout (ay_workers s ! t) = Some b"
  shows "\<exists>q. lin (out_pipe s b) = Some q \<and> lp_mode q = LineMono \<and> \<not> lp_closed q"
  using contentD(5) [OF C t(1)] t(2) by (cases "ay_workers s ! t") (auto simp: encoding_def holds_block_def)

lemma client_chunks_cong:
  assumes "w_closed w' = w_closed w" and "w_pipe w' = w_pipe w" and "w_idx w' = w_idx w"
  shows "client_chunks n cs c w' = client_chunks n cs c w"
  unfolding client_chunks_def assms ..

text \<open>It writes its pipe out, once no worker fills it.\<close>

lemma content_written:
  assumes env: "async_env E B A L lin er pr pf w0 n" and S: "shape w0 s" and C: "content E L lin got n w0 cs s"
    and d: "ay_deliverer s = TOut b k" and can: "ap_CanRead A (out_pipe s b)"
  shows "\<exists>q. lin (out_pipe s b) = Some q \<and> block_data E L w0 (cs ! nat (k - 1)) (mono_data q) (pi_data (pp_heap (ay_out s) ! b))"
    and "u < length (ay_workers s) \<Longrightarrow> kout (ay_workers s ! u) \<noteq> Some b"
proof -
  note e = async_envD [OF env] and Cd = contentD [OF C]
  show idle: "kout (ay_workers s ! u) \<noteq> Some b" if "u < length (ay_workers s)" for u
  proof
    assume "kout (ay_workers s ! u) = Some b"
    from worker_output [OF C that this] obtain q where "lin (out_pipe s b) = Some q" "lp_mode q = LineMono" "\<not> lp_closed q" by blast
    with pipe_asyncD(1) [OF e(3) _ can] show False by (auto simp: lp_readable_def)
  qed
  have "(k - 1, b) \<in> active_set (ay_out s)" using shapeD(8) [OF S] d by (simp add: delivers_def)
  then have "done_data E L lin w0 (cs ! nat (k - 1)) (pp_heap (ay_out s) ! b)" using Cd(7) [of "k - 1" b] idle d by simp
  then show "\<exists>q. lin (out_pipe s b) = Some q \<and> block_data E L w0 (cs ! nat (k - 1)) (mono_data q) (pi_data (pp_heap (ay_out s) ! b))"
    by (auto simp: done_data_def out_pipe_def)
qed

lemma content_write_out:
  assumes env: "async_env E B A L lin er pr pf w0 n" and wr: "writes_to (Some wr) got" and S: "shape w0 s" and C: "content E L lin got n w0 cs s"
    and d: "ay_deliverer s = TOut b k" and can: "ap_CanRead A (out_pipe s b)" and w: "ap_WriteTo A wr (out_pipe s b) (w_wr (ay_w s)) = (None, p, v)"
  shows "content E L lin got n w0 cs (s\<lparr>ay_out := put_pipe b p (ay_out s), ay_w := set_wr v (ay_w s), ay_deliverer := TIdx b k None\<rparr>)"
proof -
  note e = async_envD [OF env] and Sd = shapeD [OF S] and Cd = contentD [OF C]
  let ?out = "put_pipe b p (ay_out s)" let ?s' = "s\<lparr>ay_out := ?out, ay_w := set_wr v (ay_w s), ay_deliverer := TIdx b k None\<rparr>"
  have act: "(k - 1, b) \<in> active_set (ay_out s)" "0 \<le> k - 1" using Sd(8) d by (simp_all add: delivers_def)
  then have len: "b < length (pp_heap (ay_out s))" using pool_cells(1) [OF Sd(4)] by blast
  note written = content_written [OF env S C d can]
  note idle = written(2)
  from written(1) obtain q where q: "lin (out_pipe s b) = Some q"
    "block_data E L w0 (cs ! nat (k - 1)) (mono_data q) (pi_data (pp_heap (ay_out s) ! b))" by blast
  from pipe_asyncD(4) [OF e(3) wr w] q(1) have o: "lin p \<noteq> None" "got v = got (w_wr (ay_w s)) @ mono_data q" by simp_all
  have cell: "pp_heap ?out ! c = pp_heap (ay_out s) ! c" if "c \<noteq> b" for c using that by simp
  have pipes: "in_chunk lin n cs ?s' = in_chunk lin n cs s" "in_pipe ?s' = in_pipe s" "taken ?s' = taken s"
    by (simp_all add: fun_eq_iff in_chunk_def widx_def in_pipe_def taken_def set_wr_def)
  have data: "worker_data E L lin n w0 cs ?s' (ay_workers s ! u) = worker_data E L lin n w0 cs s (ay_workers s ! u)" if "u < length (ay_workers s)" for u
  proof (rule worker_data_cong)
    fix c
    assume "kout (ay_workers s ! u) = Some c"
    then show "pp_heap (ay_out ?s') ! c = pp_heap (ay_out s) ! c" using idle [OF that] cell [of c] by auto
  qed (simp_all add: set_wr_def)
  have "deliver_data E L lin got w0 cs (set_wr v (ay_w s)) ?out (TIdx b k None)"
  proof -
    from Cd(8) d obtain blks where "blocks_of E L w0 (w_index w0) (take (nat (k - 1)) cs) blks (w_index (ay_w s))"
      "got (w_wr (ay_w s)) = got (w_wr w0) @ concat blks" by (auto simp: deliver_data_plain)
    then show ?thesis using o q(2) len by (auto simp: set_wr_def)
  qed
  moreover have "free_lin lin ?out"
    using Cd(10) free_lin_put [of "k - 1" b "ay_out s"] act(1) Sd(4) by simp
  moreover have "dread (ay_deliverer s) \<noteq> Some c" for c using d by simp
  moreover have "client_chunks n cs (ay_client s) (set_wr v (ay_w s))" using Cd(2) client_chunks_cong [of "set_wr v (ay_w s)" "ay_w s"] by (simp add: set_wr_def)
  moreover have "done_data E L lin w0 (cs ! nat i) (pp_heap ?out ! c)"
    if "(i, c) \<in> ready_set (ay_out s) \<union> active_set (ay_out s)" "\<forall>u < length (ay_workers s). kout (ay_workers s ! u) \<noteq> Some c" "c \<noteq> b" for i c
    using Cd(7) [OF that(1,2)] d cell [OF that(3)] by simp
  moreover have "w_pipe (set_wr v (ay_w s)) = w_pipe (ay_w s)" "w_idx (set_wr v (ay_w s)) = w_idx (ay_w s)" by (simp_all add: set_wr_def)
  moreover have "b \<noteq> c" if "u < length (ay_workers s)" "kout (ay_workers s ! u) = Some c" for u c using idle that by blast
  ultimately show ?thesis
    unfolding content_def pipes using Cd(1,3-6,9) idle data by simp
qed

text \<open>It enters the sizes into the index.\<close>

lemma content_index:
  assumes S: "shape w0 s" and C: "content E L lin got n w0 cs s" and d: "ay_deliverer s = TIdx b k None"
    and ss: "pi_data (pp_heap (ay_out s) ! b) = Some ss" and ix: "Index_Append L (w_index (ay_w s)) (ss_unpadSize ss) (ss_uncompSize ss) = (None, ix)"
  shows "content E L lin got n w0 cs (s\<lparr>ay_w := (ay_w s)\<lparr>w_index := ix\<rparr>, ay_deliverer := TRest b k None None\<rparr>)"
proof -
  note Sd = shapeD [OF S] and Cd = contentD [OF C]
  let ?w = "(ay_w s)\<lparr>w_index := ix\<rparr>" let ?s' = "s\<lparr>ay_w := ?w, ay_deliverer := TRest b k None None\<rparr>"
  have act: "(k - 1, b) \<in> active_set (ay_out s)" "0 \<le> k - 1" using Sd(8) d by (simp_all add: delivers_def)
  then have "k - 1 \<in> {0..<w_idx (ay_w s)}" using pool_cells(1) [OF Sd(4), of "k - 1" b] Sd(7) unfolding placed_def by blast
  moreover have "int (length cs) = w_idx (ay_w s)" using Cd(2) by (simp add: client_chunks_def)
  ultimately have i: "nat (k - 1) < length cs" "nat k = Suc (nat (k - 1))" using act(2) by auto
  from Cd(8) d obtain blks blk where b: "lin (pi_pipe (pp_heap (ay_out s) ! b)) \<noteq> None"
    "blocks_of E L w0 (w_index w0) (take (nat (k - 1)) cs) blks (w_index (ay_w s))"
    "block_data E L w0 (cs ! nat (k - 1)) blk (pi_data (pp_heap (ay_out s) ! b))" "got (w_wr (ay_w s)) = got (w_wr w0) @ concat blks @ blk"
    by auto
  have "block_of E L w0 (cs ! nat (k - 1)) blk (ss_unpadSize ss, ss_uncompSize ss)" using b(3) ss by (auto simp: block_data_def)
  from blocks_of.more [OF b(2) this ix] have "blocks_of E L w0 (w_index w0) (take (nat k) cs) (blks @ [blk]) ix"
    using i by (simp add: take_Suc_conv_app_nth)
  then have dd: "deliver_data E L lin got w0 cs ?w (ay_out s) (TRest b k None None)"
    using b(1,4) by (auto intro!: exI [of _ "blks @ [blk]"])
  have pipes: "in_chunk lin n cs ?s' = in_chunk lin n cs s" "in_pipe ?s' = in_pipe s" "taken ?s' = taken s"
    by (simp_all add: fun_eq_iff in_chunk_def widx_def in_pipe_def taken_def)
  have data: "worker_data E L lin n w0 cs ?s' kk = worker_data E L lin n w0 cs s kk" for kk
    by (rule worker_data_cong) simp_all
  have cc: "client_chunks n cs (ay_client s) ?w" using Cd(2) client_chunks_cong [of ?w "ay_w s"] by simp
  have r: "dread (ay_deliverer s) = Some b" using d by simp
  show ?thesis
    unfolding content_def pipes data using Cd(1,3-5,9,10) Cd(6,7) [unfolded r] dd cc by simp
qed

text \<open>It gives its pipe back.\<close>

lemma content_restore_out:
  assumes B: "pipe_mono B lin" and S: "shape w0 s" and C: "content E L lin got n w0 cs s" and d: "ay_deliverer s = TRest b k None None"
    and pp: "active_set pp = active_set (ay_out s) - {(k - 1, b)}" "ready_set pp = ready_set (ay_out s)"
      "free_set pp \<subseteq> insert (k - 1, b) (free_set (ay_out s))" "pp_heap pp = close_pipe B b (pp_heap (ay_out s))"
  shows "content E L lin got n w0 cs (s\<lparr>ay_out := pp, ay_deliverer := TGet k\<rparr>)"
proof -
  note Sd = shapeD [OF S] and Cd = contentD [OF C]
  let ?s' = "s\<lparr>ay_out := pp, ay_deliverer := TGet k\<rparr>"
  have act: "(k - 1, b) \<in> active_set (ay_out s)" using Sd(8) d by (simp add: delivers_def)
  have cell: "pp_heap pp ! c = pp_heap (ay_out s) ! c" if "c \<noteq> b" for c using that pp(4) by (simp add: close_pipe_def)
  have b: "lin (pi_pipe (pp_heap (ay_out s) ! b)) \<noteq> None" using Cd(8) d by simp
  have r: "dread (ay_deliverer s) = Some b" using d by simp
  have ne: "c \<noteq> b" if "(i, c) \<in> ready_set (ay_out s) \<union> (active_set (ay_out s) - {(k - 1, b)})" for i c
    using pool_cells(2) [OF Sd(4), of i c "k - 1" b] pool_cells(3) [OF Sd(4), of i c "k - 1" b] act that by auto
  have pipes: "in_chunk lin n cs ?s' = in_chunk lin n cs s" "in_pipe ?s' = in_pipe s" "taken ?s' = taken s"
    by (simp_all add: fun_eq_iff in_chunk_def widx_def in_pipe_def taken_def)
  have work: "(pi_idx (pp_heap (ay_in s) ! a), c) \<in> ready_set (ay_out s) \<union> (active_set (ay_out s) - {(k - 1, b)}) \<and> c \<noteq> b"
    if "u < length (ay_workers s)" "kin (ay_workers s ! u) = Some a" "kout (ay_workers s ! u) = Some c" for u a c
    using Cd(6) [OF that] r by auto
  have data: "worker_data E L lin n w0 cs ?s' (ay_workers s ! u) = worker_data E L lin n w0 cs s (ay_workers s ! u)" if "u < length (ay_workers s)" for u
  proof (rule worker_data_cong)
    fix c
    assume c: "kout (ay_workers s ! u) = Some c"
    then obtain a where "kin (ay_workers s ! u) = Some a" using kinds(2) by blast
    with work [OF that _ c] cell show "pp_heap (ay_out ?s') ! c = pp_heap (ay_out s) ! c" by simp
  qed simp_all
  have out: "done_data E L lin w0 (cs ! nat i) (pp_heap pp ! c)"
    if "(i, c) \<in> ready_set (ay_out s) \<union> (active_set (ay_out s) - {(k - 1, b)})" "\<forall>u < length (ay_workers s). kout (ay_workers s ! u) \<noteq> Some c" for i c
    using Cd(7) [of i c] that ne [OF that(1)] r cell by auto
  have dd: "deliver_data E L lin got w0 cs (ay_w s) pp (TGet k)" using Cd(8) d by auto
  have free: "free_lin lin pp"
  proof -
    obtain q where "lin (pi_pipe (pp_heap (ay_out s) ! b)) = Some q" using b by blast
    then have "lin (bp_Close B (pi_pipe (pp_heap (ay_out s) ! b))) \<noteq> None" using pipe_monoD(9) [OF B] by simp
    then show ?thesis by (rule free_lin_restore [OF Sd(4) act Cd(10) _ pp(3,4)])
  qed
  have f: "ay_w ?s' = ay_w s" "ay_client ?s' = ay_client s" "ay_in ?s' = ay_in s" "ay_out ?s' = pp" "ay_workers ?s' = ay_workers s"
    "ay_deliverer ?s' = TGet k" by simp_all
  show ?thesis
    unfolding content_def pipes f pp(1,2) using Cd(1-5,9) work data out dd free by simp blast
qed

text \<open>An output with an error does not get past it.\<close>

lemma tainted_write_out:
  assumes env: "async_env E B A L lin er pr pf w0 n" and wr: "writes_to (Some wr) got" and S: "shape w0 s" and T: "tainted er lin s"
    and d: "ay_deliverer s = TOut b k" and can: "ap_CanRead A (out_pipe s b)" and w: "ap_WriteTo A wr (out_pipe s b) (w_wr (ay_w s)) = (None, p, v)"
  shows "tainted er lin (s\<lparr>ay_out := put_pipe b p (ay_out s), ay_w := v', ay_deliverer := TIdx b k None\<rparr>)"
proof -
  note e = async_envD [OF env]
  from T obtain j c where c: "(j, c) \<in> ready_set (ay_out s) \<union> active_set (ay_out s)" "spoiled er lin s c" unfolding tainted_def by blast
  have "c \<noteq> b"
  proof
    assume "c = b"
    with c(2) have "(\<exists>q. lin (out_pipe s b) = Some q \<and> lp_mode q = LineMono \<and> \<not> lp_closed q) \<or> er (out_pipe s b) \<noteq> None"
      unfolding spoiled_def by blast
    then show False using pipe_asyncD(1) [OF e(3) _ can] pipe_asyncD(4) [OF e(3) wr w] by (auto simp: lp_readable_def)
  qed
  moreover from this have "out_pipe (s\<lparr>ay_out := put_pipe b p (ay_out s), ay_w := v', ay_deliverer := TIdx b k None\<rparr>) c = out_pipe s c"
    by (simp add: out_pipe_def)
  ultimately show ?thesis using c unfolding tainted_def spoiled_def by (intro exI [of _ j] exI [of _ c]) simp
qed

lemma tainted_restore_out:
  assumes S: "shape w0 s" and T: "tainted er lin s" and d: "ay_deliverer s = TRest b k None None"
    and pp: "active_set pp = active_set (ay_out s) - {(k - 1, b)}" "ready_set pp = ready_set (ay_out s)"
      "pp_heap pp = close_pipe B b (pp_heap (ay_out s))"
  shows "tainted er lin (s\<lparr>ay_out := pp, ay_deliverer := TGet k\<rparr>)"
proof -
  from T d obtain j c where c: "(j, c) \<in> ready_set (ay_out s) \<union> active_set (ay_out s)" "c \<noteq> b" "spoiled er lin s c" unfolding tainted_def by auto
  have "out_pipe (s\<lparr>ay_out := pp, ay_deliverer := TGet k\<rparr>) c = out_pipe s c" using c(2) pp(3) by (simp add: out_pipe_def close_pipe_def)
  then show ?thesis using c pp(1,2) unfolding tainted_def spoiled_def by (intro exI [of _ j] exI [of _ c]) simp
qed

section \<open>The phases of the writer\<close>

text \<open>The underlying writer has received a block for each chunk of the data.\<close>

definition delivered ::
  "errs \<Rightarrow> ('z, 'x) liblzma \<Rightarrow> ('w \<Rightarrow> bytes) \<Rightarrow> nat \<Rightarrow> ('z, 'x, 'p, 'w) Writer \<Rightarrow> ('z, 'x, 'p, 'w) asys \<Rightarrow> bool" where
  "delivered E L got n w0 s \<longleftrightarrow>
     (\<exists>blks. blocks_of E L w0 (w_index w0) (chunks n (taken s)) blks (w_index (ay_w s)) \<and> got (w_wr (ay_w s)) = got (w_wr w0) @ concat blks)"

text \<open>The routine has ended or is about to, without an error, while \<open>Close\<close> waits for it.\<close>

definition finished ::
  "errs \<Rightarrow> ('z, 'x) liblzma \<Rightarrow> ('w \<Rightarrow> bytes) \<Rightarrow> nat \<Rightarrow> ('z, 'x, 'p, 'w) Writer \<Rightarrow> ('z, 'x, 'p, 'w) asys \<Rightarrow> bool" where
  "finished E L got n w0 s \<longleftrightarrow> delivered E L got n w0 s \<and> w_closed (ay_w s) \<and> w_flags (ay_w s) = w_flags w0 \<and> ay_client s = CClose \<and>
     ay_lastErr s = None \<and> ay_result s = None \<and> set (ay_errBuf s) \<subseteq> {None} \<and> ay_deliverer s \<in> {TSend None, TClose, TTerm, TEnd}"

fun failing :: "deliverer \<Rightarrow> bool" where
  "failing (TIdx b k e) = (e \<noteq> None)"
| "failing (TRest b k e e') = (e \<noteq> None \<or> e' \<noteq> None)"
| "failing (TSend e) = (e \<noteq> None)"
| "failing _ = False"

text \<open>The routine has an error it will report, has reported it, or the caller has seen it.\<close>

definition failed :: "('z, 'x, 'p, 'w) asys \<Rightarrow> bool" where
  "failed s \<longleftrightarrow> ay_result s \<noteq> Some None \<and>
     (ay_lastErr s \<noteq> None \<or> (\<exists>e. ay_errBuf s = [Some e]) \<or> ay_errBuf s = [] \<and> \<not> ay_errClosed s \<and> failing (ay_deliverer s))"

text \<open>That happens only if liblzma or the underlying writer fails.\<close>

definition broken :: "('z, 'x) liblzma \<Rightarrow> 'w io_write \<Rightarrow> ('z, 'x, 'p, 'w) asys \<Rightarrow> bool" where
  "broken L wr s \<longleftrightarrow> failed s \<and> (lib_fail L \<or> sink_fail wr)"

lemma failedI: "quiet s \<Longrightarrow> failing d \<Longrightarrow> failed (s\<lparr>ay_out := pp, ay_deliverer := d\<rparr>)" "quiet s \<Longrightarrow> failing d \<Longrightarrow> failed (s\<lparr>ay_w := w, ay_deliverer := d\<rparr>)"
  "quiet s \<Longrightarrow> failing d \<Longrightarrow> failed (s\<lparr>ay_out := pp, ay_w := w, ay_deliverer := d\<rparr>)"
  by (simp_all add: quiet_def failed_def)

lemma sound_deliverer:
  assumes I: "sound E L lin er got n w0 s" and "shape w0 (s\<lparr>ay_out := pp, ay_deliverer := x\<rparr>)"
    and x: "dread (ay_deliverer s) = None" "dread x = None" "dpos x = dpos (ay_deliverer s)"
    and pp: "pp_heap pp = pp_heap (ay_out s)" "ready_set pp \<union> active_set pp = ready_set (ay_out s) \<union> active_set (ay_out s)"
      "free_set pp = free_set (ay_out s)"
  shows "sound E L lin er got n w0 (s\<lparr>ay_out := pp, ay_deliverer := x\<rparr>)"
proof (cases "tainted er lin s")
  case True
  then show ?thesis
    using I assms(2) tainted_deliverer [OF True x(2) pp(1,2)] content_deliverer [OF _ x pp] unfolding sound_def by blast
next
  case False
  then obtain cs where "content E L lin got n w0 cs s" using I by (auto simp: sound_def)
  from content_deliverer [OF this x pp] assms(2) show ?thesis by (auto simp: sound_def)
qed

text \<open>Looking for the next block.\<close>

lemma sound_take:
  assumes I: "sound E L lin er got n w0 s" and d: "ay_deliverer s = TGet k \<or> ay_deliverer s = TGetP k"
    and run: "getReader i k (ay_out s) = Ret (r, sg, pp) \<or> getReader_wake i k (ay_out s) = Ret (r, sg, pp)"
  shows "sound E L lin er got n w0 (deliver_got k r pp s)"
proof -
  have S: "shape w0 s" using I by (simp add: sound_def)
  note Sd = shapeD [OF S]
  have d': "dread (ay_deliverer s) = None" "dpos (ay_deliverer s) = k" "dpipe (ay_deliverer s) = None" "0 \<le> k"
    using d Sd(8) by (auto simp: delivers_def)
  have keep: "sound E L lin er got n w0 (s\<lparr>ay_out := pp, ay_deliverer := x\<rparr>)"
    if "shape w0 (s\<lparr>ay_out := pp, ay_deliverer := x\<rparr>)" "dread x = None" "dpos x = k" "pp_heap pp = pp_heap (ay_out s)"
      "ready_set pp \<union> active_set pp = ready_set (ay_out s) \<union> active_set (ay_out s)" "free_set pp = free_set (ay_out s)" for x
    by (rule sound_deliverer [OF I that(1) d'(1) that(2) _ that(4-6)]) (simp add: that(3) d'(2))
  show ?thesis
  proof (cases rule: getReader_run [OF Sd(4) run])
    case 1
    then have "shape w0 (s\<lparr>ay_out := pp\<rparr>)" using shape_pools [OF S pool_like_refl, of pp] by (simp add: pool_same_def)
    then have "shape w0 (s\<lparr>ay_out := pp, ay_deliverer := TGetP k\<rparr>)" using shape_deliverer [of w0 "s\<lparr>ay_out := pp\<rparr>" "TGetP k"] d' by simp
    with keep 1 show ?thesis by (simp add: deliver_got_def pool_same_def pool_like_def)
  next
    case 2
    from keep [OF shape_deliver_end [OF S d'(2,3) 2(3,2) 2(4) [OF d'(4)]]] 2 show ?thesis by (simp add: deliver_got_def pool_same_def pool_like_def)
  next
    case (3 j b)
    with d'(4) have j: "j = k" by simp
    have "ready_set pp \<union> active_set pp = ready_set (ay_out s) \<union> active_set (ay_out s)" using 3(4-6) by auto
    with keep [OF shape_deliver_take [OF S d'(2,3) 3(2,4,5,6,8,10) [unfolded j]]] 3 show ?thesis by (simp add: deliver_got_def)
  qed
qed

text \<open>The final check: every chunk is out.\<close>

lemma all_delivered:
  assumes S: "shape w0 s" and d: "dlast (ay_deliverer s)"
  shows "ready_set (ay_out s) = {}" "w_closed (ay_w s)" "ay_client s = CClose"
    and "content E L lin got n w0 cs s \<Longrightarrow> delivered E L got n w0 s"
proof -
  note Sd = shapeD [OF S]
  have D: "dread (ay_deliverer s) = None" "dpipe (ay_deliverer s) = None" using d by (cases "ay_deliverer s"; simp)+
  have del: "pp_closed (ay_out s)" "active_set (ay_out s) = {}" "0 \<le> dpos (ay_deliverer s)" "dpos (ay_deliverer s) \<le> w_idx (ay_w s)"
    "dpos (ay_deliverer s) \<notin> fst ` ready_set (ay_out s)"
    using Sd(8) d D(2) by (simp_all add: delivers_def)
  have cl: "pp_closed (ay_in s)" "ready_set (ay_in s) = {}" "\<And>t. t < length (ay_workers s) \<Longrightarrow> kidle (ay_workers s ! t)"
    using Sd(9) del(1) unfolding closing_def by blast+
  show closed: "w_closed (ay_w s)" "ay_client s = CClose" using Sd(9) cl(1) unfolding closing_def by blast+
  have "kpend (ay_workers s ! t) = None" if "t < length (ay_workers s)" for t
    using cl(3) [OF that] by (cases "ay_workers s ! t") simp_all
  then have "unstarted (ay_workers s) (ay_in s) = {}" using cl(2) by (simp add: unstarted_def pends_def)
  then have placed: "{0..<w_idx (ay_w s)} \<subseteq> {0..<dpos (ay_deliverer s)} \<union> fst ` ready_set (ay_out s)"
    "\<And>i. i \<in> fst ` ready_set (ay_out s) \<Longrightarrow> dpos (ay_deliverer s) \<le> i" using Sd(7) del(2) by (auto simp: placed_def)
  have pos: "dpos (ay_deliverer s) = w_idx (ay_w s)"
  proof (rule ccontr)
    assume "dpos (ay_deliverer s) \<noteq> w_idx (ay_w s)"
    then have "dpos (ay_deliverer s) \<in> {0..<w_idx (ay_w s)}" using del(3,4) by simp
    then show False using placed(1) del(5) by auto
  qed
  show "ready_set (ay_out s) = {}"
  proof (rule ccontr)
    assume "ready_set (ay_out s) \<noteq> {}"
    then obtain i b where i: "(i, b) \<in> ready_set (ay_out s)" by (metis ex_in_conv surj_pair)
    then have "i \<in> {0..<w_idx (ay_w s)}" using pool_cells(1) [OF Sd(4), of i b] Sd(7) by (auto simp: placed_def)
    moreover have "dpos (ay_deliverer s) \<le> i" using placed(2) i by force
    ultimately show False using pos by simp
  qed
  show "delivered E L got n w0 s" if C: "content E L lin got n w0 cs s"
  proof -
    note Cd = contentD [OF C]
    have "int (length cs) = w_idx (ay_w s)" "chunks n (concat cs) = cs" using Cd(2) closed(1) by (simp_all add: client_chunks_def)
    then have "take (nat (dpos (ay_deliverer s))) cs = chunks n (taken s)" using Cd(1) pos by auto
    then show ?thesis using Cd(8) D(1) by (auto simp: deliver_data_plain delivered_def)
  qed
qed

lemma sound_last:
  assumes errs: "errs_ok E" and I: "sound E L lin er got n w0 s" and d: "ay_deliverer s = TLast k \<or> ay_deliverer s = TLastP k"
    and run: "getReader i (-1) (ay_out s) = Ret (r, sg, pp) \<or> getReader_wake i (-1) (ay_out s) = Ret (r, sg, pp)"
    and last: "deliver_last E k r pp s = Ret s'"
  shows "sound E L lin er got n w0 s' \<or> finished E L got n w0 s'"
proof -
  have S: "shape w0 s" using I by (simp add: sound_def)
  note Sd = shapeD [OF S]
  have d': "dread (ay_deliverer s) = None" "dpos (ay_deliverer s) = k - 1" "dlast (ay_deliverer s)" "dpipe (ay_deliverer s) = None"
    "active_set (ay_out s) = {}" "pp_closed (ay_out s)" "k - 1 \<notin> fst ` ready_set (ay_out s)"
    using d Sd(8) unfolding delivers_def by (elim disjE; simp)+
  show ?thesis
  proof (cases rule: getReader_run [OF Sd(4) run])
    case 1
    then have s': "s' = s\<lparr>ay_out := pp, ay_deliverer := TLastP k\<rparr>" using last by (simp add: deliver_last_def)
    have pp: "pp_heap pp = pp_heap (ay_out s)" "ready_set pp \<union> active_set pp = ready_set (ay_out s) \<union> active_set (ay_out s)"
      "free_set pp = free_set (ay_out s)" using 1 by (simp_all add: pool_same_def pool_like_def)
    have "shape w0 (s\<lparr>ay_out := pp\<rparr>)" using shape_pools [OF S pool_like_refl, of pp] 1 by (simp add: pool_same_def)
    then have "shape w0 s'" using shape_deliverer [of w0 "s\<lparr>ay_out := pp\<rparr>" "TLastP k"] d'(2,4,6,7) 1(2) s' by (simp add: pool_same_def pool_like_def)
    then show ?thesis
      using sound_deliverer [OF I _ d'(1) _ _ pp, of "TLastP k"] d'(2) s' by simp
  next
    case 2
    then have s': "s' = s\<lparr>ay_out := pp, ay_deliverer := TSend None\<rparr>"
      using last errs by (simp add: deliver_last_def deliver_recover_def errs_Assert_eq)
    note all = all_delivered [OF S d'(3)]
    then have "\<not> tainted er lin s" using d'(5) by (simp add: tainted_def)
    then obtain cs where C: "content E L lin got n w0 cs s" using I by (auto simp: sound_def)
    have "finished E L got n w0 s'"
      using all(2-3) all(4) [OF C] Sd(1,2) by (auto simp: s' finished_def delivered_def taken_def quiet_def async_conf_def)
    then show ?thesis by blast
  next
    case (3 j b)
    with all_delivered(1) [OF S d'(3)] show ?thesis by simp
  qed
qed

text \<open>Writing a block out, entering it into the index, and giving its pipe back.\<close>

lemma sound_write_out:
  assumes env: "async_env E B A L lin er pr pf w0 n" and wr: "writes_to (Some wr) got" and I: "sound E L lin er got n w0 s"
    and d: "ay_deliverer s = TOut b k" and can: "ap_CanRead A (out_pipe s b)" and w: "ap_WriteTo A wr (out_pipe s b) (w_wr (ay_w s)) = (e, p, v)"
  shows "sound E L lin er got n w0 (s\<lparr>ay_out := put_pipe b p (ay_out s), ay_w := set_wr v (ay_w s), ay_deliverer := TIdx b k e\<rparr>) \<or>
    broken L wr (s\<lparr>ay_out := put_pipe b p (ay_out s), ay_w := set_wr v (ay_w s), ay_deliverer := TIdx b k e\<rparr>)"
proof -
  have S: "shape w0 s" using I by (simp add: sound_def)
  note Sd = shapeD [OF S]
  show ?thesis
  proof (cases e)
    case None
    let ?s1 = "s\<lparr>ay_out := put_pipe b p (ay_out s)\<rparr>" let ?w = "set_wr v (ay_w s)"
    have s1: "shape w0 ?s1" using shape_pools [OF S pool_like_refl, of "put_pipe b p (ay_out s)"] by simp
    have "w_closed ?w \<Longrightarrow> w_pipe ?w = None" using Sd(9) by (simp add: closing_def set_wr_def)
    then have "shape w0 (?s1\<lparr>ay_w := ?w\<rparr>)"
      using shape_writer [OF s1, of ?w] Sd(2) by (simp add: set_wr_def async_conf_def)
    from shape_deliverer [OF this, of "TIdx b k None"] d
    have "shape w0 (s\<lparr>ay_out := put_pipe b p (ay_out s), ay_w := ?w, ay_deliverer := TIdx b k None\<rparr>)" by simp
    then show ?thesis
      using I content_write_out [OF env wr S _ d can w [unfolded None]] tainted_write_out [OF env wr S _ d can w [unfolded None]]
      unfolding sound_def None by blast
  next
    case (Some x)
    have "lib_fail L \<or> sink_fail wr"
    proof (cases "\<exists>cs. content E L lin got n w0 cs s")
      case True
      then obtain cs where "content E L lin got n w0 cs s" by blast
      from content_written [OF env S this d can] obtain q where "lin (out_pipe s b) = Some q" by blast
      then show ?thesis using pipe_asyncD(5) [OF async_envD(3) [OF env]] w unfolding Some by blast
    next
      case False
      then show ?thesis using I by (simp add: sound_def)
    qed
    then show ?thesis using failedI(3) [OF Sd(1)] Some by (simp add: broken_def)
  qed
qed

lemma sound_index:
  assumes I: "sound E L lin er got n w0 s" and d: "ay_deliverer s = TIdx b k None"
    and ss: "pi_data (pp_heap (ay_out s) ! b) = Some ss" and ix: "Index_Append L (w_index (ay_w s)) (ss_unpadSize ss) (ss_uncompSize ss) = (e, ix)"
  shows "sound E L lin er got n w0 (s\<lparr>ay_w := (ay_w s)\<lparr>w_index := ix\<rparr>, ay_deliverer := TRest b k None e\<rparr>) \<or>
    broken L wr (s\<lparr>ay_w := (ay_w s)\<lparr>w_index := ix\<rparr>, ay_deliverer := TRest b k None e\<rparr>)"
proof -
  have S: "shape w0 s" using I by (simp add: sound_def)
  note Sd = shapeD [OF S]
  let ?w = "(ay_w s)\<lparr>w_index := ix\<rparr>"
  show ?thesis
  proof (cases e)
    case None
    have "w_closed ?w \<Longrightarrow> w_pipe ?w = None" using Sd(9) by (simp add: closing_def)
    then have "shape w0 (s\<lparr>ay_w := ?w\<rparr>)" using shape_writer [OF S, of ?w] Sd(2) by (simp add: async_conf_def)
    from shape_deliverer [OF this, of "TRest b k None None"] d
    have "shape w0 (s\<lparr>ay_w := ?w, ay_deliverer := TRest b k None None\<rparr>)" by simp
    moreover have "tainted er lin (s\<lparr>ay_w := ?w, ay_deliverer := TRest b k None None\<rparr>)" if "tainted er lin s"
      by (rule tainted_frame [OF that, where l = 0]) (simp_all add: d)
    ultimately show ?thesis
      using I content_index [OF S _ d ss ix [unfolded None]] unfolding sound_def None by blast
  next
    case (Some x)
    then show ?thesis using failedI(2) [OF Sd(1)] lib_failI(5) ix by (auto simp: broken_def)
  qed
qed

text \<open>A block without sizes is not entered; only one with an error is such a block.\<close>

lemma sound_no_index:
  assumes I: "sound E L lin er got n w0 s" and d: "ay_deliverer s = TIdx b k None"
    and ss: "\<And>ss. pi_data (pp_heap (ay_out s) ! b) = Some ss \<Longrightarrow> ss_unpadSize ss = 0"
  shows "sound E L lin er got n w0 (s\<lparr>ay_deliverer := TRest b k None None\<rparr>)"
proof -
  have S: "shape w0 s" using I by (simp add: sound_def)
  have "shape w0 (s\<lparr>ay_deliverer := TRest b k None None\<rparr>)" by (rule shape_deliverer [OF S]) (simp_all add: d)
  moreover have "\<not> content E L lin got n w0 cs s" for cs
  proof
    assume "content E L lin got n w0 cs s"
    from contentD(8) [OF this] d show False using ss by (auto simp: block_data_def)
  qed
  moreover have "tainted er lin (s\<lparr>ay_deliverer := TRest b k None None\<rparr>)" if "tainted er lin s"
    by (rule tainted_frame [OF that, where l = 0]) (simp_all add: d)
  ultimately show ?thesis using I unfolding sound_def by blast
qed

lemma sound_restore_out:
  assumes errs: "errs_ok E" and B: "pipe_mono B lin" and I: "sound E L lin er got n w0 s" and d: "ay_deliverer s = TRest b k None None"
    and run: "restore B (Some b) (ay_out s) = Ret (x, sg, pp)"
  shows "sound E L lin er got n w0 (s\<lparr>ay_out := pp, ay_deliverer := TGet k\<rparr>)"
proof -
  have S: "shape w0 s" using I by (simp add: sound_def)
  note Sd = shapeD [OF S]
  have act: "(k - 1, b) \<in> active_set (ay_out s)" using Sd(8) d by (simp add: delivers_def)
  obtain sg' pp' where r: "restore B (Some b) (ay_out s) = Ret (Done (), sg', pp')" "pool_ok pp'"
      "active_set pp' = active_set (ay_out s) - {(k - 1, b)}" "ready_set pp' = ready_set (ay_out s)"
      "free_set pp' \<subseteq> insert (k - 1, b) (free_set (ay_out s))" "indexes pp' \<subseteq> indexes (ay_out s)"
      "pp_closed pp' = pp_closed (ay_out s)" "pp_heap pp' = close_pipe B b (pp_heap (ay_out s))"
    using restore_data [OF Sd(4) act, of B] by metis
  with run have [simp]: "pp' = pp" by simp
  note r = r [simplified]
  from shape_deliver_restore [OF S d r(2-4,6,7)] show ?thesis
    using I content_restore_out [OF B S _ d r(3-5,8)] tainted_restore_out [OF S _ d r(3,4,8)] unfolding sound_def by blast
qed

lemma sound_deliver:
  assumes env: "async_env E B A L lin er pr pf w0 n" and wr: "writes_to (Some wr) got" and I: "sound E L lin er got n w0 s"
    and run: "deliver_step E B A L wr i s = Some (Ret s')"
  shows "sound E L lin er got n w0 s' \<or> finished E L got n w0 s' \<or> broken L wr s'"
proof -
  note e = async_envD [OF env]
  have healthy: "healthy (ay_deliverer s)" using I by (simp add: sound_def shape_def delivers_def)
  show ?thesis
  proof (cases "ay_deliverer s")
    case (TGet k)
    with run obtain r0 sg pp where g: "iterReaderIdx i k (ay_out s) = Ret (r0, sg, pp)"
      "s' = deliver_got k (case r0 of Wait \<Rightarrow> Wait | Done (p, _, _) \<Rightarrow> Done p) pp s"
      by (auto simp: deliver_step_def Let_def gobind_eq_Ret)
    then obtain r where "getReader i k (ay_out s) = Ret (r, sg, pp)" "r0 = (case r of Wait \<Rightarrow> Wait | Done p \<Rightarrow> Done (p, k + 1, p \<noteq> None))"
      by (auto simp: iterReaderIdx_def gobind_eq_Ret)
    with sound_take [OF I, of k i r sg pp] TGet g(2) show ?thesis by (simp split: attempt.splits)
  next
    case (TGetP k)
    with run sound_take [OF I, of k i] show ?thesis by (auto simp: deliver_step_def Let_def gobind_eq_Ret)
  next
    case (TOut b k)
    with run sound_write_out [OF env wr I TOut] show ?thesis
      by (auto simp: deliver_step_def Let_def split: if_splits prod.splits)
  next
    case (TIdx b k x)
    with healthy have x: "ay_deliverer s = TIdx b k None" by simp
    show ?thesis
    proof (cases "\<exists>ss. pi_data (pp_heap (ay_out s) ! b) = Some ss \<and> ss_unpadSize ss \<noteq> 0")
      case True
      then obtain ss where ss: "pi_data (pp_heap (ay_out s) ! b) = Some ss" "ss_unpadSize ss \<noteq> 0" by blast
      obtain ie ix where ix: "Index_Append L (w_index (ay_w s)) (ss_unpadSize ss) (ss_uncompSize ss) = (ie, ix)" by fastforce
      have "s' = s\<lparr>ay_w := (ay_w s)\<lparr>w_index := ix\<rparr>, ay_deliverer := TRest b k None ie\<rparr>"
        using run x ss ix by (simp add: deliver_step_def Let_def)
      with sound_index [OF I x ss(1) ix] show ?thesis by auto
    next
      case False
      then have "s' = s\<lparr>ay_deliverer := TRest b k None None\<rparr>"
        using run x by (auto simp: deliver_step_def Let_def split: option.splits)
      with sound_no_index [OF I x] False show ?thesis by auto
    qed
  next
    case (TRest b k x y)
    with healthy have x: "ay_deliverer s = TRest b k None None" by simp
    from run x obtain z sg pp where r: "restore B (Some b) (ay_out s) = Ret (z, sg, pp)" "s' = s\<lparr>ay_out := pp, ay_deliverer := TGet k\<rparr>"
      using e(7) by (auto simp: deliver_step_def Let_def gobind_eq_Ret deliver_recover_def errs_Panic_eq golib_laws)
    with sound_restore_out [OF e(7,8) I x r(1)] show ?thesis by simp
  next
    case (TLast k)
    with run obtain r sg pp where "getReader i (-1) (ay_out s) = Ret (r, sg, pp)" "deliver_last E k r pp s = Ret s'"
      by (auto simp: deliver_step_def Let_def gobind_eq_Ret)
    with sound_last [OF e(7) I, of k i r sg pp s'] TLast show ?thesis by blast
  next
    case (TLastP k)
    with run obtain r sg pp where "getReader_wake i (-1) (ay_out s) = Ret (r, sg, pp)" "deliver_last E k r pp s = Ret s'"
      by (auto simp: deliver_step_def Let_def gobind_eq_Ret)
    with sound_last [OF e(7) I, of k i r sg pp s'] TLastP show ?thesis by blast
  qed (use healthy in simp_all)
qed

end
