(* ===== verification/Xz_Async_Client.thy ===== *)
theory Xz_Async_Client
  imports Xz_Async_Deliver
begin

text \<open>
  The caller of the parallel writer: its writes fill the last chunk and add chunks, and \<open>Close\<close> waits
  for the routines.
\<close>

section \<open>Changing the last chunk\<close>

text \<open>Data of the routines that concern the first \<open>m\<close> chunks only.\<close>

lemma deliver_data_agree:
  assumes "take m cs' = take m cs" and "0 \<le> dpos d" and "dpos d \<le> int m" and "dread d \<noteq> None \<Longrightarrow> dpos d < int m"
    and "w_index w' = w_index w" "w_wr w' = w_wr w"
  shows "deliver_data E L lin got w0 cs' w' pout d = deliver_data E L lin got w0 cs w pout d"
proof -
  have t: "take j cs' = take j cs" if "j \<le> m" for j using assms(1) that by (metis min.absorb1 take_take)
  have i: "cs' ! j = cs ! j" if "j < m" for j using assms(1) that by (metis nth_take)
  have le: "nat (dpos d) \<le> m" using assms(2,3) by simp
  show ?thesis
  proof (cases d)
    case (TIdx b k e)
    then have "nat (k - 1) < m" using assms(2,4) by simp
    then show ?thesis using TIdx t [of "nat (k - 1)"] i assms(5,6) by simp
  next
    case (TRest b k e e')
    then have "nat k \<le> m" using assms(2,4) by simp
    then show ?thesis using TRest t assms(5,6) by simp
  qed (use le t assms(5,6) in simp_all)
qed

lemma worker_data_agree:
  assumes "\<And>a. kin k = Some a \<Longrightarrow> pp_heap (ay_in s') ! a = pp_heap (ay_in s) ! a \<and> cs' ! widx s a = cs ! widx s a \<and>
      (w_pipe (ay_w s') = Some a \<longleftrightarrow> w_pipe (ay_w s) = Some a)"
    and "ay_out s' = ay_out s"
  shows "worker_data E L lin n w0 cs' s' k = worker_data E L lin n w0 cs s k"
  using assms by (cases k) (simp_all add: in_chunk_def widx_def in_pipe_def out_pipe_def)

lemma worker_data_grow:
  assumes "worker_data E L lin n w0 cs s k" and "kin k = Some a" and "w_pipe (ay_w s) = Some a"
    and "widx s' a = widx s a" "cs' ! widx s a = cs ! widx s a @ y" "ay_out s' = ay_out s"
    and "\<And>l. chunk_pipe lin n (cs ! widx s a) True l (in_pipe s a) \<Longrightarrow>
       chunk_pipe lin n (cs ! widx s a @ y) (w_pipe (ay_w s') = Some a) l (in_pipe s' a)"
  shows "worker_data E L lin n w0 cs' s' k"
  using assms by (cases k) (auto simp: in_chunk_def out_pipe_def)

text \<open>The caller changes its pipe \<open>a\<close>, and with it the chunks from the \<open>m\<close>-th on.\<close>

lemma content_client:
  assumes S: "shape w0 s" and C: "content E L lin got n w0 cs s" and agree: "take m cs' = take m cs"
    and w: "w_index w' = w_index (ay_w s)" "w_wr w' = w_wr (ay_w s)"
    and client: "concat cs' = taken (s\<lparr>ay_in := pin, ay_w := w', ay_client := c\<rparr>)" "client_chunks n cs' c w'"
      "\<And>a. w_pipe w' = Some a \<Longrightarrow> (w_idx w' - 1, a) \<in> ready_set pin \<union> active_set pin \<and> (\<exists>l. chunk_pipe lin n (last cs') True l (pi_pipe (pp_heap pin ! a)))"
    and ready: "\<And>i b. (i, b) \<in> ready_set pin \<Longrightarrow> (i, b) \<in> ready_set (ay_in s) \<and> b \<noteq> a \<or>
        in_chunk lin n cs' (s\<lparr>ay_in := pin, ay_w := w', ay_client := c\<rparr>) b 0"
    and old: "\<And>i b. (i, b) \<in> ready_set (ay_in s) \<union> active_set (ay_in s) \<Longrightarrow> b \<noteq> a \<Longrightarrow>
        pp_heap pin ! b = pp_heap (ay_in s) ! b \<and> i < int m \<and> (w_pipe w' = Some b \<longleftrightarrow> w_pipe (ay_w s) = Some b)"
    and mine: "\<And>t. t < length (ay_workers s) \<Longrightarrow> kin (ay_workers s ! t) = Some a \<Longrightarrow>
        worker_data E L lin n w0 cs' (s\<lparr>ay_in := pin, ay_w := w', ay_client := c\<rparr>) (ay_workers s ! t)"
      "pi_idx (pp_heap pin ! a) = pi_idx (pp_heap (ay_in s) ! a) \<or> (\<forall>t < length (ay_workers s). kin (ay_workers s ! t) \<noteq> Some a)"
    and out: "\<And>i b. (i, b) \<in> ready_set (ay_out s) \<union> active_set (ay_out s) \<Longrightarrow>
        \<forall>t < length (ay_workers s). kout (ay_workers s ! t) \<noteq> Some b \<Longrightarrow> dread (ay_deliverer s) \<noteq> Some b \<Longrightarrow> i < int m"
      "dpos (ay_deliverer s) \<le> int m" "dread (ay_deliverer s) \<noteq> None \<Longrightarrow> dpos (ay_deliverer s) < int m"
    and free: "free_lin lin pin"
  shows "content E L lin got n w0 cs' (s\<lparr>ay_in := pin, ay_w := w', ay_client := c\<rparr>)"
proof -
  note Sd = shapeD [OF S] and Cd = contentD [OF C]
  let ?s' = "s\<lparr>ay_in := pin, ay_w := w', ay_client := c\<rparr>"
  have nth: "cs' ! j = cs ! j" if "j < m" for j using agree that by (metis nth_take)
  have idx: "0 \<le> i \<and> pi_idx (pp_heap (ay_in s) ! b) = i" if "(i, b) \<in> ready_set (ay_in s) \<union> active_set (ay_in s)" for i b
    using pool_cells(1) [OF Sd(3)] that Sd(7) unfolding placed_def by fastforce
  have chunk: "cs' ! widx s b = cs ! widx s b" "pp_heap pin ! b = pp_heap (ay_in s) ! b" "w_pipe w' = Some b \<longleftrightarrow> w_pipe (ay_w s) = Some b"
    if b: "(i, b) \<in> ready_set (ay_in s) \<union> active_set (ay_in s)" "b \<noteq> a" for i b
  proof -
    show "pp_heap pin ! b = pp_heap (ay_in s) ! b" "w_pipe w' = Some b \<longleftrightarrow> w_pipe (ay_w s) = Some b" using old [OF b] by simp_all
    have "widx s b < m" using old [OF b] idx [OF b(1)] by (auto simp: widx_def)
    then show "cs' ! widx s b = cs ! widx s b" by (rule nth)
  qed
  have 4: "in_chunk lin n cs' ?s' b 0" if "(i, b) \<in> ready_set pin" for i b
  proof (cases "(i, b) \<in> ready_set (ay_in s) \<and> b \<noteq> a")
    case True
    then have "(i, b) \<in> ready_set (ay_in s) \<union> active_set (ay_in s)" "b \<noteq> a" by simp_all
    from chunk [OF this] Cd(4) [of i b] True show ?thesis by (simp add: in_chunk_def widx_def in_pipe_def)
  qed (use ready [OF that] in blast)
  have act: "(pi_idx (pp_heap (ay_in s) ! b), b) \<in> ready_set (ay_in s) \<union> active_set (ay_in s)"
    if "t < length (ay_workers s)" "kin (ay_workers s ! t) = Some b" for t b
    using workers_holdD(1) [OF Sd(6) that] by blast
  have 5: "worker_data E L lin n w0 cs' ?s' (ay_workers s ! t)" if t: "t < length (ay_workers s)" for t
  proof (cases "kin (ay_workers s ! t) = Some a")
    case False
    have "pp_heap (ay_in ?s') ! b = pp_heap (ay_in s) ! b \<and> cs' ! widx s b = cs ! widx s b \<and>
      (w_pipe (ay_w ?s') = Some b \<longleftrightarrow> w_pipe (ay_w s) = Some b)" if "kin (ay_workers s ! t) = Some b" for b
      using chunk [OF act [OF t that]] False that by auto
    from worker_data_agree [of "ay_workers s ! t" ?s' s cs' cs, OF this] Cd(5) [OF t] show ?thesis by simp
  qed (rule mine(1) [OF t])
  have 6: "pi_idx (pp_heap pin ! b) = pi_idx (pp_heap (ay_in s) ! b)" if "t < length (ay_workers s)" "kin (ay_workers s ! t) = Some b" for t b
    using chunk(2) [OF act [OF that]] mine(2) that by (cases "b = a") auto
  have 7: "done_data E L lin w0 (cs' ! nat i) (pp_heap (ay_out s) ! b)"
    if b: "(i, b) \<in> ready_set (ay_out s) \<union> active_set (ay_out s)" "\<forall>t < length (ay_workers s). kout (ay_workers s ! t) \<noteq> Some b" "dread (ay_deliverer s) \<noteq> Some b" for i b
  proof -
    have "0 \<le> i" using pool_cells(1) [OF Sd(4), of i b] b(1) Sd(7) unfolding placed_def by fastforce
    then have "nat i < m" using out(1) [OF b] by simp
    then show ?thesis using Cd(7) [OF b] nth by simp
  qed
  have "0 \<le> dpos (ay_deliverer s)" using Sd(8) by (simp add: delivers_def)
  from deliver_data_agree [OF agree this out(2,3) w] Cd(8) have 8: "deliver_data E L lin got w0 cs' w' (ay_out s) (ay_deliverer s)" by simp
  have 3: "(w_idx w' - 1, b) \<in> ready_set pin \<union> active_set pin \<and> (\<exists>l. chunk_pipe lin n (last cs') True l (in_pipe ?s' b))" if "w_pipe w' = Some b" for b
    using client(3) [OF that] by (simp add: in_pipe_def)
  have f: "ay_w ?s' = w'" "ay_client ?s' = c" "ay_in ?s' = pin" "ay_out ?s' = ay_out s" "ay_workers ?s' = ay_workers s"
    "ay_deliverer ?s' = ay_deliverer s" by simp_all
  show ?thesis
    unfolding content_def f using client(1,2) Cd(6,10) 3 4 5 6 7 8 free by simp
qed

text \<open>The chunk that is still filled has no finished output and is not delivered.\<close>

lemma open_chunk:
  assumes S: "shape w0 s" and C: "content E L lin got n w0 cs s" and a: "w_pipe (ay_w s) = Some a"
  shows "length cs = Suc (widx s a)" "pi_idx (pp_heap (ay_in s) ! a) = int (length cs) - 1" "a < length (pp_heap (ay_in s))"
    and "(int (length cs) - 1, b) \<in> ready_set (ay_out s) \<union> active_set (ay_out s) \<Longrightarrow>
      \<exists>t < length (ay_workers s). kout (ay_workers s ! t) = Some b"
    and "dpos (ay_deliverer s) \<le> int (length cs) - 1" "dread (ay_deliverer s) \<noteq> None \<Longrightarrow> dpos (ay_deliverer s) < int (length cs) - 1"
proof -
  note Sd = shapeD [OF S] and Cd = contentD [OF C]
  let ?i = "int (length cs) - 1" and ?d = "ay_deliverer s"
  have N: "int (length cs) = w_idx (ay_w s)" using Cd(2) by (simp add: client_chunks_def)
  have m: "(?i, a) \<in> ready_set (ay_in s) \<union> active_set (ay_in s)" using Cd(3) [OF a] N by simp
  show i: "pi_idx (pp_heap (ay_in s) ! a) = ?i" "a < length (pp_heap (ay_in s))" using pool_cells(1) [OF Sd(3)] m by blast+
  have "0 \<le> ?i" using pool_cells(1) [OF Sd(3), of ?i a] m Sd(7) unfolding placed_def by fastforce
  then show "length cs = Suc (widx s a)" unfolding widx_def i(1) by linarith
  have rd: "dpipe ?d = Some b" if "dread ?d = Some b" for b using that by (cases ?d) simp_all
  have fresh: "(\<forall>b. (?i, b) \<notin> ready_set (ay_out s) \<union> active_set (ay_out s)) \<and> dpos ?d \<le> ?i \<and> (dread ?d \<noteq> None \<longrightarrow> dpos ?d < ?i)"
    if u: "?i \<in> unstarted (ay_workers s) (ay_in s)"
  proof -
    have o: "?i \<notin> indexes (ay_out s)" "dpos ?d \<le> ?i" using u Sd(7) unfolding placed_def by blast+
    then have no: "(?i, b) \<notin> ready_set (ay_out s) \<union> active_set (ay_out s)" for b using pool_cells(1) [OF Sd(4), of ?i b] by blast
    moreover have "dpos ?d \<noteq> ?i" if r: "dread ?d \<noteq> None"
    proof
      assume d: "dpos ?d = ?i"
      from r obtain b where "dread ?d = Some b" by blast
      then have "(?i, b) \<in> active_set (ay_out s)" using Sd(8) rd d by (simp add: delivers_def)
      then show False using no by blast
    qed
    ultimately show ?thesis using o(2) by force
  qed
  consider (free) "?i \<in> unstarted (ay_workers s) (ay_in s)"
    | (work) t b where "t < length (ay_workers s)" "kout (ay_workers s ! t) = Some b" "(?i, b) \<in> ready_set (ay_out s) \<union> active_set (ay_out s)" "dread ?d \<noteq> Some b"
  proof (cases "(?i, a) \<in> ready_set (ay_in s)")
    case True
    then have "?i \<in> unstarted (ay_workers s) (ay_in s)" by (force simp: unstarted_def)
    then show thesis by (rule free)
  next
    case False
    then obtain t where t: "t < length (ay_workers s)" "kin (ay_workers s ! t) = Some a" using m workers_holdD(4) [OF Sd(6)] by blast
    show thesis
    proof (cases "kout (ay_workers s ! t)")
      case (Some b)
      from Cd(6) [OF t Some, unfolded i(1)] show thesis by (intro work [of t b]) (use t(1) Some in auto)
    next
      case None
      have "kpend (ay_workers s ! t) = Some a"
        using t(2) None Cd(5) [OF t(1)] a by (cases "ay_workers s ! t") auto
      then have "?i \<in> unstarted (ay_workers s) (ay_in s)" using t(1) i(1) by (auto simp: unstarted_def pends_def intro!: image_eqI)
      then show thesis by (rule free)
    qed
  qed
  then have "((?i, b) \<in> ready_set (ay_out s) \<union> active_set (ay_out s) \<longrightarrow> (\<exists>t < length (ay_workers s). kout (ay_workers s ! t) = Some b)) \<and>
    dpos ?d \<le> ?i \<and> (dread ?d \<noteq> None \<longrightarrow> dpos ?d < ?i)" for b
  proof cases
    case free
    from fresh [OF this] show ?thesis by blast
  next
    case (work t c)
    have "c = b" if "(?i, b) \<in> ready_set (ay_out s) \<union> active_set (ay_out s)" using pool_cells(2) [OF Sd(4) work(3) that] by simp
    moreover have "dpos ?d \<le> ?i \<and> (dread ?d \<noteq> None \<longrightarrow> dpos ?d < ?i)"
    proof (cases "(?i, c) \<in> ready_set (ay_out s)")
      case True
      then have "?i \<in> fst ` ready_set (ay_out s)" by (rule image_eqI [rotated]) simp
      then have "dpos ?d \<le> ?i" using Sd(7) unfolding placed_def by blast
      moreover have "dpos ?d \<noteq> ?i" if r: "dread ?d \<noteq> None"
      proof
        assume d: "dpos ?d = ?i"
        from r obtain x where "dread ?d = Some x" by blast
        then have "(?i, x) \<in> active_set (ay_out s)" using Sd(8) rd d by (simp add: delivers_def)
        with pool_cells(3) [OF Sd(4) True] show False by blast
      qed
      ultimately show ?thesis by force
    next
      case False
      then have "(?i, c) \<in> active_set (ay_out s)" using work(3) by blast
      then have "dpos ?d = ?i" "dpipe ?d = Some c" using Sd(8) by (auto simp: delivers_def split: option.splits)
      moreover from this have "dread ?d = None" using rd work(4) by (metis option.exhaust option.inject)
      ultimately show ?thesis by simp
    qed
    ultimately show ?thesis using work(1,2) by blast
  qed
  then show "(?i, b) \<in> ready_set (ay_out s) \<union> active_set (ay_out s) \<Longrightarrow> \<exists>t < length (ay_workers s). kout (ay_workers s ! t) = Some b"
    "dpos ?d \<le> ?i" "dread ?d \<noteq> None \<Longrightarrow> dpos ?d < ?i" by blast+
qed

section \<open>Writing\<close>

lemma chunk_write:
  assumes m: "pipe_mono B lin" and c: "chunk_pipe lin n c True l p" and w: "bp_Write B p bs = ((k, err), p')"
  shows "k = int (length (take (n - length c) bs))" "err = (if n - length c < length bs then Some ErrShortWrite else None)" "length c \<le> n"
    and "chunk_pipe lin n (c @ take (n - length c) bs) True l p'" "chunk_pipe lin n (c @ take (n - length c) bs) False l (bp_Close B p')"
proof -
  from c obtain q where q: "lin p = Some q" "lp_mode q = LineDual" "length (lp_buf q) = n" "lp_hi q = length c" "take (lp_hi q) (lp_buf q) = c"
    "\<not> lp_closed q" "lp_lo q = l" by (auto simp: chunk_pipe_def)
  have ok: "mono_ok q" by (rule pipe_monoD(1) [OF m q(1)])
  have room: "mono_room q = n - length c" using q(3,4) by (simp add: mono_room_def)
  show len: "length c \<le> n" using ok q(3,4) by (simp add: mono_ok_def)
  let ?y = "take (n - length c) bs" let ?q = "mono_put q ?y"
  from pipe_monoD(16) [OF m q(1,6), of bs] w room have r: "k = int (min (length bs) (n - length c))"
    "err = (if n - length c < length bs then Some ErrShortWrite else None)" "lin p' = Some ?q" by auto
  show "k = int (length ?y)" "err = (if n - length c < length bs then Some ErrShortWrite else None)" using r(1,2) by (simp_all add: min.commute)
  have "take (lp_hi ?q) (lp_buf ?q) = c @ ?y" using q(3-5) len by (simp add: mono_put_def overwrite_def min_def)
  moreover have "lp_hi ?q = length (c @ ?y)" "length (lp_buf ?q) = n" using q(3,4) ok by simp_all
  ultimately show "chunk_pipe lin n (c @ ?y) True l p'" "chunk_pipe lin n (c @ ?y) False l (bp_Close B p')"
    using r(3) pipe_monoD(9) [OF m r(3)] q(2,6,7) unfolding chunk_pipe_def
    by (auto intro!: exI [of _ ?q] exI [of _ "?q\<lparr>lp_closed := True\<rparr>"])
qed

text \<open>The data grows by what was written.\<close>

lemma taken_write:
  assumes "ay_client s = CWrite data cnt" and "0 \<le> cnt" and "cnt \<le> int (length data)"
  shows "taken (s\<lparr>ay_in := pin, ay_w := w, ay_client := CWrite data (cnt + int (length (take m (drop (nat cnt) data))))\<rparr>) =
    taken s @ take m (drop (nat cnt) data)"
proof -
  let ?y = "take m (drop (nat cnt) data)"
  have "take (nat (cnt + int (length ?y))) data = take (nat cnt) data @ ?y"
    using assms(2) by (simp add: nat_add_distrib take_add min_def)
  then show ?thesis using assms(1) by (simp add: taken_def writing_def)
qed

lemma content_put:
  assumes m: "pipe_mono B lin" and S: "shape w0 s" and C: "content E L lin got n w0 cs s" and c: "ay_client s = CWrite data cnt" "cnt < int (length data)"
    and a: "w_pipe (ay_w s) = Some a" and run: "client_put B data cnt a s = Ret s'"
  shows "\<exists>cs'. content E L lin got n w0 cs' s'"
proof -
  note Sd = shapeD [OF S] and Cd = contentD [OF C] and oc = open_chunk [OF S C a]
  have cl: "\<not> w_closed (ay_w s)" using Sd(9) a by (auto simp: closing_def)
  obtain full x where cs: "cs = full @ [x]" "\<forall>y \<in> set full. length y = n" and cnt: "0 \<le> cnt"
    using Cd(2) a c cl by (auto simp: client_chunks_def)
  have wl: "widx s a = length full" using oc(1) cs(1) by simp
  have wi: "widx s a = length full" "cs ! widx s a = x" unfolding wl cs(1) by simp_all
  obtain l where ch: "chunk_pipe lin n x True l (in_pipe s a)" using Cd(3) [OF a] cs(1) by auto
  let ?rest = "drop (nat cnt) data" let ?y = "take (n - length x) ?rest" let ?cnt = "cnt + int (length ?y)"
  have sl: "slice_from data cnt = Ret ?rest" using cnt c(2) by (simp add: slice_from_def)
  obtain k err p where w: "bp_Write B (in_pipe s a) ?rest = ((k, err), p)" by (metis prod.collapse)
  note cw = chunk_write [OF m ch w]
  let ?full = "n - length x < length ?rest"
  let ?p = "if ?full then bp_Close B p else p" and ?w = "if ?full then (ay_w s)\<lparr>w_pipe := None\<rparr> else ay_w s"
  have s': "s' = s\<lparr>ay_in := put_pipe a ?p (ay_in s), ay_w := ?w, ay_client := CWrite data ?cnt\<rparr>"
    using run sl w cw(1,2) by (auto simp: client_put_def Let_def)
  have grow: "chunk_pipe lin n (x @ ?y) (w_pipe ?w = Some a) l' ?p" if "chunk_pipe lin n x True l' (in_pipe s a)" for l'
    using chunk_write(4,5) [OF m that w] a by (cases ?full) simp_all
  let ?cs = "full @ [x @ ?y]" let ?pin = "put_pipe a ?p (ay_in s)"
  have ylen: "length (x @ ?y) = n" if ?full using that cw(3) by simp
  have yne: "?y \<noteq> []" if "\<not> ?full" using that c(2) cnt by auto
  have N: "w_idx (ay_w s) = int (length full) + 1" using Cd(2) cs(1) by (simp add: client_chunks_def)
  have act: "(int (length full), a) \<in> ready_set (ay_in s) \<union> active_set (ay_in s)" "int (length full) + 1 = w_idx (ay_w s)"
    using Cd(3) [OF a] by (simp_all add: N)
  have cell: "in_pipe (s\<lparr>ay_in := ?pin, ay_w := ?w, ay_client := CWrite data ?cnt\<rparr>) a = ?p" using oc(3) by (simp add: in_pipe_def)
  have "content E L lin got n w0 ?cs (s\<lparr>ay_in := ?pin, ay_w := ?w, ay_client := CWrite data ?cnt\<rparr>)"
  proof (rule content_client [OF S C, where m = "length full" and a = a])
    show "concat ?cs = taken (s\<lparr>ay_in := ?pin, ay_w := ?w, ay_client := CWrite data ?cnt\<rparr>)"
      using taken_write [OF c(1) cnt, where pin = ?pin and w = ?w and m = "n - length x"] c(2) Cd(1) cs(1) by simp
    show "client_chunks n ?cs (CWrite data ?cnt) ?w"
      using cl cs(2) act(2) cnt c(2) ylen yne cw(3) a by (cases ?full) (auto simp: client_chunks_def)
    show "(w_idx ?w - 1, b) \<in> ready_set ?pin \<union> active_set ?pin \<and> (\<exists>l. chunk_pipe lin n (last ?cs) True l (pi_pipe (pp_heap ?pin ! b)))"
      if "w_pipe ?w = Some b" for b
    proof -
      have b: "b = a" "\<not> ?full" using that a by (auto split: if_splits)
      then show ?thesis using act(1) grow [OF ch] a oc(3) by (auto simp: N)
    qed
    show "(i, b) \<in> ready_set (ay_in s) \<and> b \<noteq> a \<or> in_chunk lin n ?cs (s\<lparr>ay_in := ?pin, ay_w := ?w, ay_client := CWrite data ?cnt\<rparr>) b 0"
      if "(i, b) \<in> ready_set ?pin" for i b
    proof (cases "b = a")
      case True
      then have "chunk_pipe lin n x True 0 (in_pipe s a)" using Cd(4) [of i a] that a wi(2) by (simp add: in_chunk_def)
      from grow [OF this] show ?thesis using True cell wi(1) by (simp add: in_chunk_def widx_def)
    qed (use that in simp)
    show "pp_heap ?pin ! b = pp_heap (ay_in s) ! b \<and> i < int (length full) \<and> (w_pipe ?w = Some b \<longleftrightarrow> w_pipe (ay_w s) = Some b)"
      if "(i, b) \<in> ready_set (ay_in s) \<union> active_set (ay_in s)" "b \<noteq> a" for i b
    proof -
      have "i \<noteq> int (length full)" using pool_cells(2) [OF Sd(3) that(1) act(1)] that(2) by blast
      moreover have "i \<in> {0..<w_idx (ay_w s)}" using pool_cells(1) [OF Sd(3), of i b] that(1) Sd(7) unfolding placed_def by blast
      ultimately show ?thesis using act(2) that(2) a by auto
    qed
    show "worker_data E L lin n w0 ?cs (s\<lparr>ay_in := ?pin, ay_w := ?w, ay_client := CWrite data ?cnt\<rparr>) (ay_workers s ! t)"
      if "t < length (ay_workers s)" "kin (ay_workers s ! t) = Some a" for t
      by (rule worker_data_grow [OF Cd(5) [OF that(1)] that(2) a]) (use wi grow cell cs(1) in \<open>auto simp: widx_def\<close>)
    show "i < int (length full)" if b: "(i, b) \<in> ready_set (ay_out s) \<union> active_set (ay_out s)"
      "\<forall>t < length (ay_workers s). kout (ay_workers s ! t) \<noteq> Some b" for i b
    proof -
      have "i \<noteq> int (length full)" using oc(4) [of b] b cs(1) by auto
      moreover have "i \<in> {0..<w_idx (ay_w s)}" using pool_cells(1) [OF Sd(4), of i b] b(1) Sd(7) unfolding placed_def by blast
      ultimately show ?thesis using act(2) by auto
    qed
    show "free_lin lin ?pin" using free_lin_put [OF act(1) Sd(3)] Cd(9) by simp
  qed (use oc(5,6) cs(1) in auto)
  then show ?thesis unfolding s' by blast
qed

text \<open>A pipe for the next chunk.\<close>

lemma out_index:
  assumes S: "shape w0 s"
  shows "(i, b) \<in> ready_set (ay_out s) \<union> active_set (ay_out s) \<Longrightarrow> 0 \<le> i \<and> i < w_idx (ay_w s)"
    and "(i, a) \<in> ready_set (ay_in s) \<union> active_set (ay_in s) \<Longrightarrow> 0 \<le> i \<and> i < w_idx (ay_w s)"
    and "dpos (ay_deliverer s) \<le> w_idx (ay_w s)" "dread (ay_deliverer s) \<noteq> None \<Longrightarrow> dpos (ay_deliverer s) < w_idx (ay_w s)"
proof -
  note Sd = shapeD [OF S]
  have sub: "indexes (ay_out s) \<subseteq> {0..<w_idx (ay_w s)}" "indexes (ay_in s) \<subseteq> {0..<w_idx (ay_w s)}" using Sd(7) unfolding placed_def by blast+
  show out: "0 \<le> i \<and> i < w_idx (ay_w s)" if "(i, b) \<in> ready_set (ay_out s) \<union> active_set (ay_out s)" for i b
    using pool_cells(1) [OF Sd(4), of i b] that sub(1) by fastforce
  show "0 \<le> i \<and> i < w_idx (ay_w s)" if "(i, a) \<in> ready_set (ay_in s) \<union> active_set (ay_in s)"
    using pool_cells(1) [OF Sd(3), of i a] that sub(2) by fastforce
  show "dpos (ay_deliverer s) \<le> w_idx (ay_w s)" using Sd(8) by (simp add: delivers_def)
  show "dpos (ay_deliverer s) < w_idx (ay_w s)" if r: "dread (ay_deliverer s) \<noteq> None"
  proof -
    from r obtain b where "dpipe (ay_deliverer s) = Some b" by (cases "ay_deliverer s") auto
    then have "(dpos (ay_deliverer s), b) \<in> active_set (ay_out s)" using Sd(8) by (simp add: delivers_def)
    with out show ?thesis by blast
  qed
qed

lemma content_new_chunk:
  assumes S: "shape w0 s" and C: "content E L lin got n w0 cs s" and n: "w_chunkSize w0 = int n"
    and c: "ay_client s = CWrite data cnt \<or> ay_client s = CPark data cnt" "cnt < int (length data)" and a: "w_pipe (ay_w s) = None"
    and pp: "pool_ok pp" "ready_set pp = insert (w_idx (ay_w s), a) (ready_set (ay_in s))" "active_set pp = active_set (ay_in s)"
      "\<And>j b. (j, b) \<in> ready_set (ay_in s) \<union> active_set (ay_in s) \<Longrightarrow> b \<noteq> a \<and> pp_heap pp ! b = pp_heap (ay_in s) ! b"
      "free_lin lin (ay_in s) \<Longrightarrow> free_lin lin pp"
      "free_lin lin (ay_in s) \<Longrightarrow> \<exists>buf. lin (pi_pipe (pp_heap pp ! a)) = Some (new_line buf LineDual) \<and> length buf = nat (w_inSize (ay_w s))"
  shows "content E L lin got n w0 (cs @ [[]])
    (s\<lparr>ay_in := pp, ay_w := (ay_w s)\<lparr>w_pipe := Some a, w_idx := w_idx (ay_w s) + 1\<rparr>, ay_client := CWrite data cnt\<rparr>)"
proof -
  note Sd = shapeD [OF S] and Cd = contentD [OF C]
  let ?w = "(ay_w s)\<lparr>w_pipe := Some a, w_idx := w_idx (ay_w s) + 1\<rparr>" let ?s' = "s\<lparr>ay_in := pp, ay_w := ?w, ay_client := CWrite data cnt\<rparr>"
  have cl: "\<not> w_closed (ay_w s)" using Sd(9) c(1) by (auto simp: closing_def)
  have N: "int (length cs) = w_idx (ay_w s)" and cnt: "0 \<le> cnt" and full: "\<forall>x \<in> set cs. length x = n"
    using Cd(2) c a cl by (auto simp: client_chunks_def)
  from pp(6) [OF Cd(9)] obtain buf where buf: "lin (pi_pipe (pp_heap pp ! a)) = Some (new_line buf LineDual)" "length buf = n"
    using Sd(2) n by (auto simp: async_conf_def)
  then have new: "chunk_pipe lin n [] True 0 (pi_pipe (pp_heap pp ! a))" by (simp add: chunk_pipe_def new_line_def)
  have idx: "pi_idx (pp_heap pp ! a) = w_idx (ay_w s)" using pool_cells(1) [OF pp(1), of "w_idx (ay_w s)" a] pp(2) by simp
  have len: "nat (w_idx (ay_w s)) = length cs" using N by linarith
  have none: "kin (ay_workers s ! t) \<noteq> Some a" if "t < length (ay_workers s)" for t
    using workers_holdD(1) [OF Sd(6) that] pp(4) by blast
  show ?thesis
  proof (rule content_client [OF S C, where m = "length cs" and a = a])
    show "concat (cs @ [[]]) = taken ?s'" using Cd(1) c(1) by (auto simp: taken_def writing_def)
    show "client_chunks n (cs @ [[]]) (CWrite data cnt) ?w" using cl N cnt c(2) full by (auto simp: client_chunks_def)
    show "(w_idx ?w - 1, b) \<in> ready_set pp \<union> active_set pp \<and> (\<exists>l. chunk_pipe lin n (last (cs @ [[]])) True l (pi_pipe (pp_heap pp ! b)))"
      if "w_pipe ?w = Some b" for b
      using that pp(2) new by auto
    show "(i, b) \<in> ready_set (ay_in s) \<and> b \<noteq> a \<or> in_chunk lin n (cs @ [[]]) ?s' b 0" if "(i, b) \<in> ready_set pp" for i b
    proof (cases "b = a")
      case True
      then show ?thesis using new idx len by (simp add: in_chunk_def widx_def in_pipe_def)
    qed (use that pp(2) in auto)
    show "pp_heap pp ! b = pp_heap (ay_in s) ! b \<and> i < int (length cs) \<and> (w_pipe ?w = Some b \<longleftrightarrow> w_pipe (ay_w s) = Some b)"
      if "(i, b) \<in> ready_set (ay_in s) \<union> active_set (ay_in s)" "b \<noteq> a" for i b
      using pp(4) [OF that(1)] out_index(2) [OF S that(1)] that(2) a N by auto
    show "i < int (length cs)" if "(i, b) \<in> ready_set (ay_out s) \<union> active_set (ay_out s)" for i b
      using out_index(1) [OF S that] N by simp
    show "dpos (ay_deliverer s) \<le> int (length cs)" "dread (ay_deliverer s) \<noteq> None \<Longrightarrow> dpos (ay_deliverer s) < int (length cs)"
      using out_index(3,4) [OF S] N by simp_all
    show "free_lin lin pp" by (rule pp(5) [OF Cd(9)])
  qed (use none in simp_all)
qed

text \<open>Only the state of the caller changes.\<close>

lemma content_state:
  assumes C: "content E L lin got n w0 cs s" and "taken (s\<lparr>ay_client := c, ay_log := l\<rparr>) = taken s"
    and "client_chunks n cs c (ay_w s)"
  shows "content E L lin got n w0 cs (s\<lparr>ay_client := c, ay_log := l\<rparr>)"
proof -
  let ?s' = "s\<lparr>ay_client := c, ay_log := l\<rparr>"
  have pipes: "in_chunk lin n cs ?s' = in_chunk lin n cs s" "in_pipe ?s' = in_pipe s"
    by (simp_all add: fun_eq_iff in_chunk_def widx_def in_pipe_def)
  have data: "worker_data E L lin n w0 cs ?s' k = worker_data E L lin n w0 cs s k" for k
    by (rule worker_data_cong) simp_all
  show ?thesis
    using C assms(2,3) unfolding content_def pipes data by simp
qed

text \<open>\<open>Close\<close> ends the last chunk.\<close>

lemma content_closed:
  assumes m: "pipe_mono B lin" and n: "0 < n" and S: "shape w0 s" and C: "content E L lin got n w0 cs s" and c: "ay_client s = CIdle"
    and pin: "pin = (case w_pipe (ay_w s) of None \<Rightarrow> ay_in s | Some a \<Rightarrow> put_pipe a (bp_Close B (in_pipe s a)) (ay_in s))"
  shows "content E L lin got n w0 cs (s\<lparr>ay_in := pin\<lparr>pp_closed := True\<rparr>, ay_w := (ay_w s)\<lparr>w_closed := True, w_pipe := None\<rparr>, ay_client := CClose\<rparr>)"
proof -
  note Sd = shapeD [OF S] and Cd = contentD [OF C]
  let ?pin = "pin\<lparr>pp_closed := True\<rparr>" and ?w = "(ay_w s)\<lparr>w_closed := True, w_pipe := None\<rparr>"
  let ?s' = "s\<lparr>ay_in := ?pin, ay_w := ?w, ay_client := CClose\<rparr>"
  have cl: "\<not> w_closed (ay_w s)" using Sd(9) c by (simp add: closing_def)
  have N: "int (length cs) = w_idx (ay_w s)" using Cd(2) by (simp add: client_chunks_def)
  have tk: "concat cs = taken ?s'" using Cd(1) c by (simp add: taken_def writing_def)
  show ?thesis
  proof (cases "w_pipe (ay_w s)")
    case None
    then have "\<forall>x \<in> set cs. length x = n" using Cd(2) cl by (simp add: client_chunks_def)
    then have "chunks n (concat cs) = cs" using chunks_concat [OF _ n, of cs "[]"] by simp
    then have cc: "client_chunks n cs CClose ?w" using N by (simp add: client_chunks_def)
    let ?a = "length (pp_heap (ay_in s))"
    have fresh: "b \<noteq> ?a" if "(i, b) \<in> ready_set (ay_in s) \<union> active_set (ay_in s)" for i b
      using pool_cells(1) [OF Sd(3), of i b] that by blast
    show ?thesis
    proof (rule content_client [OF S C, where m = "length cs" and a = ?a])
      show "(i, b) \<in> ready_set (ay_in s) \<and> b \<noteq> ?a \<or> in_chunk lin n cs ?s' b 0" if "(i, b) \<in> ready_set ?pin" for i b
        using that fresh [of i b] by (simp add: pin None)
      show "pp_heap ?pin ! b = pp_heap (ay_in s) ! b \<and> i < int (length cs) \<and> (w_pipe ?w = Some b \<longleftrightarrow> w_pipe (ay_w s) = Some b)"
        if "(i, b) \<in> ready_set (ay_in s) \<union> active_set (ay_in s)" for i b
        using out_index(2) [OF S that] N by (simp add: pin None)
      show "worker_data E L lin n w0 cs ?s' (ay_workers s ! t)" if "t < length (ay_workers s)" "kin (ay_workers s ! t) = Some ?a" for t
        using workers_holdD(1) [OF Sd(6) that] fresh by blast
      show "i < int (length cs)" if "(i, b) \<in> ready_set (ay_out s) \<union> active_set (ay_out s)" for i b
        using out_index(1) [OF S that] N by simp
      show "dpos (ay_deliverer s) \<le> int (length cs)" "dread (ay_deliverer s) \<noteq> None \<Longrightarrow> dpos (ay_deliverer s) < int (length cs)"
        using out_index(3,4) [OF S] N by simp_all
      show "free_lin lin ?pin" using Cd(9) by (simp add: pin None free_lin_def)
    qed (use tk cc in \<open>simp_all add: pin None\<close>)
  next
    case (Some a)
    note oc = open_chunk [OF S C Some]
    from Cd(2) Some cl c obtain full x where cs: "cs = full @ [x]" "\<forall>y \<in> set full. length y = n" "length x \<le> n" "x \<noteq> []"
      by (auto simp: client_chunks_def)
    then have "chunks n (concat cs) = cs" using chunks_concat [OF cs(2) n cs(3)] by simp
    then have cc: "client_chunks n cs CClose ?w" using N by (simp add: client_chunks_def)
    have Nf: "w_idx (ay_w s) = int (length full) + 1" using N cs(1) by simp
    have act: "(int (length full), a) \<in> ready_set (ay_in s) \<union> active_set (ay_in s)" using Cd(3) [OF Some] by (simp add: Nf)
    let ?p = "bp_Close B (in_pipe s a)"
    have cell: "in_pipe ?s' a = ?p" "widx ?s' a = widx s a" using oc(3) by (simp_all add: in_pipe_def widx_def pin Some)
    have close: "chunk_pipe lin n (cs ! widx s a) False l ?p" if "chunk_pipe lin n (cs ! widx s a) True l (in_pipe s a)" for l
    proof -
      from that obtain q where "lin (in_pipe s a) = Some q" "lp_mode q = LineDual" "length (lp_buf q) = n" "lp_hi q = length (cs ! widx s a)"
        "take (lp_hi q) (lp_buf q) = cs ! widx s a" "lp_lo q = l" by (auto simp: chunk_pipe_def)
      with pipe_monoD(9) [OF m this(1)] show ?thesis by (auto simp: chunk_pipe_def intro!: exI [of _ "q\<lparr>lp_closed := True\<rparr>"])
    qed
    show ?thesis
    proof (rule content_client [OF S C, where m = "length full" and a = a])
      show "(i, b) \<in> ready_set (ay_in s) \<and> b \<noteq> a \<or> in_chunk lin n cs ?s' b 0" if "(i, b) \<in> ready_set ?pin" for i b
      proof (cases "b = a")
        case True
        then have "chunk_pipe lin n (cs ! widx s a) True 0 (in_pipe s a)" using Cd(4) [of i a] that Some by (simp add: in_chunk_def pin)
        from close [OF this] show ?thesis using True cell by (simp add: in_chunk_def)
      qed (use that Some in \<open>simp add: pin\<close>)
      show "pp_heap ?pin ! b = pp_heap (ay_in s) ! b \<and> i < int (length full) \<and> (w_pipe ?w = Some b \<longleftrightarrow> w_pipe (ay_w s) = Some b)"
        if "(i, b) \<in> ready_set (ay_in s) \<union> active_set (ay_in s)" "b \<noteq> a" for i b
      proof -
        have "i \<noteq> int (length full)" using pool_cells(2) [OF Sd(3) that(1) act] that(2) by blast
        then show ?thesis using out_index(2) [OF S that(1)] Nf that(2) Some by (simp add: pin)
      qed
      show "worker_data E L lin n w0 cs ?s' (ay_workers s ! t)" if "t < length (ay_workers s)" "kin (ay_workers s ! t) = Some a" for t
        by (rule worker_data_grow [OF Cd(5) [OF that(1)] that(2) Some, where y = "[]"]) (use cell close in simp_all)
      show "i < int (length full)" if b: "(i, b) \<in> ready_set (ay_out s) \<union> active_set (ay_out s)"
        "\<forall>t < length (ay_workers s). kout (ay_workers s ! t) \<noteq> Some b" for i b
      proof -
        have "i \<noteq> int (length full)" using oc(4) [of b] b cs(1) by auto
        then show ?thesis using out_index(1) [OF S b(1)] Nf by simp
      qed
      show "free_lin lin ?pin" using free_lin_put [OF act Sd(3)] Cd(9) by (simp add: pin Some free_lin_def)
    qed (use tk cc oc(5,6) cs(1) in \<open>simp_all add: pin Some\<close>)
  qed
qed

section \<open>The steps of the caller\<close>

text \<open>The caller does not touch the outputs.\<close>

lemma tainted_client:
  assumes "tainted er lin s" and "ay_out s' = ay_out s" "ay_workers s' = ay_workers s" "ay_deliverer s' = ay_deliverer s"
  shows "tainted er lin s'"
  by (rule tainted_frame [OF assms(1), where l = 0]) (simp_all add: assms)

lemma shape_input: "shape w0 s \<Longrightarrow> pool_like (ay_in s) pin \<Longrightarrow> shape w0 (s\<lparr>ay_in := pin\<rparr>)"
  using shape_pools [of w0 s pin "ay_out s"] by simp

text \<open>Either way the shape stays; only the content has to be shown.\<close>

lemma sound_clientI:
  assumes "sound E L lin er got n w0 s" and "shape w0 s'"
    and "ay_out s' = ay_out s" "ay_workers s' = ay_workers s" "ay_deliverer s' = ay_deliverer s"
    and "\<And>cs. content E L lin got n w0 cs s \<Longrightarrow> \<exists>cs'. content E L lin got n w0 cs' s'"
  shows "sound E L lin er got n w0 s'"
  using assms tainted_client [OF _ assms(3-5)] unfolding sound_def by blast

lemma sound_got:
  assumes env: "async_env E B A L lin er pr pf w0 n" and I: "sound E L lin er got n w0 s"
    and c: "ay_client s = CWrite data cnt \<and> cnt < int (length data) \<and> w_pipe (ay_w s) = None \<or> ay_client s = CPark data cnt"
    and run: "getWriter B i (w_idx (ay_w s)) (w_inSize (ay_w s)) (the (w_inMode (ay_w s))) None (ay_in s) = Ret (r, sg, pp) \<or>
      getWriter_wake B i (w_idx (ay_w s)) (w_inSize (ay_w s)) (the (w_inMode (ay_w s))) None (ay_in s) = Ret (r, sg, pp)"
  shows "sound E L lin er got n w0 (client_got data cnt r pp s)"
proof -
  note e = async_envD [OF env]
  have S: "shape w0 s" using I by (simp add: sound_def)
  note Sd = shapeD [OF S]
  have n: "w_chunkSize w0 = int n" using e(4) by (simp add: chunked_def)
  have conf: "w_inSize (ay_w s) = w_chunkSize w0" "the (w_inMode (ay_w s)) = LineDual" using Sd(2) by (simp_all add: async_conf_def)
  have sz: "0 \<le> w_inSize (ay_w s)" using conf n by simp
  have fresh: "w_idx (ay_w s) \<notin> indexes (ay_in s)" using Sd(7) unfolding placed_def by fastforce
  have cc: "ay_client s = CWrite data cnt \<or> ay_client s = CPark data cnt" "ay_client s \<noteq> CClose" using c by auto
  have cl: "\<not> w_closed (ay_w s)" "\<not> pp_closed (ay_in s)" using Sd(9) cc(2) by (simp_all add: closing_def)
  have pc: "0 \<le> cnt \<and> cnt < int (length data) \<and> w_pipe (ay_w s) = None" if "content E L lin got n w0 cs s" for cs
    using contentD(2) [OF that] c by (auto simp: client_chunks_def)
  have mode: "the (w_inMode (ay_w s)) \<in> {LineMono, LineDual}" using conf by simp
  show ?thesis
  proof (cases rule: getWriter_run [OF Sd(3) e(2,8) sz mode fresh run])
    case 1
    let ?s1 = "s\<lparr>ay_in := pp\<rparr>"
    have s': "client_got data cnt r pp s = ?s1\<lparr>ay_client := CPark data cnt, ay_log := ay_log s\<rparr>" using 1 by (simp add: client_got_def)
    have S1: "shape w0 ?s1" using shape_input [OF S] 1 by (simp add: pool_same_def)
    then have "shape w0 (?s1\<lparr>ay_client := CPark data cnt, ay_log := ay_log s\<rparr>)" by (rule shape_client(2)) (use cc(2) in simp)
    moreover have "content E L lin got n w0 cs (?s1\<lparr>ay_client := CPark data cnt, ay_log := ay_log s\<rparr>)" if C: "content E L lin got n w0 cs s" for cs
    proof (rule content_state)
      show "content E L lin got n w0 cs ?s1"
        by (rule content_frame [OF C, where l = 0]) (use 1 in \<open>simp_all add: pool_same_def pool_like_def\<close>)
      show "taken (?s1\<lparr>ay_client := CPark data cnt, ay_log := ay_log s\<rparr>) = taken ?s1" using cc(1) by (auto simp: taken_def writing_def)
      show "client_chunks n cs (CPark data cnt) (ay_w ?s1)"
        using contentD(2) [OF C] pc [OF C] cl(1) by (simp add: client_chunks_def)
    qed
    ultimately show ?thesis unfolding s' by (intro sound_clientI [OF I]) auto
  next
    case 2
    with cl(2) show ?thesis by simp
  next
    case (3 a)
    let ?s' = "s\<lparr>ay_in := pp, ay_w := (ay_w s)\<lparr>w_pipe := Some a, w_idx := w_idx (ay_w s) + 1\<rparr>, ay_client := CWrite data cnt\<rparr>"
    have s': "client_got data cnt r pp s = ?s'" using 3(1) by (simp add: client_got_def Let_def)
    have heap: "pp_heap pp ! b = pp_heap (ay_in s) ! b" if "(j, b) \<in> ready_set (ay_in s) \<union> active_set (ay_in s)" for j b using 3(9) [OF that] by simp
    have "shape w0 ?s'" by (rule shape_client_take [OF S cc(2) _ 3(3-6,2,7) heap]) simp_all
    moreover have "content E L lin got n w0 (cs @ [[]]) ?s'" if "content E L lin got n w0 cs s" for cs
      using content_new_chunk [OF S that n cc(1) _ _ 3(3,5,6,9,10)] pc [OF that] 3(11) conf(2) by simp
    ultimately show ?thesis unfolding s' by (intro sound_clientI [OF I]) auto
  qed
qed

lemma sound_leave:
  assumes I: "sound E L lin er got n w0 s" and c: "ay_client s = CWrite data cnt" "\<not> cnt < int (length data)"
  shows "sound E L lin er got n w0 (client_leave data cnt s)"
proof -
  have S: "shape w0 s" using I by (simp add: sound_def)
  have "ay_client s \<noteq> CClose" using c by simp
  then have "shape w0 (client_leave data cnt s)"
    using shape_client [OF S] by (simp add: client_leave_def client_return_def)
  moreover have "content E L lin got n w0 cs (client_leave data cnt s)" if C: "content E L lin got n w0 cs s" for cs
  proof -
    have cnt: "cnt = int (length data)" using contentD(2) [OF C] c by (simp add: client_chunks_def)
    have "content E L lin got n w0 cs (s\<lparr>ay_client := CIdle, ay_log := ay_log s @ [(data, cnt, None)]\<rparr>)"
    proof (rule content_state [OF C])
      show "taken (s\<lparr>ay_client := CIdle, ay_log := ay_log s @ [(data, cnt, None)]\<rparr>) = taken s"
        using c by (simp add: taken_def writing_def)
      show "client_chunks n cs CIdle (ay_w s)" using contentD(2) [OF C] c by (auto simp: client_chunks_def split: option.splits)
    qed
    with cnt show ?thesis by (simp add: client_leave_def client_return_def)
  qed
  moreover have "ay_out (client_leave data cnt s) = ay_out s" "ay_workers (client_leave data cnt s) = ay_workers s"
    "ay_deliverer (client_leave data cnt s) = ay_deliverer s" by (simp_all add: client_leave_def client_return_def)
  ultimately show ?thesis by (intro sound_clientI [OF I]) blast+
qed

lemma sound_put:
  assumes m: "pipe_mono B lin" and I: "sound E L lin er got n w0 s" and c: "ay_client s = CWrite data cnt" "cnt < int (length data)"
    and a: "w_pipe (ay_w s) = Some a" and run: "client_put B data cnt a s = Ret s'"
  shows "sound E L lin er got n w0 s'"
proof -
  have S: "shape w0 s" using I by (simp add: sound_def)
  note Sd = shapeD [OF S]
  have cl: "ay_client s \<noteq> CClose" "\<not> w_closed (ay_w s)" using c Sd(9) by (auto simp: closing_def)
  have S1: "shape w0 (s\<lparr>ay_in := put_pipe a p (ay_in s)\<rparr>)" for p using shape_input [OF S] by simp
  have S2: "shape w0 (s\<lparr>ay_in := put_pipe a p (ay_in s), ay_w := (ay_w s)\<lparr>w_pipe := None\<rparr>\<rparr>)" for p
    using shape_writer [OF S1, of "(ay_w s)\<lparr>w_pipe := None\<rparr>" p] Sd(2) by (simp add: async_conf_def)
  from run obtain rest where rest: "slice_from data cnt = Ret rest" by (auto simp: client_put_def gobind_eq_Ret)
  obtain k err p where w: "bp_Write B (in_pipe s a) rest = ((k, err), p)" by (metis prod.collapse)
  let ?s = "\<lambda>p. s\<lparr>ay_in := put_pipe a p (ay_in s)\<rparr>"
  have s': "s' = (if err = Some ErrShortWrite
      then s\<lparr>ay_in := put_pipe a (bp_Close B p) (ay_in s), ay_w := (ay_w s)\<lparr>w_pipe := None\<rparr>, ay_client := CWrite data (cnt + k)\<rparr>
      else if err \<noteq> None then client_leave data (cnt + k) (?s p) else ?s p\<lparr>ay_client := CWrite data (cnt + k)\<rparr>)"
    using run rest w by (simp add: client_put_def Let_def)
  have c1: "shape w0 (?s p\<lparr>ay_client := c\<rparr>)" "shape w0 (?s p\<lparr>ay_client := c, ay_log := l\<rparr>)" if "c \<noteq> CClose" for c l
    using shape_client [OF S1, of c p] that cl(1) by simp_all
  have c2: "shape w0 (s\<lparr>ay_in := put_pipe a q (ay_in s), ay_w := (ay_w s)\<lparr>w_pipe := None\<rparr>, ay_client := CWrite data (cnt + k)\<rparr>)" for q
    using shape_client(1) [OF S2, of "CWrite data (cnt + k)" q] cl(1) by simp
  have "shape w0 s'" unfolding s' using c1 c2 by (simp add: client_leave_def client_return_def)
  moreover have "ay_out s' = ay_out s \<and> ay_workers s' = ay_workers s \<and> ay_deliverer s' = ay_deliverer s"
    unfolding s' by (simp add: client_leave_def client_return_def)
  ultimately have "shape w0 s' \<and> ay_out s' = ay_out s \<and> ay_workers s' = ay_workers s \<and> ay_deliverer s' = ay_deliverer s" by blast
  then show ?thesis using content_put [OF m S _ c a run] by (intro sound_clientI [OF I]) auto
qed

lemma checkErr_waits:
  assumes "quiet s" and "errs_ok E"
  shows "checkErr E s = None"
  using assms by (simp add: checkErr_def quiet_def recv_err_def)

lemma sound_client:
  assumes env: "async_env E B A L lin er pr pf w0 n" and I: "sound E L lin er got n w0 s" and run: "client_step E B L wr i s = Some (Ret s')"
  shows "sound E L lin er got n w0 s'"
proof -
  note e = async_envD [OF env]
  have S: "shape w0 s" using I by (simp add: sound_def)
  note wait = checkErr_waits [OF shapeD(1) [OF S] e(7)]
  show ?thesis
  proof (cases "ay_client s")
    case CIdle
    with run show ?thesis by (simp add: client_step_def Let_def)
  next
    case (CWrite data cnt)
    show ?thesis
    proof (cases "cnt < int (length data)")
      case False
      with run CWrite have "s' = client_leave data cnt s" by (simp add: client_step_def Let_def)
      with sound_leave [OF I CWrite False] show ?thesis by simp
    next
      case True
      show ?thesis
      proof (cases "w_pipe (ay_w s)")
        case None
        with run CWrite True obtain r sg pp where "getWriter B i (w_idx (ay_w s)) (w_inSize (ay_w s)) (the (w_inMode (ay_w s))) None (ay_in s) = Ret (r, sg, pp)"
          "s' = client_got data cnt r pp s" by (auto simp: client_step_def Let_def gobind_eq_Ret)
        with sound_got [OF env I, of data cnt i r sg pp] CWrite True None show ?thesis by simp
      next
        case (Some a)
        with run CWrite True have "client_put B data cnt a s = Ret s'" by (simp add: client_step_def Let_def)
        with sound_put [OF e(8) I CWrite True Some] show ?thesis by simp
      qed
    qed
  next
    case (CPark data cnt)
    with run obtain r sg pp where "getWriter_wake B i (w_idx (ay_w s)) (w_inSize (ay_w s)) (the (w_inMode (ay_w s))) None (ay_in s) = Ret (r, sg, pp)"
      "s' = client_got data cnt r pp s" by (auto simp: client_step_def Let_def gobind_eq_Ret)
    with sound_got [OF env I, of data cnt i r sg pp] CPark show ?thesis by simp
  next
    case (CFail data cnt)
    with run wait show ?thesis by (simp add: client_step_def Let_def arecover_def abind_def)
  next
    case CClose
    with run wait show ?thesis by (simp add: client_step_def Let_def close_rest_def arecover_def adefer_def abind_def)
  qed
qed

lemma sound_calls:
  assumes env: "async_env E B A L lin er pr pf w0 n" and I: "sound E L lin er got n w0 s" and c: "ay_client s = CIdle"
  shows "sound E L lin er got n w0 (call_Write data s)" "sound E L lin er got n w0 (call_Close B s)"
proof -
  note e = async_envD [OF env]
  have S: "shape w0 s" using I by (simp add: sound_def)
  note Sd = shapeD [OF S]
  have cl: "\<not> w_closed (ay_w s)" using Sd(9) c by (simp add: closing_def)
  have n: "0 < n" using e(4) by (simp add: chunked_def)
  show "sound E L lin er got n w0 (call_Write data s)"
  proof -
    have s': "call_Write data s = s\<lparr>ay_client := CWrite data 0, ay_log := ay_log s\<rparr>" using cl by (simp add: call_Write_def)
    have "shape w0 (s\<lparr>ay_client := CWrite data 0, ay_log := ay_log s\<rparr>)" by (rule shape_client(2) [OF S]) (simp add: c)
    moreover have "content E L lin got n w0 cs (s\<lparr>ay_client := CWrite data 0, ay_log := ay_log s\<rparr>)" if C: "content E L lin got n w0 cs s" for cs
      by (rule content_state [OF C]) (use contentD(2) [OF C] c in \<open>auto simp: taken_def writing_def client_chunks_def split: option.splits\<close>)
    ultimately show ?thesis unfolding s' by (intro sound_clientI [OF I]) auto
  qed
  show "sound E L lin er got n w0 (call_Close B s)"
  proof -
    let ?pin = "case w_pipe (ay_w s) of None \<Rightarrow> ay_in s | Some a \<Rightarrow> put_pipe a (bp_Close B (in_pipe s a)) (ay_in s)"
    have s': "call_Close B s = s\<lparr>ay_in := ?pin\<lparr>pp_closed := True\<rparr>, ay_w := (ay_w s)\<lparr>w_closed := True, w_pipe := None\<rparr>, ay_client := CClose\<rparr>"
      using cl by (cases "w_pipe (ay_w s)") (simp_all add: call_Close_def Let_def pool_close_def in_pipe_def)
    have "pool_like (ay_in s) ?pin" by (simp split: option.split)
    from shape_close [OF S cl this] show ?thesis
      unfolding s' by (rule sound_clientI [OF I]) (simp, simp, simp, rule exI, rule content_closed [OF e(8) n S _ c refl])
  qed
qed

end
