(* ===== verification/Xz_Async_Props.thy ===== *)
theory Xz_Async_Props
  imports Xz_Async_Client
begin

text \<open>
  What the parallel writer produces: if \<open>Close\<close> returns nil then the underlying writer has received
  the same stream a synchronous writer would have written, whatever the order of the steps.
\<close>

section \<open>After the deliveries\<close>

text \<open>What the workers and the monitors leave alone.\<close>

definition outer :: "('z, 'x, 'p, 'w) asys \<Rightarrow> ('z, 'x, 'p, 'w) Writer \<times> goerr option list \<times> bool \<times> goerr option \<times> client \<times> deliverer \<times>
    (bytes \<times> int \<times> goerr option) list \<times> goerr option option" where
  "outer s = (ay_w s, ay_errBuf s, ay_errClosed s, ay_lastErr s, ay_client s, ay_deliverer s, ay_log s, ay_result s)"

lemma outer_set [simp]: "outer (set_worker t k s) = outer s"
  by (simp add: outer_def set_worker_def)

lemma worker_encode_outer:
  assumes "worker_encode E t a b m f s = Some (Ret s')" and "\<And>x s. outer (f x s) = outer s"
  shows "outer s' = outer s"
proof -
  from assms(1) obtain r p q where "m (out_pipe s b, in_pipe s a) = Some (r, (p, q))" by (auto simp: worker_encode_def split: option.splits)
  then show ?thesis
    using assms by (cases r) (auto simp: worker_encode_def outer_def set_worker_def split: sum.splits)
qed

lemma worker_outer:
  assumes run: "worker_step E B A L i t s = Some (Ret s')"
  shows "outer s' = outer s"
proof (cases "ay_workers s ! t")
  case (KEnc a b)
  with run show ?thesis
    by (auto simp: worker_step_def Let_def intro!: worker_encode_outer [where E = E and t = t and a = a and b = b and s = s])
next
  case (KFin a b block headerSize z err)
  with run show ?thesis
    by (auto simp: worker_step_def Let_def outer_def [where s = "s\<lparr>ay_out := o'\<rparr>" for s o']
        intro!: worker_encode_outer [where E = E and t = t and a = a and b = b and s = s]) (simp add: outer_def)
next
  case (KRun a b block headerSize z)
  with run have "s' = worker_round B L t a b block headerSize z s" by (simp add: worker_step_def Let_def split: if_splits)
  then show ?thesis by (auto simp: worker_round_def outer_def set_worker_def split: prod.split)
qed (use run in \<open>auto simp: worker_step_def Let_def gobind_eq_Ret worker_got_def worker_out_def outer_def set_worker_def split: if_splits\<close>)

lemma monitor_outer:
  assumes "monitor_step B s = Some (Ret s')"
  shows "outer s' = outer s"
proof (cases "ay_monitor s")
  case (Cons c cs)
  with assms show ?thesis
    by (cases c) (auto simp: monitor_step_def Let_def gobind_eq_Ret outer_def split: if_splits)
qed (use assms in \<open>simp add: monitor_step_def\<close>)

lemma ended_outer: "ended_step s = Some (Ret s') \<Longrightarrow> outer s' = outer s"
  by (auto simp: ended_step_def outer_def split: if_splits)

text \<open>An error that was found is reported by \<open>Close\<close>.\<close>

lemma failed_outer: "outer s' = outer s \<Longrightarrow> failed s' = failed s"
  by (simp add: failed_def outer_def)

definition report :: "('z, 'x, 'p, 'w) asys \<Rightarrow> goerr option option \<times> goerr option \<times> goerr option list \<times> bool" where
  "report s = (ay_result s, ay_lastErr s, ay_errBuf s, ay_errClosed s)"

lemma deliver_recover_report: "deliver_recover E d r s = Ret s' \<Longrightarrow> report s' = report s"
  by (cases r) (auto simp: deliver_recover_def report_def split: sum.splits)

lemma deliver_last_report: "deliver_last E k r pp s = Ret s' \<Longrightarrow> report s' = report s"
  by (cases r) (auto simp: deliver_last_def report_def dest: deliver_recover_report [unfolded report_def])

lemma deliver_report:
  assumes "deliver_step E B A L wr i s = Some (Ret s')"
  shows "report s' = report s \<or> (\<exists>e. ay_deliverer s = TSend e \<and> ay_errBuf s = [] \<and> report s' = (ay_result s, ay_lastErr s, [e], ay_errClosed s)) \<or>
    ay_deliverer s = TClose \<and> report s' = (ay_result s, ay_lastErr s, ay_errBuf s, True)"
proof (cases "ay_deliverer s")
  case (TGet k)
  with assms show ?thesis by (auto simp: deliver_step_def Let_def gobind_eq_Ret deliver_got_def report_def)
next
  case (TGetP k)
  with assms show ?thesis by (auto simp: deliver_step_def Let_def gobind_eq_Ret deliver_got_def report_def)
next
  case (TOut b k)
  with assms show ?thesis by (auto simp: deliver_step_def Let_def report_def split: if_splits prod.splits)
next
  case (TIdx b k e)
  have "report s' = report s"
  proof (cases "pi_data (pp_heap (ay_out s) ! b)")
    case None
    with assms TIdx show ?thesis by (auto simp: deliver_step_def Let_def report_def)
  next
    case (Some ss)
    obtain ie ix where "Index_Append L (w_index (ay_w s)) (ss_unpadSize ss) (ss_uncompSize ss) = (ie, ix)" by fastforce
    with assms TIdx Some show ?thesis by (cases "ss_unpadSize ss = 0") (auto simp: deliver_step_def Let_def report_def)
  qed
  then show ?thesis ..
next
  case (TRest b k e e')
  with assms obtain r pp where "deliver_recover E (TGet k) r (s\<lparr>ay_out := pp\<rparr>) = Ret s'"
    by (auto simp: deliver_step_def Let_def gobind_eq_Ret)
  then show ?thesis by (auto dest: deliver_recover_report simp: report_def)
next
  case (TLast k)
  with assms show ?thesis by (auto simp: deliver_step_def Let_def gobind_eq_Ret dest: deliver_last_report)
next
  case (TLastP k)
  with assms show ?thesis by (auto simp: deliver_step_def Let_def gobind_eq_Ret dest: deliver_last_report)
qed (use assms in \<open>auto simp: deliver_step_def Let_def report_def split: if_splits\<close>)

lemma failed_deliver:
  assumes errs: "errs_ok E" and f: "failed s" and run: "deliver_step E B A L wr i s = Some (Ret s')"
  shows "failed s'"
proof -
  have "ay_errClosed s' = ay_errClosed s \<and> failing (ay_deliverer s') \<and> ay_errBuf s' = [] \<or> (\<exists>e. ay_errBuf s' = [Some e])"
    if d: "failing (ay_deliverer s)" "ay_errBuf s = []"
  proof (cases "ay_deliverer s")
    case (TIdx b k e)
    with d(1) obtain x where "e = Some x" by auto
    with run TIdx d(2) show ?thesis
      by (auto simp: deliver_step_def Let_def split: option.splits prod.splits if_splits)
  next
    case (TRest b k e e')
    with d(1) obtain x where "errs_First E [e, e'] = Some x" using errs by (cases e; cases e') (auto simp: golib_laws)
    with run TRest d(2) show ?thesis
      by (auto simp: deliver_step_def Let_def gobind_eq_Ret deliver_recover_def errs_Panic_eq [OF errs] errs_okD(5) [OF errs])
  next
    case (TSend e)
    with d run show ?thesis by (auto simp: deliver_step_def Let_def)
  qed (use d in simp_all)
  with deliver_report [OF run] f show ?thesis by (auto simp: failed_def report_def)
qed

lemma client_report:
  assumes "client_step E B L wr i s = Some (Ret s')" and "ay_client s = CWrite data cnt \<or> ay_client s = CPark data cnt"
  shows "report s' = report s" "ay_deliverer s' = ay_deliverer s"
proof -
  have got: "report (client_got data cnt r pp s) = report s \<and> ay_deliverer (client_got data cnt r pp s) = ay_deliverer s" for r pp
    by (cases r) (auto simp: client_got_def client_leave_def client_return_def report_def Let_def split: option.split)
  have put: "report s' = report s \<and> ay_deliverer s' = ay_deliverer s" if "client_put B data cnt a s = Ret s'" for a
  proof -
    from that obtain rest where r: "slice_from data cnt = Ret rest" by (auto simp: client_put_def gobind_eq_Ret)
    obtain k err p where "bp_Write B (in_pipe s a) rest = ((k, err), p)" by (metis prod.collapse)
    with that r show ?thesis
      by (cases "err = Some ErrShortWrite"; cases err) (auto simp: client_put_def client_leave_def client_return_def report_def Let_def split: if_splits)
  qed
  have "report s' = report s \<and> ay_deliverer s' = ay_deliverer s"
  proof (cases "ay_client s = CPark data cnt")
    case True
    with assms(1) got show ?thesis by (auto simp: client_step_def Let_def gobind_eq_Ret)
  next
    case False
    with assms(2) have c: "ay_client s = CWrite data cnt" by simp
    show ?thesis
    proof (cases "cnt < int (length data)")
      case True
      with assms(1) c got put show ?thesis by (cases "w_pipe (ay_w s)") (auto simp: client_step_def Let_def gobind_eq_Ret)
    next
      case False
      with assms(1) c show ?thesis by (auto simp: client_step_def Let_def client_leave_def client_return_def report_def split: if_splits)
    qed
  qed
  then show "report s' = report s" "ay_deliverer s' = ay_deliverer s" by simp_all
qed

lemma failed_check:
  assumes errs: "errs_ok E" and f: "failed s" and run: "checkErr E s = Some (r, s1)"
  shows "\<exists>e. r = Pan (PErr (Some e)) \<and> failed s1 \<and> ay_lastErr s1 = Some e \<and> ay_result s1 = ay_result s"
proof (cases "ay_lastErr s")
  case None
  with f run show ?thesis
    using errs by (auto simp: checkErr_def recv_err_def failed_def split: list.splits if_splits)
next
  case (Some e)
  with f run show ?thesis using errs by (auto simp: checkErr_def failed_def)
qed

lemma failed_client:
  assumes errs: "errs_ok E" and f: "failed s" and run: "client_step E B L wr i s = Some (Ret s')"
  shows "failed s'"
proof (cases "ay_client s")
  case (CFail data cnt)
  show ?thesis
  proof (cases "checkErr E s")
    case None
    with run CFail show ?thesis by (simp add: client_step_def Let_def arecover_def abind_def)
  next
    case (Some x)
    obtain r s1 where x: "x = (r, s1)" by (cases x)
    with failed_check [OF errs f] Some obtain e where e: "r = Pan (PErr (Some e))" "failed s1" by blast
    with run CFail Some x have "s' = client_return data cnt (Some e) s1"
      using errs by (simp add: client_step_def Let_def arecover_def abind_def errs_okD(5) [OF errs])
    with e(2) show ?thesis by (simp add: failed_def client_return_def)
  qed
next
  case CClose
  show ?thesis
  proof (cases "checkErr E s")
    case None
    with run CClose show ?thesis by (simp add: client_step_def Let_def close_rest_def arecover_def adefer_def abind_def)
  next
    case (Some x)
    obtain r s1 where x: "x = (r, s1)" by (cases x)
    with failed_check [OF errs f] Some obtain e where e: "r = Pan (PErr (Some e))" "ay_lastErr s1 = Some e" by blast
    with run CClose Some x have "s' = s1\<lparr>ay_w := (ay_w s1)\<lparr>w_index := Index_End (w_index (ay_w s1))\<rparr>, ay_client := CIdle, ay_result := Some (Some e)\<rparr>"
      using errs by (simp add: client_step_def Let_def close_rest_def arecover_def adefer_def abind_def errs_okD(5) [OF errs])
    with e(2) show ?thesis by (simp add: failed_def)
  qed
next
  case (CWrite data cnt)
  with client_report [OF run, of data cnt] f show ?thesis by (simp add: failed_def report_def)
next
  case (CPark data cnt)
  with client_report [OF run, of data cnt] f show ?thesis by (simp add: failed_def report_def)
qed (use run in \<open>simp add: client_step_def Let_def\<close>)

lemma failed_calls: "failed s \<Longrightarrow> failed (call_Write data s)" "failed s \<Longrightarrow> failed (call_Close B s)"
  by (simp_all add: failed_def call_Write_def call_Close_def client_return_def Let_def split: option.split)

text \<open>The stream was completed, and \<open>Close\<close> has returned.\<close>

definition completed ::
  "errs \<Rightarrow> ('z, 'x) liblzma \<Rightarrow> ('w \<Rightarrow> bytes) \<Rightarrow> nat \<Rightarrow> ('z, 'x, 'p, 'w) Writer \<Rightarrow> ('z, 'x, 'p, 'w) asys \<Rightarrow> bool" where
  "completed E L got n w0 s \<longleftrightarrow>
     (\<exists>blks ix bs. blocks_of E L w0 (w_index w0) (chunks n (taken s)) blks ix \<and> index_and_footer L (w_flags w0) ix bs \<and>
        got (w_wr (ay_w s)) = got (w_wr w0) @ concat blks @ bs)"

definition over ::
  "errs \<Rightarrow> ('z, 'x) liblzma \<Rightarrow> ('w \<Rightarrow> bytes) \<Rightarrow> nat \<Rightarrow> ('z, 'x, 'p, 'w) Writer \<Rightarrow> bool \<Rightarrow> ('z, 'x, 'p, 'w) asys \<Rightarrow> bool" where
  "over E L got n w0 fault s \<longleftrightarrow> w_closed (ay_w s) \<and> ay_client s = CIdle \<and> ay_deliverer s \<in> {TSend None, TClose, TTerm, TEnd} \<and>
     ay_result s \<noteq> None \<and> (ay_result s = Some None \<longrightarrow> completed E L got n w0 s) \<and>
     ((\<exists>e. ay_result s = Some (Some e)) \<longrightarrow> fault)"

lemma taken_outer: "outer s' = outer s \<Longrightarrow> taken s' = taken s"
  by (simp add: taken_def outer_def)

lemma finished_outer: "outer s' = outer s \<Longrightarrow> finished E L got n w0 s' = finished E L got n w0 s"
  using taken_outer [of s' s] by (simp add: finished_def delivered_def outer_def)

lemma over_outer: "outer s' = outer s \<Longrightarrow> over E L got n w0 fault s' = over E L got n w0 fault s"
  using taken_outer [of s' s] by (simp add: over_def completed_def outer_def)

lemma ending_deliver:
  assumes run: "deliver_step E B A L wr i s = Some (Ret s')" and d: "ay_deliverer s \<in> {TSend None, TClose, TTerm, TEnd}"
  shows "ay_w s' = ay_w s" "ay_client s' = ay_client s" "taken s' = taken s" "ay_lastErr s' = ay_lastErr s" "ay_result s' = ay_result s"
    "ay_deliverer s' \<in> {TSend None, TClose, TTerm, TEnd}" "set (ay_errBuf s') \<subseteq> insert None (set (ay_errBuf s))"
  using d run by (auto simp: deliver_step_def Let_def taken_def split: if_splits)

lemma finished_deliver:
  assumes "finished E L got n w0 s" and "deliver_step E B A L wr i s = Some (Ret s')"
  shows "finished E L got n w0 s'"
  using assms(1) ending_deliver [OF assms(2)] by (auto simp: finished_def delivered_def)

lemma over_deliver:
  assumes "over E L got n w0 fault s" and "deliver_step E B A L wr i s = Some (Ret s')"
  shows "over E L got n w0 fault s'"
  using assms(1) ending_deliver [OF assms(2)] by (auto simp: over_def completed_def)

text \<open>\<open>Close\<close> sees no error and writes the index and the footer.\<close>

lemma finished_client:
  assumes errs: "errs_ok E" and q: "pipe_queue B good view" "pipe_ring B good view" "pipe_new_laws B" and laws: "lzma_code_laws L"
    and prog: "coder_progress L FINISH True False pf" and wr: "writes_to (Some wr) got" "foreign_errors wr"
    and f: "finished E L got n w0 s" and run: "client_step E B L wr i s = Some (Ret s')"
  shows "over E L got n w0 (lib_fail L \<or> sink_fail wr) s'"
proof -
  from f have F: "delivered E L got n w0 s" "w_closed (ay_w s)" "w_flags (ay_w s) = w_flags w0" "ay_client s = CClose" "ay_lastErr s = None"
    "set (ay_errBuf s) \<subseteq> {None}" "ay_deliverer s \<in> {TSend None, TClose, TTerm, TEnd}" by (simp_all add: finished_def)
  have "recv_err s \<noteq> None"
  proof
    assume "recv_err s = None"
    with run F(4,5) errs show False by (simp add: client_step_def Let_def close_rest_def arecover_def adefer_def abind_def checkErr_def)
  qed
  then have "recv_err s = Some (None, s\<lparr>ay_errBuf := tl (ay_errBuf s)\<rparr>)"
    using F(6) by (cases "ay_errBuf s") (auto simp: recv_err_def split: if_splits)
  then obtain es where es: "recv_err s = Some (None, s\<lparr>ay_errBuf := es\<rparr>)" by blast
  have chk: "checkErr E s = Some (Ret (), s\<lparr>ay_errBuf := es, ay_lastErr := None\<rparr>)" using es F(5) errs by (simp add: checkErr_def)
  let ?s = "s\<lparr>ay_errBuf := es, ay_lastErr := None\<rparr>"
  from Close_tail_spec [OF errs q laws prog wr, of "ay_w s"] show ?thesis
  proof (cases rule: outcome_cases)
    case (ret x w')
    then have s': "s' = ?s\<lparr>ay_w := w'\<lparr>w_index := Index_End (w_index w')\<rparr>, ay_client := CIdle, ay_result := Some None\<rparr>"
      using run F(4) chk errs by (simp add: client_step_def Let_def close_rest_def arecover_def adefer_def abind_def azoom_def)
    have tk: "taken s' = taken s" using F(4) by (simp add: s' taken_def writing_def)
    from F(1) obtain blks where b: "blocks_of E L w0 (w_index w0) (chunks n (taken s)) blks (w_index (ay_w s))"
      "got (w_wr (ay_w s)) = got (w_wr w0) @ concat blks" unfolding delivered_def by blast
    from ret(2) F(2,3) obtain bs where c: "w_closed w'" "index_and_footer L (w_flags w0) (w_index (ay_w s)) bs" "got (w_wr w') = got (w_wr (ay_w s)) @ bs" by auto
    have "completed E L got n w0 s'"
      unfolding completed_def tk using b c by (intro exI [of _ blks] exI [of _ "w_index (ay_w s)"] exI [of _ bs]) (simp add: s')
    then show ?thesis using c(1) F(7) by (simp add: over_def s')
  next
    case (err e w')
    then have s': "s' = ?s\<lparr>ay_w := w'\<lparr>w_index := Index_End (w_index w')\<rparr>, ay_client := CIdle, ay_result := Some (Some e)\<rparr>"
      using run F(4) chk errs by (simp add: client_step_def Let_def close_rest_def arecover_def adefer_def abind_def azoom_def errs_okD(5) [OF errs])
    have "akeeps w_closed (Close_tail E B L wr)"
      unfolding Close_tail_def by (auto simp: set_wr_def split: prod.split option.split intro!: akeeps_intros)
    from akeepsD [OF this err(1)] F(2) have "w_closed w'" by simp
    then show ?thesis using F(7) err(2) by (simp add: over_def s')
  qed
qed

text \<open>Later calls find a closed writer.\<close>

lemma over_calls:
  assumes "over E L got n w0 fault s"
  shows "over E L got n w0 fault (call_Write data s)" "over E L got n w0 fault (call_Close B s)"
proof -
  have o: "w_closed (ay_w s)" "ay_client s = CIdle" using assms by (simp_all add: over_def)
  then have "taken (call_Write data s) = taken s" by (simp add: call_Write_def client_return_def taken_def writing_def)
  then show "over E L got n w0 fault (call_Write data s)" using assms o by (simp add: over_def completed_def call_Write_def client_return_def)
  show "over E L got n w0 fault (call_Close B s)" using assms o by (simp add: call_Close_def)
qed

section \<open>All steps\<close>

definition async_inv ::
  "errs \<Rightarrow> ('z, 'x) liblzma \<Rightarrow> 'w io_write \<Rightarrow> ('p \<Rightarrow> lpipe option) \<Rightarrow> ('p \<Rightarrow> goerr option) \<Rightarrow> ('w \<Rightarrow> bytes) \<Rightarrow> nat \<Rightarrow>
   ('z, 'x, 'p, 'w) Writer \<Rightarrow> ('z, 'x, 'p, 'w) asys \<Rightarrow> bool" where
  "async_inv E L wr lin er got n w0 s \<longleftrightarrow>
     sound E L lin er got n w0 s \<or> finished E L got n w0 s \<or> broken L wr s \<or> over E L got n w0 (lib_fail L \<or> sink_fail wr) s"

lemma async_inv_step:
  assumes env: "async_env E B A L lin er pr pf w0 n" and q: "pipe_queue B good view" "pipe_ring B good view"
    and wr: "writes_to (Some wr) got" "foreign_errors wr" and step: "async_step E B A L wr s s'" and I: "async_inv E L wr lin er got n w0 s"
  shows "async_inv E L wr lin er got n w0 s'"
proof -
  note e = async_envD [OF env] and ee = encoder_envD [OF async_envD(1) [OF env]]
  have inner: "async_inv E L wr lin er got n w0 s'" if "outer s' = outer s" "sound E L lin er got n w0 s \<Longrightarrow> sound E L lin er got n w0 s'"
    using I that finished_outer [OF that(1), of E L got n w0] failed_outer [OF that(1)] over_outer [OF that(1), of E L got n w0 "lib_fail L \<or> sink_fail wr"]
    unfolding async_inv_def broken_def by blast
  from step show ?thesis
  proof cases
    case (client i)
    have "ay_client s \<noteq> CIdle" using client by (auto simp: client_step_def Let_def)
    then have "\<not> over E L got n w0 (lib_fail L \<or> sink_fail wr) s" by (simp add: over_def)
    then show ?thesis
      using I sound_client [OF env _ client] finished_client [OF e(7) q e(2,9) ee(8) wr _ client] failed_client [OF e(7) _ client]
      unfolding async_inv_def broken_def by blast
  next
    case (worker t i)
    then show ?thesis using inner [OF worker_outer [OF worker(2)]] sound_worker [OF env _ worker] by blast
  next
    case (deliver i)
    then show ?thesis
      using I sound_deliver [OF env wr(1) _ deliver] finished_deliver [OF _ deliver] failed_deliver [OF e(7) _ deliver] over_deliver [OF _ deliver]
      unfolding async_inv_def broken_def by blast
  next
    case monitor
    then show ?thesis using inner [OF monitor_outer [OF monitor]] sound_monitor [OF _ monitor] by blast
  next
    case ended
    then show ?thesis using inner [OF ended_outer [OF ended]] sound_ended [OF _ ended] by blast
  next
    case (call_write data)
    have "\<not> finished E L got n w0 s" using call_write by (simp add: finished_def)
    then show ?thesis
      using I sound_calls(1) [OF env _ call_write(2), of got data] failed_calls(1) [of s data] over_calls(1) [of E L got n w0 _ s data]
      unfolding async_inv_def broken_def call_write(1) by blast
  next
    case call_close
    have "\<not> finished E L got n w0 s" using call_close by (simp add: finished_def)
    then show ?thesis
      using I sound_calls(2) [OF env _ call_close(2), of got] failed_calls(2) [of s B] over_calls(2) [of E L got n w0 _ s B]
      unfolding async_inv_def broken_def call_close(1) by blast
  qed
qed

section \<open>A new writer\<close>

lemma NewWriterCustom_async:
  assumes errs: "errs_ok E" and wr: "writes_to (Some wr) got" and k: "0 \<le> k" and workers: "workers \<noteq> WorkersSync"
    and new: "NewWriterCustom E B L wr level check k workers s = Some (Ret (Some w, None), s')"
  shows "chunked E L w (nat (clamp_chunk k))" "async_conf w w"
    "w_idx w = 0" "w_pipe w = None" "\<not> w_closed w" "w_inPool w = Some newPipePool" "w_outPool w = Some newPipePool" "w_workPool w = Some newWorkerPool"
    "w_maxWorkers w = clamp_workers workers" "w_chunkSize w \<noteq> ChunkStream"
    "\<exists>hdr. HeaderEncode L NewStreamFlags check = ((hdr, None), w_flags w) \<and> got (w_wr w) = got s @ hdr"
proof -
  let ?k = "clamp_chunk k"
  have ck: "?k \<noteq> ChunkStream" "ChunkLowest \<le> ?k" "?k \<le> ChunkHighest" using k by (auto simp: clamp_chunk_def xz_sizes)
  from NewWriterCustom_cases [OF errs new] obtain maxSize buf flags index filters s1 w1 where
    n: "literalBlockSize L E check ?k = Ret maxSize" "HeaderEncode L NewStreamFlags check = ((buf, None), flags)"
      "NewIndex L = (index, None)" "sink_Write wr buf s = Some (Ret None, s1)"
      "new_Writer B flags index filters (clamp_workers workers) ?k maxSize s1 = Ret w1" "w = set_wr s1 w1"
    using ck(1) by metis
  have sent: "got s1 = got s @ buf" using n(4) sink_sent [OF wr, of s buf] by (auto simp: sink_Write_def split: prod.splits)
  have "clamp_workers workers \<noteq> WorkersSync" using workers by (simp add: clamp_workers_def xz_workers)
  with n(5) have w1: "w_flags w1 = flags" "w_maxWorkers w1 = clamp_workers workers" "w_chunkSize w1 = ?k" "w_maxSize w1 = maxSize" "\<not> w_closed w1"
    "w_inSize w1 = ?k" "w_outSize w1 = maxSize" "w_inMode w1 = Some LineDual" "w_outMode w1 = Some LineMono" "w_idx w1 = 0" "w_pipe w1 = None"
    "w_inPool w1 = Some newPipePool" "w_outPool w1 = Some newPipePool" "w_workPool w1 = Some newWorkerPool"
    by (auto simp: new_Writer_def Let_def)
  have fc: "Flags_GetCheck flags = check" using HeaderEncode_check [of L NewStreamFlags check] n(2) by (simp add: Flags_GetCheck_def)
  have "0 \<le> ?k" using ck(2) by (simp add: xz_sizes)
  then show "chunked E L w (nat ?k)" using w1 n(1,6) fc ck by (auto simp: chunked_def set_wr_def xz_sizes)
  show "async_conf w w" using w1 n(6) by (simp add: async_conf_def set_wr_def)
  show "w_idx w = 0" "w_pipe w = None" "\<not> w_closed w" "w_inPool w = Some newPipePool" "w_outPool w = Some newPipePool" "w_workPool w = Some newWorkerPool"
    "w_maxWorkers w = clamp_workers workers" "w_chunkSize w \<noteq> ChunkStream"
    using w1 n(6) ck(1) by (simp_all add: set_wr_def)
  show "\<exists>hdr. HeaderEncode L NewStreamFlags check = ((hdr, None), w_flags w) \<and> got (w_wr w) = got s @ hdr"
    using n(2,6) w1(1) sent by (simp add: set_wr_def)
qed

lemma monitors_start:
  assumes "1 \<le> cpus" and "w_maxWorkers w = clamp_workers workers" and "workers \<noteq> WorkersSync"
  shows "monitors (monitor_chores cpus w) newWorkerPool 0"
proof -
  let ?caps = "capacities 1 @ (if w_chunkSize w \<noteq> ChunkStream then capacities (if w_maxWorkers w = WorkersMax then cpus else w_maxWorkers w) else [])"
  have "1 \<le> (if w_maxWorkers w = WorkersMax then cpus else w_maxWorkers w)" using assms by (auto simp: clamp_workers_def xz_workers)
  then have "sorted (int 0 # cap_chores ?caps)" "\<forall>c \<in> set ?caps. is_cap c" by (auto simp: capacities_def is_cap_def)
  moreover have "monitor_chores cpus w = ?caps @ [AwaitDone, TermWork, TermOut, TermIn]" by (simp add: monitor_chores_def)
  ultimately show ?thesis using newWorkerPool_ok unfolding monitors_def by (auto simp: newWorkerPool_def)
qed

lemma new_pool:
  "ready_set newPipePool = {}" "active_set newPipePool = {}" "free_set newPipePool = {}" "indexes newPipePool = {}"
  "\<not> pp_closed newPipePool" "pool_ok newPipePool"
  by (simp_all add: newPipePool_ok) (simp_all add: newPipePool_def indexes_def entries_def)

lemma sound_start:
  assumes conf: "async_conf w w" "w_idx w = 0" "w_pipe w = None" "\<not> w_closed w" "w_inPool w = Some newPipePool" "w_outPool w = Some newPipePool"
      "w_workPool w = Some newWorkerPool"
    and m: "monitors (monitor_chores cpus w) newWorkerPool 0"
  shows "sound E L lin er got n w (async_start cpus w)"
proof -
  let ?s = "async_start cpus w"
  have s: "ay_w ?s = w" "ay_in ?s = newPipePool" "ay_out ?s = newPipePool" "ay_work ?s = newWorkerPool" "ay_client ?s = CIdle" "ay_workers ?s = []"
    "ay_deliverer ?s = TGet 0" "ay_monitor ?s = monitor_chores cpus w" "ay_log ?s = []" using conf by (simp_all add: async_start_def)
  have "shape w ?s"
    unfolding shape_def s using conf new_pool m
    by (auto simp: quiet_def async_start_def workers_hold_def held_def placed_def unstarted_def pends_def delivers_def closing_def)
  moreover have "content E L lin got n w [] ?s"
    unfolding content_def s new_pool using conf
    by (auto simp: taken_def writing_def s client_chunks_def free_lin_def new_pool intro: blocks_of.none)
  ultimately show ?thesis unfolding sound_def by blast
qed

section \<open>Every reachable state\<close>

lemma async_reachable:
  assumes "encoder_env E B L lin pr pf" and "pipe_queue B good view" and "pipe_ring B good view" and "pipe_new_laws B"
    and "pipe_async A lin er" and "lzma_size_laws L" and "writes_to (Some wr) got" and "foreign_errors wr"
    and "0 \<le> k" and "workers \<noteq> WorkersSync" and "1 \<le> cpus"
    and "NewWriterCustom E B L wr level check k workers s0 = Some (Ret (Some w0, None), s1)"
    and "run_fits L w0 (nat (clamp_chunk k))"
    and "(async_step E B A L wr)\<^sup>*\<^sup>* (async_start cpus w0) s"
  shows "async_inv E L wr lin er got (nat (clamp_chunk k)) w0 s" "async_env E B A L lin er pr pf w0 (nat (clamp_chunk k))"
proof -
  let ?n = "nat (clamp_chunk k)"
  note new = NewWriterCustom_async [OF encoder_envD(1) [OF assms(1)] assms(7,9,10,12)]
  show env: "async_env E B A L lin er pr pf w0 ?n" using assms(1,4,5,6,13) new(1) by (simp add: async_env_def)
  have "sound E L lin er got ?n w0 (async_start cpus w0)"
    by (rule sound_start [OF new(2-8) monitors_start [OF assms(11) new(9) assms(10)]])
  then have "async_inv E L wr lin er got ?n w0 (async_start cpus w0)" by (simp add: async_inv_def)
  with assms(14) show "async_inv E L wr lin er got ?n w0 s"
    by (induction rule: rtranclp_induct) (auto intro: async_inv_step [OF env assms(2,3,7,8)])
qed

section \<open>Properties\<close>


end
