(* ===== verification/Xz_Async_Run.thy ===== *)
theory Xz_Async_Run
  imports Xz_Async_Props
begin

lemma line_async_ok: "pipe_async line_async line_lin (\<lambda>p. case p of None \<Rightarrow> None | Some q \<Rightarrow> lp_err q)"
proof -
  have r: "lp_readable q" if "line_lin p = Some q" "ap_CanRead line_async p" for p q
    using that by (auto simp: line_lin_Some line_async_def lp_readable_def lp_view_def mono_data_def)
  have w: "(case p of None \<Rightarrow> None | Some q \<Rightarrow> lp_err q) = None \<and> (\<forall>q. line_lin p = Some q \<longrightarrow> line_lin p' \<noteq> None \<and> got w' = got w @ mono_data q)"
    if "writes_to (Some wr) got" "ap_WriteTo line_async wr p w = (None, p', w')" for wr :: "'w io_write" and got p w p' w'
  proof -
    obtain k e v where v: "wr w (lp_view p) = ((k, e), v)" by (metis prod.collapse)
    with that(2) have "e = None" "v = w'" "p' = map_option (\<lambda>q. q\<lparr>lp_lo := lp_hi q\<rparr>) p" "(case p of None \<Rightarrow> None | Some q \<Rightarrow> lp_err q) = None"
      by (auto simp: line_async_def split: if_splits)
    with sink_sent [OF that(1)] v show ?thesis by (auto simp: line_lin_Some mono_ok_def lp_view_def mono_data_def)
  qed
  have c: "(case ap_CloseWithError line_async p x of None \<Rightarrow> None | Some q \<Rightarrow> lp_err q) = x \<and>
      (x = None \<longrightarrow> line_lin (ap_CloseWithError line_async p x) = Some (q\<lparr>lp_closed := True\<rparr>))" if "line_lin p = Some q" for p q x
    using that by (auto simp: line_lin_Some line_async_def mono_ok_def)
  have k: "(case p of None \<Rightarrow> None | Some q \<Rightarrow> lp_err q) = None" if "line_lin p = Some q" for p q
    using that by (auto simp: line_lin_Some mono_ok_def)
  have f: "sink_fail wr" if "ap_WriteTo line_async wr p w = (Some e, p', w')" "(case p of None \<Rightarrow> None | Some q \<Rightarrow> lp_err q) = None"
    for wr :: "'w io_write" and p w e p' w'
  proof -
    obtain k x v where "wr w (lp_view p) = ((k, x), v)" by (metis prod.collapse)
    moreover from this that have "x = Some e" by (auto simp: line_async_def split: if_splits)
    ultimately show ?thesis unfolding sink_fail_def by blast
  qed
  show ?thesis unfolding pipe_async_def using k r w c f by blast
qed

text \<open>The storing coder writes each byte it is given and counts it.\<close>

lemma store_runs:
  "coder_run easy_lzma RUN c inp out c' \<Longrightarrow> sc_pending c = [] \<Longrightarrow>
     sc_pending c' = [] \<and> out = inp \<and> blk_compressed_size (sc_block c') = blk_compressed_size (sc_block c) + of_nat (length inp)"
  by (induction rule: coder_run.induct) (auto simp: store_code_def Let_def ac_simps)

lemma store_finish:
  "coder_run easy_lzma FINISH c inp out c' \<Longrightarrow> inp = [] \<Longrightarrow> blk_compressed_size (sc_block c') = blk_compressed_size (sc_block c)"
  by (induction rule: coder_run.induct) (auto simp: store_code_def Let_def)

lemma easy_sizes: "lzma_size_laws easy_lzma"
proof -
  have "to_i64 (ucast (blk_header_size (sc_block c2)) + blk_compressed_size (sc_block c2) :: 64 word) \<noteq> 0"
    if c0: "c0 = store_init\<lparr>sc_block := (b\<lparr>blk_header_size := 12\<rparr>)\<lparr>blk_compressed_size := 0, blk_uncompressed_size := 0\<rparr>\<rparr>"
      and len: "length inp \<le> 2 ^ 62" and runs: "coder_run easy_lzma RUN c0 inp out1 c1" "coder_run easy_lzma FINISH c1 [] out2 c2"
    for c0 b inp out1 c1 out2 c2
  proof -
    have "sc_pending c0 = []" by (simp add: c0 store_init_def)
    from store_runs [OF runs(1) this] store_finish [OF runs(2)] store_run_header [OF runs(1)] store_run_header [OF runs(2)]
    have s: "blk_compressed_size (sc_block c2) = of_nat (length inp)" "blk_header_size (sc_block c2) = 12" by (simp_all add: c0)
    have "uint (ucast (12 :: 32 word) + (of_nat (length inp) :: 64 word)) = 12 + int (length inp)"
      using len by (simp add: uint_word_ariths unsigned_of_nat take_bit_eq_mod)
    then have "ucast (12 :: 32 word) + (of_nat (length inp) :: 64 word) \<noteq> 0" by fastforce
    moreover have "x = 0" if "to_i64 x = 0" for x using of_i64_to_i64 [of x] that by (simp add: of_i64_def)
    ultimately show ?thesis unfolding s by blast
  qed
  then show ?thesis unfolding lzma_size_laws_def by (auto simp: easy_lzma_def store_lzma_def)
qed

lemma easy_fits:
  assumes "w_maxSize w = 65556"
  shows "run_fits easy_lzma w 65536"
proof -
  have "int (hs + length out) < 65556" if o: "opened easy_lzma w block headerSize c0 hs" "coder_run easy_lzma RUN c0 inp out c" "length inp < 65536"
    for block headerSize c0 hs inp out c
  proof -
    from o(1) have "hs = 12" "sc_pending c0 = []" by (auto simp: opened_def store_init_def)
    with store_runs [OF o(2)] o(3) show ?thesis by simp
  qed
  then show ?thesis unfolding run_fits_def assms by blast
qed

lemma easy_new_async:
  "\<exists>w s. NewWriterCustom errs_std line_pipe easy_lzma list_write 6 CHECK_CRC32 0 1 [] = Some (Ret (Some w, None), s) \<and> w_maxSize w = 65556"
proof -
  have k: "clamp_chunk 0 = 65536" "clamp_workers 1 = 1" "(65536::int) \<noteq> ChunkStream"
    by (simp_all add: clamp_chunk_def clamp_workers_def xz_sizes)
  obtain f where f: "writer_filters errs_std easy_lzma 65536 s = Some (Ret f, s)" for s :: bytes
    by (simp add: writer_filters_def NewOptionsLZMA_def Filters_Append_def NewFilters_def Let_def abind_aPanic [OF errs_ok_std])
  show ?thesis
    by (simp add: NewWriterCustom_def k easy_literal_size HeaderEncode_def NewIndex_def abind_aPanic [OF errs_ok_std] arecover_def
        sink_Write_def list_write_def abind_eval(1) [OF f] new_Writer_def make_bytes_def k xz_workers set_wr_def)
qed

text \<open>
  Closing a new writer: its worker and the delivering routine find the pools closed and empty, and the
  caller is told that there was no error.
\<close>

lemma empty_pool_ended:
  assumes "ready_set pp = {}" and "pp_closed pp" and "pool_ok pp"
  obtains pp' where "getReader i (-1) pp = Ret (Done None, [], pp')" "pp_ready pp' = pp_ready pp" "pp_closed pp'" "pool_ok pp'"
    "pp_waitIdx pp' = pp_waitIdx pp"
proof (cases rule: getReader_loop_data [OF assms(3), of i "-1" "[]"])
  case 1
  then show thesis using assms(1,2) by (simp add: getReader_loop_def getReader_blocks_def split: if_splits go.splits) (auto simp: gobind_eq_Ret)
next
  case 2
  then show thesis using assms by (intro that [of "pp\<lparr>pp_waitIdx := pp_waitIdx pp\<rparr>"]) (simp_all add: getReader_def)
next
  case 3
  then show thesis using assms(1) by simp
qed

lemma empty_pool_ended_idx:
  assumes "ready_set pp = {}" and "pp_closed pp" and "pool_ok pp" and "0 \<le> idx" and "pp_waitIdx pp < 0"
  obtains sg pp' where "getReader i idx pp = Ret (Done None, sg, pp')" "pp_ready pp' = pp_ready pp" "pp_closed pp'" "pool_ok pp'"
proof -
  have ok: "pool_ok (pp\<lparr>pp_waitIdx := idx\<rparr>)" using assms(3,4) by (intro pool_ok_frame(4)) auto
  show thesis
  proof (cases rule: getReader_loop_data [OF ok, of i idx "[BroadcastWr]"])
    case 1
    then show thesis using assms(1,2) by (simp add: getReader_loop_def getReader_blocks_def split: if_splits go.splits) (auto simp: gobind_eq_Ret)
  next
    case 2
    have "pool_ok (pp\<lparr>pp_waitIdx := -1\<rparr>)" using assms(3) by (intro pool_ok_frame(4)) auto
    then show thesis using 2 assms by (intro that [of "[BroadcastWr]" "pp\<lparr>pp_waitIdx := -1\<rparr>"]) (simp_all add: getReader_def)
  next
    case 3
    then show thesis using assms(1) by simp
  qed
qed


lemma monitor_caps:
  assumes "ay_monitor s = CapIn c # CapOut c # CapWork c # rest" and "worker_setCapacity c (ay_work s) = Ret wp"
  shows "(async_step E B A L wr)\<^sup>*\<^sup>* s
    (s\<lparr>ay_monitor := rest, ay_in := (ay_in s)\<lparr>pp_cap := c\<rparr>, ay_out := (ay_out s)\<lparr>pp_cap := c\<rparr>, ay_work := wp,
       ay_workers := ay_workers s @ replicate (wk_spawned wp - wk_spawned (ay_work s)) KGet\<rparr>)" (is "?step\<^sup>*\<^sup>* s ?c")
proof -
  let ?a = "s\<lparr>ay_monitor := CapOut c # CapWork c # rest, ay_in := (ay_in s)\<lparr>pp_cap := c\<rparr>\<rparr>"
  let ?b = "?a\<lparr>ay_monitor := CapWork c # rest, ay_out := (ay_out s)\<lparr>pp_cap := c\<rparr>\<rparr>"
  have "?step s ?a" using assms(1) by (intro async_step.monitor) (simp add: monitor_step_def Let_def setCapacity_def)
  moreover have "?step ?a ?b" by (intro async_step.monitor) (simp add: monitor_step_def Let_def setCapacity_def)
  moreover have "?step ?b ?c" using assms(2) by (intro async_step.monitor) (simp add: monitor_step_def Let_def)
  ultimately show ?thesis by (meson converse_rtranclp_into_rtranclp rtranclp.rtrancl_refl)
qed

lemma closing_run:
  fixes w :: "('z, 'x, lpipe option, bytes) Writer"
  assumes w: "w_maxWorkers w = 1" "w_chunkSize w \<noteq> ChunkStream" "w_idx w = 0" "w_pipe w = None" "\<not> w_closed w"
      "w_inPool w = Some newPipePool" "w_outPool w = Some newPipePool" "w_workPool w = Some newWorkerPool"
    and tail: "\<And>w1. w_wr w1 = w_wr w \<Longrightarrow> w_closed w1 \<Longrightarrow> \<exists>w2. Close_tail errs_std line_pipe L list_write w1 = Some (Ret (), w2)"
  shows "\<exists>s. (async_step errs_std line_pipe A L list_write)\<^sup>*\<^sup>* (async_start 1 w) s \<and> ay_result s = Some None"
proof -
  let ?step = "async_step errs_std line_pipe A L list_write"
  let ?in = "newPipePool\<lparr>pp_closed := True, pp_cap := 1\<rparr> :: (lpipe option, sizeStats) pipePool"
  let ?out = "newPipePool\<lparr>pp_cap := 1\<rparr> :: (lpipe option, sizeStats) pipePool"
  let ?wp = "\<lparr>wk_workers = [0], wk_closed = False, wk_killed = {}, wk_spawned = 1, wk_monitor = True\<rparr>"
  define w1 where "w1 = w\<lparr>w_closed := True\<rparr>"
  define s1 where "s1 = (async_start 1 w)\<lparr>ay_w := w1, ay_in := newPipePool\<lparr>pp_closed := True\<rparr>, ay_client := CClose\<rparr>"
  define s2 where "s2 = s1\<lparr>ay_in := ?in, ay_out := ?out, ay_work := ?wp, ay_workers := [KGet], ay_monitor := drop 3 (ay_monitor s1)\<rparr>"
  have "s1 = call_Close line_pipe (async_start 1 w)"
    using w by (simp add: s1_def w1_def async_start_def call_Close_def pool_close_def)
  then have 1: "?step (async_start 1 w) s1" by (simp only:) (rule async_step.call_close, simp add: async_start_def)
  have m: "ay_monitor s1 = CapIn 1 # CapOut 1 # CapWork 1 # drop 3 (ay_monitor s1)"
    by (simp add: s1_def async_start_def monitor_chores_def capacities_def)
  have spawn: "worker_setCapacity 1 newWorkerPool = Ret ?wp"
    by (simp add: worker_setCapacity_def newWorkerPool_def worker_spawn.simps worker_kill.simps)
  have 2: "?step\<^sup>*\<^sup>* s1 s2"
    using monitor_caps [OF m, of ?wp] spawn w by (simp add: s1_def s2_def async_start_def newWorkerPool_def)
  have ok: "pool_ok ?in" "pool_ok ?out" by (simp_all add: pool_ok_frame newPipePool_ok)
  have f2: "ay_w s2 = w1" "ay_in s2 = ?in" "ay_out s2 = ?out" "ay_work s2 = ?wp" "ay_workers s2 = [KGet]" "ay_client s2 = CClose" "ay_deliverer s2 = TGet 0"
    "ay_errBuf s2 = []" "ay_lastErr s2 = None" "\<not> ay_ended s2"
    by (simp_all add: s2_def s1_def async_start_def)
  obtain in1 where in1: "getReader 0 (-1) ?in = Ret (Done None, [], in1)"
    using empty_pool_ended [of ?in 0] ok(1) new_pool by (auto simp: newPipePool_def)
  define s3 where "s3 = s2\<lparr>ay_in := in1, ay_workers := [KEnd]\<rparr>"
  have "worker_step errs_std line_pipe A L 0 0 s2 = Some (Ret s3)"
    using in1 by (simp add: worker_step_def f2 iterReader_def worker_got_def set_worker_def s3_def)
  then have 3: "?step s2 s3" by (rule async_step.worker [rotated]) (simp add: f2)
  define s4 where "s4 = s3\<lparr>ay_out := ?out\<lparr>pp_closed := True\<rparr>, ay_ended := True\<rparr>"
  have "ended_step s3 = Some (Ret s4)" by (simp add: ended_step_def s3_def s4_def f2 pool_close_def)
  then have 4: "?step s3 s4" by (rule async_step.ended)
  have f4: "ay_w s4 = w1" "ay_out s4 = ?out\<lparr>pp_closed := True\<rparr>" "ay_client s4 = CClose" "ay_deliverer s4 = TGet 0"
    "ay_errBuf s4 = []" "ay_lastErr s4 = None"
    by (simp_all add: s4_def s3_def f2)
  have "pool_ok (?out\<lparr>pp_closed := True\<rparr>)" using ok(2) by (rule pool_ok_frame)
  moreover have "ready_set (?out\<lparr>pp_closed := True\<rparr>) = {}" "pp_closed (?out\<lparr>pp_closed := True\<rparr>)" "pp_waitIdx (?out\<lparr>pp_closed := True\<rparr>) < 0"
    by (simp_all add: newPipePool_def)
  ultimately obtain sg out1 where out1: "getReader 0 0 (?out\<lparr>pp_closed := True\<rparr>) = Ret (Done None, sg, out1)"
      "pp_ready out1 = pp_ready (?out\<lparr>pp_closed := True\<rparr>)" "pp_closed out1" "pool_ok out1"
    using empty_pool_ended_idx [of "?out\<lparr>pp_closed := True\<rparr>" 0 0] by blast
  define s5 where "s5 = s4\<lparr>ay_out := out1, ay_deliverer := TLast 1\<rparr>"
  have "deliver_step errs_std line_pipe A L list_write 0 s4 = Some (Ret s5)"
    using out1(1) by (simp add: deliver_step_def f4 iterReaderIdx_def deliver_got_def s5_def)
  then have 5: "?step s4 s5" by (rule async_step.deliver)
  obtain out2 where out2: "getReader 0 (-1) out1 = Ret (Done None, [], out2)" by (rule empty_pool_ended [OF _ out1(3,4)]) (simp add: out1(2) newPipePool_def)
  define s6 where "s6 = s5\<lparr>ay_out := out2, ay_deliverer := TSend None\<rparr>"
  have "deliver_step errs_std line_pipe A L list_write 0 s5 = Some (Ret s6)"
    using out2 by (simp add: deliver_step_def s5_def s6_def f4 deliver_last_def deliver_recover_def errs_okD [OF errs_ok_std])
  then have 6: "?step s5 s6" by (rule async_step.deliver)
  define s7 where "s7 = s6\<lparr>ay_errBuf := [None], ay_deliverer := TClose\<rparr>"
  have "deliver_step errs_std line_pipe A L list_write 0 s6 = Some (Ret s7)" by (simp add: deliver_step_def s7_def s6_def s5_def f4)
  then have 7: "?step s6 s7" by (rule async_step.deliver)
  have f7: "ay_w s7 = w1" "ay_client s7 = CClose" "ay_errBuf s7 = [None]" "ay_lastErr s7 = None" by (simp_all add: s7_def s6_def s5_def f4)
  obtain w2 where w2: "Close_tail errs_std line_pipe L list_write w1 = Some (Ret (), w2)" using tail [of w1] by (auto simp: w1_def)
  define s8 where "s8 = s7\<lparr>ay_errBuf := [], ay_lastErr := None, ay_w := w2\<lparr>w_index := Index_End (w_index w2)\<rparr>, ay_client := CIdle, ay_result := Some None\<rparr>"
  have "checkErr errs_std s7 = Some (Ret (), s7\<lparr>ay_errBuf := [], ay_lastErr := None\<rparr>)"
    using errs_ok_std by (simp add: checkErr_def f7 recv_err_def)
  then have "client_step errs_std line_pipe L list_write 0 s7 = Some (Ret s8)"
    using w2 errs_ok_std by (simp add: client_step_def Let_def f7 close_rest_def arecover_def adefer_def abind_def azoom_def s8_def)
  then have 8: "?step s7 s8" by (rule async_step.client)
  from 1 2 have "?step\<^sup>*\<^sup>* (async_start 1 w) s2" by (rule converse_rtranclp_into_rtranclp)
  from this 3 4 5 6 7 8 have "?step\<^sup>*\<^sup>* (async_start 1 w) s8" by (meson rtranclp.rtrancl_into_rtrancl)
  moreover have "ay_result s8 = Some None" by (simp add: s8_def)
  ultimately show ?thesis by blast
qed

lemma one_parallel: "(1::int) \<noteq> WorkersSync"
  by (simp add: xz_workers)

lemma easy_chunk: "nat (clamp_chunk 0) = 65536"
  by (simp add: clamp_chunk_def xz_sizes)

text \<open>A writer on lists, and one run of its routines that closes it.\<close>

lemma easy_async_run:
  obtains w0 s1 s where
    "NewWriterCustom errs_std line_pipe easy_lzma list_write 6 CHECK_CRC32 0 1 [] = Some (Ret (Some w0, None), s1)"
    "run_fits easy_lzma w0 (nat (clamp_chunk 0))"
    "(async_step errs_std line_pipe line_async easy_lzma list_write)\<^sup>*\<^sup>* (async_start 1 w0) s" "ay_result s = Some None"
proof -
  obtain w0 s1 where new: "NewWriterCustom errs_std line_pipe easy_lzma list_write 6 CHECK_CRC32 0 1 [] = Some (Ret (Some w0, None), s1)"
    and max: "w_maxSize w0 = 65556" using easy_new_async by blast
  note w = NewWriterCustom_async [OF errs_ok_std list_io(3) order_refl one_parallel new]
  have m: "w_maxWorkers w0 = 1" using w(9) by (simp add: clamp_workers_def xz_workers)
  have tail: "\<exists>w2. Close_tail errs_std line_pipe easy_lzma list_write w1 = Some (Ret (), w2)" for w1 :: "(store_coder, (64 word \<times> 64 word) list, lpipe option, bytes) Writer"
  proof -
    note e = encoder_envD [OF easy_env]
    from Close_tail_spec [OF errs_ok_std line_pipe_queue line_pipe_ring line_pipe_new_laws e(6,8) list_io(3) easy_never_fails(3), of w1]
    show ?thesis by (cases rule: outcome_cases) (use easy_never_fails in \<open>auto\<close>)
  qed
  obtain s where run: "(async_step errs_std line_pipe line_async easy_lzma list_write)\<^sup>*\<^sup>* (async_start 1 w0) s" "ay_result s = Some None"
    using closing_run [OF m w(10,3-8) tail] by blast
  have "run_fits easy_lzma w0 (nat (clamp_chunk 0))" using easy_fits [OF max] easy_chunk by simp
  from that [OF new this run] show thesis .
qed


end
