(* ===== verification/Xz_Async_Errors.thy ===== *)
theory Xz_Async_Errors
  imports Xz_Async_Run
begin

text \<open>
  The errors of the parallel writer: a call that fails has a cause, a call of liblzma or of the
  underlying writer that failed, unless it is a write to a closed writer.
\<close>

text \<open>The calls of \<open>Write\<close> so far.\<close>

definition logged :: "bool \<Rightarrow> (bytes \<times> int \<times> goerr option) list \<Rightarrow> bool" where
  "logged fault l \<longleftrightarrow> (\<forall>(data, cnt, err) \<in> set l.
     (err = None \<longrightarrow> cnt = int (length data)) \<and> (err \<noteq> None \<longrightarrow> err = Some ErrClosedPipe \<and> cnt = 0 \<or> fault))"

lemma client_leave_log: "logged fault (ay_log s) \<Longrightarrow> logged fault (ay_log (client_leave data cnt s))"
  by (auto simp: client_leave_def client_return_def logged_def)

lemma client_got_log: "logged fault (ay_log s) \<Longrightarrow> logged fault (ay_log (client_got data cnt r pp s))"
  using client_leave_log [of fault "s\<lparr>ay_in := pp\<rparr>"] by (cases r) (auto simp: client_got_def Let_def split: option.split)

lemma client_put_log:
  assumes "logged fault (ay_log s)" and "client_put B data cnt a s = Ret s'"
  shows "logged fault (ay_log s')"
proof -
  from assms(2) obtain rest where r: "slice_from data cnt = Ret rest" by (auto simp: client_put_def gobind_eq_Ret)
  obtain k err p where "bp_Write B (in_pipe s a) rest = ((k, err), p)" by (metis prod.collapse)
  with assms r client_leave_log [of fault "s\<lparr>ay_in := put_pipe a p (ay_in s)\<rparr>" data "cnt + k"] show ?thesis
    by (auto simp: client_put_def Let_def split: if_splits)
qed

lemma checkErr_keeps: "akeeps ay_log (checkErr E)"
proof -
  have "akeeps ay_log (\<lambda>s. case recv_err s of None \<Rightarrow> None | Some (err, s) \<Rightarrow> aPanic E err (s\<lparr>ay_lastErr := err\<rparr>))"
    by (auto simp: akeeps_def recv_err_def aPanic_def alift_def split: list.splits if_splits)
  then show ?thesis unfolding checkErr_def by (intro akeeps_intros) simp_all
qed

lemma checkErr_result:
  assumes "errs_ok E" and "checkErr E s = Some (r, s1)"
  shows "r = Ret () \<or> (\<exists>e. r = Pan (PErr (Some e)))"
proof (cases "ay_lastErr s")
  case None
  then obtain err s2 where "recv_err s = Some (err, s2)" using assms by (auto simp: checkErr_def split: option.splits)
  then show ?thesis using None assms by (cases err) (auto simp: checkErr_def)
next
  case (Some e)
  then show ?thesis using assms by (auto simp: checkErr_def)
qed

lemma akeeps_arecover: "akeeps f m \<Longrightarrow> akeeps f (arecover E h m)"
  by (auto simp: akeeps_def arecover_def split: option.splits)

lemma client_log:
  assumes errs: "errs_ok E" and l: "logged fault (ay_log s)" and run: "client_step E B L wr i s = Some (Ret s')"
    and c: "\<And>data cnt. ay_client s = CFail data cnt \<Longrightarrow> fault"
  shows "logged fault (ay_log s')"
proof (cases "ay_client s")
  case CIdle
  with run show ?thesis by (simp add: client_step_def Let_def)
next
  case (CWrite data cnt)
  then show ?thesis
    using run client_got_log [OF l] client_put_log [OF l] client_leave_log [OF l]
    by (auto simp: client_step_def Let_def gobind_eq_Ret split: if_splits option.splits)
next
  case (CPark data cnt)
  with run client_got_log [OF l] show ?thesis by (auto simp: client_step_def Let_def gobind_eq_Ret)
next
  case (CFail data cnt)
  let ?m = "arecover E (\<lambda>err _. err) (athen (checkErr E) (athen (aPanic E (Some ErrShortWrite)) (aret None))) :: (_, goerr option) act"
  have "akeeps ay_log ?m" by (intro akeeps_arecover akeeps_intros checkErr_keeps) simp_all
  moreover obtain r s1 where m: "?m s = Some (r, s1)" using run CFail by (cases "?m s") (auto simp: client_step_def Let_def)
  ultimately have "ay_log s1 = ay_log s" by (rule akeepsD)
  moreover obtain err where err: "r = Ret err" "s' = client_return data cnt err s1"
    using run CFail m by (auto simp: client_step_def Let_def gobind_eq_Ret)
  moreover have "err \<noteq> None"
  proof -
    obtain c s2 where ch: "checkErr E s = Some (c, s2)" using m by (cases "checkErr E s") (auto simp: arecover_def abind_def athen_def)
    from checkErr_result [OF errs ch] show ?thesis
      using m err(1) ch errs by (auto simp: arecover_def athen_def abind_def aPanic_def alift_def errs_okD [OF errs])
  qed
  ultimately show ?thesis using l c [OF CFail] by (auto simp: client_return_def logged_def)
next
  case CClose
  have "akeeps ay_log (close_rest E B L wr)"
    unfolding close_rest_def by (intro akeeps_arecover akeeps_intros checkErr_keeps) simp_all
  moreover obtain r s1 where m: "close_rest E B L wr s = Some (r, s1)"
    using run CClose by (cases "close_rest E B L wr s") (auto simp: client_step_def Let_def)
  ultimately have "ay_log s1 = ay_log s" by (rule akeepsD)
  moreover have "ay_log s' = ay_log s1" using run CClose m by (auto simp: client_step_def Let_def gobind_eq_Ret)
  ultimately show ?thesis using l by simp
qed

text \<open>The other routines do not touch the log.\<close>

lemma deliver_recover_log: "deliver_recover E d r s = Ret s' \<Longrightarrow> ay_log s' = ay_log s"
  by (cases r) (auto simp: deliver_recover_def split: sum.splits)

lemma deliver_log:
  assumes "deliver_step E B A L wr i s = Some (Ret s')"
  shows "ay_log s' = ay_log s"
proof -
  have last: "deliver_last E k r pp s = Ret s' \<Longrightarrow> ay_log s' = ay_log s" for k r pp
    by (cases r) (auto simp: deliver_last_def dest: deliver_recover_log)
  show ?thesis
    using assms last
    by (cases "ay_deliverer s")
      (auto simp: deliver_step_def Let_def gobind_eq_Ret deliver_got_def dest: deliver_recover_log split: if_splits prod.splits option.splits)
qed

lemma logged_step:
  assumes errs: "errs_ok E" and step: "async_step E B A L wr s s'" and I: "async_inv E L wr lin er got n w0 s"
    and l: "logged (lib_fail L \<or> sink_fail wr) (ay_log s)"
  shows "logged (lib_fail L \<or> sink_fail wr) (ay_log s')"
  using step
proof cases
  case (client i)
  have "lib_fail L \<or> sink_fail wr" if c: "ay_client s = CFail data cnt" for data cnt
  proof -
    have "\<not> sound E L lin er got n w0 s"
    proof
      assume "sound E L lin er got n w0 s"
      then have "checkErr E s = None" using errs by (intro checkErr_waits) (simp_all add: sound_def shape_def)
      with client c show False by (simp add: client_step_def Let_def arecover_def abind_def)
    qed
    then show ?thesis using I c by (auto simp: async_inv_def finished_def broken_def over_def)
  qed
  with client_log [OF errs l client] show ?thesis by blast
next
  case (worker t i)
  then have "ay_log s' = ay_log s" using worker_outer [OF worker(2)] by (simp add: outer_def)
  with l show ?thesis by simp
next
  case (deliver i)
  from deliver_log [OF this] l show ?thesis by simp
next
  case monitor
  from monitor_outer [OF this] l show ?thesis by (simp add: outer_def)
next
  case ended
  from ended_outer [OF this] l show ?thesis by (simp add: outer_def)
next
  case (call_write data)
  with l show ?thesis by (auto simp: call_Write_def client_return_def logged_def)
next
  case call_close
  with l show ?thesis by (simp add: call_Close_def Let_def split: option.split)
qed



end
