(* ===== verification/Xz_Async_Live.thy ===== *)
theory Xz_Async_Live
  imports Xz_Async_Errors
begin

text \<open>
  The parallel writer does not panic and does not get stuck: what the pools count, what each routine
  waits for, and that the steps keep it.
\<close>

section \<open>The counters of a pool\<close>

lemma getWriter_counts:
  assumes ok: "pool_ok pp" and B: "pipe_new_laws B" and sz: "0 \<le> sz" and fresh: "idx \<notin> indexes pp"
    and run: "getWriter B i idx sz mode data pp = Ret (r, sg, pp') \<or> getWriter_wake B i idx sz mode data pp = Ret (r, sg, pp')"
  shows "pp_cap pp' = pp_cap pp" "pp_waitIdx pp' = pp_waitIdx pp" "pp_ready pp \<noteq> None \<Longrightarrow> pp_ready pp' \<noteq> None"
    and "r = Wait \<longleftrightarrow> getWriter_blocks idx pp" "pp_closed pp' = pp_closed pp"
    and "pp_len pp \<le> pp_cap pp \<Longrightarrow> idx \<noteq> pp_waitIdx pp \<Longrightarrow> pp_len pp' \<le> pp_cap pp'"
proof -
  from run obtain m where "getWriter_loop B i idx sz mode data (pp\<lparr>pp_wrWaitCnt := m\<rparr>) = Ret (r, sg, pp')"
    by (auto simp: getWriter_def getWriter_wake_def split: if_splits) (metis pipePool.surjective pipePool.update_convs(8))
  then have l: "getWriter_loop B i idx sz mode data (pp\<lparr>pp_wrWaitCnt := m\<rparr>) = Ret (r, sg, pp')" .
  let ?pp = "pp\<lparr>pp_wrWaitCnt := m\<rparr>"
  have b: "getWriter_blocks idx ?pp = getWriter_blocks idx pp" by (simp add: getWriter_blocks_def)
  have "pp_cap pp' = pp_cap pp \<and> pp_waitIdx pp' = pp_waitIdx pp \<and> (pp_ready pp \<noteq> None \<longrightarrow> pp_ready pp' \<noteq> None) \<and>
    (r = Wait \<longleftrightarrow> getWriter_blocks idx pp) \<and> pp_closed pp' = pp_closed pp \<and> (pp_len pp \<le> pp_cap pp \<longrightarrow> idx \<noteq> pp_waitIdx pp \<longrightarrow> pp_len pp' \<le> pp_cap pp')"
  proof (cases "getWriter_blocks idx pp")
    case True
    with l b show ?thesis by (auto simp: getWriter_loop_def)
  next
    case False
    note nb = this
    show ?thesis
    proof (cases "pp_closed pp")
      case True
      with l b nb show ?thesis by (auto simp: getWriter_loop_def getWriter_take_def)
    next
      case False
      have ok': "pool_ok ?pp" "\<not> pp_closed ?pp" "idx \<notin> indexes ?pp" using ok False fresh by (simp_all add: pool_ok_frame)
      from getWriter_take_spec [OF ok'(1) B sz ok'(2,3), of i mode data] obtain a p1 where t:
        "getWriter_take B i idx sz mode data ?pp = Ret (Some a, [SignalRd], p1)" "pp_ready p1 \<noteq> None" "pp_cap p1 = pp_cap pp"
        "pp_waitIdx p1 = pp_waitIdx pp" "pp_closed p1 = pp_closed pp" "pp_len p1 = pp_len pp + (if ps_len (pp_free pp) = 0 then 1 else 0)" by auto
      then have "pp' = p1" "r = Done (Some a)" using l b nb by (auto simp: getWriter_loop_def)
      with t nb False show ?thesis by (auto simp: getWriter_blocks_def)
    qed
  qed
  then show "pp_cap pp' = pp_cap pp" "pp_waitIdx pp' = pp_waitIdx pp" "pp_ready pp \<noteq> None \<Longrightarrow> pp_ready pp' \<noteq> None"
    "r = Wait \<longleftrightarrow> getWriter_blocks idx pp" "pp_closed pp' = pp_closed pp" "pp_len pp \<le> pp_cap pp \<Longrightarrow> idx \<noteq> pp_waitIdx pp \<Longrightarrow> pp_len pp' \<le> pp_cap pp'" by blast+
qed

lemma getWriter_returns:
  assumes ok: "pool_ok pp" and B: "pipe_new_laws B" and sz: "0 \<le> sz" and fresh: "idx \<notin> indexes pp" and idx: "0 \<le> idx"
  shows "\<exists>r sg pp'. getWriter B i idx sz mode data pp = Ret (r, sg, pp')" "\<exists>r sg pp'. getWriter_wake B i idx sz mode data pp = Ret (r, sg, pp')"
proof -
  have l: "\<exists>r sg pp'. getWriter_loop B i idx sz mode data (pp\<lparr>pp_wrWaitCnt := m\<rparr>) = Ret (r, sg, pp')" for m
    by (rule getWriter_loop_cases [OF _ B sz, of "pp\<lparr>pp_wrWaitCnt := m\<rparr>" idx i mode data]) (use ok fresh in \<open>auto simp: pool_ok_frame\<close>)
  show "\<exists>r sg pp'. getWriter B i idx sz mode data pp = Ret (r, sg, pp')"
    using l [of "pp_wrWaitCnt pp"] idx by (simp add: getWriter_def)
  show "\<exists>r sg pp'. getWriter_wake B i idx sz mode data pp = Ret (r, sg, pp')" using l by (simp add: getWriter_wake_def)
qed

lemma getReader_loop_counts:
  assumes ok: "pool_ok pp" and run: "getReader_loop i idx sg0 pp = Ret (r, sg, pp')"
  shows "pp_cap pp' = pp_cap pp \<and> pp_len pp' = pp_len pp \<and> (pp_ready pp \<noteq> None \<longrightarrow> pp_ready pp' \<noteq> None) \<and>
    (r = Wait \<longleftrightarrow> getReader_blocks idx pp) \<and> pp_waitIdx pp' = (if idx < 0 \<or> r = Wait then pp_waitIdx pp else -1)"
proof (cases "getReader_blocks idx pp")
  case True
  with run show ?thesis by (auto simp: getReader_loop_def)
next
  case False
  with run obtain p where p: "getReader_take i idx pp = Ret (p, pp')" "r = Done p" by (auto simp: getReader_loop_def gobind_eq_Ret)
  then have "pp_cap pp' = pp_cap pp \<and> pp_len pp' = pp_len pp \<and> (pp_ready pp \<noteq> None \<longrightarrow> pp_ready pp' \<noteq> None) \<and>
      pp_waitIdx pp' = (if idx < 0 then pp_waitIdx pp else -1)"
    by (auto simp: getReader_take_def Let_def pipeSet_remove_def pipeSet_pop_def ps_delete_def gobind_eq_Ret split: if_splits option.splits prod.splits)
  with False p(2) show ?thesis by auto
qed

lemma getReader_counts:
  assumes ok: "pool_ok pp" and run: "getReader i idx pp = Ret (r, sg, pp') \<or> getReader_wake i idx pp = Ret (r, sg, pp')"
  shows "pp_cap pp' = pp_cap pp" "pp_len pp' = pp_len pp" "pp_ready pp \<noteq> None \<Longrightarrow> pp_ready pp' \<noteq> None"
    and "r = Wait \<longleftrightarrow> getReader_blocks idx pp" "idx < 0 \<Longrightarrow> pp_waitIdx pp' = pp_waitIdx pp" "0 \<le> idx \<Longrightarrow> r \<noteq> Wait \<Longrightarrow> pp_waitIdx pp' = -1"
    and "0 \<le> idx \<Longrightarrow> r = Wait \<Longrightarrow> pp_waitIdx pp' = idx \<or> pp_waitIdx pp' = pp_waitIdx pp \<and> getReader i idx pp \<noteq> Ret (r, sg, pp')"
proof -
  have "pp_cap pp' = pp_cap pp \<and> pp_len pp' = pp_len pp \<and> (pp_ready pp \<noteq> None \<longrightarrow> pp_ready pp' \<noteq> None) \<and>
    (r = Wait \<longleftrightarrow> getReader_blocks idx pp) \<and> (idx < 0 \<longrightarrow> pp_waitIdx pp' = pp_waitIdx pp) \<and> (0 \<le> idx \<longrightarrow> r \<noteq> Wait \<longrightarrow> pp_waitIdx pp' = -1) \<and>
    (0 \<le> idx \<longrightarrow> r = Wait \<longrightarrow> pp_waitIdx pp' = idx \<or> pp_waitIdx pp' = pp_waitIdx pp \<and> getReader i idx pp \<noteq> Ret (r, sg, pp'))"
  proof (cases "getReader i idx pp = Ret (r, sg, pp')")
    case True
    then have l: "getReader_loop i idx (if 0 \<le> idx then [BroadcastWr] else []) (if 0 \<le> idx then pp\<lparr>pp_waitIdx := idx\<rparr> else pp) = Ret (r, sg, pp')"
      by (auto simp: getReader_def split: if_splits)
    have "pool_ok (if 0 \<le> idx then pp\<lparr>pp_waitIdx := idx\<rparr> else pp)" using ok pool_ok_frame(4) [of idx pp] by auto
    from getReader_loop_counts [OF this l] show ?thesis by (auto simp: getReader_blocks_def split: if_splits)
  next
    case False
    with run have l: "getReader_loop i idx [] (pp\<lparr>pp_rdWaitCnt := pp_rdWaitCnt pp - 1\<rparr>) = Ret (r, sg, pp')" by (simp add: getReader_wake_def)
    have "pool_ok (pp\<lparr>pp_rdWaitCnt := pp_rdWaitCnt pp - 1\<rparr>)" using ok by (simp add: pool_ok_frame)
    from getReader_loop_counts [OF this l] False show ?thesis by (auto simp: getReader_blocks_def split: if_splits)
  qed
  then show "pp_cap pp' = pp_cap pp" "pp_len pp' = pp_len pp" "pp_ready pp \<noteq> None \<Longrightarrow> pp_ready pp' \<noteq> None"
    "r = Wait \<longleftrightarrow> getReader_blocks idx pp" "idx < 0 \<Longrightarrow> pp_waitIdx pp' = pp_waitIdx pp" "0 \<le> idx \<Longrightarrow> r \<noteq> Wait \<Longrightarrow> pp_waitIdx pp' = -1"
    "0 \<le> idx \<Longrightarrow> r = Wait \<Longrightarrow> pp_waitIdx pp' = idx \<or> pp_waitIdx pp' = pp_waitIdx pp \<and> getReader i idx pp \<noteq> Ret (r, sg, pp')"
    by blast+
qed

lemma getReader_returns:
  assumes ok: "pool_ok pp"
  shows "idx < 0 \<or> pp_waitIdx pp < 0 \<Longrightarrow> \<exists>r sg pp'. getReader i idx pp = Ret (r, sg, pp')" "\<exists>r sg pp'. getReader_wake i idx pp = Ret (r, sg, pp')"
proof -
  have l: "\<exists>r sg pp'. getReader_loop i idx sg0 pp1 = Ret (r, sg, pp')" if "pool_ok pp1" for sg0 pp1
    by (rule getReader_loop_cases [OF that, of idx i sg0]) auto
  have ok': "0 \<le> idx \<Longrightarrow> pool_ok (pp\<lparr>pp_waitIdx := idx\<rparr>)" "pool_ok (pp\<lparr>pp_rdWaitCnt := n\<rparr>)" for n
    using ok pool_ok_frame(4) [of idx pp] by (simp_all add: pool_ok_frame)
  show "idx < 0 \<or> pp_waitIdx pp < 0 \<Longrightarrow> \<exists>r sg pp'. getReader i idx pp = Ret (r, sg, pp')"
    using l [OF ok] l [OF ok'(1)] by (auto simp: getReader_def)
  show "\<exists>r sg pp'. getReader_wake i idx pp = Ret (r, sg, pp')" using l [OF ok'(2)] by (simp add: getReader_wake_def)
qed

lemma getReader_closed:
  assumes "pool_ok pp" and "getReader i idx pp = Ret (r, sg, pp') \<or> getReader_wake i idx pp = Ret (r, sg, pp')"
  shows "pp_closed pp' = pp_closed pp"
  by (cases rule: getReader_run [OF assms]) (simp_all add: pool_same_def pool_like_def)

lemma restore_counts:
  assumes ok: "pool_ok pp" and act: "(k, a) \<in> active_set pp" and run: "restore B (Some a) pp = Ret (x, sg, pp')"
  shows "pp_cap pp' = pp_cap pp" "pp_waitIdx pp' = pp_waitIdx pp" "pp_len pp' \<le> pp_len pp" "pp_ready pp' = pp_ready pp" "x = Done ()"
proof -
  from restore_spec [OF ok act, of B] run have "pp_waitIdx pp' = pp_waitIdx pp \<and> pp_len pp' \<le> pp_len pp \<and> pp_ready pp' = pp_ready pp \<and> x = Done ()"
    by (auto split: if_splits)
  moreover have "pp_cap pp' = pp_cap pp"
    using run by (auto simp: restore_def pipeSet_push_def Let_def gobind_eq_Ret split: prod.splits if_splits)
  ultimately show "pp_cap pp' = pp_cap pp" "pp_waitIdx pp' = pp_waitIdx pp" "pp_len pp' \<le> pp_len pp" "pp_ready pp' = pp_ready pp" "x = Done ()" by blast+
qed

lemma put_counts [simp]:
  "pp_cap (put_pipe a p pp) = pp_cap pp" "pp_len (put_pipe a p pp) = pp_len pp" "pp_cap (put_data a d pp) = pp_cap pp" "pp_len (put_data a d pp) = pp_len pp"
  by (simp_all add: put_pipe_def put_data_def)

section \<open>The invariant\<close>

text \<open>The index the delivering routine is parked for.\<close>

definition dwait :: "deliverer \<Rightarrow> int" where
  "dwait d = (case d of TGetP k \<Rightarrow> k | _ \<Rightarrow> -1)"

lemma dwait_simps [simp]:
  "dwait (TGet k) = -1" "dwait (TGetP k) = k" "dwait (TOut b k) = -1" "dwait (TIdx b k e) = -1" "dwait (TRest b k e e') = -1"
  "dwait (TLast k) = -1" "dwait (TLastP k) = -1" "dwait (TSend e) = -1"
  by (simp_all add: dwait_def)

fun in_caps :: "chore list \<Rightarrow> int list" where
  "in_caps [] = []"
| "in_caps (CapIn c # cs) = c # in_caps cs"
| "in_caps (_ # cs) = in_caps cs"

text \<open>
  Inputs are taken by any worker, so nobody waits for one index of the input pool; it never has more
  pipes than its capacity, and there will be as many workers.
\<close>

definition live :: "('z, 'x, 'p, 'w) asys \<Rightarrow> bool" where
  "live s \<longleftrightarrow> pp_ready (ay_in s) \<noteq> None \<and> pp_len (ay_in s) \<le> pp_cap (ay_in s) \<and> pp_waitIdx (ay_in s) = -1 \<and>
     pp_waitIdx (ay_out s) = dwait (ay_deliverer s) \<and> (ay_ended s \<longrightarrow> pp_closed (ay_out s)) \<and>
     sorted (pp_cap (ay_in s) # in_caps (ay_monitor s)) \<and>
     last (int (length (ay_workers s)) # cap_chores (ay_monitor s)) = last (pp_cap (ay_in s) # in_caps (ay_monitor s)) \<and>
     1 \<le> last (pp_cap (ay_in s) # in_caps (ay_monitor s))"

lemma liveD:
  assumes "live s"
  shows "pp_ready (ay_in s) \<noteq> None" "pp_len (ay_in s) \<le> pp_cap (ay_in s)" "pp_waitIdx (ay_in s) = -1"
    "pp_waitIdx (ay_out s) = dwait (ay_deliverer s)" "ay_ended s \<Longrightarrow> pp_closed (ay_out s)"
  using assms by (simp_all add: live_def)

text \<open>What it depends on.\<close>

definition vital :: "('z, 'x, 'p, 'w) asys \<Rightarrow>
    chore list \<times> nat \<times> bool \<times> bool \<times> int \<times> int \<times> int \<times> int \<times> bool \<times> deliverer" where
  "vital s = (ay_monitor s, length (ay_workers s), ay_ended s, pp_ready (ay_in s) = None, pp_len (ay_in s), pp_cap (ay_in s),
     pp_waitIdx (ay_in s), pp_waitIdx (ay_out s), pp_closed (ay_out s), ay_deliverer s)"

lemma live_vital: "vital s' = vital s \<Longrightarrow> live s' = live s"
  by (simp add: live_def vital_def)

lemma vital_set [simp]: "vital (set_worker t k s) = vital s"
  by (simp add: vital_def set_worker_def)

lemma vital_put [simp]:
  "vital (s\<lparr>ay_out := put_pipe b p (ay_out s), ay_in := put_pipe a q (ay_in s)\<rparr>) = vital s" "vital (s\<lparr>ay_in := put_pipe a q (ay_in s)\<rparr>) = vital s"
  "vital (s\<lparr>ay_out := put_pipe b p (ay_out s)\<rparr>) = vital s" "vital (s\<lparr>ay_out := put_data b d (ay_out s)\<rparr>) = vital s"
  by (simp_all add: vital_def)

lemma worker_encode_vital:
  assumes "worker_encode E t a b m f s = Some (Ret s')" and "\<And>x s. vital (f x s) = vital s"
  shows "vital s' = vital s"
  using assms by (auto simp: worker_encode_def Let_def split: option.splits go.splits sum.splits prod.splits)

lemma live_in:
  assumes "live s" and "pp_ready pin \<noteq> None" "pp_len pin \<le> pp_cap pin" "pp_cap pin = pp_cap (ay_in s)" "pp_waitIdx pin = -1"
  shows "live (s\<lparr>ay_in := pin\<rparr>)"
  using assms by (simp add: live_def)

lemma live_out:
  assumes "live s" and "pp_waitIdx pout = dwait d" "pp_closed pout = pp_closed (ay_out s)"
  shows "live (s\<lparr>ay_out := pout, ay_deliverer := d\<rparr>)"
  using assms by (simp add: live_def)

lemma live_start:
  assumes "1 \<le> cpus" and "w_maxWorkers w = clamp_workers workers" and "workers \<noteq> WorkersSync"
    and "w_inPool w = Some newPipePool" "w_outPool w = Some newPipePool"
  shows "live (async_start cpus w)"
proof -
  let ?c = "if w_maxWorkers w = WorkersMax then cpus else w_maxWorkers w"
  have "1 \<le> ?c" using assms by (auto simp: clamp_workers_def xz_workers)
  then show ?thesis
    using assms(4,5) by (auto simp: live_def async_start_def monitor_chores_def capacities_def newPipePool_def)
qed

section \<open>The steps keep it\<close>

lemma fresh_in:
  assumes "shape w0 s"
  shows "w_idx (ay_w s) \<notin> indexes (ay_in s)" "0 \<le> w_idx (ay_w s)"
  using shapeD(5,7) [OF assms] by (auto simp: placed_def)

lemma fresh_out:
  assumes S: "shape w0 s" and t: "t < length (ay_workers s)" "kpend (ay_workers s ! t) = Some a"
  shows "pi_idx (pp_heap (ay_in s) ! a) \<notin> indexes (ay_out s)" "0 \<le> pi_idx (pp_heap (ay_in s) ! a)"
proof -
  note Sd = shapeD [OF S]
  let ?i = "pi_idx (pp_heap (ay_in s) ! a)"
  have "?i \<in> unstarted (ay_workers s) (ay_in s)" using t by (auto simp: unstarted_def pends_def)
  moreover have "?i \<in> indexes (ay_in s)"
    using workers_holdD(1) [OF Sd(6) t(1) kinds(1) [OF t(2)]] pool_cells(1) [OF Sd(3)] by blast
  ultimately show "?i \<notin> indexes (ay_out s)" "0 \<le> ?i" using Sd(7) by (auto simp: placed_def)
qed

lemma live_worker:
  assumes S: "shape w0 s" and V: "live s" and B: "pipe_new_laws B" and w0: "sized w0"
    and t: "t < length (ay_workers s)" and run: "worker_step E B A L i t s = Some (Ret s')"
  shows "live s'"
proof -
  note Sd = shapeD [OF S] and Vd = liveD [OF V]
  have sz: "0 \<le> w_outSize (ay_w s)" using w0 Sd(2) by (simp add: sized_def async_conf_def)
  have got: "live s'" if g: "getReader i (-1) (ay_in s) = Ret (r, sg, pp) \<or> getReader_wake i (-1) (ay_in s) = Ret (r, sg, pp)"
    and s': "s' = worker_got t r pp s" for r sg pp
  proof -
    note c = getReader_counts [OF Sd(3) g]
    have "live (s\<lparr>ay_in := pp\<rparr>)" by (rule live_in [OF V]) (use c Vd in simp_all)
    then show ?thesis using live_vital [of s' "s\<lparr>ay_in := pp\<rparr>"] s' by (simp add: worker_got_def)
  qed
  have out: "live s'" if k: "kpend (ay_workers s ! t) = Some a" and s': "s' = worker_out t a r pp s"
    and g: "getWriter B i (pi_idx (pp_heap (ay_in s) ! a)) (w_outSize (ay_w s)) m d (ay_out s) = Ret (r, sg, pp) \<or>
      getWriter_wake B i (pi_idx (pp_heap (ay_in s) ! a)) (w_outSize (ay_w s)) m d (ay_out s) = Ret (r, sg, pp)" for a r sg pp m d
  proof -
    note c = getWriter_counts [OF Sd(4) B sz fresh_out(1) [OF S t k] g]
    have "live (s\<lparr>ay_out := pp, ay_deliverer := ay_deliverer s\<rparr>)" by (rule live_out [OF V]) (use c Vd in simp_all)
    then show ?thesis using live_vital [of s' "s\<lparr>ay_out := pp\<rparr>"] s' by (simp add: worker_out_def)
  qed
  show ?thesis
  proof (cases "ay_workers s ! t")
    case KGet
    with run obtain r0 sg pp where "iterReader i (ay_in s) = Ret (r0, sg, pp)" "s' = worker_got t (case r0 of Wait \<Rightarrow> Wait | Done (p, _) \<Rightarrow> Done p) pp s"
      by (auto simp: worker_step_def Let_def gobind_eq_Ret)
    moreover from this obtain r where "getReader i (-1) (ay_in s) = Ret (r, sg, pp)" "r0 = (case r of Wait \<Rightarrow> Wait | Done p \<Rightarrow> Done (p, p \<noteq> None))"
      by (auto simp: iterReader_def gobind_eq_Ret)
    ultimately show ?thesis using got [of r sg pp] by (cases r) simp_all
  next
    case KGetP
    with run got show ?thesis by (auto simp: worker_step_def Let_def gobind_eq_Ret)
  next
    case (KOut a)
    with run obtain r sg pp where "getWriter B i (pi_idx (pp_heap (ay_in s) ! a)) (w_outSize (ay_w s)) (the (w_outMode (ay_w s)))
        (Some \<lparr>ss_unpadSize = 0, ss_uncompSize = 0\<rparr>) (ay_out s) = Ret (r, sg, pp)" "s' = worker_out t a r pp s"
      by (auto simp: worker_step_def Let_def gobind_eq_Ret)
    with out [of a r pp] KOut show ?thesis by auto
  next
    case (KOutP a)
    with run obtain r sg pp where "getWriter_wake B i (pi_idx (pp_heap (ay_in s) ! a)) (w_outSize (ay_w s)) (the (w_outMode (ay_w s)))
        (Some \<lparr>ss_unpadSize = 0, ss_uncompSize = 0\<rparr>) (ay_out s) = Ret (r, sg, pp)" "s' = worker_out t a r pp s"
      by (auto simp: worker_step_def Let_def gobind_eq_Ret)
    with out [of a r pp] KOutP show ?thesis by auto
  next
    case (KEnc a b)
    with run have "worker_encode E t a b (blockEncode_open E B L (ay_w s)) (\<lambda>(block, headerSize, z). set_worker t (KRun a b block headerSize z)) s = Some (Ret s')"
      by (simp add: worker_step_def Let_def)
    from worker_encode_vital [OF this] show ?thesis using live_vital [of s' s] V by (simp split: prod.split)
  next
    case (KRun a b block headerSize z)
    with run have s': "s' = worker_round B L t a b block headerSize z s" by (simp add: worker_step_def Let_def split: if_splits)
    have "vital s' = vital s" unfolding s' worker_round_def by (simp split: prod.split)
    with live_vital [of s' s] V show ?thesis by simp
  next
    case (KFin a b block headerSize z err)
    with run have "worker_encode E t a b (blockEncode_rest E B L (ay_w s) block headerSize z err) (\<lambda>(unpadSize, uncompSize) s. set_worker t (KClose a b None)
            (s\<lparr>ay_out := put_data b (Some \<lparr>ss_unpadSize = unpadSize, ss_uncompSize = uncompSize\<rparr>) (ay_out s)\<rparr>)) s = Some (Ret s')"
      by (simp add: worker_step_def Let_def)
    from worker_encode_vital [OF this] show ?thesis using live_vital [of s' s] V by (simp split: prod.split)
  next
    case (KClose a b err)
    with run have "vital s' = vital s" by (auto simp: worker_step_def Let_def)
    with live_vital [of s' s] V show ?thesis by simp
  next
    case (KRest a)
    with run obtain x sg pp where r: "restore B (Some a) (ay_in s) = Ret (x, sg, pp)" "s' = set_worker t KSel (s\<lparr>ay_in := pp\<rparr>)"
      by (auto simp: worker_step_def Let_def gobind_eq_Ret)
    have "(pi_idx (pp_heap (ay_in s) ! a), a) \<in> active_set (ay_in s)" using workers_holdD(1) [OF Sd(6) t] KRest by simp
    note c = restore_counts [OF Sd(3) this r(1)]
    have "live (s\<lparr>ay_in := pp\<rparr>)" by (rule live_in [OF V]) (use c Vd in simp_all)
    then show ?thesis using live_vital [of s' "s\<lparr>ay_in := pp\<rparr>"] r(2) by simp
  next
    case KSel
    with run have "vital s' = vital s" by (auto simp: worker_step_def Let_def)
    with live_vital [of s' s] V show ?thesis by simp
  next
    case KEnd
    with run show ?thesis by (simp add: worker_step_def Let_def)
  qed
qed

lemma live_monitor:
  assumes S: "shape w0 s" and V: "live s" and run: "monitor_step B s = Some (Ret s')"
  shows "live s'"
proof -
  note Sd = shapeD [OF S] and Vd = liveD [OF V]
  from Sd(10) obtain caps where caps: "ay_monitor s = caps @ [AwaitDone, TermWork, TermOut, TermIn]" "\<forall>c \<in> set caps. is_cap c"
    "sorted (int (length (ay_workers s)) # cap_chores caps)"
    and wk: "workers_ok (ay_work s)" "\<not> wk_closed (ay_work s)" "wk_killed (ay_work s) = {}" "wk_spawned (ay_work s) = length (ay_workers s)"
    by (auto simp: monitors_def)
  have "caps \<noteq> []" using run caps(1) Sd(1) by (auto simp: monitor_step_def quiet_def)
  then obtain c rest where c: "caps = c # rest" by (cases caps) auto
  show ?thesis
  proof (cases c)
    case (CapIn n)
    with run caps(1) c V show ?thesis by (auto simp: monitor_step_def setCapacity_def live_def)
  next
    case (CapOut n)
    with run caps(1) c V show ?thesis by (auto simp: monitor_step_def setCapacity_def live_def)
  next
    case (CapWork n)
    from run caps(1) c CapWork obtain wp where wp: "worker_setCapacity n (ay_work s) = Ret wp"
      and s': "s' = s\<lparr>ay_monitor := rest @ [AwaitDone, TermWork, TermOut, TermIn], ay_work := wp,
        ay_workers := ay_workers s @ replicate (wk_spawned wp - wk_spawned (ay_work s)) KGet\<rparr>"
      by (auto simp: monitor_step_def gobind_eq_Ret)
    have n: "int (length (ay_workers s)) \<le> n" using caps(3) c CapWork by simp
    from worker_grow [OF wk(1-3) _ wp] wk(4) n have "int (wk_spawned wp) = n" by simp
    then have "int (length (ay_workers s')) = n" using wk(4) n by (simp add: s')
    moreover have "cap_chores (ay_monitor s) = n # cap_chores (ay_monitor s')" "in_caps (ay_monitor s) = in_caps (ay_monitor s')"
      using caps(1) c CapWork by (simp_all add: s')
    ultimately show ?thesis using V by (simp add: live_def s')
  qed (use caps(2) c in \<open>simp_all add: is_cap_def\<close>)
qed

lemma live_ended: "live s \<Longrightarrow> ended_step s = Some (Ret s') \<Longrightarrow> live s'"
  by (auto simp: ended_step_def pool_close_def live_def split: if_splits)

lemma live_deliver:
  assumes S: "shape w0 s" and V: "live s" and run: "deliver_step E B A L wr i s = Some (Ret s')" and h: "healthy (ay_deliverer s')"
  shows "live s'"
proof -
  note Sd = shapeD [OF S] and Vd = liveD [OF V]
  have pos: "0 \<le> dpos (ay_deliverer s)" using Sd(8) by (simp add: delivers_def)
  have got: "live (deliver_got k r pp s)" if d: "ay_deliverer s = TGet k \<or> ay_deliverer s = TGetP k"
    and g: "ay_deliverer s = TGet k \<Longrightarrow> getReader i k (ay_out s) = Ret (r, sg, pp)" "ay_deliverer s = TGetP k \<Longrightarrow> getReader_wake i k (ay_out s) = Ret (r, sg, pp)" for k r sg pp
  proof -
    have k: "0 \<le> k" using pos d by auto
    have "getReader i k (ay_out s) = Ret (r, sg, pp) \<or> getReader_wake i k (ay_out s) = Ret (r, sg, pp)" using d g by blast
    note c = getReader_counts [OF Sd(4) this] and cl = getReader_closed [OF Sd(4) this]
    have "pp_waitIdx pp = (if r = Wait then k else -1)"
      using c(6) [OF k] c(7) [OF k] d g(1) Vd(4) by (cases "ay_deliverer s = TGet k") auto
    then show ?thesis
      using live_out [OF V, of pp "case r of Wait \<Rightarrow> TGetP k | Done None \<Rightarrow> TLast (k + 1) | Done (Some b) \<Rightarrow> TOut b (k + 1)"] cl
      by (auto simp: deliver_got_def split: attempt.split option.split)
  qed
  have last: "live s'" if g: "getReader i (-1) (ay_out s) = Ret (r, sg, pp) \<or> getReader_wake i (-1) (ay_out s) = Ret (r, sg, pp)"
    and l: "deliver_last E k r pp s = Ret s'" and d: "dlast (ay_deliverer s)" for k r sg pp
  proof -
    note c = getReader_counts [OF Sd(4) g] and cl = getReader_closed [OF Sd(4) g]
    have "dwait (ay_deliverer s) = -1" using d by (cases "ay_deliverer s") simp_all
    then have "live (s\<lparr>ay_out := pp, ay_deliverer := TLastP k\<rparr>)" using live_out [OF V, of pp "TLastP k"] c(5) cl Vd(4) by simp
    moreover have "s' = s\<lparr>ay_out := pp, ay_deliverer := TLastP k\<rparr>"
      using l h by (cases r) (auto simp: deliver_last_def deliver_recover_def split: go.splits sum.splits)
    ultimately show ?thesis by simp
  qed
  show ?thesis
  proof (cases "ay_deliverer s")
    case (TGet k)
    with run obtain r0 sg pp where g: "iterReaderIdx i k (ay_out s) = Ret (r0, sg, pp)"
      "s' = deliver_got k (case r0 of Wait \<Rightarrow> Wait | Done (p, _, _) \<Rightarrow> Done p) pp s"
      by (auto simp: deliver_step_def Let_def gobind_eq_Ret)
    then obtain r where "getReader i k (ay_out s) = Ret (r, sg, pp)" "r0 = (case r of Wait \<Rightarrow> Wait | Done p \<Rightarrow> Done (p, k + 1, p \<noteq> None))"
      by (auto simp: iterReaderIdx_def gobind_eq_Ret)
    with got [of k r sg pp] TGet g(2) show ?thesis by (cases r) simp_all
  next
    case (TGetP k)
    with run obtain r sg pp where "getReader_wake i k (ay_out s) = Ret (r, sg, pp)" "s' = deliver_got k r pp s"
      by (auto simp: deliver_step_def Let_def gobind_eq_Ret)
    with got [of k r sg pp] TGetP show ?thesis by simp
  next
    case (TOut b k)
    with run obtain p v e where "s' = s\<lparr>ay_out := put_pipe b p (ay_out s), ay_w := v, ay_deliverer := TIdx b k e\<rparr>"
      by (auto simp: deliver_step_def Let_def split: if_splits prod.splits)
    with V TOut show ?thesis by (simp add: live_def)
  next
    case (TIdx b k x)
    with run obtain v e where "s' = s\<lparr>ay_w := v, ay_deliverer := TRest b k x e\<rparr>"
    proof -
      have s: "s = s\<lparr>ay_w := ay_w s\<rparr>" by simp
      show thesis
        using run TIdx s that by (auto simp: deliver_step_def Let_def split: option.splits if_splits prod.splits) (metis s that)+
    qed
    with V TIdx show ?thesis by (simp add: live_def)
  next
    case (TRest b k x y)
    with run obtain z sg pp where r: "restore B (Some b) (ay_out s) = Ret (z, sg, pp)" "deliver_recover E (TGet k) (errs_Panic E (errs_First E [x, y])) (s\<lparr>ay_out := pp\<rparr>) = Ret s'"
      by (auto simp: deliver_step_def Let_def gobind_eq_Ret)
    then have s': "s' = s\<lparr>ay_out := pp, ay_deliverer := TGet k\<rparr>" using h by (auto simp: deliver_recover_def split: go.splits sum.splits)
    have act: "(k - 1, b) \<in> active_set (ay_out s)" using Sd(8) TRest by (simp add: delivers_def)
    obtain sg' pp' where d: "restore B (Some b) (ay_out s) = Ret (Done (), sg', pp')" "pp_closed pp' = pp_closed (ay_out s)"
      using restore_data [OF Sd(4) act, of B] by metis
    from live_out [OF V, of pp "TGet k"] restore_counts [OF Sd(4) act r(1)] r(1) d TRest Vd(4) show ?thesis by (simp add: s')
  next
    case (TLast k)
    with run obtain r sg pp where "getReader i (-1) (ay_out s) = Ret (r, sg, pp)" "deliver_last E k r pp s = Ret s'"
      by (auto simp: deliver_step_def Let_def gobind_eq_Ret)
    with last [of r sg pp k] TLast show ?thesis by simp
  next
    case (TLastP k)
    with run obtain r sg pp where "getReader_wake i (-1) (ay_out s) = Ret (r, sg, pp)" "deliver_last E k r pp s = Ret s'"
      by (auto simp: deliver_step_def Let_def gobind_eq_Ret)
    with last [of r sg pp k] TLastP show ?thesis by simp
  qed (use Sd(8) in \<open>simp_all add: delivers_def\<close>)
qed

lemma client_vital:
  "vital (client_leave data cnt s) = vital s" "vital (client_return data cnt err s) = vital s" "vital (s\<lparr>ay_client := c\<rparr>) = vital s"
  "vital (s\<lparr>ay_w := w\<rparr>) = vital s" "vital (s\<lparr>ay_log := l\<rparr>) = vital s"
  by (simp_all add: vital_def client_leave_def client_return_def)

lemma live_client:
  assumes S: "shape w0 s" and V: "live s" and errs: "errs_ok E" and B: "pipe_new_laws B" and w0: "0 \<le> w_chunkSize w0"
    and run: "client_step E B L wr i s = Some (Ret s')"
  shows "live s'"
proof -
  note Sd = shapeD [OF S] and Vd = liveD [OF V]
  have sz: "0 \<le> w_inSize (ay_w s)" using w0 Sd(2) by (simp add: async_conf_def)
  note wait = checkErr_waits [OF Sd(1) errs]
  have got: "live (client_got data cnt r pp s)"
    if g: "getWriter B i (w_idx (ay_w s)) (w_inSize (ay_w s)) m None (ay_in s) = Ret (r, sg, pp) \<or>
      getWriter_wake B i (w_idx (ay_w s)) (w_inSize (ay_w s)) m None (ay_in s) = Ret (r, sg, pp)" for data cnt r sg pp m
  proof -
    note c = getWriter_counts [OF Sd(3) B sz fresh_in(1) [OF S] g]
    have "live (s\<lparr>ay_in := pp\<rparr>)" by (rule live_in [OF V]) (use c Vd fresh_in(2) [OF S] in simp_all)
    moreover have "vital (client_got data cnt r pp s) = vital (s\<lparr>ay_in := pp\<rparr>)"
      by (cases r) (auto simp: client_got_def client_leave_def client_return_def vital_def Let_def split: option.split)
    ultimately show ?thesis using live_vital by metis
  qed
  have put: "live s'" if p: "client_put B data cnt a s = Ret s'" for data cnt a
  proof -
    from p obtain rest where r: "slice_from data cnt = Ret rest" by (auto simp: client_put_def gobind_eq_Ret)
    obtain k err p where "bp_Write B (in_pipe s a) rest = ((k, err), p)" by (metis prod.collapse)
    then have "vital s' = vital s" using p r
      by (auto simp: client_put_def client_leave_def client_return_def vital_def Let_def split: if_splits)
    then show ?thesis using live_vital V by metis
  qed
  show ?thesis
  proof (cases "ay_client s")
    case CIdle
    with run show ?thesis by (simp add: client_step_def Let_def)
  next
    case (CWrite data cnt)
    show ?thesis
    proof (cases "cnt < int (length data)")
      case False
      with run CWrite have "s' = client_leave data cnt s" by (simp add: client_step_def Let_def)
      then have "vital s' = vital s" by (simp add: client_vital)
      then show ?thesis using live_vital V by metis
    next
      case True
      show ?thesis
      proof (cases "w_pipe (ay_w s)")
        case None
        with run CWrite True obtain r sg pp where
          "getWriter B i (w_idx (ay_w s)) (w_inSize (ay_w s)) (the (w_inMode (ay_w s))) None (ay_in s) = Ret (r, sg, pp)" "s' = client_got data cnt r pp s"
          by (auto simp: client_step_def Let_def gobind_eq_Ret)
        with got show ?thesis by blast
      next
        case (Some a)
        with run CWrite True put show ?thesis by (simp add: client_step_def Let_def)
      qed
    qed
  next
    case (CPark data cnt)
    with run obtain r sg pp where
      "getWriter_wake B i (w_idx (ay_w s)) (w_inSize (ay_w s)) (the (w_inMode (ay_w s))) None (ay_in s) = Ret (r, sg, pp)" "s' = client_got data cnt r pp s"
      by (auto simp: client_step_def Let_def gobind_eq_Ret)
    with got show ?thesis by blast
  next
    case (CFail data cnt)
    with run wait show ?thesis by (simp add: client_step_def Let_def arecover_def abind_def)
  next
    case CClose
    with run wait show ?thesis by (simp add: client_step_def Let_def close_rest_def arecover_def adefer_def abind_def)
  qed
qed

lemma live_calls:
  assumes "live s"
  shows "live (call_Write data s)" "live (call_Close B s)"
proof -
  have "vital (call_Write data s) = vital s" by (simp add: call_Write_def client_vital)
  then show "live (call_Write data s)" using live_vital assms by metis
  have "vital (call_Close B s) = vital s"
    by (simp add: call_Close_def vital_def pool_close_def put_pipe_def Let_def split: option.split)
  then show "live (call_Close B s)" using live_vital assms by metis
qed

end
