(* ===== verification/Xz_Async_Safe.thy ===== *)
theory Xz_Async_Safe
  imports Xz_Async_Live
begin

text \<open>
  As long as neither liblzma nor the underlying writer fails, no routine of the parallel writer panics,
  in any order of steps.
\<close>

section \<open>Results without a panic\<close>

definition safe :: "('z, 'x, 'p, 'w) astep \<Rightarrow> bool" where
  "safe m \<longleftrightarrow> (\<forall>p. m \<noteq> Some (Pan p))"

lemma safe_simps [simp]: "safe None" "safe (Some (Ret s))" "\<not> safe (Some (Pan p))"
  by (simp_all add: safe_def)

lemma safe_bind: "m = Ret x \<Longrightarrow> safe (Some (f x)) \<Longrightarrow> safe (Some (gobind m f))"
  by simp

lemma worker_setCapacity_ok:
  assumes "workers_ok wp" and "0 \<le> cnt"
  shows "\<exists>wp'. worker_setCapacity cnt wp = Ret wp' \<and> workers_ok wp'"
proof (cases "wk_closed wp")
  case False
  have "cnt \<le> int (length (wk_workers (worker_spawn cnt wp)))" using worker_spawn_spec [OF assms(1), of cnt] by simp
  with worker_kill_spec [OF _ assms(2), of "worker_spawn cnt wp"] worker_spawn_spec [OF assms(1), of cnt] False
  show ?thesis by (auto simp: worker_setCapacity_def)
qed (use assms in \<open>simp add: worker_setCapacity_def\<close>)

lemma worker_terminate_ok:
  assumes "workers_ok wp"
  shows "\<exists>wp'. worker_terminate wp = Ret wp' \<and> workers_ok wp'"
  using assms close_all_spec [of "wk_workers wp" "wp\<lparr>wk_closed := True\<rparr>"]
  by (auto simp: worker_terminate_def Let_def workers_ok_def)

section \<open>The workers\<close>

lemma worker_encode_safe:
  assumes "outcome (m (out_pipe s b, in_pipe s a)) Q R" and "errs_ok E"
  shows "safe (worker_encode E t a b m f s)"
  using assms by (cases rule: outcome_cases) (auto simp: worker_encode_def errs_okD(5) [OF assms(2)] split: prod.split)

lemma worker_safe:
  fixes s :: "('z, 'x, 'p, 'w) asys"
  assumes env: "async_env E B A L lin er pr pf w0 n" and S: "shape w0 s" and C: "content E L lin got n w0 cs s" and V: "live s"
    and ok: "\<not> lib_fail L" and t: "t < length (ay_workers s)"
  shows "safe (worker_step E B A L i t s)"
proof -
  note e = async_envD [OF env] and Sd = shapeD [OF S]
  have sz: "0 \<le> w_outSize (ay_w s)" using async_sized [OF env] Sd(2) by (simp add: sized_def async_conf_def)
  show ?thesis
  proof (cases "ay_workers s ! t")
    case KGet
    with getReader_returns(1) [OF Sd(3), of "-1" i] show ?thesis by (auto simp: worker_step_def Let_def iterReader_def)
  next
    case KGetP
    with getReader_returns(2) [OF Sd(3), of i "-1"] show ?thesis by (auto simp: worker_step_def Let_def)
  next
    case (KOut a)
    then have k: "kpend (ay_workers s ! t) = Some a" by simp
    from getWriter_returns(1) [OF Sd(4) e(2) sz fresh_out [OF S t k], of i "the (w_outMode (ay_w s))" "Some \<lparr>ss_unpadSize = 0, ss_uncompSize = 0\<rparr>"] KOut
    show ?thesis by (auto simp: worker_step_def Let_def)
  next
    case (KOutP a)
    then have k: "kpend (ay_workers s ! t) = Some a" by simp
    from getWriter_returns(2) [OF Sd(4) e(2) sz fresh_out [OF S t k], of i "the (w_outMode (ay_w s))" "Some \<lparr>ss_unpadSize = 0, ss_uncompSize = 0\<rparr>"] KOutP
    show ?thesis by (auto simp: worker_step_def Let_def)
  next
    case (KEnc a b)
    have d: "in_chunk lin n cs s a 0" "holds_block lin (nat (w_maxSize w0)) (out_pipe s b) []" using contentD(5) [OF C t] KEnc by simp_all
    then have "lin (in_pipe s a) \<noteq> None" by (auto simp: in_chunk_def chunk_pipe_def)
    note spec = blockEncode_open_spec [OF e(1,4) d(2) this]
    have "safe (worker_encode E t a b (blockEncode_open E B L w0) f s)" for f :: "_ \<Rightarrow> ('z, 'x, 'p, 'w) asys \<Rightarrow> _"
      by (rule worker_encode_safe [where m = "blockEncode_open E B L w0", OF spec e(7)])
    then show ?thesis using KEnc by (simp add: worker_step_def Let_def encode_conf [OF Sd(2)])
  next
    case (KFin a b block headerSize z err)
    have "\<not> code_error L RUN c err" for c using lib_failI(3) [of L c err] ok by blast
    then obtain inp l where inp: "encoding L lin w0 (out_pipe s b) block headerSize (st_coder z) inp"
      "chunk_pipe lin n (cs ! widx s a) (w_pipe (ay_w s) = Some a) l (in_pipe s a)" "err = Some EOF \<and> inp = cs ! widx s a"
      using contentD(5) [OF C t] KFin by (auto simp: in_chunk_def)
    obtain c0 hs hole out where o: "opened L w0 block headerSize c0 hs" "coder_run L RUN c0 inp out (st_coder z)" "length hole = hs"
      "holds_block lin (nat (w_maxSize w0)) (out_pipe s b) (hole @ out)" using inp(1) by (auto simp: encoding_def)
    note spec = blockEncode_rest_spec [OF e(1,4) o(1,2,4,3) chunk_holds [OF inp(2)] disjI1 [OF inp(3)]]
    have "safe (worker_encode E t a b (blockEncode_rest E B L w0 block headerSize z err) f s)" for f :: "_ \<Rightarrow> ('z, 'x, 'p, 'w) asys \<Rightarrow> _"
      by (rule worker_encode_safe [where m = "blockEncode_rest E B L w0 block headerSize z err", OF spec e(7)])
    then show ?thesis using KFin by (simp add: worker_step_def Let_def encode_conf [OF Sd(2)])
  next
    case (KRest a)
    then have "(pi_idx (pp_heap (ay_in s) ! a), a) \<in> active_set (ay_in s)" using workers_holdD(1) [OF Sd(6) t] by simp
    from restore_data [OF Sd(3) this, of B] obtain x sg pp where "restore B (Some a) (ay_in s) = Ret (x, sg, pp)" by metis
    with KRest show ?thesis by (simp add: worker_step_def Let_def)
  qed (simp_all add: worker_step_def Let_def)
qed

section \<open>The caller, the delivering routine and the monitor\<close>

lemma client_safe:
  assumes env: "async_env E B A L lin er pr pf w0 n" and S: "shape w0 s" and C: "content E L lin got n w0 cs s"
  shows "safe (client_step E B L wr i s)"
proof -
  note e = async_envD [OF env] and Sd = shapeD [OF S]
  have sz: "0 \<le> w_inSize (ay_w s)" using async_sized [OF env] Sd(2) by (simp add: sized_def async_conf_def)
  note wait = checkErr_waits [OF Sd(1) e(7)]
  show ?thesis
  proof (cases "ay_client s")
    case (CWrite data cnt)
    have cnt: "0 \<le> cnt" using contentD(2) [OF C] CWrite by (simp add: client_chunks_def)
    show ?thesis
    proof (cases "w_pipe (ay_w s)")
      case None
      with getWriter_returns(1) [OF Sd(3) e(2) sz fresh_in [OF S], of i "the (w_inMode (ay_w s))" None] CWrite
      show ?thesis by (auto simp: client_step_def Let_def)
    next
      case (Some a)
      with cnt CWrite show ?thesis
        by (auto simp: client_step_def client_put_def slice_from_def Let_def split: prod.split)
    qed
  next
    case (CPark data cnt)
    with getWriter_returns(2) [OF Sd(3) e(2) sz fresh_in [OF S], of i "the (w_inMode (ay_w s))" None]
    show ?thesis by (auto simp: client_step_def Let_def)
  next
    case (CFail data cnt)
    with wait show ?thesis by (simp add: client_step_def Let_def arecover_def abind_def)
  next
    case CClose
    with wait show ?thesis by (simp add: client_step_def Let_def close_rest_def arecover_def adefer_def abind_def)
  qed (simp add: client_step_def Let_def)
qed

lemma deliver_recover_safe:
  "errs_ok E \<Longrightarrow> safe (Some (deliver_recover E d (errs_Panic E x) s))" "errs_ok E \<Longrightarrow> safe (Some (deliver_recover E d (errs_Assert E c y) s))"
  by (auto simp: deliver_recover_def errs_Panic_eq errs_Assert_eq errs_okD(5))

lemma deliver_last_safe: "errs_ok E \<Longrightarrow> safe (Some (deliver_last E k r pp s))"
  by (cases r) (simp_all add: deliver_last_def deliver_recover_safe)

lemma deliver_safe:
  assumes errs: "errs_ok E" and S: "shape w0 s" and V: "live s"
  shows "safe (deliver_step E B A L wr i s)"
proof -
  note Sd = shapeD [OF S] and Vd = liveD [OF V]
  show ?thesis
  proof (cases "ay_deliverer s")
    case (TGet k)
    with getReader_returns(1) [OF Sd(4), of k i] Vd(4) show ?thesis
      by (auto simp: deliver_step_def Let_def iterReaderIdx_def)
  next
    case (TGetP k)
    with getReader_returns(2) [OF Sd(4), of i k] show ?thesis by (auto simp: deliver_step_def Let_def)
  next
    case (TRest b k x y)
    then have "(k - 1, b) \<in> active_set (ay_out s)" using Sd(8) by (simp add: delivers_def)
    from restore_data [OF Sd(4) this, of B] obtain z sg pp where "restore B (Some b) (ay_out s) = Ret (z, sg, pp)" by metis
    with TRest show ?thesis by (simp add: deliver_step_def Let_def deliver_recover_safe [OF errs])
  next
    case (TLast k)
    with getReader_returns(1) [OF Sd(4), of "-1" i] deliver_last_safe [OF errs] show ?thesis by (auto simp: deliver_step_def Let_def)
  next
    case (TLastP k)
    with getReader_returns(2) [OF Sd(4), of i "-1"] deliver_last_safe [OF errs] show ?thesis by (auto simp: deliver_step_def Let_def)
  qed (simp_all add: deliver_step_def Let_def split: prod.split)
qed

lemma monitor_safe:
  assumes "workers_ok (ay_work s)" and "\<And>c. CapWork c \<in> set (ay_monitor s) \<Longrightarrow> 0 \<le> c"
  shows "safe (monitor_step B s)"
proof (cases "ay_monitor s")
  case (Cons c cs)
  show ?thesis
  proof (cases c)
    case (CapWork n)
    with worker_setCapacity_ok [OF assms(1), of n] assms(2) [of n] Cons show ?thesis by (auto simp: monitor_step_def Let_def)
  next
    case TermWork
    with worker_terminate_ok [OF assms(1)] Cons show ?thesis by (auto simp: monitor_step_def Let_def)
  qed (simp_all add: monitor_step_def Let_def Cons)
qed (simp add: monitor_step_def)

section \<open>After the last block\<close>

text \<open>The pools are closed and no input is left; workers only end, and the monitors wind up.\<close>

definition calm :: "('z, 'x, 'p, 'w) asys \<Rightarrow> bool" where
  "calm s \<longleftrightarrow> pool_ok (ay_in s) \<and> pool_ok (ay_out s) \<and> pp_closed (ay_in s) \<and> ready_set (ay_in s) = {} \<and>
     (\<forall>k \<in> set (ay_workers s). kidle k) \<and> workers_ok (ay_work s) \<and> (\<forall>c. CapWork c \<in> set (ay_monitor s) \<longrightarrow> 0 \<le> c)"

definition calm_parts :: "('z, 'x, 'p, 'w) asys \<Rightarrow>
    ('p, sizeStats) pipePool \<times> ('p, sizeStats) pipePool \<times> workerPool \<times> ('z, 'p) worker list \<times> chore list" where
  "calm_parts s = (ay_in s, ay_out s, ay_work s, ay_workers s, ay_monitor s)"

lemma calm_same: "calm_parts s' = calm_parts s \<Longrightarrow> calm s' = calm s"
  by (simp add: calm_def calm_parts_def)

lemma calm_worker:
  assumes c: "calm s" and t: "t < length (ay_workers s)"
  shows "safe (worker_step E B A L i t s)" "worker_step E B A L i t s = Some (Ret s') \<Longrightarrow> calm s'"
proof -
  have C: "pool_ok (ay_in s)" "pp_closed (ay_in s)" "ready_set (ay_in s) = {}" using c by (simp_all add: calm_def)
  have k: "kidle (ay_workers s ! t)" using c t by (simp add: calm_def)
  have got: "calm (worker_got t r pp s)" if g: "getReader i (-1) (ay_in s) = Ret (r, sg, pp) \<or> getReader_wake i (-1) (ay_in s) = Ret (r, sg, pp)" for r sg pp
  proof -
    have "r \<noteq> Done (Some a) \<and> pool_same (ay_in s) pp" for a by (cases rule: getReader_run [OF C(1) g]) (use C(3) in auto)
    then show ?thesis
      using c t by (auto simp: calm_def worker_got_def set_worker_def pool_same_def pool_like_def dest!: set_update_subset_insert [THEN subsetD]
          split: attempt.splits option.splits)
  qed
  obtain r sg pp where r: "getReader i (-1) (ay_in s) = Ret (r, sg, pp)" using getReader_returns(1) [OF C(1), of "-1" i] by auto
  obtain r' sg' pp' where r': "getReader_wake i (-1) (ay_in s) = Ret (r', sg', pp')" using getReader_returns(2) [OF C(1), of i "-1"] by auto
  show "safe (worker_step E B A L i t s)" using k r r' by (cases "ay_workers s ! t") (auto simp: worker_step_def Let_def iterReader_def)
  show "calm s'" if run: "worker_step E B A L i t s = Some (Ret s')"
  proof (cases "ay_workers s ! t")
    case KGet
    with run r have "s' = worker_got t r pp s" by (cases r) (auto simp: worker_step_def Let_def iterReader_def)
    with got r show ?thesis by blast
  next
    case KGetP
    with run r' have "s' = worker_got t r' pp' s" by (auto simp: worker_step_def Let_def)
    with got r' show ?thesis by blast
  qed (use run k in \<open>simp_all add: worker_step_def Let_def\<close>)
qed

lemma calm_monitor:
  assumes c: "calm s" and run: "monitor_step B s = Some (Ret s')"
  shows "calm s'"
proof (cases "ay_monitor s")
  case (Cons x cs)
  have C: "workers_ok (ay_work s)" "CapWork n \<in> set (ay_monitor s) \<Longrightarrow> 0 \<le> n" for n using c by (simp_all add: calm_def)
  show ?thesis
  proof (cases x)
    case (CapWork n)
    with run Cons obtain wp where wp: "worker_setCapacity n (ay_work s) = Ret wp" "s' = s\<lparr>ay_monitor := cs, ay_work := wp,
        ay_workers := ay_workers s @ replicate (wk_spawned wp - wk_spawned (ay_work s)) KGet\<rparr>"
      by (auto simp: monitor_step_def Let_def gobind_eq_Ret)
    moreover have "workers_ok wp" using worker_setCapacity_ok [OF C(1), of n] wp(1) C(2) [of n] Cons CapWork by auto
    ultimately show ?thesis using c Cons by (auto simp: calm_def)
  next
    case TermWork
    with run Cons obtain wp where wp: "worker_terminate (ay_work s) = Ret wp" "s' = s\<lparr>ay_monitor := cs, ay_work := wp\<rparr>"
      by (auto simp: monitor_step_def Let_def gobind_eq_Ret)
    moreover have "workers_ok wp" using worker_terminate_ok [OF C(1)] wp(1) by auto
    ultimately show ?thesis using c Cons by (auto simp: calm_def)
  next
    case TermOut
    with run Cons c terminate_keeps(1) [of "ay_out s" B] show ?thesis by (auto simp: monitor_step_def Let_def calm_def)
  next
    case TermIn
    have "pp_closed (snd (pool_terminate B (ay_in s)))" "ready_set (snd (pool_terminate B (ay_in s))) = {}" by (simp_all add: pool_terminate_def Let_def)
    with TermIn run Cons c terminate_keeps(1) [of "ay_in s" B] show ?thesis by (auto simp: monitor_step_def Let_def calm_def)
  next
    case AwaitDone
    with run Cons c show ?thesis by (auto simp: monitor_step_def Let_def calm_def split: if_splits)
  qed (use run Cons c in \<open>auto simp: monitor_step_def Let_def calm_def setCapacity_def pool_ok_frame\<close>)
qed (use run in \<open>simp add: monitor_step_def\<close>)

lemma calm_ended: "calm s \<Longrightarrow> ended_step s = Some (Ret s') \<Longrightarrow> calm s'"
  by (auto simp: ended_step_def pool_close_def calm_def pool_ok_frame split: if_splits)

lemma calm_deliver:
  assumes "calm s" and "deliver_step E B A L wr i s = Some (Ret s')" and "ay_deliverer s \<in> {TSend None, TClose, TTerm, TEnd}"
  shows "calm s'"
proof -
  have "calm_parts s' = calm_parts s" using assms(2,3) by (auto simp: deliver_step_def calm_parts_def split: if_splits)
  then show ?thesis using calm_same assms(1) by metis
qed

lemma calm_client:
  assumes "calm s" and "client_step E B L wr i s = Some (Ret s')" and "ay_client s = CClose \<or> ay_client s = CIdle"
  shows "calm s'" "ay_deliverer s' = ay_deliverer s"
proof -
  have c: "ay_client s = CClose" using assms(2,3) by (auto simp: client_step_def Let_def)
  let ?f = "\<lambda>s. (calm_parts s, ay_deliverer s)"
  have "akeeps ?f (checkErr E)"
  proof -
    have "akeeps ?f (\<lambda>s. case recv_err s of None \<Rightarrow> None | Some (err, s) \<Rightarrow> aPanic E err (s\<lparr>ay_lastErr := err\<rparr>))"
      by (auto simp: akeeps_def recv_err_def aPanic_def alift_def calm_parts_def split: list.splits if_splits)
    then show ?thesis unfolding checkErr_def by (intro akeeps_intros) simp_all
  qed
  then have "akeeps ?f (close_rest E B L wr)"
    unfolding close_rest_def by (intro akeeps_arecover akeeps_intros) (simp_all add: calm_parts_def)
  moreover obtain r s1 where m: "close_rest E B L wr s = Some (r, s1)"
    using assms(2) c by (cases "close_rest E B L wr s") (auto simp: client_step_def Let_def)
  ultimately have "?f s1 = ?f s" by (rule akeepsD)
  moreover have "?f s' = ?f s1" using assms(2) c m by (auto simp: client_step_def Let_def gobind_eq_Ret calm_parts_def)
  ultimately have "calm_parts s' = calm_parts s" "ay_deliverer s' = ay_deliverer s" by simp_all
  then show "calm s'" "ay_deliverer s' = ay_deliverer s" using calm_same assms(1) by metis+
qed

lemma calm_calls:
  assumes "calm s" and "w_closed (ay_w s)"
  shows "calm (call_Write data s)" "calm (call_Close B s)"
proof -
  have "calm_parts (call_Write data s) = calm_parts s" using assms(2) by (simp add: call_Write_def client_return_def calm_parts_def)
  then show "calm (call_Write data s)" using calm_same assms(1) by metis
  show "calm (call_Close B s)" using assms by (simp add: call_Close_def)
qed

lemma shape_chores:
  assumes "shape w0 s"
  shows "workers_ok (ay_work s)" "CapWork c \<in> set (ay_monitor s) \<Longrightarrow> 0 \<le> c"
proof -
  from shapeD(10) [OF assms] obtain caps where caps: "ay_monitor s = caps @ [AwaitDone, TermWork, TermOut, TermIn]"
    "sorted (int (length (ay_workers s)) # cap_chores caps)" "workers_ok (ay_work s)" by (auto simp: monitors_def)
  show "workers_ok (ay_work s)" by (rule caps(3))
  have "CapWork c \<in> set cs \<Longrightarrow> c \<in> set (cap_chores cs)" for cs by (induction cs rule: cap_chores.induct) auto
  then show "0 \<le> c" if "CapWork c \<in> set (ay_monitor s)" using that caps(1,2) by fastforce
qed

text \<open>The final check leads there.\<close>

lemma calm_reached:
  assumes errs: "errs_ok E" and S: "shape w0 s" and run: "deliver_step E B A L wr i s = Some (Ret s')"
    and d': "ay_deliverer s' \<in> {TSend None, TClose, TTerm, TEnd}"
  shows "calm s'"
proof -
  note Sd = shapeD [OF S]
  have healthy: "healthy (ay_deliverer s)" using Sd(8) by (simp add: delivers_def)
  have last: "calm s'" if g: "getReader i (-1) (ay_out s) = Ret (r, sg, pp) \<or> getReader_wake i (-1) (ay_out s) = Ret (r, sg, pp)"
    and l: "deliver_last E k r pp s = Ret s'" and d: "dlast (ay_deliverer s)" for k r sg pp
  proof -
    have "pp_closed (ay_out s)" using Sd(8) d by (simp add: delivers_def)
    then have cl: "pp_closed (ay_in s)" "ready_set (ay_in s) = {}" "\<forall>t < length (ay_workers s). kidle (ay_workers s ! t)"
      using Sd(9) unfolding closing_def by blast+
    have pp: "pool_ok pp" by (cases rule: getReader_run [OF Sd(4) g]) (use Sd(4) in \<open>simp_all add: pool_same_def pool_like_def\<close>)
    note ch = shape_chores [OF S]
    have "\<forall>k \<in> set (ay_workers s). kidle k" using cl(3) by (auto simp: in_set_conv_nth)
    moreover have "ay_in s' = ay_in s \<and> ay_out s' = pp \<and> ay_work s' = ay_work s \<and> ay_workers s' = ay_workers s \<and> ay_monitor s' = ay_monitor s"
      using l by (cases r) (auto simp: deliver_last_def deliver_recover_def split: go.splits sum.splits)
    ultimately show ?thesis using Sd(3) cl(1,2) pp ch by (simp add: calm_def)
  qed
  have got: "ay_deliverer (deliver_got k r pp s) \<notin> {TSend None, TClose, TTerm, TEnd}" for k r pp
    by (auto simp: deliver_got_def split: attempt.splits option.splits)
  show ?thesis
  proof (cases "ay_deliverer s")
    case (TGet k)
    with run obtain r pp where "s' = deliver_got k r pp s" by (auto simp: deliver_step_def Let_def gobind_eq_Ret)
    with d' got [of k r pp] show ?thesis by simp
  next
    case (TGetP k)
    with run obtain r pp where "s' = deliver_got k r pp s" by (auto simp: deliver_step_def Let_def gobind_eq_Ret)
    with d' got [of k r pp] show ?thesis by simp
  next
    case (TOut b k)
    with run d' show ?thesis by (auto simp: deliver_step_def Let_def split: if_splits prod.splits)
  next
    case (TIdx b k x)
    with run d' show ?thesis by (auto simp: deliver_step_def Let_def split: option.splits if_splits prod.splits)
  next
    case (TRest b k x y)
    with healthy run d' show ?thesis
      by (auto simp: deliver_step_def Let_def gobind_eq_Ret deliver_recover_def errs_Panic_eq [OF errs] errs_okD [OF errs])
  next
    case (TLast k)
    with run obtain r sg pp where "getReader i (-1) (ay_out s) = Ret (r, sg, pp)" "deliver_last E k r pp s = Ret s'"
      by (auto simp: deliver_step_def Let_def gobind_eq_Ret)
    with last [of r sg pp k] TLast show ?thesis by simp
  next
    case (TLastP k)
    with run obtain r sg pp where "getReader_wake i (-1) (ay_out s) = Ret (r, sg, pp)" "deliver_last E k r pp s = Ret s'"
      by (auto simp: deliver_step_def Let_def gobind_eq_Ret)
    with last [of r sg pp k] TLastP show ?thesis by simp
  qed (use healthy in simp_all)
qed

section \<open>Every step\<close>

text \<open>Together with \<open>async_inv\<close>: the writer is live until the last block is delivered, and calm then.\<close>

definition lively :: "('z, 'x, 'p, 'w) asys \<Rightarrow> bool" where
  "lively s \<longleftrightarrow> (if healthy (ay_deliverer s) then live s else calm s)"

lemma sound_healthy: "sound E L lin er got n w0 s \<Longrightarrow> healthy (ay_deliverer s)"
  by (simp add: sound_def shape_def delivers_def)

lemma async_inv_cases:
  assumes "async_inv E L wr lin er got n w0 s" and "\<not> lib_fail L" and "\<not> sink_fail wr"
  obtains (sound) cs where "healthy (ay_deliverer s)" "shape w0 s" "content E L lin got n w0 cs s" "sound E L lin er got n w0 s"
  | (finished) "\<not> healthy (ay_deliverer s)" "ay_deliverer s \<in> {TSend None, TClose, TTerm, TEnd}" "finished E L got n w0 s" "w_closed (ay_w s)" "ay_client s = CClose"
  | (over) "\<not> healthy (ay_deliverer s)" "ay_deliverer s \<in> {TSend None, TClose, TTerm, TEnd}" "w_closed (ay_w s)" "ay_client s = CIdle" "ay_result s = Some None"
proof -
  from assms consider "sound E L lin er got n w0 s" | "finished E L got n w0 s" | "over E L got n w0 (lib_fail L \<or> sink_fail wr) s"
    by (auto simp: async_inv_def broken_def)
  then show thesis
  proof cases
    case 1
    then show ?thesis using sound sound_healthy [OF 1] assms(2) by (auto simp: sound_def)
  next
    case 2
    then show ?thesis by (intro finished) (auto simp: finished_def)
  next
    case 3
    then show ?thesis using assms(2,3) by (intro over) (auto simp: over_def)
  qed
qed

lemma client_deliverer:
  assumes S: "shape w0 s" and errs: "errs_ok E" and run: "client_step E B L wr i s = Some (Ret s')"
  shows "ay_deliverer s' = ay_deliverer s"
proof -
  note wait = checkErr_waits [OF shapeD(1) [OF S] errs]
  show ?thesis
  proof (cases "ay_client s")
    case CIdle
    with run show ?thesis by (simp add: client_step_def Let_def)
  next
    case (CFail data cnt)
    with run wait show ?thesis by (simp add: client_step_def Let_def arecover_def abind_def)
  next
    case CClose
    with run wait show ?thesis by (simp add: client_step_def Let_def close_rest_def arecover_def adefer_def abind_def)
  qed (use client_report(2) [OF run] in auto)
qed

lemma lively_step:
  assumes env: "async_env E B A L lin er pr pf w0 n" and I: "async_inv E L wr lin er got n w0 s" "async_inv E L wr lin er got n w0 s'"
    and ok: "\<not> lib_fail L" "\<not> sink_fail wr" and V: "lively s" and step: "async_step E B A L wr s s'"
  shows "lively s'"
proof -
  note e = async_envD [OF env]
  have same: "ay_deliverer s' = ay_deliverer s" if "outer s' = outer s" using that by (simp add: outer_def)
  have calls: "ay_deliverer (call_Write data s) = ay_deliverer s" "ay_deliverer (call_Close B s) = ay_deliverer s" for data
    by (simp_all add: call_Write_def call_Close_def client_return_def Let_def split: option.split)
  have rest: "lively s'" if h: "\<not> healthy (ay_deliverer s)" and d: "ay_deliverer s \<in> {TSend None, TClose, TTerm, TEnd}"
    and cl: "w_closed (ay_w s)" "ay_client s = CClose \<or> ay_client s = CIdle"
  proof -
    have calm: "calm s" using V h by (simp add: lively_def)
    have keep: "lively s'" if "calm s'" "ay_deliverer s' = ay_deliverer s" using that h by (simp add: lively_def)
    from step show ?thesis
    proof cases
      case (client i)
      from calm_client [OF calm client cl(2)] keep show ?thesis by blast
    next
      case (worker t i)
      from calm_worker(2) [OF calm worker] same [OF worker_outer [OF worker(2)]] keep show ?thesis by blast
    next
      case (deliver i)
      have "ay_deliverer s' \<in> {TSend None, TClose, TTerm, TEnd}" using ending_deliver(6) [OF deliver d] .
      then show ?thesis using calm_deliver [OF calm deliver d] by (auto simp: lively_def)
    next
      case monitor
      from calm_monitor [OF calm this] same [OF monitor_outer [OF this]] keep show ?thesis by blast
    next
      case ended
      from calm_ended [OF calm this] same [OF ended_outer [OF this]] keep show ?thesis by blast
    next
      case (call_write data)
      with calm_calls(1) [OF calm cl(1)] calls(1) keep show ?thesis by blast
    next
      case call_close
      with calm_calls(2) [OF calm cl(1)] calls(2) keep show ?thesis by blast
    qed
  qed
  from I(1) ok show ?thesis
  proof (cases rule: async_inv_cases)
    case (sound cs)
    then have live: "live s" using V by (simp add: lively_def)
    from step show ?thesis
    proof cases
      case (client i)
      have "0 \<le> w_chunkSize w0" using async_sized [OF env] by (simp add: sized_def)
      from live_client [OF sound(2) live e(7,2) this client] client_deliverer [OF sound(2) e(7) client] sound(1)
      show ?thesis by (simp add: lively_def)
    next
      case (worker t i)
      from live_worker [OF sound(2) live e(2) async_sized [OF env] worker] same [OF worker_outer [OF worker(2)]] sound(1)
      show ?thesis by (simp add: lively_def)
    next
      case (deliver i)
      show ?thesis
      proof (cases "healthy (ay_deliverer s')")
        case True
        with live_deliver [OF sound(2) live deliver] show ?thesis by (simp add: lively_def)
      next
        case False
        from I(2) ok have "ay_deliverer s' \<in> {TSend None, TClose, TTerm, TEnd}" by (cases rule: async_inv_cases) (use False in auto)
        from calm_reached [OF e(7) sound(2) deliver this] False show ?thesis by (simp add: lively_def)
      qed
    next
      case monitor
      from live_monitor [OF sound(2) live this] same [OF monitor_outer [OF this]] sound(1) show ?thesis by (simp add: lively_def)
    next
      case ended
      from live_ended [OF live this] same [OF ended_outer [OF this]] sound(1) show ?thesis by (simp add: lively_def)
    next
      case (call_write data)
      with live_calls(1) [OF live] calls(1) sound(1) show ?thesis by (simp add: lively_def)
    next
      case call_close
      with live_calls(2) [OF live] calls(2) sound(1) show ?thesis by (simp add: lively_def)
    qed
  next
    case finished
    with rest show ?thesis by simp
  next
    case over
    with rest show ?thesis by simp
  qed
qed

lemma lively_reachable:
  assumes "encoder_env E B L lin pr pf" and "pipe_queue B good view" and "pipe_ring B good view" and "pipe_new_laws B"
    and "pipe_async A lin er" and "lzma_size_laws L" and "writes_to (Some wr) got" and "foreign_errors wr"
    and "0 \<le> k" and "workers \<noteq> WorkersSync" and "1 \<le> cpus"
    and "NewWriterCustom E B L wr level check k workers s0 = Some (Ret (Some w0, None), s1)"
    and "run_fits L w0 (nat (clamp_chunk k))" and ok: "\<not> lib_fail L" "\<not> sink_fail wr"
    and "(async_step E B A L wr)\<^sup>*\<^sup>* (async_start cpus w0) s"
  shows "lively s"
  using assms(16)
proof (induction rule: rtranclp_induct)
  case base
  note new = NewWriterCustom_async [OF encoder_envD(1) [OF assms(1)] assms(7,9,10,12)]
  from live_start [OF assms(11) new(9) assms(10) new(6,7)] show ?case by (simp add: lively_def async_start_def)
next
  case (step s s')
  note inv = async_reachable [OF assms(1-13)]
  show ?case using lively_step [OF inv(2) inv(1) inv(1) ok step(3,2)] step(1,2) by (meson rtranclp.rtrancl_into_rtrancl)
qed

section \<open>No panic\<close>

lemma finished_client_safe:
  assumes errs: "errs_ok E" and q: "pipe_queue B good view" "pipe_ring B good view" "pipe_new_laws B" and laws: "lzma_code_laws L"
    and prog: "coder_progress L FINISH True False pf" and wr: "writes_to (Some wr) got" "foreign_errors wr"
    and f: "finished E L got n w0 s"
  shows "safe (client_step E B L wr i s)"
proof -
  from f have F: "ay_client s = CClose" "ay_lastErr s = None" "set (ay_errBuf s) \<subseteq> {None}" by (simp_all add: finished_def)
  show ?thesis
  proof (cases "recv_err s")
    case None
    with F errs show ?thesis by (simp add: client_step_def Let_def close_rest_def arecover_def adefer_def abind_def checkErr_def)
  next
    case (Some x)
    then have "recv_err s = Some (None, s\<lparr>ay_errBuf := tl (ay_errBuf s)\<rparr>)"
      using F(3) by (cases "ay_errBuf s") (auto simp: recv_err_def split: if_splits)
    then obtain es where es: "recv_err s = Some (None, s\<lparr>ay_errBuf := es\<rparr>)" by blast
    then have chk: "checkErr E s = Some (Ret (), s\<lparr>ay_errBuf := es, ay_lastErr := None\<rparr>)" using F(2) errs by (simp add: checkErr_def)
    from Close_tail_spec [OF errs q laws prog wr, of "ay_w s"] show ?thesis
      by (cases rule: outcome_cases)
        (use F(1) chk errs in \<open>simp_all add: client_step_def Let_def close_rest_def arecover_def adefer_def abind_def azoom_def errs_okD(5) [OF errs]\<close>)
  qed
qed

lemma calm_safe:
  assumes calm: "calm s" and d: "ay_deliverer s \<in> {TSend None, TClose, TTerm, TEnd}"
  shows "safe (deliver_step E B A L wr i s)" "safe (monitor_step B s)" "t < length (ay_workers s) \<Longrightarrow> safe (worker_step E B A L i t s)"
proof -
  show "safe (deliver_step E B A L wr i s)" using d by (auto simp: deliver_step_def)
  show "safe (monitor_step B s)" by (rule monitor_safe) (use calm in \<open>simp_all add: calm_def\<close>)
  show "t < length (ay_workers s) \<Longrightarrow> safe (worker_step E B A L i t s)" by (rule calm_worker(1) [OF calm])
qed

definition async_panics ::
  "errs \<Rightarrow> 'p bufpipe \<Rightarrow> ('p, 'w) asyncpipe \<Rightarrow> ('z, 'x) liblzma \<Rightarrow> 'w io_write \<Rightarrow> ('z, 'x, 'p, 'w) asys \<Rightarrow> bool" where
  "async_panics E B A L wr s \<longleftrightarrow>
     (\<exists>i p. client_step E B L wr i s = Some (Pan p) \<or> deliver_step E B A L wr i s = Some (Pan p) \<or>
        monitor_step B s = Some (Pan p) \<or>
        (\<exists>t < length (ay_workers s). worker_step E B A L i t s = Some (Pan p)))"



end
