(* ===== verification/Spec2Isabelle.thy ===== *)
theory Spec2Isabelle
  imports Xz_Literal Xz_Pool_Sys Xz_Workers Xz_Index Lzma_RW Xz_Writer_Props Xz_Reader_Props Xz_Seek Xz_Cmd Xz_Async_Safe
begin

text \<open>
  A model of goxz, a Go package that reads and writes LZMA and XZ files through liblzma, and the
  theorems that make it correct.

  \<^bold>\<open>The program.\<close> \<open>lib\<close> wraps liblzma: errors, checks, filters, stream flags, blocks, indexes, and
  \<open>Stream\<close>, which pumps bytes from a reader through a coder into a writer (\<open>Process\<close>) or from pipe to
  pipe (\<open>ProcessPipe\<close>). \<open>lzma\<close> has a reader and a writer for the old format on top of one \<open>Stream\<close>. \<open>xz\<close>
  has a writer that cuts its data into chunks and encodes each as a block (synchronously, or by
  worker routines that exchange pipes through two pools), a reader, a seekable reader, the decoding
  of a file's indexes, and literal blocks for incompressible chunks. \<open>cmd/xzpipe\<close> compresses or
  decompresses a pipe.

  \<^bold>\<open>Theories.\<close> Each theory models one part, in the order of the source; definitions keep the names of
  the source (a method is prefixed by its type where names clash).
  \<^item> \<open>Go_Prelude\<close>: fixed-width integers, list lemmas, the contract \<open>closable\<close> of objects with \<open>Close\<close>.
  \<^item> \<open>Lib_Error\<close>, \<open>Lib_Types\<close>, \<open>Lib_Index\<close>: \<open>lib/error.go\<close>, \<open>const.go\<close>, \<open>check.go\<close>, \<open>lzma.go\<close>, \<open>filter.go\<close>,
    \<open>flags.go\<close>, \<open>block.go\<close>, \<open>index.go\<close>. C structures are records; liblzma itself is not in the repository
    and is the record \<open>liblzma\<close> of its functions, an argument of what uses it.
  \<^item> \<open>Golib\<close>, \<open>Bufpipe\<close>, \<open>Bufpipe_Mono\<close>, \<open>Ioutil\<close>: the third-party packages \<open>errs\<close>, \<open>bufpipe\<close> and \<open>ioutil\<close>, not
    in the repository either: records of functions, with what the code relies on as predicates
    (\<open>errs_ok\<close>, \<open>pipe_queue\<close>, \<open>pipe_ring\<close>, \<open>pipe_mono\<close>, \<open>pipe_async\<close>, \<open>ioutil_ok\<close>), and executable instances on which the
    theorems are applied.
  \<^item> \<open>Go_Act\<close>: computations that return, panic or do not return, with the state they leave; \<open>defer\<close>
    and \<open>errs.Recover\<close>.
  \<^item> \<open>Lib_Stream\<close>, \<open>Lib_Stream_Props\<close>: \<open>lib/base.go\<close>, \<open>lib/container.go\<close>.
  \<^item> \<open>Lzma_RW\<close>: \<open>lzma/reader.go\<close>, \<open>lzma/writer.go\<close>, \<open>lzma/const.go\<close>. \<open>Lzma_Instance\<close>, \<open>Go_Sha256\<close>: an executable
    liblzma that stores instead of compressing, and the hash of Go's library, for literal blocks.
  \<^item> \<open>Xz_Const\<close>, \<open>Xz_Literal\<close>: \<open>xz/const.go\<close>, \<open>xz/literal.go\<close>. \<open>Xz_Index\<close>: \<open>xz/index.go\<close>.
  \<^item> \<open>Xz_Pool\<close>, \<open>Xz_Pool_Sys\<close>, \<open>Xz_Workers\<close>: \<open>xz/pool.go\<close>, the pool of pipes with its condition variables
    and the system of routines that share a pool, and the pool of workers.
  \<^item> \<open>Xz_Writer\<close>, \<open>Xz_Writer_Props\<close>: \<open>xz/writer.go\<close>, the constructors, the synchronous mode and the block encoder.
  \<^item> \<open>Xz_Async\<close>: the parallel mode of \<open>xz/writer.go\<close>. The state \<open>asys\<close> has the writer, both pools, the
    channels and the position of every routine: the caller (\<open>client_step\<close>, \<open>call_Write\<close>, \<open>call_Close\<close>,
    \<open>checkErr\<close>), \<open>worker\<close> (\<open>worker_step\<close>), \<open>writer\<close> (\<open>deliver_step\<close>), \<open>monitor\<close> (\<open>monitor_step\<close>) and the monitor
    of the worker pool (\<open>ended_step\<close>); \<open>async_step\<close> lets any of them go on.
  \<^item> \<open>Xz_Pool_Data\<close>: what the operations of a pool do to its pipes. \<open>Xz_Async_Inv\<close>, \<open>Xz_Async_Data\<close>: the
    invariant, which routine holds which pipe and what the pipes hold; \<open>Xz_Async_Work\<close>, \<open>Xz_Async_Code\<close>,
    \<open>Xz_Async_Steps\<close> (workers and monitors), \<open>Xz_Async_Deliver\<close>, \<open>Xz_Async_Client\<close>: that the steps keep it;
    \<open>Xz_Async_Props\<close>, \<open>Xz_Async_Run\<close>: what follows, and a run of a whole writer. \<open>Xz_Async_Errors\<close>: where its
    errors come from. \<open>Xz_Async_Live\<close>, \<open>Xz_Async_Safe\<close>: counts of pipes and workers, and that no routine panics.
  \<^item> \<open>Xz_Reader\<close>, \<open>Xz_Reader_Steps\<close>, \<open>Xz_Reader_Props\<close>: \<open>xz/reader.go\<close>. \<open>Xz_Seek\<close>: \<open>xz/seek_reader.go\<close>.
  \<^item> \<open>Xz_Cmd\<close>: \<open>cmd/xzpipe.go\<close>.

  \<^bold>\<open>Conventions.\<close> Bytes are \<open>8 word\<close>; sizes that the source keeps as \<open>int64\<close> are integers wrapped by
  \<open>wrap64\<close> where they can overflow. A panic is a value (\<open>Pan\<close>), a loop that may not end is a partial
  function with \<open>None\<close> for a call that does not return; theorems that a call returns say so. What
  can run out is stated: the coder makes progress (\<open>coder_progress\<close>), a reader returns an error with
  an empty read (\<open>reader_live\<close>). No fuel is used.

  \<^bold>\<open>What is shown.\<close> \<open>Process\<close> and \<open>ProcessPipe\<close> conserve bytes and return. The synchronous writer emits
  header, one block per chunk, index and footer, however the data is cut into writes; the parallel
  writer, once \<open>Close\<close> has returned nil, has written the same, in every interleaving of its routines; its errors
  have a cause, and its routines do not panic unless liblzma or the underlying writer fails; the
  synchronous reader follows the grammar of XZ streams (\<open>read_move\<close>), returns from every call and
  loses no bytes; both LZMA objects hand on exactly what the coder takes and produces. Literal
  blocks have the size that is computed for them, without overflow, and decode to their input. The
  pool of pipes loses no pipe and no wake-up, and does not panic in any reachable state. Indexes
  are freed once. Objects that were closed refuse every call (the interpretations of \<open>closable\<close>).
  Where the code does not do what it means to, a theorem states what it does.

  \<^bold>\<open>Not modelled.\<close> The streamed mode inside the workers, as the constructor refuses that mode; the
  routines of the asynchronous reader, which the source does not start; finalizers; the memory model
  of Go (a step of a routine, one operation on a pool, a pipe or a channel, is atomic);
  \<open>lib/util.go\<close>, which converts slices to C pointers; the command line of \<open>xzpipe\<close>, parsed by the
  standard library.
\<close>

end
